(* ===== verification/Sin_Prelude.thy ===== *)
theory Sin_Prelude
  imports Main "HOL-Library.Word" "HOL-Library.Monad_Syntax"
begin

text \<open>
  Shared ground of the libsinet development: the machine types of the C sources, the error
  codes the library reports, and the generic facts about options, lists and words the
  component theories use.

  Conventions used by every theory.
  \<^item> A C pointer is an \<open>addr option\<close>; \<open>NULL\<close> is \<open>None\<close>.
  \<^item> A function that may commit a memory error (dereference \<open>NULL\<close> or a freed object, read
    or write outside a buffer, free twice) returns an \<open>option\<close>: \<open>None\<close> is the memory error.
    A theorem that the result is \<open>Some\<close> is a proof that no such error happens, and, for
    a loop defined with \<open>partial_function\<close>, that the loop ends.
  \<^item> The \<open>int *e\<close> parameter of the C functions, which the caller may leave \<open>NULL\<close>, is an
    \<open>errno option\<close>: \<open>None\<close> for \<open>NULL\<close>, otherwise the current content of the cell.
\<close>

unbundle bit_operations_syntax

named_theorems sin_simps \<open>definitions of the small accessors, unfolded together\<close>
named_theorems frame_simps \<open>what an operation leaves alone\<close>

type_synonym u8 = "8 word"
type_synonym u16 = "16 word"
type_synonym u32 = "32 word"
type_synonym u64 = "64 word"

type_synonym addr = nat
type_synonym ptr = "addr option"

abbreviation NULL :: ptr where
  "NULL \<equiv> None"

text \<open>The error codes of \<open>errno.h\<close> the library names; any other code comes from a system call.\<close>

datatype errno = ENOMEM | EINVAL | EPROTONOSUPPORT | Errno int

text \<open>The macro \<open>_SET_ERR\<close> of \<open>sin_errno.h\<close>.\<close>

definition SET_ERR :: "errno option \<Rightarrow> errno \<Rightarrow> errno option" where
  "SET_ERR e err = (if e \<noteq> None then Some err else e)"

text \<open>The macro \<open>MIN\<close> (a keyword of HOL) of \<open>sin_math.h\<close>.\<close>

definition SIN_MIN :: "u32 \<Rightarrow> u32 \<Rightarrow> u32" where
  "SIN_MIN x y = (if x > y then y else x)"

lemma SET_ERR_simps [simp]:
  "SET_ERR None err = None"
  "SET_ERR (Some c) err = Some err"
  by (simp_all add: SET_ERR_def)

lemma unat_SIN_MIN: "unat (SIN_MIN x y) = min (unat x) (unat y)"
  by (auto simp: SIN_MIN_def word_less_nat_alt min_def)

subsection \<open>Options\<close>

lemma bind_SomeI: "x = Some a \<Longrightarrow> f a = r \<Longrightarrow> Option.bind x f = r"
  by simp

subsection \<open>Words\<close>

lemma unat_Suc_word: "Suc (unat (x :: u32)) < 2 ^ 32 \<Longrightarrow> unat (x + 1) = Suc (unat x)"
  by (simp add: unat_word_ariths)

lemma unat_plus_word: "unat (x :: u32) + unat y < 2 ^ 32 \<Longrightarrow> unat (x + y) = unat x + unat y"
  by (simp add: unat_word_ariths)

lemma unat_minus_word: "unat (y :: u32) \<le> unat x \<Longrightarrow> unat (x - y) = unat x - unat y"
  by (simp add: unat_sub word_le_nat_alt)

lemma unat_u32_bound: "unat (x :: u32) < 2 ^ 32"
  by transfer (simp add: take_bit_nat_less_exp nat_less_iff take_bit_int_less_exp [of 32, simplified])

lemma sint_nonneg_word:
  assumes "unat (x :: u32) < 2 ^ 31"
  shows "sint x = int (unat x)"
proof -
  have u: "uint x = int (unat x)" by (rule uint_nat)
  from assms have "unat x < 2147483648" by simp
  with u have "- 2147483648 \<le> uint x" "uint x < 2147483648" by linarith+
  then have "signed_take_bit 31 (uint x) = uint x"
    using signed_take_bit_int_eq_self [of 31 "uint x"] by simp
  with u show ?thesis by (simp add: sint_uint)
qed

lemma unat_eq_zero_iff: "unat (x :: u32) = 0 \<longleftrightarrow> x = 0"
  by (simp add: unat_eq_0)

text \<open>The three assignments of a XOR swap leave the two values exchanged.\<close>

lemma xor_swap [simp]:
  fixes a b :: "'a::len word"
  shows "(a XOR b) XOR b = a" and "(a XOR b) XOR a = b"
proof -
  show "(a XOR b) XOR b = a" by (simp add: xor.assoc)
  show "(a XOR b) XOR a = b" by (metis xor.assoc xor.commute xor_self_eq xor.left_neutral)
qed

subsection \<open>Lists\<close>

lemma last_rest: "xs \<noteq> [] \<Longrightarrow> distinct (x # xs) \<Longrightarrow> last xs \<noteq> x"
  using last_in_set by fastforce

end
