(* ===== verification/Sin_Os.thy ===== *)
theory Sin_Os
  imports Sin_Prelude
begin

text \<open>
  The system calls the library makes, as operations on a ledger. The ledger holds the
  resources that are live (heap blocks, mutexes, condition variables, threads, file
  descriptors, mapped memory) and a script: call
  number \<open>n\<close> of those that may fail has the result \<open>os_script s n\<close>, 0 for success. The
  script is arbitrary, so every theorem covers every combination of failures. Releasing
  something that is not live is a memory error.
\<close>

datatype resource = Block addr | Mutex addr | Cond addr | Thread addr | Fd addr | Mapped addr

record os =
  os_fresh :: addr
  os_live :: "resource set"
  os_script :: "nat \<Rightarrow> int"
  os_clock :: nat

definition os_result :: "'a os_scheme \<Rightarrow> int \<times> 'a os_scheme" where
  "os_result s = (os_script s (os_clock s), s\<lparr>os_clock := Suc (os_clock s)\<rparr>)"

text \<open>\<open>malloc\<close>: a block nobody holds, or \<open>NULL\<close>.\<close>

definition malloc :: "'a os_scheme \<Rightarrow> ptr \<times> 'a os_scheme" where
  "malloc s = (let (r, s) = os_result s in
     if r = 0 then (Some (os_fresh s),
       s\<lparr>os_fresh := Suc (os_fresh s), os_live := insert (Block (os_fresh s)) (os_live s)\<rparr>)
     else (NULL, s))"

definition release :: "resource \<Rightarrow> 'a os_scheme \<Rightarrow> 'a os_scheme option" where
  "release r s = (if r \<in> os_live s then Some (s\<lparr>os_live := os_live s - {r}\<rparr>) else None)"

definition free :: "addr \<Rightarrow> 'a os_scheme \<Rightarrow> 'a os_scheme option" where
  "free a = release (Block a)"

text \<open>
  \<open>realloc\<close>: the block may grow in place (result 0), move to a fresh address (result 1),
  or the call fails and the old block stays.
\<close>

definition realloc :: "addr \<Rightarrow> 'a os_scheme \<Rightarrow> (ptr \<times> 'a os_scheme) option" where
  "realloc a s = (if Block a \<in> os_live s then
     (let (r, s) = os_result s in
      if r = 0 then Some (Some a, s)
      else if r = 1 then Some (Some (os_fresh s),
        s\<lparr>os_fresh := Suc (os_fresh s),
          os_live := insert (Block (os_fresh s)) (os_live s - {Block a})\<rparr>)
      else Some (NULL, s))
     else None)"

text \<open>
  \<open>pthread_mutex_init\<close> and \<open>pthread_cond_init\<close> on the object held in block \<open>a\<close>: 0, or the
  error code. The library never initialises the same object twice.
\<close>

definition init_res :: "resource \<Rightarrow> 'a os_scheme \<Rightarrow> int \<times> 'a os_scheme" where
  "init_res x s = (let (r, s) = os_result s in
     if r = 0 then (0, s\<lparr>os_live := insert x (os_live s)\<rparr>) else (r, s))"

definition pthread_mutex_init :: "addr \<Rightarrow> 'a os_scheme \<Rightarrow> int \<times> 'a os_scheme" where
  "pthread_mutex_init a = init_res (Mutex a)"

definition pthread_cond_init :: "addr \<Rightarrow> 'a os_scheme \<Rightarrow> int \<times> 'a os_scheme" where
  "pthread_cond_init a = init_res (Cond a)"

definition pthread_mutex_destroy :: "addr \<Rightarrow> 'a os_scheme \<Rightarrow> 'a os_scheme option" where
  "pthread_mutex_destroy a = release (Mutex a)"

definition pthread_cond_destroy :: "addr \<Rightarrow> 'a os_scheme \<Rightarrow> 'a os_scheme option" where
  "pthread_cond_destroy a = release (Cond a)"

text \<open>
  Threads, file descriptors and mapped memory have numbers of their own, drawn from the
  same supply. A thread is live from \<open>pthread_create\<close> until it is joined; closing a
  descriptor that is not open is an ignored \<open>EBADF\<close>, not a memory error.
\<close>

definition acquire :: "(addr \<Rightarrow> resource) \<Rightarrow> 'a os_scheme \<Rightarrow> int \<times> addr \<times> 'a os_scheme" where
  "acquire k s = (let (r, s) = os_result s in
     if r = 0 then (0, os_fresh s,
       s\<lparr>os_fresh := Suc (os_fresh s), os_live := insert (k (os_fresh s)) (os_live s)\<rparr>)
     else (r, 0, s))"

definition pthread_create :: "'a os_scheme \<Rightarrow> int \<times> addr \<times> 'a os_scheme" where
  "pthread_create = acquire Thread"

definition pthread_join :: "addr \<Rightarrow> 'a os_scheme \<Rightarrow> 'a os_scheme option" where
  "pthread_join tid = release (Thread tid)"

text \<open>\<open>open\<close> and \<open>mmap\<close>: the descriptor or address, or -1, and the value of \<open>errno\<close>.\<close>

definition sys_open :: "'a os_scheme \<Rightarrow> int \<times> int \<times> 'a os_scheme" where
  "sys_open s = (let (r, fd, s) = acquire Fd s in (if r = 0 then int fd else -1, r, s))"

definition sys_mmap :: "'a os_scheme \<Rightarrow> ptr \<times> int \<times> 'a os_scheme" where
  "sys_mmap s = (let (r, a, s) = acquire Mapped s in (if r = 0 then Some a else NULL, r, s))"

definition sys_close :: "int \<Rightarrow> 'a os_scheme \<Rightarrow> 'a os_scheme" where
  "sys_close fd s = (if 0 \<le> fd then s\<lparr>os_live := os_live s - {Fd (nat fd)}\<rparr> else s)"

text \<open>The ledger is sane: whatever is live lies below the next fresh address.\<close>

fun res_addr :: "resource \<Rightarrow> addr" where
  "res_addr (Block a) = a"
| "res_addr (Mutex a) = a"
| "res_addr (Cond a) = a"
| "res_addr (Thread a) = a"
| "res_addr (Fd a) = a"
| "res_addr (Mapped a) = a"

definition os_ok :: "'a os_scheme \<Rightarrow> bool" where
  "os_ok s \<longleftrightarrow> (\<forall>r \<in> os_live s. res_addr r < os_fresh s)"

lemmas os_defs = malloc_def free_def release_def realloc_def init_res_def os_result_def
  pthread_mutex_init_def pthread_cond_init_def pthread_mutex_destroy_def
  pthread_cond_destroy_def acquire_def pthread_create_def pthread_join_def sys_open_def
  sys_mmap_def sys_close_def

lemma os_okD: "os_ok s \<Longrightarrow> r \<in> os_live s \<Longrightarrow> res_addr r < os_fresh s"
  by (simp add: os_ok_def)

lemma fresh_not_live:
  assumes "os_ok s" and "os_fresh s \<le> res_addr r"
  shows "r \<notin> os_live s"
  using os_okD [OF assms(1)] assms(2) by fastforce

lemma release_insert [simp]:
  "r \<in> os_live s \<Longrightarrow> release r s = Some (s\<lparr>os_live := os_live s - {r}\<rparr>)"
  by (simp add: release_def)

end
