(* ===== verification/Sin_Types.thy ===== *)
theory Sin_Types
  imports Sin_Os
begin

text \<open>
  The type tags of \<open>sin_types.h\<close>. Every object of the library starts with a \<open>sin_type\<close>
  word; the objects that can sit on a list (\<open>sin_type_linkable\<close>) also carry the link
  \<open>sin_next\<close>. The tag is a field of each record; the links of all linkable objects
  form one map of the store (theory \<open>Sin_List\<close>).
\<close>

definition SIN_TYPE_SINSTANCE :: u32 where "SIN_TYPE_SINSTANCE = 693750532"
definition SIN_TYPE_SOCKET :: u32 where "SIN_TYPE_SOCKET = 4061681943"
definition SIN_TYPE_ADDR :: u32 where "SIN_TYPE_ADDR = 489855194"
definition SIN_TYPE_QUEUE :: u32 where "SIN_TYPE_QUEUE = 1319882625"
definition SIN_TYPE_EVENT :: u32 where "SIN_TYPE_EVENT = 3336537370"
definition SIN_TYPE_PKT_ZONE :: u32 where "SIN_TYPE_PKT_ZONE = 720778432"
definition SIN_TYPE_PKT :: u32 where "SIN_TYPE_PKT = 639956139"
definition SIN_TYPE_WI_QUEUE :: u32 where "SIN_TYPE_WI_QUEUE = 1938993589"
definition SIN_TYPE_WRK_THREAD :: u32 where "SIN_TYPE_WRK_THREAD = 1612654994"
definition SIN_TYPE_SIGNAL :: u32 where "SIN_TYPE_SIGNAL = 229112560"
definition SIN_TYPE_PKT_SORTER :: u32 where "SIN_TYPE_PKT_SORTER = 1943693179"
definition SIN_TYPE_ITERABLE :: u32 where "SIN_TYPE_ITERABLE = 962174450"

lemmas sin_type_defs = SIN_TYPE_SINSTANCE_def SIN_TYPE_SOCKET_def SIN_TYPE_ADDR_def
  SIN_TYPE_QUEUE_def SIN_TYPE_EVENT_def SIN_TYPE_PKT_ZONE_def SIN_TYPE_PKT_def
  SIN_TYPE_WI_QUEUE_def SIN_TYPE_WRK_THREAD_def SIN_TYPE_SIGNAL_def
  SIN_TYPE_PKT_SORTER_def SIN_TYPE_ITERABLE_def

definition sin_type_tags :: "u32 list" where
  "sin_type_tags = [SIN_TYPE_SINSTANCE, SIN_TYPE_SOCKET, SIN_TYPE_ADDR, SIN_TYPE_QUEUE,
     SIN_TYPE_EVENT, SIN_TYPE_PKT_ZONE, SIN_TYPE_PKT, SIN_TYPE_WI_QUEUE,
     SIN_TYPE_WRK_THREAD, SIN_TYPE_SIGNAL, SIN_TYPE_PKT_SORTER, SIN_TYPE_ITERABLE]"

text \<open>The macro \<open>SIN_TYPE_IS_LINKABLE\<close>.\<close>

definition SIN_TYPE_IS_LINKABLE :: "u32 \<Rightarrow> bool" where
  "SIN_TYPE_IS_LINKABLE t \<longleftrightarrow>
     t = SIN_TYPE_PKT \<or> t = SIN_TYPE_SIGNAL \<or> t = SIN_TYPE_ITERABLE"

lemma sin_type_tags_distinct: "distinct sin_type_tags"
  by (simp add: sin_type_tags_def sin_type_defs)

text \<open>
  No tag is the complement of a tag, and none is zero: \<open>sin_close\<close> complements the tag of
  what it frees, so a type assertion on a closed object fails, and so does one on zeroed
  memory.
\<close>

lemma sin_type_tags_complement: "\<forall>t \<in> set sin_type_tags. NOT t \<notin> set sin_type_tags \<and> t \<noteq> 0"
  by (simp add: sin_type_tags_def sin_type_defs)

end
