(* ===== verification/Sin_List.thy ===== *)
theory Sin_List
  imports Sin_Types
begin

text \<open>
  The intrusive singly linked list of \<open>sin_list.h\<close>. The store holds the \<open>sin_next\<close>
  field of every allocated linkable object (packet, signal); an address outside the domain
  of \<open>links\<close> is not an object, and reading or writing its link is a memory error. The
  header of a list is a record of the C struct's three fields.
\<close>

record lnk = os +
  links :: "addr \<rightharpoonup> ptr"

record sin_list =
  lst_head :: ptr
  lst_tail :: ptr
  lst_len :: u32

text \<open>\<open>p->sin_next\<close> read and written (\<open>SIN_ITER_NEXT\<close>, \<open>SIN_TYPE_LINK\<close>).\<close>

definition SIN_ITER_NEXT :: "addr \<Rightarrow> 'a lnk_scheme \<Rightarrow> ptr option" where
  "SIN_ITER_NEXT p s = links s p"

definition SIN_TYPE_LINK :: "addr \<Rightarrow> ptr \<Rightarrow> 'a lnk_scheme \<Rightarrow> 'a lnk_scheme option" where
  "SIN_TYPE_LINK p n s = (case links s p of None \<Rightarrow> None
     | Some _ \<Rightarrow> Some (s\<lparr>links := (links s)(p \<mapsto> n)\<rparr>))"

definition SIN_LIST_RESET :: sin_list where
  "SIN_LIST_RESET = \<lparr>lst_head = NULL, lst_tail = NULL, lst_len = 0\<rparr>"

definition SIN_LIST_IS_EMPTY :: "sin_list \<Rightarrow> bool" where
  "SIN_LIST_IS_EMPTY l \<longleftrightarrow> lst_len l = 0"

definition sin_list_append ::
  "sin_list \<Rightarrow> addr \<Rightarrow> 'a lnk_scheme \<Rightarrow> (sin_list \<times> 'a lnk_scheme) option" where
  "sin_list_append lst elem s =
     (if lst_head lst = NULL then
        Some (lst\<lparr>lst_head := Some elem, lst_tail := Some elem, lst_len := lst_len lst + 1\<rparr>, s)
      else do {
        t \<leftarrow> lst_tail lst;
        s \<leftarrow> SIN_TYPE_LINK t (Some elem) s;
        Some (lst\<lparr>lst_tail := Some elem, lst_len := lst_len lst + 1\<rparr>, s)
      })"

subsection \<open>Chains of links\<close>

text \<open>
  \<open>chain h p xs q\<close>: following \<open>sin_next\<close> from \<open>p\<close> visits exactly the objects \<open>xs\<close> and
  arrives at \<open>q\<close>.
\<close>

primrec chain :: "(addr \<rightharpoonup> ptr) \<Rightarrow> ptr \<Rightarrow> addr list \<Rightarrow> ptr \<Rightarrow> bool" where
  "chain h p [] q \<longleftrightarrow> p = q"
| "chain h p (x # xs) q \<longleftrightarrow>
     p = Some x \<and> (case h x of None \<Rightarrow> False | Some n \<Rightarrow> chain h n xs q)"

lemma chain_Cons_iff:
  "chain h p (x # xs) q \<longleftrightarrow> p = Some x \<and> (\<exists>n. h x = Some n \<and> chain h n xs q)"
  by (auto split: option.splits)

declare chain.simps(2) [simp del]
declare chain_Cons_iff [simp]

lemma chain_NULL_iff [simp]: "chain h NULL xs NULL \<longleftrightarrow> xs = []"
  by (cases xs) auto

lemma chain_append:
  "chain h p (xs @ ys) q \<longleftrightarrow> (\<exists>m. chain h p xs m \<and> chain h m ys q)"
  by (induction xs arbitrary: p) auto

lemma chain_upd [simp]: "a \<notin> set xs \<Longrightarrow> chain (h(a := v)) p xs q = chain h p xs q"
  by (induction xs arbitrary: p) auto

lemma chain_cong: "(\<And>x. x \<in> set xs \<Longrightarrow> h x = h' x) \<Longrightarrow> chain h p xs q = chain h' p xs q"
  by (induction xs arbitrary: p) auto

lemma chain_dom: "chain h p xs q \<Longrightarrow> x \<in> set xs \<Longrightarrow> \<exists>n. h x = Some n"
  by (induction xs arbitrary: p) auto

lemma chain_unique: "chain h p xs NULL \<Longrightarrow> chain h p ys NULL \<Longrightarrow> xs = ys"
proof (induction xs arbitrary: p ys)
  case Nil
  then show ?case by simp
next
  case (Cons x xs)
  then show ?case by (cases ys) auto
qed

text \<open>A chain that ends in \<open>NULL\<close> visits no object twice: the list is acyclic.\<close>

lemma chain_distinct: "chain h p xs NULL \<Longrightarrow> distinct xs"
proof (induction xs arbitrary: p)
  case Nil
  then show ?case by simp
next
  case (Cons x xs)
  then obtain n where n: "h x = Some n" "chain h n xs NULL" by auto
  have "x \<notin> set xs"
  proof
    assume "x \<in> set xs"
    then obtain us vs where xs: "xs = us @ x # vs" by (auto simp: in_set_conv_decomp)
    with n have "chain h n vs NULL" by (auto simp: chain_append)
    with n(2) have "xs = vs" by (rule chain_unique)
    with xs show False by simp
  qed
  with Cons.IH [OF n(2)] show ?case by simp
qed

lemma chain_last:
  assumes "chain h p xs NULL" and "xs \<noteq> []"
  shows "h (last xs) = Some NULL"
  using assms
proof (induction xs arbitrary: p)
  case Nil
  then show ?case by simp
next
  case (Cons x xs)
  then show ?case by (cases xs) auto
qed

text \<open>Writing the link of the last object appends a chain.\<close>

lemma chain_extend:
  assumes "chain h p xs NULL" and "xs \<noteq> []" and "chain h q ys r" and "last xs \<notin> set ys"
  shows "chain (h(last xs \<mapsto> q)) p (xs @ ys) r"
proof -
  let ?h = "h(last xs \<mapsto> q)"
  obtain us where xs: "xs = us @ [last xs]"
    using assms(2) by (metis append_butlast_last_id)
  from chain_distinct [OF assms(1)] xs have "last xs \<notin> set us"
    by (metis disjoint_insert(1) distinct_append list.simps(15))
  moreover from assms(1) xs have "chain h p us (Some (last xs))"
    by (metis chain_append chain_Cons_iff)
  ultimately have "chain ?h p us (Some (last xs))" by simp
  then have "chain ?h p (us @ [last xs]) q" by (auto simp: chain_append)
  moreover from assms(3,4) have "chain ?h q ys r" by simp
  ultimately show ?thesis using xs by (metis chain_append)
qed

subsection \<open>Well-formed list headers\<close>

text \<open>
  \<open>lst_repr h l xs\<close>: the header \<open>l\<close> represents the sequence \<open>xs\<close>. The tail pointer is the
  last object and the 32-bit counter is the length, so a represented list is shorter
  than \<open>2 ^ 32\<close>.
\<close>

definition tail_of :: "addr list \<Rightarrow> ptr" where
  "tail_of xs = (if xs = [] then NULL else Some (last xs))"

definition lst_repr :: "(addr \<rightharpoonup> ptr) \<Rightarrow> sin_list \<Rightarrow> addr list \<Rightarrow> bool" where
  "lst_repr h l xs \<longleftrightarrow> chain h (lst_head l) xs NULL \<and> lst_tail l = tail_of xs \<and>
     unat (lst_len l) = length xs"

lemma tail_of_simps [simp]:
  "tail_of [] = NULL" "xs \<noteq> [] \<Longrightarrow> tail_of xs = Some (last xs)"
  "tail_of (xs @ [x]) = Some x"
  by (simp_all add: tail_of_def)

lemma tail_of_append: "ys \<noteq> [] \<Longrightarrow> tail_of (xs @ ys) = tail_of ys"
  by (simp add: tail_of_def)

lemma lst_reprD:
  assumes "lst_repr h l xs"
  shows "chain h (lst_head l) xs NULL" "lst_tail l = tail_of xs"
    "unat (lst_len l) = length xs" "distinct xs"
  using assms chain_distinct by (auto simp: lst_repr_def)

lemma lst_repr_reset [simp]: "lst_repr h SIN_LIST_RESET xs \<longleftrightarrow> xs = []"
  by (auto simp: lst_repr_def SIN_LIST_RESET_def)

lemma lst_repr_empty: "lst_repr h l xs \<Longrightarrow> SIN_LIST_IS_EMPTY l \<longleftrightarrow> xs = []"
  by (auto simp: lst_repr_def SIN_LIST_IS_EMPTY_def simp flip: unat_eq_zero_iff)

lemma lst_repr_head_NULL: "lst_repr h l xs \<Longrightarrow> lst_head l = NULL \<longleftrightarrow> xs = []"
  by (cases xs) (auto simp: lst_repr_def)

lemma lst_repr_head: "lst_repr h l (x # xs) \<Longrightarrow> lst_head l = Some x"
  by (simp add: lst_repr_def)

lemma lst_repr_cong:
  "(\<And>x. x \<in> set xs \<Longrightarrow> h x = h' x) \<Longrightarrow> lst_repr h l xs = lst_repr h' l xs"
  using chain_cong [of xs h h'] by (auto simp: lst_repr_def)

lemma lst_repr_upd [simp]: "a \<notin> set xs \<Longrightarrow> lst_repr (h(a := v)) l xs = lst_repr h l xs"
  by (simp add: lst_repr_def)

lemma lst_repr_dom: "lst_repr h l xs \<Longrightarrow> x \<in> set xs \<Longrightarrow> \<exists>n. h x = Some n"
  using chain_dom by (auto simp: lst_repr_def)

lemma lst_repr_unique: "lst_repr h l xs \<Longrightarrow> lst_repr h l ys \<Longrightarrow> xs = ys"
  using chain_unique by (auto simp: lst_repr_def)

text \<open>The links after an append: only the old last object is written.\<close>

definition app_links :: "(addr \<rightharpoonup> ptr) \<Rightarrow> addr list \<Rightarrow> ptr \<Rightarrow> (addr \<rightharpoonup> ptr)" where
  "app_links h xs n = (if xs = [] then h else h(last xs \<mapsto> n))"

lemma app_links_simps [simp]:
  "app_links h [] n = h"
  "xs \<noteq> [] \<Longrightarrow> app_links h xs n = h(last xs \<mapsto> n)"
  by (simp_all add: app_links_def)

lemma app_links_other: "a \<notin> set xs \<Longrightarrow> app_links h xs n a = h a"
  by (auto simp: app_links_def)

lemma sin_list_append_repr:
  assumes l: "lst_repr (links s) l xs" and p: "links s p = Some NULL" "p \<notin> set xs"
    and b: "Suc (length xs) < 2 ^ 32"
  shows "\<exists>l'. sin_list_append l p s = Some (l', s\<lparr>links := app_links (links s) xs (Some p)\<rparr>)
    \<and> lst_repr (app_links (links s) xs (Some p)) l' (xs @ [p])"
proof -
  note d = lst_reprD [OF l]
  have len: "unat (lst_len l + 1) = Suc (length xs)"
    using d(3) b unat_Suc_word [of "lst_len l"] by simp
  show ?thesis
  proof (cases "xs = []")
    case True
    with l have "lst_head l = NULL" by (simp add: lst_repr_head_NULL)
    with True p len show ?thesis by (simp add: sin_list_append_def lst_repr_def)
  next
    case False
    with l have h: "lst_head l \<noteq> NULL" by (simp add: lst_repr_head_NULL)
    from p(2) False have "last xs \<notin> set [p]" by auto
    with chain_extend [OF d(1) False, of "Some p" "[p]" NULL] p(1)
    have "chain ((links s)(last xs \<mapsto> Some p)) (lst_head l) (xs @ [p]) NULL" by simp
    with chain_last [OF d(1) False] False h d(2) len show ?thesis
      by (auto simp: sin_list_append_def SIN_TYPE_LINK_def lst_repr_def)
  qed
qed

subsection \<open>Properties\<close>

text \<open>
  Appending an object to a list that represents \<open>xs\<close> never commits a memory error and
  yields a list that represents \<open>xs\<close> followed by the object, with tail pointer and counter
  in step; only the link of the old last object is written.
\<close>

theorem list_append_correct:
  assumes "lst_repr (links s) l xs" and "links s p = Some NULL" and "p \<notin> set xs"
    and "Suc (length xs) < 2 ^ 32"
  shows "\<exists>l' s'. sin_list_append l p s = Some (l', s') \<and> lst_repr (links s') l' (xs @ [p]) \<and>
    (\<forall>a. a \<notin> set xs \<or> a \<noteq> last xs \<longrightarrow> links s' a = links s a)"
proof -
  let ?h = "app_links (links s) xs (Some p)"
  obtain l' where "sin_list_append l p s = Some (l', s\<lparr>links := ?h\<rparr>)" "lst_repr ?h l' (xs @ [p])"
    using sin_list_append_repr [OF assms] by blast
  moreover have "a \<notin> set xs \<or> a \<noteq> last xs \<Longrightarrow> ?h a = links s a" for a
    by (auto simp: app_links_def)
  ultimately show ?thesis by (intro exI [of _ l'] exI [of _ "s\<lparr>links := ?h\<rparr>"]) simp
qed

theorem list_append_correct_witness:
  "let s = \<lparr>os_fresh = 9, os_live = {}, os_script = (\<lambda>_. 0), os_clock = 0,
       links = [1 \<mapsto> Some 2, 2 \<mapsto> NULL, 3 \<mapsto> NULL]\<rparr> :: lnk;
     l = \<lparr>lst_head = Some 1, lst_tail = Some 2, lst_len = 2\<rparr>
   in \<exists>l' s'. sin_list_append l 3 s = Some (l', s') \<and> lst_repr (links s') l' ([1, 2] @ [3])"
proof -
  let ?s = "\<lparr>os_fresh = 9, os_live = {}, os_script = (\<lambda>_. 0), os_clock = 0,
       links = [1 \<mapsto> Some 2, 2 \<mapsto> NULL, 3 \<mapsto> NULL]\<rparr> :: lnk"
    and ?l = "\<lparr>lst_head = Some 1, lst_tail = Some 2, lst_len = 2\<rparr>"
  have "lst_repr (links ?s) ?l [1, 2]" by (simp add: lst_repr_def)
  from list_append_correct [OF this, of 3] show ?thesis unfolding Let_def by auto
qed

end
