(* ===== verification/Sin_Fifo.thy ===== *)
theory Sin_Fifo
  imports Main
begin

text \<open>
  The contract of a first-in first-out queue, as the threads of the library rely on it: a
  locale whose laws speak about one \<open>put\<close> and one \<open>get\<close>, and the client's lemma, proved
  once from those laws, that any interleaving of puts and gets delivers what a
  mathematical queue delivers. The work-item queue of \<open>sin_wi_queue.c\<close> is shown to be an
  instance in \<open>Sin_Wi_Queue\<close>.
\<close>

datatype 'a fifo_op = Put 'a | Get

text \<open>The abstract queue: a list, with the answers of the gets in order.\<close>

fun spec_ops :: "'a fifo_op list \<Rightarrow> 'a list \<Rightarrow> 'a option list \<times> 'a list" where
  "spec_ops [] xs = ([], xs)"
| "spec_ops (Put x # ops) xs = spec_ops ops (xs @ [x])"
| "spec_ops (Get # ops) [] = (let (os, ys) = spec_ops ops [] in (None # os, ys))"
| "spec_ops (Get # ops) (x # xs) = (let (os, ys) = spec_ops ops xs in (Some x # os, ys))"

text \<open>The same sequence of operations on an implementation.\<close>

fun run_ops :: "('a \<Rightarrow> 's \<Rightarrow> 's option) \<Rightarrow> ('s \<Rightarrow> ('a option \<times> 's) option) \<Rightarrow>
    'a fifo_op list \<Rightarrow> 's \<Rightarrow> ('a option list \<times> 's) option" where
  "run_ops put get [] s = Some ([], s)"
| "run_ops put get (Put x # ops) s =
     (case put x s of None \<Rightarrow> None | Some s \<Rightarrow> run_ops put get ops s)"
| "run_ops put get (Get # ops) s = (case get s of None \<Rightarrow> None
     | Some (r, s) \<Rightarrow> map_option (\<lambda>(os, s). (r # os, s)) (run_ops put get ops s))"

text \<open>Nothing is put while it is still queued, and the queue never outgrows its bound.\<close>

fun ops_ok :: "nat \<Rightarrow> 'a fifo_op list \<Rightarrow> 'a list \<Rightarrow> bool" where
  "ops_ok cap [] xs \<longleftrightarrow> True"
| "ops_ok cap (Put x # ops) xs \<longleftrightarrow>
     x \<notin> set xs \<and> Suc (length xs) < cap \<and> ops_ok cap ops (xs @ [x])"
| "ops_ok cap (Get # ops) xs \<longleftrightarrow> ops_ok cap ops (drop 1 xs)"

fun op_items :: "'a fifo_op \<Rightarrow> 'a list" where
  "op_items (Put x) = [x]"
| "op_items Get = []"

locale fifo =
  fixes repr :: "'s \<Rightarrow> 'a list \<Rightarrow> bool"
    and item :: "'s \<Rightarrow> 'a \<Rightarrow> bool"
    and put :: "'a \<Rightarrow> 's \<Rightarrow> 's option"
    and get :: "'s \<Rightarrow> ('a option \<times> 's) option"
    and cap :: nat
  assumes put_law: "\<lbrakk>repr s xs; item s x; x \<notin> set xs; Suc (length xs) < cap\<rbrakk> \<Longrightarrow>
      \<exists>s'. put x s = Some s' \<and> repr s' (xs @ [x]) \<and> (\<forall>y. item s y \<longrightarrow> item s' y)"
    and get_law: "repr s (x # xs) \<Longrightarrow>
      \<exists>s'. get s = Some (Some x, s') \<and> repr s' xs \<and> (\<forall>y. item s y \<longrightarrow> item s' y)"
    and get_none: "repr s [] \<Longrightarrow> get s = Some (None, s)"
begin

text \<open>Every run answers as the abstract queue does, and ends in a state that represents it.\<close>

lemma run_refines_spec:
  assumes "repr s xs" and "ops_ok cap ops xs"
    and "\<forall>p \<in> set ops. \<forall>x \<in> set (op_items p). item s x"
  shows "\<exists>s'. run_ops put get ops s = Some (fst (spec_ops ops xs), s')
    \<and> repr s' (snd (spec_ops ops xs))"
  using assms
proof (induction ops xs arbitrary: s rule: spec_ops.induct)
  case (1 xs)
  then show ?case by simp
next
  case (2 x ops xs)
  then obtain s' where "put x s = Some s'" "repr s' (xs @ [x])" "\<forall>y. item s y \<longrightarrow> item s' y"
    using put_law [of s xs x] by auto
  with 2 show ?case by simp
next
  case (3 ops)
  then obtain s' where "run_ops put get ops s = Some (fst (spec_ops ops []), s')"
    "repr s' (snd (spec_ops ops []))" by fastforce
  with 3 get_none show ?case by (simp add: case_prod_unfold Let_def)
next
  case (4 ops x xs)
  then obtain s' where g: "get s = Some (Some x, s')" "repr s' xs"
    "\<forall>y. item s y \<longrightarrow> item s' y"
    using get_law by blast
  with 4 obtain s'' where "run_ops put get ops s' = Some (fst (spec_ops ops xs), s'')"
    "repr s'' (snd (spec_ops ops xs))" by fastforce
  with g show ?case by (simp add: case_prod_unfold Let_def)
qed

end

text \<open>
  What the abstract queue delivers: everything put comes out once, in the order it went
  in, or is still queued.
\<close>

lemma spec_ops_order:
  "concat (map (\<lambda>r. case r of None \<Rightarrow> [] | Some x \<Rightarrow> [x]) (fst (spec_ops ops xs)))
     @ snd (spec_ops ops xs) = xs @ concat (map op_items ops)"
  by (induction ops xs rule: spec_ops.induct) (simp_all add: case_prod_unfold Let_def)

end
