(* ===== verification/Sin_Wi_Queue.thy ===== *)
theory Sin_Wi_Queue
  imports Sin_List Sin_Fifo
begin

text \<open>
  The work-item queue of \<open>sin_wi_queue.c\<close>: a first-in first-out queue of linkable objects,
  guarded by a mutex and a condition variable. Each operation of the C file is one critical
  section of the queue's mutex, so it is one atomic function on the store; the two
  blocking readers are split at \<open>pthread_cond_wait\<close>, where the mutex is given up.

  The condition variable counts the threads that sleep in it and those that have been
  woken and wait for the mutex; \<open>pthread_cond_signal\<close> moves one sleeper, if there is one.
\<close>

record cond_var =
  asleep :: nat
  woken :: nat

record sin_wi_queue =
  q_type :: u32
  q_head :: ptr
  q_tail :: ptr
  q_cond :: cond_var
  q_nwait :: u32
  q_length :: u32
  q_name :: ptr

record qstore = lnk +
  queues :: "addr \<rightharpoonup> sin_wi_queue"

subsection \<open>Construction and destruction\<close>

definition sin_wi_queue_zero :: sin_wi_queue where
  "sin_wi_queue_zero = \<lparr>q_type = 0, q_head = NULL, q_tail = NULL,
     q_cond = \<lparr>asleep = 0, woken = 0\<rparr>, q_nwait = 0, q_length = 0, q_name = NULL\<rparr>"

text \<open>
  The name is formatted by \<open>vasprintf\<close>, which allocates it; the model keeps the block and
  leaves the text out.
\<close>

definition sin_wi_queue_ctor ::
  "errno option \<Rightarrow> 'a qstore_scheme \<Rightarrow> (ptr \<times> errno option \<times> 'a qstore_scheme) option" where
  "sin_wi_queue_ctor e s = (case malloc s of
     (None, s) \<Rightarrow> Some (NULL, SET_ERR e ENOMEM, s)
   | (Some queue, s) \<Rightarrow>
     (let qr = sin_wi_queue_zero\<lparr>q_type := SIN_TYPE_WI_QUEUE\<rparr>;
          (eval, s) = pthread_cond_init queue s in
      if eval \<noteq> 0 then do {
        s \<leftarrow> free queue s;
        Some (NULL, SET_ERR e (Errno eval), s)
      } else
      (let (eval, s) = pthread_mutex_init queue s in
       if eval \<noteq> 0 then do {
         s \<leftarrow> pthread_cond_destroy queue s;
         s \<leftarrow> free queue s;
         Some (NULL, SET_ERR e (Errno eval), s)
       } else
       (case malloc s of
          (None, s) \<Rightarrow> do {
            s \<leftarrow> pthread_cond_destroy queue s;
            s \<leftarrow> pthread_mutex_destroy queue s;
            s \<leftarrow> free queue s;
            Some (NULL, SET_ERR e ENOMEM, s)
          }
        | (Some name, s) \<Rightarrow>
          Some (Some queue, e,
            s\<lparr>queues := (queues s)(queue \<mapsto> qr\<lparr>q_name := Some name\<rparr>)\<rparr>)))))"

definition sin_wi_queue_dtor :: "addr \<Rightarrow> 'a qstore_scheme \<Rightarrow> 'a qstore_scheme option" where
  "sin_wi_queue_dtor queue s = do {
     qr \<leftarrow> queues s queue;
     s \<leftarrow> pthread_cond_destroy queue s;
     s \<leftarrow> pthread_mutex_destroy queue s;
     s \<leftarrow> (case q_name qr of None \<Rightarrow> Some s | Some n \<Rightarrow> free n s);
     s \<leftarrow> free queue s;
     Some (s\<lparr>queues := (queues s)(queue := None)\<rparr>)
   }"

subsection \<open>Writers\<close>

definition pthread_cond_signal :: "cond_var \<Rightarrow> cond_var" where
  "pthread_cond_signal c = (if 0 < asleep c
     then \<lparr>asleep = asleep c - 1, woken = Suc (woken c)\<rparr> else c)"

text \<open>The block \<open>if (queue->nwait > 0) pthread_cond_signal(...)\<close> of the three writers.\<close>

definition notify_worker :: "sin_wi_queue \<Rightarrow> sin_wi_queue" where
  "notify_worker qr = (if q_nwait qr > 0
     then qr\<lparr>q_cond := pthread_cond_signal (q_cond qr)\<rparr> else qr)"

definition sin_wi_queue_put_item ::
  "addr \<Rightarrow> addr \<Rightarrow> u32 \<Rightarrow> 'a qstore_scheme \<Rightarrow> (int \<times> 'a qstore_scheme) option" where
  "sin_wi_queue_put_item wi queue maxqlen s = do {
     qr \<leftarrow> queues s queue;
     if maxqlen > 0 \<and> q_length qr \<ge> maxqlen then
       Some (-1, s\<lparr>queues := (queues s)(queue \<mapsto> notify_worker qr)\<rparr>)
     else do {
       s \<leftarrow> SIN_TYPE_LINK wi NULL s;
       s \<leftarrow> (if q_head qr = NULL then Some s
            else do { t \<leftarrow> q_tail qr; SIN_TYPE_LINK t (Some wi) s });
       let qr = (if q_head qr = NULL then qr\<lparr>q_head := Some wi, q_tail := Some wi\<rparr>
                 else qr\<lparr>q_tail := Some wi\<rparr>);
       let qr = qr\<lparr>q_length := q_length qr + 1\<rparr>;
       Some (0, s\<lparr>queues := (queues s)(queue \<mapsto> notify_worker qr)\<rparr>)
     }
   }"

definition sin_wi_queue_put_items ::
  "sin_list \<Rightarrow> addr \<Rightarrow> 'a qstore_scheme \<Rightarrow> 'a qstore_scheme option" where
  "sin_wi_queue_put_items lst queue s = do {
     qr \<leftarrow> queues s queue;
     s \<leftarrow> (if q_head qr = NULL then Some s
          else do { t \<leftarrow> q_tail qr; SIN_TYPE_LINK t (lst_head lst) s });
     let qr = (if q_head qr = NULL
       then qr\<lparr>q_head := lst_head lst, q_tail := lst_tail lst, q_length := lst_len lst\<rparr>
       else qr\<lparr>q_tail := lst_tail lst, q_length := q_length qr + lst_len lst\<rparr>);
     Some (s\<lparr>queues := (queues s)(queue \<mapsto> notify_worker qr)\<rparr>)
   }"

text \<open>The result is the number of waiters, an unsigned counter returned as an \<open>int\<close>.\<close>

definition sin_wi_queue_pump :: "addr \<Rightarrow> 'a qstore_scheme \<Rightarrow> (int \<times> 'a qstore_scheme) option" where
  "sin_wi_queue_pump queue s = do {
     qr \<leftarrow> queues s queue;
     Some (sint (q_nwait qr), s\<lparr>queues := (queues s)(queue \<mapsto> notify_worker qr)\<rparr>)
   }"

subsection \<open>Readers\<close>

text \<open>
  A reader either returns, or goes to sleep in \<open>pthread_cond_wait\<close> and continues, with
  the mutex held again, in the \<open>wake\<close> function; from there it may loop back to the start.
\<close>

datatype 'r outcome = Return 'r | Wait

definition cond_sleep :: "sin_wi_queue \<Rightarrow> sin_wi_queue" where
  "cond_sleep qr = qr\<lparr>q_nwait := q_nwait qr + 1,
     q_cond := (q_cond qr)\<lparr>asleep := Suc (asleep (q_cond qr))\<rparr>\<rparr>"

definition cond_resume :: "sin_wi_queue \<Rightarrow> sin_wi_queue" where
  "cond_resume qr = qr\<lparr>q_nwait := q_nwait qr - 1,
     q_cond := (q_cond qr)\<lparr>woken := woken (q_cond qr) - 1\<rparr>\<rparr>"

definition take_item :: "addr \<Rightarrow> 'a qstore_scheme \<Rightarrow> (ptr outcome \<times> 'a qstore_scheme) option" where
  "take_item queue s = do {
     qr \<leftarrow> queues s queue;
     wi \<leftarrow> q_head qr;
     n \<leftarrow> SIN_ITER_NEXT wi s;
     let qr = qr\<lparr>q_head := n\<rparr>;
     let qr = (if n = NULL then qr\<lparr>q_tail := NULL\<rparr> else qr);
     let qr = qr\<lparr>q_length := q_length qr - 1\<rparr>;
     s \<leftarrow> SIN_TYPE_LINK wi NULL (s\<lparr>queues := (queues s)(queue \<mapsto> qr)\<rparr>);
     Some (Return (Some wi), s)
   }"

definition sin_wi_queue_get_item ::
  "addr \<Rightarrow> int \<Rightarrow> int \<Rightarrow> 'a qstore_scheme \<Rightarrow> (ptr outcome \<times> 'a qstore_scheme) option" where
  "sin_wi_queue_get_item queue waitok return_on_wake s = do {
     qr \<leftarrow> queues s queue;
     if q_head qr = NULL then
       (if waitok = 0 then Some (Return NULL, s)
        else Some (Wait, s\<lparr>queues := (queues s)(queue \<mapsto> cond_sleep qr)\<rparr>))
     else take_item queue s
   }"

definition sin_wi_queue_get_item_wake ::
  "addr \<Rightarrow> int \<Rightarrow> int \<Rightarrow> 'a qstore_scheme \<Rightarrow> (ptr outcome \<times> 'a qstore_scheme) option" where
  "sin_wi_queue_get_item_wake queue waitok return_on_wake s = do {
     qr \<leftarrow> queues s queue;
     let s = s\<lparr>queues := (queues s)(queue \<mapsto> cond_resume qr)\<rparr>;
     if q_head qr = NULL \<and> return_on_wake \<noteq> 0 then Some (Return NULL, s)
     else sin_wi_queue_get_item queue waitok return_on_wake s
   }"

definition take_items :: "addr \<Rightarrow> sin_list \<Rightarrow> 'a qstore_scheme \<Rightarrow>
  (u32 outcome \<times> sin_list \<times> 'a qstore_scheme) option" where
  "take_items queue lst s = do {
     qr \<leftarrow> queues s queue;
     let nadded = q_length qr;
     (lst, s) \<leftarrow> (if lst_head lst = NULL
       then Some (\<lparr>lst_head = q_head qr, lst_tail = q_tail qr, lst_len = q_length qr\<rparr>, s)
       else do {
         t \<leftarrow> lst_tail lst;
         s \<leftarrow> SIN_TYPE_LINK t (q_head qr) s;
         Some (lst\<lparr>lst_tail := q_tail qr, lst_len := lst_len lst + q_length qr\<rparr>, s)
       });
     let qr = qr\<lparr>q_length := 0, q_head := NULL, q_tail := NULL\<rparr>;
     Some (Return nadded, lst, s\<lparr>queues := (queues s)(queue \<mapsto> qr)\<rparr>)
   }"

definition sin_wi_queue_get_items :: "addr \<Rightarrow> sin_list \<Rightarrow> int \<Rightarrow> int \<Rightarrow> 'a qstore_scheme \<Rightarrow>
  (u32 outcome \<times> sin_list \<times> 'a qstore_scheme) option" where
  "sin_wi_queue_get_items queue lst waitok return_on_wake s = do {
     qr \<leftarrow> queues s queue;
     if q_head qr = NULL then
       (if waitok = 0 then Some (Return 0, lst, s)
        else Some (Wait, lst, s\<lparr>queues := (queues s)(queue \<mapsto> cond_sleep qr)\<rparr>))
     else take_items queue lst s
   }"

definition sin_wi_queue_get_items_wake :: "addr \<Rightarrow> sin_list \<Rightarrow> int \<Rightarrow> int \<Rightarrow>
  'a qstore_scheme \<Rightarrow> (u32 outcome \<times> sin_list \<times> 'a qstore_scheme) option" where
  "sin_wi_queue_get_items_wake queue lst waitok return_on_wake s = do {
     qr \<leftarrow> queues s queue;
     let s = s\<lparr>queues := (queues s)(queue \<mapsto> cond_resume qr)\<rparr>;
     if q_head qr = NULL \<and> return_on_wake \<noteq> 0 then Some (Return 0, lst, s)
     else sin_wi_queue_get_items queue lst waitok return_on_wake s
   }"

subsection \<open>The contents of a queue\<close>

text \<open>
  The abstraction: the queue's three list fields are a list header, and the queue holds
  the sequence that header represents.
\<close>

definition q_list :: "sin_wi_queue \<Rightarrow> sin_list" where
  "q_list qr = \<lparr>lst_head = q_head qr, lst_tail = q_tail qr, lst_len = q_length qr\<rparr>"

definition q_repr :: "'a qstore_scheme \<Rightarrow> addr \<Rightarrow> addr list \<Rightarrow> bool" where
  "q_repr s q xs \<longleftrightarrow> (case queues s q of None \<Rightarrow> False
     | Some qr \<Rightarrow> lst_repr (links s) (q_list qr) xs)"

lemma q_list_simps [simp]:
  "lst_head (q_list qr) = q_head qr" "lst_tail (q_list qr) = q_tail qr"
  "lst_len (q_list qr) = q_length qr"
  by (simp_all add: q_list_def)

lemma q_list_upd [simp]:
  "q_list (notify_worker qr) = q_list qr" "q_list (cond_sleep qr) = q_list qr"
  "q_list (cond_resume qr) = q_list qr"
  by (simp_all add: q_list_def notify_worker_def cond_sleep_def cond_resume_def)

lemma q_reprE:
  assumes "q_repr s q xs"
  obtains qr where "queues s q = Some qr" "lst_repr (links s) (q_list qr) xs"
  using assms by (auto simp: q_repr_def split: option.splits)

lemma q_reprI: "queues s q = Some qr \<Longrightarrow> lst_repr (links s) (q_list qr) xs \<Longrightarrow> q_repr s q xs"
  by (simp add: q_repr_def)

lemma q_repr_unique: "q_repr s q xs \<Longrightarrow> q_repr s q ys \<Longrightarrow> xs = ys"
  using lst_repr_unique by (auto simp: q_repr_def split: option.splits)

lemma q_repr_distinct: "q_repr s q xs \<Longrightarrow> distinct xs"
  using lst_reprD(4) by (auto simp: q_repr_def split: option.splits)

text \<open>What each operation does to the store, field by field.\<close>

lemma put_item_exact:
  assumes q: "queues s q = Some qr" "lst_repr (links s) (q_list qr) xs"
    and wi: "links s wi \<noteq> None" "wi \<notin> set xs"
    and room: "maxqlen = 0 \<or> q_length qr < maxqlen"
  defines "h \<equiv> app_links ((links s)(wi \<mapsto> NULL)) xs (Some wi)"
    and "qr' \<equiv> qr\<lparr>q_head := (if xs = [] then Some wi else q_head qr), q_tail := Some wi,
      q_length := q_length qr + 1\<rparr>"
  shows "sin_wi_queue_put_item wi q maxqlen s
    = Some (0, s\<lparr>links := h, queues := (queues s)(q \<mapsto> notify_worker qr')\<rparr>)"
proof (cases "xs = []")
  case True
  with lst_repr_head_NULL [OF q(2)] have "q_head qr = NULL" by simp
  with True q wi room show ?thesis
    by (auto simp: sin_wi_queue_put_item_def SIN_TYPE_LINK_def h_def qr'_def not_less)
next
  case False
  note d = lst_reprD [OF q(2)]
  from False lst_repr_head_NULL [OF q(2)] have h0: "q_head qr \<noteq> NULL" by simp
  from False have last: "last xs \<in> set xs" by simp
  with lst_repr_dom [OF q(2)] obtain n where "links s (last xs) = Some n" by blast
  with False h0 q wi room d(2) last show ?thesis
    by (auto simp: sin_wi_queue_put_item_def SIN_TYPE_LINK_def h_def qr'_def not_less)
qed

lemma put_item_repr:
  assumes "q_repr s q xs" and "links s wi \<noteq> None" and "wi \<notin> set xs"
    and "maxqlen = 0 \<or> length xs < unat maxqlen" and "Suc (length xs) < 2 ^ 32"
  obtains s' where "sin_wi_queue_put_item wi q maxqlen s = Some (0, s')"
    and "q_repr s' q (xs @ [wi])"
    and "links s' = app_links ((links s)(wi \<mapsto> NULL)) xs (Some wi)"
    and "\<And>q'. q' \<noteq> q \<Longrightarrow> queues s' q' = queues s q'"
proof -
  from assms(1) obtain qr where qr: "queues s q = Some qr" "lst_repr (links s) (q_list qr) xs"
    by (rule q_reprE)
  note d = lst_reprD [OF qr(2)]
  define h where "h = app_links ((links s)(wi \<mapsto> NULL)) xs (Some wi)"
  define qr' where "qr' = qr\<lparr>q_head := (if xs = [] then Some wi else q_head qr),
    q_tail := Some wi, q_length := q_length qr + 1\<rparr>"
  define s' where "s' = s\<lparr>links := h, queues := (queues s)(q \<mapsto> notify_worker qr')\<rparr>"
  have room: "maxqlen = 0 \<or> q_length qr < maxqlen"
    using assms(4) d(3) by (simp add: word_less_nat_alt)
  have put: "sin_wi_queue_put_item wi q maxqlen s = Some (0, s')"
    using put_item_exact [OF qr assms(2,3) room] by (simp add: s'_def h_def qr'_def)
  have h0: "lst_repr ((links s)(wi \<mapsto> NULL)) (q_list qr) xs"
    using qr(2) assms(3) by simp
  have len: "unat (q_length qr + 1) = Suc (length xs)"
    using d(3) assms(5) unat_Suc_word [of "q_length qr"] by simp
  have "lst_repr h (q_list qr') (xs @ [wi])"
  proof (cases "xs = []")
    case True
    then show ?thesis using len by (simp add: lst_repr_def h_def qr'_def q_list_def)
  next
    case False
    with assms(3) have "last xs \<notin> set [wi]" by auto
    with chain_extend [OF lst_reprD(1) [OF h0] False, of "Some wi" "[wi]" NULL]
    have "chain h (q_head qr) (xs @ [wi]) NULL" using False by (simp add: h_def)
    then show ?thesis using False len by (simp add: lst_repr_def qr'_def q_list_def)
  qed
  then have "q_repr s' q (xs @ [wi])" by (simp add: q_repr_def s'_def)
  with put show thesis by (intro that [of s']) (simp_all add: s'_def h_def)
qed

lemma put_item_full:
  assumes "queues s q = Some qr" and "maxqlen > 0" and "q_length qr \<ge> maxqlen"
  shows "sin_wi_queue_put_item wi q maxqlen s
    = Some (-1, s\<lparr>queues := (queues s)(q \<mapsto> notify_worker qr)\<rparr>)"
  using assms by (simp add: sin_wi_queue_put_item_def)

lemma put_items_exact:
  fixes l :: sin_list
  assumes q: "queues s q = Some qr" "lst_repr (links s) (q_list qr) xs"
  defines "qr' \<equiv> qr\<lparr>q_head := (if xs = [] then lst_head l else q_head qr),
      q_tail := lst_tail l,
      q_length := (if xs = [] then 0 else q_length qr) + lst_len l\<rparr>"
  shows "sin_wi_queue_put_items l q s = Some (s\<lparr>links := app_links (links s) xs (lst_head l),
    queues := (queues s)(q \<mapsto> notify_worker qr')\<rparr>)"
proof (cases "xs = []")
  case True
  with lst_repr_head_NULL [OF q(2)] have "q_head qr = NULL" by simp
  with True q show ?thesis by (simp add: sin_wi_queue_put_items_def qr'_def)
next
  case False
  note d = lst_reprD [OF q(2)]
  from False lst_repr_head_NULL [OF q(2)] have h0: "q_head qr \<noteq> NULL" by simp
  from False lst_repr_dom [OF q(2), of "last xs"] obtain n where "links s (last xs) = Some n"
    by auto
  with False h0 q d(2) show ?thesis
    by (auto simp: sin_wi_queue_put_items_def SIN_TYPE_LINK_def qr'_def)
qed

lemma put_items_repr:
  assumes "q_repr s q xs" and l: "lst_repr (links s) l ys" and ne: "ys \<noteq> []"
    and dis: "set xs \<inter> set ys = {}" and b: "length xs + length ys < 2 ^ 32"
  obtains s' where "sin_wi_queue_put_items l q s = Some s'"
    and "q_repr s' q (xs @ ys)"
    and "links s' = app_links (links s) xs (lst_head l)"
    and "\<And>q'. q' \<noteq> q \<Longrightarrow> queues s' q' = queues s q'"
proof -
  from assms(1) obtain qr where qr: "queues s q = Some qr" "lst_repr (links s) (q_list qr) xs"
    by (rule q_reprE)
  note d = lst_reprD [OF qr(2)] and dl = lst_reprD [OF l]
  define h where "h = app_links (links s) xs (lst_head l)"
  define qr' where "qr' = qr\<lparr>q_head := (if xs = [] then lst_head l else q_head qr),
      q_tail := lst_tail l,
      q_length := (if xs = [] then 0 else q_length qr) + lst_len l\<rparr>"
  define s' where "s' = s\<lparr>links := h, queues := (queues s)(q \<mapsto> notify_worker qr')\<rparr>"
  have put: "sin_wi_queue_put_items l q s = Some s'"
    using put_items_exact [OF qr] by (simp add: s'_def h_def qr'_def)
  have len: "xs \<noteq> [] \<Longrightarrow> unat (q_length qr + lst_len l) = length xs + length ys"
    using d(3) dl(3) b unat_plus_word [of "q_length qr" "lst_len l"] by simp
  have "lst_repr h (q_list qr') (xs @ ys)"
  proof (cases "xs = []")
    case True
    then show ?thesis using dl by (simp add: lst_repr_def h_def qr'_def q_list_def)
  next
    case False
    with dis have "last xs \<notin> set ys" using last_in_set by blast
    with chain_extend [OF d(1) False dl(1)]
    have "chain h (q_head qr) (xs @ ys) NULL" using False by (simp add: h_def)
    then show ?thesis using False len dl(2) ne
      by (simp add: lst_repr_def qr'_def q_list_def tail_of_append)
  qed
  then have "q_repr s' q (xs @ ys)" by (simp add: q_repr_def s'_def)
  with put show thesis by (intro that [of s']) (simp_all add: s'_def h_def)
qed

lemma take_item_exact:
  assumes q: "queues s q = Some qr" "lst_repr (links s) (q_list qr) (x # xs)"
  shows "\<exists>n. links s x = Some n \<and> take_item q s = Some (Return (Some x),
    s\<lparr>links := (links s)(x \<mapsto> NULL), queues := (queues s)(q \<mapsto>
      qr\<lparr>q_head := n, q_tail := (if n = NULL then NULL else q_tail qr),
         q_length := q_length qr - 1\<rparr>)\<rparr>)"
  using lst_reprD(1) [OF q(2)] q(1)
  by (auto simp: take_item_def SIN_ITER_NEXT_def SIN_TYPE_LINK_def Let_def)

lemma get_item_repr:
  assumes "q_repr s q (x # xs)"
  obtains s' where "sin_wi_queue_get_item q waitok row s = Some (Return (Some x), s')"
    and "q_repr s' q xs" and "links s' = (links s)(x \<mapsto> NULL)"
    and "\<And>q'. q' \<noteq> q \<Longrightarrow> queues s' q' = queues s q'"
proof -
  from assms obtain qr where qr: "queues s q = Some qr"
    "lst_repr (links s) (q_list qr) (x # xs)" by (rule q_reprE)
  note d = lst_reprD [OF qr(2)]
  obtain n where n: "links s x = Some n" and t: "take_item q s = Some (Return (Some x),
    s\<lparr>links := (links s)(x \<mapsto> NULL), queues := (queues s)(q \<mapsto>
      qr\<lparr>q_head := n, q_tail := (if n = NULL then NULL else q_tail qr),
         q_length := q_length qr - 1\<rparr>)\<rparr>)" (is "_ = Some (_, ?s')")
    using take_item_exact [OF qr] by blast
  have ch: "chain (links s) n xs NULL" and x: "x \<notin> set xs" using d n by auto
  have "n = NULL \<longleftrightarrow> xs = []" using ch by (cases xs) auto
  moreover have "unat (q_length qr - 1) = length xs"
    using d(3) unat_minus_word [of 1 "q_length qr"] by simp
  ultimately have "q_repr ?s' q xs"
    using ch x d(2) by (auto simp: q_repr_def lst_repr_def q_list_def tail_of_def)
  moreover have "sin_wi_queue_get_item q waitok row s = Some (Return (Some x), ?s')"
    using t qr(1) lst_repr_head [OF qr(2)] by (simp add: sin_wi_queue_get_item_def)
  ultimately show thesis by (intro that [of ?s']) simp_all
qed

lemma get_item_empty:
  "q_repr s q [] \<Longrightarrow> sin_wi_queue_get_item q 0 row s = Some (Return NULL, s)"
  by (elim q_reprE) (auto simp: sin_wi_queue_get_item_def lst_repr_def)

lemma get_items_repr:
  assumes "q_repr s q xs" and ne: "xs \<noteq> []" and l: "lst_repr (links s) l ys"
    and dis: "set ys \<inter> set xs = {}" and b: "length ys + length xs < 2 ^ 32"
  obtains l' s' where
    "sin_wi_queue_get_items q l waitok row s = Some (Return (of_nat (length xs)), l', s')"
    and "lst_repr (links s') l' (ys @ xs)" and "q_repr s' q []"
    and "links s' = app_links (links s) ys (Some (hd xs))"
    and "\<And>q'. q' \<noteq> q \<Longrightarrow> queues s' q' = queues s q'"
proof -
  from assms(1) obtain qr where qr: "queues s q = Some qr"
    "lst_repr (links s) (q_list qr) xs" by (rule q_reprE)
  note d = lst_reprD [OF qr(2)] and dl = lst_reprD [OF l]
  define h where "h = app_links (links s) ys (Some (hd xs))"
  define s' where "s' = s\<lparr>links := h, queues := (queues s)(q \<mapsto>
    qr\<lparr>q_length := 0, q_head := NULL, q_tail := NULL\<rparr>)\<rparr>"
  define l' where "l' = (if ys = [] then q_list qr
    else l\<lparr>lst_tail := q_tail qr, lst_len := lst_len l + q_length qr\<rparr>)"
  have hd: "q_head qr = Some (hd xs)" using d(1) ne by (cases xs) auto
  have "q_length qr = of_nat (unat (q_length qr))" by simp
  with d(3) have n: "q_length qr = of_nat (length xs)" by simp
  have "ys \<noteq> [] \<Longrightarrow> links s (last ys) \<noteq> None"
    using lst_repr_dom [OF l] last_in_set by blast
  then have g: "sin_wi_queue_get_items q l waitok row s
      = Some (Return (of_nat (length xs)), l', s')"
    using qr(1) hd n lst_repr_head_NULL [OF l] dl(2)
    by (auto simp: sin_wi_queue_get_items_def take_items_def SIN_TYPE_LINK_def q_list_def
        l'_def s'_def h_def)
  have "lst_repr h l' (ys @ xs)"
  proof (cases "ys = []")
    case True
    then show ?thesis using qr(2) by (simp add: h_def l'_def)
  next
    case False
    with dis have "last ys \<notin> set xs" using last_in_set by blast
    with chain_extend [OF dl(1) False d(1)] hd
    have "chain h (lst_head l) (ys @ xs) NULL" using False by (simp add: h_def)
    moreover have "unat (lst_len l + q_length qr) = length ys + length xs"
      using d(3) dl(3) b unat_plus_word [of "lst_len l" "q_length qr"] by simp
    ultimately show ?thesis using False d(2) ne
      by (simp add: lst_repr_def l'_def tail_of_append)
  qed
  moreover have "q_repr s' q []"
    by (simp add: q_repr_def s'_def q_list_def lst_repr_def)
  ultimately show thesis using g by (intro that [of l' s']) (simp_all add: s'_def h_def)
qed

lemma get_items_empty:
  "q_repr s q [] \<Longrightarrow> sin_wi_queue_get_items q l 0 row s = Some (Return 0, l, s)"
  by (elim q_reprE) (auto simp: sin_wi_queue_get_items_def lst_repr_def)

subsection \<open>Construction and destruction balance\<close>

text \<open>
  The constructor, whatever calls fail: it either returns \<open>NULL\<close> and has given back every
  resource it took, or returns a fresh, empty queue that owns exactly its block, its
  condition variable, its mutex and its name.
\<close>

lemma sin_wi_queue_ctor_cases:
  assumes sane: "os_ok s"
  obtains (fail) e' s' where "sin_wi_queue_ctor e s = Some (NULL, e', s')"
      "os_live s' = os_live s" "links s' = links s" "queues s' = queues s"
      "e' = None \<longleftrightarrow> e = None" "os_ok s'" "os_fresh s \<le> os_fresh s'"
  | (ok) s' where "sin_wi_queue_ctor e s = Some (Some (os_fresh s), e, s')"
      "os_live s' = os_live s \<union> {Block (os_fresh s), Cond (os_fresh s), Mutex (os_fresh s),
         Block (Suc (os_fresh s))}"
      "links s' = links s" "queues s' = (queues s)(os_fresh s \<mapsto>
         sin_wi_queue_zero\<lparr>q_type := SIN_TYPE_WI_QUEUE, q_name := Some (Suc (os_fresh s))\<rparr>)"
      "os_ok s'" "os_fresh s' = os_fresh s + 2"
proof -
  let ?f = "os_fresh s"
  have fresh: "Block ?f \<notin> os_live s" "Cond ?f \<notin> os_live s" "Mutex ?f \<notin> os_live s"
    using fresh_not_live [OF sane] by auto
  have lt: "\<forall>r \<in> os_live s. res_addr r < Suc ?f" "\<forall>r \<in> os_live s. res_addr r < Suc (Suc ?f)"
    using os_okD [OF sane] less_SucI by blast+
  note defs = sin_wi_queue_ctor_def SET_ERR_def os_ok_def Let_def pthread_cond_init_def
    pthread_mutex_init_def pthread_cond_destroy_def pthread_mutex_destroy_def free_def
    release_def malloc_def init_res_def os_result_def
  let ?r = "\<lambda>k. os_script s (os_clock s + k)"
  consider "?r 0 \<noteq> 0" | "?r 0 = 0" "?r 1 \<noteq> 0" | "?r 0 = 0" "?r 1 = 0" "?r 2 \<noteq> 0"
    | "?r 0 = 0" "?r 1 = 0" "?r 2 = 0" "?r 3 \<noteq> 0"
    | "?r 0 = 0" "?r 1 = 0" "?r 2 = 0" "?r 3 = 0" by blast
  then show thesis
  proof cases
    case 1
    show thesis
      by (rule that(1)) (use 1 sane lt in \<open>simp add: defs; fail\<close>)+
  next
    case 2
    show thesis
      by (rule that(1)) (use 2 fresh lt in \<open>auto simp: defs numeral_eq_Suc insert_Diff_if; fail\<close>)+
  next
    case 3
    show thesis
      by (rule that(1)) (use 3 fresh lt in \<open>auto simp: defs numeral_eq_Suc insert_Diff_if; fail\<close>)+
  next
    case 4
    show thesis
      by (rule that(1)) (use 4 fresh lt in \<open>auto simp: defs numeral_eq_Suc insert_Diff_if; fail\<close>)+
  next
    case 5
    show thesis
      by (rule that(2)) (use 5 fresh lt in \<open>auto simp: defs numeral_eq_Suc insert_Diff_if; fail\<close>)+
  qed
qed

lemma sin_wi_queue_dtor_exact:
  assumes "queues s q = Some qr" and "q_name qr = Some n" and "n \<noteq> q"
    and "{Block q, Cond q, Mutex q, Block n} \<subseteq> os_live s"
  shows "sin_wi_queue_dtor q s = Some (s\<lparr>
    os_live := os_live s - {Block q, Cond q, Mutex q, Block n},
    queues := (queues s)(q := None)\<rparr>)"
proof -
  have "os_live s - {Cond q} - {Mutex q} - {Block n} - {Block q}
      = os_live s - {Block q, Cond q, Mutex q, Block n}" by auto
  with assms show ?thesis
    by (simp add: sin_wi_queue_dtor_def pthread_cond_destroy_def pthread_mutex_destroy_def
        free_def)
qed

subsection \<open>The queue keeps the contract of a queue\<close>

definition wiq_put :: "addr \<Rightarrow> addr \<Rightarrow> 'a qstore_scheme \<Rightarrow> 'a qstore_scheme option" where
  "wiq_put q wi s = map_option snd (sin_wi_queue_put_item wi q 0 s)"

definition wiq_get :: "addr \<Rightarrow> 'a qstore_scheme \<Rightarrow> (ptr \<times> 'a qstore_scheme) option" where
  "wiq_get q s = (case sin_wi_queue_get_item q 0 0 s of
     Some (Return r, s) \<Rightarrow> Some (r, s) | _ \<Rightarrow> None)"

lemma app_links_dom: "dom (app_links h xs n) = (if xs = [] then {} else {last xs}) \<union> dom h"
  by (auto simp: app_links_def)

interpretation wiq: fifo "\<lambda>s. q_repr s q" "\<lambda>s x. x \<in> dom (links s)" "wiq_put q" "wiq_get q"
    "2 ^ 32" for q
proof unfold_locales
  fix s :: "'a qstore_scheme" and xs x
  assume "q_repr s q xs" "x \<in> dom (links s)" "x \<notin> set xs" "Suc (length xs) < 2 ^ 32"
  then obtain s' where "sin_wi_queue_put_item x q 0 s = Some (0, s')" "q_repr s' q (xs @ [x])"
    "links s' = app_links ((links s)(x \<mapsto> NULL)) xs (Some x)"
    using put_item_repr [of s q xs x 0] by blast
  then show "\<exists>s'. wiq_put q x s = Some s' \<and> q_repr s' q (xs @ [x]) \<and>
      (\<forall>y. y \<in> dom (links s) \<longrightarrow> y \<in> dom (links s'))"
    by (simp add: wiq_put_def app_links_dom)
next
  fix s :: "'a qstore_scheme" and x xs
  assume "q_repr s q (x # xs)"
  then obtain s' where "sin_wi_queue_get_item q 0 0 s = Some (Return (Some x), s')"
    "q_repr s' q xs" "links s' = (links s)(x \<mapsto> NULL)"
    by (rule get_item_repr)
  then show "\<exists>s'. wiq_get q s = Some (Some x, s') \<and> q_repr s' q xs \<and>
      (\<forall>y. y \<in> dom (links s) \<longrightarrow> y \<in> dom (links s'))"
    by (simp add: wiq_get_def)
next
  fix s :: "'a qstore_scheme"
  assume "q_repr s q []"
  then show "wiq_get q s = Some (NULL, s)" by (simp add: wiq_get_def get_item_empty)
qed

subsection \<open>Properties\<close>

text \<open>
  C31. The work-item queue refines a mathematical queue. Any sequence of puts and gets on a
  queue that holds \<open>xs\<close> runs without a memory error and delivers exactly what was put,
  once, in the order it was put, what is not delivered being still queued in that order.
  The objects put must not be queued already, and the 32-bit length must not overflow.
\<close>

theorem wi_queue_refines_fifo:
  assumes "q_repr s q xs" and "ops_ok (2 ^ 32) ops xs"
    and "\<forall>p \<in> set ops. \<forall>x \<in> set (op_items p). x \<in> dom (links s)"
  shows "\<exists>outs s' ys. run_ops (wiq_put q) (wiq_get q) ops s = Some (outs, s') \<and>
    q_repr s' q ys \<and> (outs, ys) = spec_ops ops xs \<and>
    concat (map (\<lambda>r. case r of None \<Rightarrow> [] | Some x \<Rightarrow> [x]) outs) @ ys
      = xs @ concat (map op_items ops)"
  using wiq.run_refines_spec [OF assms] spec_ops_order [of ops xs]
  by (metis prod.collapse)

text \<open>A queue with one object queued and two more objects to put.\<close>

definition ex_qstore :: qstore where
  "ex_qstore = \<lparr>os_fresh = 9, os_live = {}, os_script = (\<lambda>_. 0), os_clock = 0,
     links = [1 \<mapsto> NULL, 2 \<mapsto> Some 7, 3 \<mapsto> NULL],
     queues = [5 \<mapsto> sin_wi_queue_zero\<lparr>q_head := Some 1, q_tail := Some 1, q_length := 1\<rparr>]\<rparr>"

lemma ex_qstore_repr: "q_repr ex_qstore 5 [1]"
  by (simp add: q_repr_def ex_qstore_def lst_repr_def)

theorem wi_queue_refines_fifo_witness:
  "\<exists>outs s' ys. run_ops (wiq_put 5) (wiq_get 5) [Put 2, Get, Put 3, Get] ex_qstore = Some (outs, s') \<and>
     q_repr s' 5 ys \<and> outs = [Some 1, Some 2] \<and> ys = [3]"
  using wi_queue_refines_fifo [OF ex_qstore_repr, of "[Put 2, Get, Put 3, Get]"]
  by (simp add: ex_qstore_def)

text \<open>
  \<open>sin_wi_queue_put_item\<close> on every branch: with no limit or below it the object goes to
  the end and the result is 0; at or above the limit the result is -1 and neither the
  queue's contents nor any link changes.
\<close>

theorem put_item_correct:
  assumes "q_repr s q xs" and "wi \<in> dom (links s)" and "wi \<notin> set xs" and "Suc (length xs) < 2 ^ 32"
  shows "\<exists>r s'. sin_wi_queue_put_item wi q maxqlen s = Some (r, s') \<and>
    (if 0 < maxqlen \<and> unat maxqlen \<le> length xs
     then r = -1 \<and> q_repr s' q xs \<and> links s' = links s
     else r = 0 \<and> q_repr s' q (xs @ [wi])) \<and>
    (\<forall>q'. q' \<noteq> q \<longrightarrow> queues s' q' = queues s q')"
proof (cases "0 < maxqlen \<and> unat maxqlen \<le> length xs")
  case True
  from assms(1) obtain qr where qr: "queues s q = Some qr" "lst_repr (links s) (q_list qr) xs"
    by (rule q_reprE)
  then have "q_length qr \<ge> maxqlen" using True lst_reprD(3) [OF qr(2)] by (simp add: word_le_nat_alt)
  with True put_item_full [OF qr(1)] qr(2) show ?thesis by (simp add: q_repr_def)
next
  case False
  then have room: "maxqlen = 0 \<or> length xs < unat maxqlen"
    by (auto simp: word_less_nat_alt unat_eq_zero_iff)
  have "links s wi \<noteq> None" using assms(2) by auto
  from put_item_repr [OF assms(1) this assms(3) room assms(4)] False show ?thesis by metis
qed

theorem put_item_correct_witness:
  "(\<exists>s'. sin_wi_queue_put_item 3 5 1 ex_qstore = Some (-1, s') \<and> q_repr s' 5 [1]) \<and>
   (\<exists>s'. sin_wi_queue_put_item 3 5 2 ex_qstore = Some (0, s') \<and> q_repr s' 5 [1, 3])"
  using put_item_correct [OF ex_qstore_repr, of 3 1] put_item_correct [OF ex_qstore_repr, of 3 2]
  by (simp add: ex_qstore_def) blast

text \<open>
  C35. Handing a whole list over and draining the queue: \<open>sin_wi_queue_put_items\<close> appends a
  non-empty list to the contents, \<open>sin_wi_queue_get_items\<close> appends the contents to the
  caller's list, returns their number and leaves the queue empty; neither touches another
  queue.
\<close>

theorem put_items_get_items_correct:
  assumes "q_repr s q xs" and "lst_repr (links s) l ys" and "ys \<noteq> []" and "set xs \<inter> set ys = {}"
    and "length xs + length ys < 2 ^ 32"
  shows "\<exists>s1 l' s2. sin_wi_queue_put_items l q s = Some s1 \<and> q_repr s1 q (xs @ ys) \<and>
    sin_wi_queue_get_items q SIN_LIST_RESET waitok row s1
      = Some (Return (of_nat (length xs + length ys)), l', s2) \<and>
    lst_repr (links s2) l' (xs @ ys) \<and> q_repr s2 q [] \<and>
    (\<forall>q'. q' \<noteq> q \<longrightarrow> queues s2 q' = queues s q')"
proof -
  obtain s1 where s1: "sin_wi_queue_put_items l q s = Some s1" "q_repr s1 q (xs @ ys)"
    "\<And>q'. q' \<noteq> q \<Longrightarrow> queues s1 q' = queues s q'"
    using put_items_repr [OF assms] by metis
  have "xs @ ys \<noteq> []" "lst_repr (links s1) SIN_LIST_RESET []" "set [] \<inter> set (xs @ ys) = {}"
    "length [] + length (xs @ ys) < 2 ^ 32" using assms(3,5) by simp_all
  from get_items_repr [OF s1(2) this, of waitok row]
  obtain l' s2 where s2: "sin_wi_queue_get_items q SIN_LIST_RESET waitok row s1
      = Some (Return (of_nat (length (xs @ ys))), l', s2)" "lst_repr (links s2) l' ([] @ (xs @ ys))"
    "q_repr s2 q []" "\<And>q'. q' \<noteq> q \<Longrightarrow> queues s2 q' = queues s1 q'" by metis
  show ?thesis
    using s1 s2 by (intro exI [of _ s1] exI [of _ l'] exI [of _ s2]) simp
qed

theorem put_items_get_items_correct_witness:
  "\<exists>s1 l' s2. sin_wi_queue_put_items \<lparr>lst_head = Some 3, lst_tail = Some 3, lst_len = 1\<rparr> 5 ex_qstore
      = Some s1 \<and> sin_wi_queue_get_items 5 SIN_LIST_RESET 1 1 s1 = Some (Return 2, l', s2) \<and>
    lst_repr (links s2) l' [1, 3]"
proof -
  let ?l = "\<lparr>lst_head = Some 3, lst_tail = Some 3, lst_len = 1\<rparr>"
  have "lst_repr (links ex_qstore) ?l [3]" by (simp add: lst_repr_def ex_qstore_def)
  from put_items_get_items_correct [OF ex_qstore_repr this, of 1 1] show ?thesis by auto
qed



end
