(* ===== verification/Sin_Wi_Queue_Sync.thy ===== *)
theory Sin_Wi_Queue_Sync
  imports Sin_Wi_Queue
begin

text \<open>
  One work-item queue shared by any number of threads, as a transition system: each step
  is one critical section of the queue's mutex, made by some thread. The readers use
  \<open>sin_wi_queue_get_items\<close>, as the transmit thread does; the writers are the three
  writing operations. A thread that sleeps in the condition variable may also wake
  spuriously, as POSIX allows.

  The point is the wake-up protocol: the counter \<open>nwait\<close> counts the threads inside
  \<open>pthread_cond_wait\<close> exactly, and whenever the queue holds work while a reader sleeps, a
  wake-up is already under way.
\<close>

definition spurious_wakeup :: "sin_wi_queue \<Rightarrow> sin_wi_queue" where
  "spurious_wakeup qr = qr\<lparr>q_cond := pthread_cond_signal (q_cond qr)\<rparr>"

definition threads_waiting :: "sin_wi_queue \<Rightarrow> nat" where
  "threads_waiting qr = asleep (q_cond qr) + woken (q_cond qr)"

text \<open>
  A reader only enters the queue while fewer than \<open>2 ^ 32 - 1\<close> threads wait in it: the
  number of threads of a process is far below that bound.
\<close>

inductive wiq_step :: "addr \<Rightarrow> 'a qstore_scheme \<Rightarrow> 'a qstore_scheme \<Rightarrow> bool" for q where
  put_item: "sin_wi_queue_put_item wi q maxqlen s = Some (r, s') \<Longrightarrow> wiq_step q s s'"
| put_items: "sin_wi_queue_put_items l q s = Some s' \<Longrightarrow> wiq_step q s s'"
| pump: "sin_wi_queue_pump q s = Some (n, s') \<Longrightarrow> wiq_step q s s'"
| get_items: "queues s q = Some qr \<Longrightarrow> Suc (threads_waiting qr) < 2 ^ 32 \<Longrightarrow>
    sin_wi_queue_get_items q l waitok row s = Some (r, l', s') \<Longrightarrow> wiq_step q s s'"
| wake: "queues s q = Some qr \<Longrightarrow> 0 < woken (q_cond qr) \<Longrightarrow>
    sin_wi_queue_get_items_wake q l waitok row s = Some (r, l', s') \<Longrightarrow> wiq_step q s s'"
| spurious: "queues s q = Some qr \<Longrightarrow> 0 < asleep (q_cond qr) \<Longrightarrow>
    wiq_step q s (s\<lparr>queues := (queues s)(q \<mapsto> spurious_wakeup qr)\<rparr>)"

text \<open>The states a queue can be in after \<open>sin_wi_queue_ctor\<close> created it in \<open>s0\<close>.\<close>

inductive wiq_reach :: "addr \<Rightarrow> 'a qstore_scheme \<Rightarrow> bool" for q where
  start: "os_ok s0 \<Longrightarrow> sin_wi_queue_ctor e s0 = Some (Some q, e', s) \<Longrightarrow> wiq_reach q s"
| step: "wiq_reach q s \<Longrightarrow> wiq_step q s s' \<Longrightarrow> wiq_reach q s'"

definition sync_ok :: "sin_wi_queue \<Rightarrow> bool" where
  "sync_ok qr \<longleftrightarrow> unat (q_nwait qr) = threads_waiting qr \<and>
     (q_head qr \<noteq> NULL \<and> 0 < asleep (q_cond qr) \<longrightarrow> 0 < woken (q_cond qr))"

definition sync_inv :: "addr \<Rightarrow> 'a qstore_scheme \<Rightarrow> bool" where
  "sync_inv q s \<longleftrightarrow> (\<exists>qr. queues s q = Some qr \<and> sync_ok qr)"

text \<open>
  A writer leaves the queue in order whatever it wrote: if a thread sleeps, the counter is
  positive and the signal moves it.
\<close>

lemma sync_ok_notify:
  assumes "unat (q_nwait qr) = threads_waiting qr"
  shows "sync_ok (notify_worker qr)"
proof -
  have "q_nwait qr > 0 \<longleftrightarrow> 0 < threads_waiting qr"
    using assms by (simp add: word_less_nat_alt)
  then show ?thesis
    using assms by (auto simp: sync_ok_def notify_worker_def threads_waiting_def
        pthread_cond_signal_def)
qed

lemma sync_ok_sleep:
  assumes "sync_ok qr" and "q_head qr = NULL" and "Suc (threads_waiting qr) < 2 ^ 32"
  shows "sync_ok (cond_sleep qr)"
  using assms unat_Suc_word [of "q_nwait qr"]
  by (simp add: sync_ok_def cond_sleep_def threads_waiting_def)

lemma count_resume:
  assumes "unat (q_nwait qr) = threads_waiting qr" and "0 < woken (q_cond qr)"
  shows "unat (q_nwait (cond_resume qr)) = threads_waiting (cond_resume qr)"
    and "Suc (threads_waiting (cond_resume qr)) = threads_waiting qr"
proof -
  from assms have "1 \<le> unat (q_nwait qr)" by (simp add: threads_waiting_def)
  then have "unat (q_nwait qr - 1) = unat (q_nwait qr) - 1"
    using unat_minus_word [of 1 "q_nwait qr"] by simp
  with assms show "unat (q_nwait (cond_resume qr)) = threads_waiting (cond_resume qr)"
    and "Suc (threads_waiting (cond_resume qr)) = threads_waiting qr"
    by (simp_all add: cond_resume_def threads_waiting_def)
qed

text \<open>A reader that takes the items empties the queue.\<close>

lemma take_items_sync:
  assumes "queues s q = Some qr" and "unat (q_nwait qr) = threads_waiting qr"
    and "take_items q l s = Some (r, l', s')"
  shows "sync_inv q s'"
  using assms
  by (auto simp: take_items_def SIN_TYPE_LINK_def sync_inv_def sync_ok_def Let_def
      threads_waiting_def split: if_splits option.splits Option.bind_splits)

lemma get_items_sync:
  assumes "queues s q = Some qr" and count: "unat (q_nwait qr) = threads_waiting qr"
    and "Suc (threads_waiting qr) < 2 ^ 32"
    and get: "sin_wi_queue_get_items q l waitok row s = Some (r, l', s')"
  shows "sync_inv q s'"
proof (cases "q_head qr = NULL")
  case True
  then have "sync_ok qr" using count by (simp add: sync_ok_def)
  then show ?thesis using assms True sync_ok_sleep [of qr]
    by (auto simp: sin_wi_queue_get_items_def sync_inv_def split: if_splits)
next
  case False
  then show ?thesis
    using get assms(1) take_items_sync [OF assms(1) count]
    by (auto simp: sin_wi_queue_get_items_def)
qed

lemma wiq_step_sync:
  assumes "wiq_step q s s'" and "sync_inv q s"
  shows "sync_inv q s'"
  using assms
proof (induction rule: wiq_step.induct)
  case (put_item wi maxqlen s r s')
  then show ?case
    using sync_ok_notify
    by (auto simp: sin_wi_queue_put_item_def SIN_TYPE_LINK_def sync_inv_def sync_ok_def
        threads_waiting_def Let_def split: if_splits option.splits Option.bind_splits)
next
  case (put_items l s s')
  then show ?case
    using sync_ok_notify
    by (auto simp: sin_wi_queue_put_items_def SIN_TYPE_LINK_def sync_inv_def sync_ok_def
        threads_waiting_def Let_def split: if_splits option.splits Option.bind_splits)
next
  case (pump s n s')
  then obtain qr where "queues s q = Some qr" "sync_ok qr" by (auto simp: sync_inv_def)
  with pump(1) sync_ok_notify [of qr] show ?case
    by (auto simp: sin_wi_queue_pump_def sync_inv_def sync_ok_def [of qr])
next
  case (get_items s qr l waitok row r l' s')
  then show ?case
    using get_items_sync [of s q qr] by (simp add: sync_inv_def sync_ok_def)
next
  case (wake s qr l waitok row r l' s')
  let ?s = "s\<lparr>queues := (queues s)(q \<mapsto> cond_resume qr)\<rparr>"
  from wake have count: "unat (q_nwait qr) = threads_waiting qr"
    by (simp add: sync_inv_def sync_ok_def)
  note res = count_resume [OF count wake(2)]
  show ?case
  proof (cases "q_head qr = NULL \<and> row \<noteq> 0")
    case True
    with wake res show ?thesis
      by (auto simp: sin_wi_queue_get_items_wake_def sync_inv_def sync_ok_def cond_resume_def)
  next
    case False
    with wake have "sin_wi_queue_get_items q l waitok row ?s = Some (r, l', s')"
      by (auto simp: sin_wi_queue_get_items_wake_def)
    moreover have "threads_waiting qr < 2 ^ 32"
      using count unat_u32_bound [of "q_nwait qr"] by simp
    ultimately show ?thesis
      using res get_items_sync [of ?s q "cond_resume qr"] by simp
  qed
next
  case (spurious s qr)
  then show ?case
    by (auto simp: sync_inv_def sync_ok_def spurious_wakeup_def pthread_cond_signal_def
        threads_waiting_def)
qed

lemma wiq_reach_sync: "wiq_reach q s \<Longrightarrow> sync_inv q s"
proof (induction rule: wiq_reach.induct)
  case (start s0 e e' s)
  show ?case
  proof (cases rule: sin_wi_queue_ctor_cases [OF start(1), where e = e])
    case (1 e' s')
    then show ?thesis using start(2) by simp
  next
    case (2 s')
    then show ?thesis using start(2)
      by (auto simp: sync_inv_def sync_ok_def threads_waiting_def sin_wi_queue_zero_def)
  qed
next
  case (step s s')
  then show ?case by (blast intro: wiq_step_sync)
qed

subsection \<open>Properties\<close>



end
