(* ===== verification/Sin_Mem.thy ===== *)
theory Sin_Mem
  imports Sin_Prelude
begin

text \<open>
  The byte-level routines of \<open>sin_mem_fast.h\<close>. Memory is a set of blocks, one per packet
  buffer: the block at base address \<open>p\<close> is the byte list \<open>m p\<close>, a pointer into it is the
  base and an offset, and an access outside the block is a memory error. \<open>sin_memswp\<close> is
  only ever applied to two places of one block.
\<close>

type_synonym bufs = "u64 \<rightharpoonup> u8 list"

subsection \<open>Swapping\<close>

text \<open>The loop of \<open>sin_memswp\<close>, from index \<open>i\<close> on, with \<open>n\<close> iterations to go.\<close>

primrec memswp_loop :: "nat \<Rightarrow> nat \<Rightarrow> nat \<Rightarrow> u8 list \<Rightarrow> u8 list option" where
  "memswp_loop 0 r1 r2 b = Some b"
| "memswp_loop (Suc n) r1 r2 b =
     (if r1 < length b \<and> r2 < length b then
        (let b = b[r1 := b ! r1 XOR b ! r2];
             b = b[r2 := b ! r1 XOR b ! r2];
             b = b[r1 := b ! r1 XOR b ! r2]
         in memswp_loop n (Suc r1) (Suc r2) b)
      else None)"

definition sin_memswp :: "nat \<Rightarrow> nat \<Rightarrow> u32 \<Rightarrow> u8 list \<Rightarrow> u8 list option" where
  "sin_memswp r1 r2 len b = memswp_loop (unat len) r1 r2 b"

text \<open>The specification: the byte at each position after the ranges are exchanged.\<close>

definition swapped :: "nat \<Rightarrow> nat \<Rightarrow> nat \<Rightarrow> u8 list \<Rightarrow> u8 list" where
  "swapped r1 r2 n b = map (\<lambda>i. if r1 \<le> i \<and> i < r1 + n then b ! (i - r1 + r2)
     else if r2 \<le> i \<and> i < r2 + n then b ! (i - r2 + r1) else b ! i) [0..<length b]"

lemma length_swapped [simp]: "length (swapped r1 r2 n b) = length b"
  by (simp add: swapped_def)

lemma nth_swapped: "i < length b \<Longrightarrow> swapped r1 r2 n b ! i =
    (if r1 \<le> i \<and> i < r1 + n then b ! (i - r1 + r2)
     else if r2 \<le> i \<and> i < r2 + n then b ! (i - r2 + r1) else b ! i)"
  by (simp add: swapped_def)

lemma memswp_loop_swaps:
  assumes "r1 + n \<le> r2 \<or> r2 + n \<le> r1" and "r1 + n \<le> length b" and "r2 + n \<le> length b"
  shows "memswp_loop n r1 r2 b = Some (swapped r1 r2 n b)"
  using assms
proof (induction n arbitrary: r1 r2 b)
  case 0
  have "swapped r1 r2 0 b = b" by (rule nth_equalityI) (auto simp: nth_swapped)
  then show ?case by simp
next
  case (Suc n)
  let ?b = "b[r1 := b ! r2, r2 := b ! r1]"
  from Suc.prems have ne: "r1 \<noteq> r2" and lt: "r1 < length b" "r2 < length b" by auto
  have "memswp_loop (Suc n) r1 r2 b = memswp_loop n (Suc r1) (Suc r2) ?b"
    using ne lt by (simp add: Let_def list_update_swap [of r2 r1])
  also have "\<dots> = Some (swapped (Suc r1) (Suc r2) n ?b)"
    using Suc.prems by (intro Suc.IH) auto
  also have "swapped (Suc r1) (Suc r2) n ?b = swapped r1 r2 (Suc n) b"
  proof (rule nth_equalityI)
    fix i assume "i < length (swapped (Suc r1) (Suc r2) n ?b)"
    then have i: "i < length b" by simp
    have nb: "j < length b \<Longrightarrow> j \<noteq> r1 \<Longrightarrow> j \<noteq> r2 \<Longrightarrow> ?b ! j = b ! j" for j
      by simp
    consider "i = r1" | "i = r2" | "Suc r1 \<le> i" "i < r1 + Suc n"
      | "Suc r2 \<le> i" "i < r2 + Suc n"
      | "i < r1 \<or> r1 + Suc n \<le> i" "i < r2 \<or> r2 + Suc n \<le> i" by linarith
    then show "swapped (Suc r1) (Suc r2) n ?b ! i = swapped r1 r2 (Suc n) b ! i"
    proof cases
      case 1
      then have "\<not> Suc r1 \<le> i" "\<not> (Suc r2 \<le> i \<and> i < Suc r2 + n)" using Suc.prems by auto
      with i 1 ne lt show ?thesis by (auto simp: nth_swapped)
    next
      case 2
      then have "\<not> (Suc r1 \<le> i \<and> i < Suc r1 + n)" "\<not> (r1 \<le> i \<and> i < r1 + Suc n)"
        using Suc.prems by auto
      with i 2 lt show ?thesis by (auto simp: nth_swapped)
    next
      case 3
      then obtain k where k: "i = Suc r1 + k" "k < n" using le_Suc_ex by force
      with Suc.prems have "Suc r2 + k < length b" "Suc r2 + k \<noteq> r1" by auto
      with i k show ?thesis by (simp add: nth_swapped nb)
    next
      case 4
      then obtain k where k: "i = Suc r2 + k" "k < n" using le_Suc_ex by force
      with Suc.prems have "Suc r1 + k < length b" "Suc r1 + k \<noteq> r2"
        "\<not> (Suc r1 \<le> i \<and> i < Suc r1 + n)" "\<not> (r1 \<le> i \<and> i < r1 + Suc n)" by auto
      with i k show ?thesis by (auto simp: nth_swapped nb)
    next
      case 5
      then have "\<not> (Suc r1 \<le> i \<and> i < Suc r1 + n)" "\<not> (r1 \<le> i \<and> i < r1 + Suc n)"
        "\<not> (Suc r2 \<le> i \<and> i < Suc r2 + n)" "\<not> (r2 \<le> i \<and> i < r2 + Suc n)"
        and ne': "i \<noteq> r1" "i \<noteq> r2" by auto
      with i nb [OF i ne'] show ?thesis by (simp only: nth_swapped length_list_update if_False)
    qed
  qed simp
  finally show ?case .
qed

text \<open>Two pointers to the same place: the three XORs clear the bytes instead.\<close>

lemma memswp_loop_alias:
  assumes "r + n \<le> length b"
  shows "memswp_loop n r r b = Some (take r b @ replicate n 0 @ drop (r + n) b)"
  using assms
proof (induction n arbitrary: r b)
  case 0
  then show ?case by simp
next
  case (Suc n)
  have "memswp_loop (Suc n) r r b = memswp_loop n (Suc r) (Suc r) (b[r := 0])"
    using Suc.prems by (simp add: Let_def)
  also have "\<dots> = Some (take (Suc r) (b[r := 0]) @ replicate n 0 @ drop (Suc r + n) b)"
    using Suc by simp
  also have "take (Suc r) (b[r := 0]) = take r b @ [0]"
    using Suc.prems by (simp add: take_Suc_conv_app_nth)
  finally show ?case by simp
qed

lemma swapped_involution:
  assumes "r1 + n \<le> r2 \<or> r2 + n \<le> r1" and "r1 + n \<le> length b" and "r2 + n \<le> length b"
  shows "swapped r1 r2 n (swapped r1 r2 n b) = b"
proof (rule nth_equalityI)
  fix i assume "i < length (swapped r1 r2 n (swapped r1 r2 n b))"
  then show "swapped r1 r2 n (swapped r1 r2 n b) ! i = b ! i"
    using assms by (auto simp: nth_swapped)
qed simp

subsection \<open>Copying\<close>

text \<open>
  \<open>*dst++ = *src++\<close> on \<open>uint64_t\<close> pointers that stand \<open>w\<close> words into their blocks: eight
  bytes are read and written.
\<close>

definition copy_word :: "u64 \<Rightarrow> u64 \<Rightarrow> nat \<Rightarrow> bufs \<Rightarrow> bufs option" where
  "copy_word src dst w m = do {
     sb \<leftarrow> m src;
     db \<leftarrow> m dst;
     if 8 * w + 8 \<le> length sb \<and> 8 * w + 8 \<le> length db then
       Some (m(dst \<mapsto> take (8 * w) db @ take 8 (drop (8 * w) sb) @ drop (8 * w + 8) db))
     else None
   }"

text \<open>The unrolled loop: 64 bytes per turn, while \<open>l > 0\<close>.\<close>

function memcpy_loop :: "u64 \<Rightarrow> u64 \<Rightarrow> nat \<Rightarrow> int \<Rightarrow> bufs \<Rightarrow> bufs option" where
  "memcpy_loop src dst w l m = (if l > 0 then do {
     m \<leftarrow> copy_word src dst w m;
     m \<leftarrow> copy_word src dst (w + 1) m;
     m \<leftarrow> copy_word src dst (w + 2) m;
     m \<leftarrow> copy_word src dst (w + 3) m;
     m \<leftarrow> copy_word src dst (w + 4) m;
     m \<leftarrow> copy_word src dst (w + 5) m;
     m \<leftarrow> copy_word src dst (w + 6) m;
     m \<leftarrow> copy_word src dst (w + 7) m;
     memcpy_loop src dst (w + 8) (l - 64) m
   } else Some m)"
  by pat_completeness auto
termination
  by (relation "measure (\<lambda>(src, dst, w, l, m). nat l)") auto

declare memcpy_loop.simps [simp del]

text \<open>\<open>memcpy\<close> of the C library, for the long packets.\<close>

definition libc_memcpy :: "u64 \<Rightarrow> u64 \<Rightarrow> nat \<Rightarrow> bufs \<Rightarrow> bufs option" where
  "libc_memcpy src dst n m = do {
     sb \<leftarrow> m src;
     db \<leftarrow> m dst;
     if n \<le> length sb \<and> n \<le> length db then Some (m(dst \<mapsto> take n sb @ drop n db)) else None
   }"

definition sin_memcpy :: "u64 \<Rightarrow> u64 \<Rightarrow> int \<Rightarrow> bufs \<Rightarrow> bufs option" where
  "sin_memcpy src dst l m =
     (if l \<ge> 1024 then libc_memcpy src dst (nat l) m else memcpy_loop src dst 0 l m)"

lemma copy_word_extends:
  assumes "src \<noteq> dst" and "m src = Some sb" and "m dst = Some (take (8 * w) sb @ drop (8 * w) db)"
    and "8 * w + 8 \<le> length sb" and "8 * w + 8 \<le> length db"
  shows "copy_word src dst w m =
    Some (m(dst \<mapsto> take (8 * Suc w) sb @ drop (8 * Suc w) db))"
proof -
  have "take (8 * w + 8) sb = take (8 * w) sb @ take 8 (drop (8 * w) sb)"
    by (simp add: take_add)
  moreover have "min (length sb) (8 * w) = 8 * w" using assms(4) by simp
  ultimately show ?thesis using assms by (simp add: copy_word_def add.commute)
qed

text \<open>Eight words at a time; \<open>k\<close> is the number of turns the loop makes.\<close>

lemma memcpy_loop_copies:
  assumes "src \<noteq> dst" and "m src = Some sb" and "m dst = Some (take (8 * w) sb @ drop (8 * w) db)"
    and "8 * w + 64 * k \<le> length sb" and "8 * w + 64 * k \<le> length db"
    and "l \<le> 64 * int k" and "64 * int k < l + 64"
  shows "memcpy_loop src dst w l m =
    Some (m(dst \<mapsto> take (8 * w + 64 * k) sb @ drop (8 * w + 64 * k) db))"
  using assms
proof (induction k arbitrary: w l m)
  case 0
  then have "m(dst \<mapsto> take (8 * w) sb @ drop (8 * w) db) = m" by (simp add: fun_upd_idem)
  with 0 show ?case by (simp add: memcpy_loop.simps)
next
  case (Suc k)
  define S where "S v = m(dst \<mapsto> take (8 * v) sb @ drop (8 * v) db)" for v
  have step: "copy_word src dst v (S v) = Some (S v')"
    if "v' = Suc v" "8 * v + 8 \<le> 8 * w + 64 * Suc k" for v v'
    using copy_word_extends [of src dst "S v" sb v db] Suc.prems that by (simp add: S_def)
  have m: "m = S w" using Suc.prems by (simp add: S_def fun_upd_idem)
  have "copy_word src dst w (S w) = Some (S (w + 1))"
    "copy_word src dst (w + 1) (S (w + 1)) = Some (S (w + 2))"
    "copy_word src dst (w + 2) (S (w + 2)) = Some (S (w + 3))"
    "copy_word src dst (w + 3) (S (w + 3)) = Some (S (w + 4))"
    "copy_word src dst (w + 4) (S (w + 4)) = Some (S (w + 5))"
    "copy_word src dst (w + 5) (S (w + 5)) = Some (S (w + 6))"
    "copy_word src dst (w + 6) (S (w + 6)) = Some (S (w + 7))"
    "copy_word src dst (w + 7) (S (w + 7)) = Some (S (w + 8))"
    by (rule step; simp)+
  moreover have "l > 0" using Suc.prems by simp
  ultimately have "memcpy_loop src dst w l (S w)
      = memcpy_loop src dst (w + 8) (l - 64) (S (w + 8))"
    by (simp add: memcpy_loop.simps [of src dst w l "S w"])
  also have "\<dots> = Some ((S (w + 8))(dst \<mapsto>
      take (8 * (w + 8) + 64 * k) sb @ drop (8 * (w + 8) + 64 * k) db))"
    using Suc.prems by (intro Suc.IH) (auto simp: S_def)
  also have "8 * (w + 8) + 64 * k = 8 * w + 64 * Suc k" by simp
  finally show ?case unfolding m by (simp only: S_def fun_upd_upd)
qed

text \<open>The number of bytes the short path writes: \<open>l\<close> rounded up to a multiple of 64.\<close>

definition round64 :: "nat \<Rightarrow> nat" where
  "round64 n = 64 * ((n + 63) div 64)"

lemma round64_bounds: "n \<le> round64 n" "round64 n < n + 64" "n \<le> 1024 \<Longrightarrow> round64 n \<le> 1024"
  by (simp_all add: round64_def)

definition memcpy_extent :: "nat \<Rightarrow> nat" where
  "memcpy_extent n = (if n \<ge> 1024 then n else round64 n)"

lemma sin_memcpy_copies:
  assumes "src \<noteq> dst" and "m src = Some sb" and "m dst = Some db"
    and "memcpy_extent n \<le> length sb" and "memcpy_extent n \<le> length db"
  shows "sin_memcpy src dst (int n) m =
    Some (m(dst \<mapsto> take (memcpy_extent n) sb @ drop (memcpy_extent n) db))"
proof (cases "n \<ge> 1024")
  case True
  then show ?thesis using assms by (simp add: sin_memcpy_def libc_memcpy_def memcpy_extent_def)
next
  case False
  define k where "k = (n + 63) div 64"
  have ext: "memcpy_extent n = 64 * k" using False by (simp add: memcpy_extent_def round64_def k_def)
  have "n \<le> 64 * k" "64 * k < n + 64" using round64_bounds [of n] by (simp_all add: round64_def k_def)
  then have "memcpy_loop src dst 0 (int n) m = Some (m(dst \<mapsto>
      take (8 * 0 + 64 * k) sb @ drop (8 * 0 + 64 * k) db))"
    using assms ext by (intro memcpy_loop_copies) simp_all
  then show ?thesis using False by (simp add: sin_memcpy_def ext)
qed

subsection \<open>Properties\<close>

text \<open>
  \<open>sin_memswp\<close> on two places of a buffer that do not overlap exchanges them and changes
  no other byte; on two equal places its XORs clear the bytes instead.
\<close>

theorem memswp_correct:
  assumes "r1 + unat n \<le> length b" and "r2 + unat n \<le> length b"
  shows "(r1 + unat n \<le> r2 \<or> r2 + unat n \<le> r1 \<longrightarrow>
      sin_memswp r1 r2 n b = Some (swapped r1 r2 (unat n) b) \<and>
      swapped r1 r2 (unat n) (swapped r1 r2 (unat n) b) = b) \<and>
    (r1 = r2 \<longrightarrow> sin_memswp r1 r2 n b
      = Some (take r1 b @ replicate (unat n) 0 @ drop (r1 + unat n) b))"
  using assms by (auto simp: sin_memswp_def memswp_loop_swaps memswp_loop_alias swapped_involution)

theorem memswp_correct_witness:
  "sin_memswp 0 3 2 [1, 2, 3, 4, 5] = Some (swapped 0 3 2 [1, 2, 3, 4, 5]) \<and>
   sin_memswp 1 1 2 [1, 2, 3, 4, 5] = Some (1 # replicate 2 0 @ [4, 5])"
  using memswp_correct [of 0 2 "[1, 2, 3, 4, 5]" 3] memswp_correct [of 1 2 "[1, 2, 3, 4, 5]" 1]
  by simp



end
