(* ===== verification/Sin_Ip4.thy ===== *)
theory Sin_Ip4
  imports Sin_Mem
begin

text \<open>
  The Internet checksum of \<open>sin_ip4.h\<close>. Multi-byte loads are those of a little-endian host
  (the x86 machines netmap runs on), so a 16-bit word is its first byte plus 256 times
  its second, and \<open>htons\<close> exchanges the two bytes. The accumulator \<open>int sum\<close> is a 32-bit word
  whose right shift is arithmetic; for the lengths of an IP header it stays far from the
  sign bit, which is part of what is proved.
\<close>

definition ld8 :: "u8 list \<Rightarrow> nat \<Rightarrow> u8 option" where
  "ld8 b i = (if i < length b then Some (b ! i) else None)"

definition le16 :: "u8 \<Rightarrow> u8 \<Rightarrow> u16" where
  "le16 lo hi = ucast lo + 256 * ucast hi"

definition ld16 :: "u8 list \<Rightarrow> nat \<Rightarrow> u16 option" where
  "ld16 b i = (if Suc i < length b then Some (le16 (b ! i) (b ! Suc i)) else None)"

definition st8 :: "u8 list \<Rightarrow> nat \<Rightarrow> u8 \<Rightarrow> u8 list option" where
  "st8 b i v = (if i < length b then Some (b[i := v]) else None)"

definition st16 :: "u8 list \<Rightarrow> nat \<Rightarrow> u16 \<Rightarrow> u8 list option" where
  "st16 b i v = (if Suc i < length b
     then Some (b[i := ucast v, Suc i := ucast (drop_bit 8 v)]) else None)"

text \<open>\<open>htons\<close> and \<open>ntohs\<close> on a little-endian host.\<close>

definition htons :: "u16 \<Rightarrow> u16" where
  "htons v = le16 (ucast (drop_bit 8 v)) (ucast v)"

text \<open>The loop \<open>while (nleft > 1)\<close>; \<open>w\<close> is the offset the pointer stands at.\<close>

function cksum_loop :: "u8 list \<Rightarrow> nat \<Rightarrow> int \<Rightarrow> u32 \<Rightarrow> (nat \<times> int \<times> u32) option" where
  "cksum_loop b w nleft wsum = (if nleft > 1 then do {
     x \<leftarrow> ld16 b w;
     cksum_loop b (w + 2) (nleft - 2) (wsum + ucast x)
   } else Some (w, nleft, wsum))"
  by pat_completeness auto
termination
  by (relation "measure (\<lambda>(b, w, nleft, wsum). nat nleft)") auto

declare cksum_loop.simps [simp del]

text \<open>
  The odd byte goes through a union of a \<open>uint16_t\<close> and a \<open>uint16_t[2]\<close>: the word read back
  is the byte itself.
\<close>

definition sin_ip4_cksum :: "u8 list \<Rightarrow> nat \<Rightarrow> int \<Rightarrow> u16 option" where
  "sin_ip4_cksum b addr len = do {
     (w, nleft, wsum) \<leftarrow> cksum_loop b addr len 0;
     wsum \<leftarrow> (if nleft = 1 then do { c \<leftarrow> ld8 b w; Some (wsum + ucast c) } else Some wsum);
     let wsum = signed_drop_bit 16 wsum + (wsum AND 0xffff);
     let wsum = wsum + signed_drop_bit 16 wsum;
     Some (ucast (NOT wsum))
   }"

subsection \<open>The specification: one's-complement sums\<close>

text \<open>The plain sum of the 16-bit words of a byte sequence, an odd last byte alone.\<close>

fun word_sum :: "u8 list \<Rightarrow> nat" where
  "word_sum [] = 0"
| "word_sum [x] = unat x"
| "word_sum (x # y # r) = unat x + 256 * unat y + word_sum r"

text \<open>
  The one's-complement value of a sum: the number from 1 to 65535 congruent to it modulo
  65535, or 0 for the sum 0. A header is valid when its words, checksum included, add up
  to 65535 in this arithmetic (RFC 1071).
\<close>

definition ones_sum :: "nat \<Rightarrow> nat" where
  "ones_sum n = (if n = 0 then 0 else (n - 1) mod 65535 + 1)"

definition cksum_valid :: "u8 list \<Rightarrow> bool" where
  "cksum_valid bs \<longleftrightarrow> ones_sum (word_sum bs) = 65535"

lemma unat_u8_bound: "unat (x :: u8) < 256"
  using unsigned_less [of x, where ?'a = nat] by simp

lemma unat_u16_bound: "unat (x :: u16) < 65536"
  using unsigned_less [of x, where ?'a = nat] by simp

lemma unat_ucast_simps [simp]:
  "unat (ucast (x :: u8) :: u16) = unat x"
  "unat (ucast (x :: u8) :: u32) = unat x"
  "unat (ucast (y :: u16) :: u32) = unat y"
  using unat_u8_bound [of x] unat_u16_bound [of y]
  by (simp_all add: unsigned_ucast_eq take_bit_nat_eq_self_iff)

lemma unat_le16: "unat (le16 lo hi) = unat lo + 256 * unat hi"
  using unat_u8_bound [of lo] unat_u8_bound [of hi]
  by (simp add: le16_def unat_word_ariths)

lemma word_sum_bound: "word_sum bs \<le> 65535 * ((length bs + 1) div 2)"
proof (induction bs rule: word_sum.induct)
  case (2 x)
  then show ?case using unat_u8_bound [of x] by simp
next
  case (3 x y r)
  then show ?case using unat_u8_bound [of x] unat_u8_bound [of y] by simp
qed simp

lemma ones_sum_bound: "ones_sum n \<le> 65535"
  using mod_less_divisor [of 65535 "n - 1"] by (auto simp: ones_sum_def)

lemma ones_sum_full: "ones_sum n = 65535 \<longleftrightarrow> n \<noteq> 0 \<and> n mod 65535 = 0"
  by (cases n) (auto simp: ones_sum_def mod_Suc)

subsection \<open>The checksum computes the one's-complement sum\<close>

lemma take2: "Suc (Suc 0) \<le> n \<Longrightarrow> Suc w < length b \<Longrightarrow>
    take n (drop w b) = b ! w # b ! Suc w # take (n - 2) (drop (w + 2) b)"
  by (simp add: Cons_nth_drop_Suc [symmetric] take_Cons' numeral_eq_Suc)

lemma cksum_loop_sum:
  assumes "0 \<le> nleft" and "w + nat nleft \<le> length b"
    and "unat wsum + word_sum (take (nat nleft) (drop w b)) < 2 ^ 32"
  shows "\<exists>w' nl s'. cksum_loop b w nleft wsum = Some (w', nl, s') \<and>
    ((nl = 0 \<and> unat s' = unat wsum + word_sum (take (nat nleft) (drop w b))) \<or>
     (nl = 1 \<and> w' < length b \<and>
       unat s' + unat (b ! w') = unat wsum + word_sum (take (nat nleft) (drop w b))))"
  using assms
proof (induction b w nleft wsum rule: cksum_loop.induct)
  case (1 b w nleft wsum)
  show ?case
  proof (cases "nleft > 1")
    case True
    let ?x = "le16 (b ! w) (b ! Suc w)"
    have ld: "ld16 b w = Some ?x" using True "1.prems" by (simp add: ld16_def)
    have tk: "take (nat nleft) (drop w b)
        = b ! w # b ! Suc w # take (nat (nleft - 2)) (drop (w + 2) b)"
      using take2 [of "nat nleft" w b] True "1.prems" by (simp add: nat_diff_distrib)
    have u: "unat (wsum + ucast ?x) = unat wsum + unat (b ! w) + 256 * unat (b ! Suc w)"
      using "1.prems"(3) tk unat_plus_word [of wsum "ucast ?x"] by (simp add: unat_le16)
    show ?thesis
      using "1.IH" [OF True ld] True ld tk u "1.prems"
      by (simp add: cksum_loop.simps [of b w nleft wsum] add.assoc)
  next
    case False
    with "1.prems" consider "nleft = 0" | "nleft = 1" by linarith
    then show ?thesis
    proof cases
      case 1
      then show ?thesis by (simp add: cksum_loop.simps [of b w 0 wsum])
    next
      case 2
      with "1.prems" have "w < length b" by simp
      then have "take (Suc 0) (drop w b) = [b ! w]" by (simp add: take_Suc_conv_app_nth)
      with 2 \<open>w < length b\<close> show ?thesis by (simp add: cksum_loop.simps [of b w 1 wsum])
    qed
  qed
qed

text \<open>The two folding steps on the accumulator, on its value.\<close>

lemma unat_fold_parts:
  assumes "unat (x :: u32) < 2 ^ 31"
  shows "unat (signed_drop_bit 16 x) = unat x div 65536"
    and "unat (x AND 0xffff) = unat x mod 65536"
proof -
  have "\<not> bit (unat x) 31" using assms by (simp add: bit_iff_odd)
  then have "\<not> bit x 31" by (simp add: bit_unsigned_iff)
  then have "signed_drop_bit 16 x = drop_bit 16 x"
    by (intro bit_word_eqI) (auto simp: bit_signed_drop_bit_iff bit_drop_bit_eq dest: bit_imp_le_length)
  then show "unat (signed_drop_bit 16 x) = unat x div 65536"
    by (simp add: drop_bit_eq_div unat_div)
  have "x AND 0xffff = take_bit 16 x" by (simp add: take_bit_eq_mask mask_eq_exp_minus_1)
  then show "unat (x AND 0xffff) = unat x mod 65536"
    by (simp add: take_bit_eq_mod unat_mod)
qed

lemma unat_not_ucast: "unat (ucast (NOT (x :: u32)) :: u16) = 65535 - unat x mod 65536"
proof -
  have "ucast (NOT x) = NOT (ucast x :: u16)"
    by (rule bit_word_eqI) (simp add: bit_simps)
  moreover have "unat (ucast x :: u16) = unat x mod 65536"
    by (simp add: unsigned_ucast_eq take_bit_eq_mod)
  moreover have "unat (NOT y) = 65535 - unat y" for y :: u16
  proof -
    have "NOT y = - 1 - y" by (simp add: not_eq_complement)
    moreover have "y \<le> - 1" by simp
    moreover have "unat (- 1 :: u16) = 65535"
      by (simp add: unsigned_minus_1_eq_mask mask_eq_exp_minus_1)
    ultimately show ?thesis by (simp add: unat_sub)
  qed
  ultimately show ?thesis by simp
qed

lemma fold_is_ones_sum:
  assumes "n \<le> 65535 * 65535"
  defines "m \<equiv> n div 65536 + n mod 65536"
  shows "(m + m div 65536) mod 65536 = ones_sum n"
proof -
  have n: "n = 65535 * (n div 65536) + m" by (simp add: m_def)
  have "m < 2 * 65535" using assms(1) by (simp add: m_def)
  then consider "m = 0" | "0 < m" "m < 65536" | "65536 \<le> m" "m < 2 * 65535" by linarith
  then show ?thesis
  proof cases
    case 1
    then show ?thesis using n by (simp add: ones_sum_def m_def)
  next
    case 2
    then have "n - 1 = (m - 1) + 65535 * (n div 65536)" using n by linarith
    then have "(n - 1) mod 65535 = (m - 1) mod 65535" by (simp only: mod_mult_self2)
    moreover have "n \<noteq> 0" "m div 65536 = 0" using 2 n by simp_all
    ultimately show ?thesis using 2 by (simp add: ones_sum_def)
  next
    case 3
    then have "n - 1 = (m - 65536) + 65535 * Suc (n div 65536)" using n by simp
    then have "(n - 1) mod 65535 = (m - 65536) mod 65535" by (simp only: mod_mult_self2)
    moreover have "n \<noteq> 0" "m div 65536 = 1" "(m + 1) mod 65536 = m - 65535"
      using 3 n by (simp_all add: mod_if)
    ultimately show ?thesis using 3 by (simp add: ones_sum_def)
  qed
qed

text \<open>
  The main fact about the routine: for any buffer and any length up to 65535 that lies inside
  it, the result is the complement of the one's-complement sum.
\<close>

lemma sin_ip4_cksum_spec:
  assumes "addr + len \<le> length b" and "len < 65536"
  shows "\<exists>c. sin_ip4_cksum b addr (int len) = Some c \<and>
    unat c = 65535 - ones_sum (word_sum (take len (drop addr b)))"
proof -
  let ?n = "word_sum (take len (drop addr b))"
  have n: "?n \<le> 32768 * 65535"
    using word_sum_bound [of "take len (drop addr b)"] assms by simp
  obtain w nl x where loop: "cksum_loop b addr (int len) 0 = Some (w, nl, x)"
    and x: "(nl = 0 \<and> unat x = ?n) \<or>
      (nl = 1 \<and> w < length b \<and> unat x + unat (b ! w) = ?n)"
    using cksum_loop_sum [of "int len" addr b 0] assms n by auto
  define y where "y = (if nl = 1 then x + ucast (b ! w) else x)"
  have y: "unat y = ?n"
    using x n unat_plus_word [of x "ucast (b ! w)"] by (auto simp: y_def)
  define z where "z = signed_drop_bit 16 y + (y AND 0xffff)"
  have z: "unat z = ?n div 65536 + ?n mod 65536"
    using y n unat_fold_parts [of y] unat_plus_word [of "signed_drop_bit 16 y" "y AND 0xffff"]
    by (simp add: z_def)
  define v where "v = z + signed_drop_bit 16 z"
  have v: "unat v = unat z + unat z div 65536"
    using z n unat_fold_parts [of z] unat_plus_word [of z "signed_drop_bit 16 z"]
    by (simp add: v_def)
  have "sin_ip4_cksum b addr (int len) = Some (ucast (NOT v))"
    using loop x by (auto simp: sin_ip4_cksum_def ld8_def y_def z_def v_def Let_def)
  moreover have "unat v mod 65536 = ones_sum ?n"
    using fold_is_ones_sum [of ?n] n v z by simp
  ultimately show ?thesis using unat_not_ucast [of v] by simp
qed

subsection \<open>Sums over a range of a buffer\<close>

lemma word_sum_range:
  "w + 2 * n \<le> length b \<Longrightarrow> word_sum (take (2 * n) (drop w b)) =
    (\<Sum>k < n. unat (b ! (w + 2 * k)) + 256 * unat (b ! (w + 2 * k + 1)))"
proof (induction n arbitrary: w)
  case 0
  then show ?case by simp
next
  case (Suc n)
  have "take (2 * Suc n) (drop w b) = b ! w # b ! Suc w # take (2 * n) (drop (w + 2) b)"
    using take2 [of "2 * Suc n" w b] Suc.prems by simp
  then show ?case using Suc.IH [of "w + 2"] Suc.prems
    by (simp add: sum.lessThan_Suc_shift add.assoc del: sum.lessThan_Suc)
qed

lemma word_sum_drop:
  "w + 1 < length b \<Longrightarrow> word_sum (drop w b) =
    unat (b ! w) + 256 * unat (b ! (w + 1)) + word_sum (drop (w + 2) b)"
  by (simp add: Cons_nth_drop_Suc [symmetric])

text \<open>Loading a stored word gives it back, and storing writes just those two bytes.\<close>

lemma le16_split: "le16 (ucast v) (ucast (drop_bit 8 v)) = v"
proof (rule unsigned_word_eqI)
  have "unat (ucast v :: u8) = unat v mod 256"
    by (simp add: unsigned_ucast_eq take_bit_eq_mod)
  moreover have "unat (ucast (drop_bit 8 v) :: u8) = unat v div 256"
    using unat_u16_bound [of v]
    by (simp add: unsigned_ucast_eq take_bit_eq_mod unsigned_drop_bit_eq drop_bit_eq_div
        unat_div)
  ultimately show "unat (le16 (ucast v) (ucast (drop_bit 8 v))) = unat v"
    by (simp add: unat_le16)
qed

text \<open>Replacing one 16-bit word of a range, and completing a sum to a full one.\<close>

lemma word_sum_update:
  "2 * j + 1 < length xs \<Longrightarrow> word_sum (xs[2 * j := a, 2 * j + 1 := b])
    + unat (xs ! (2 * j)) + 256 * unat (xs ! (2 * j + 1)) = word_sum xs + unat a + 256 * unat b"
proof (induction j arbitrary: xs)
  case 0
  then obtain x y zs where "xs = x # y # zs" by (cases xs rule: word_sum.cases) auto
  then show ?case by simp
next
  case (Suc j)
  then obtain x y zs where xs: "xs = x # y # zs" by (cases xs rule: word_sum.cases) auto
  with Suc.prems have "2 * j + 1 < length zs" by simp
  from Suc.IH [OF this] xs show ?case by simp
qed

lemma word_parts: "unat (ucast c :: u8) + 256 * unat (ucast (drop_bit 8 c) :: u8) = unat (c :: u16)"
  by (simp flip: unat_le16 add: le16_split)

lemma ones_sum_complement:
  assumes "k = 65535 - ones_sum n"
  shows "ones_sum (n + k) = 65535"
proof (cases "n = 0")
  case True
  then show ?thesis using assms by (simp add: ones_sum_def)
next
  case False
  define q m where "q = (n - 1) div 65535" and "m = (n - 1) mod 65535"
  have n: "n = q * 65535 + m + 1" and m: "m < 65535" using False by (simp_all add: q_def m_def)
  have "ones_sum n = m + 1" using False by (simp add: ones_sum_def m_def)
  with assms n m have "n + k = (q + 1) * 65535" by simp
  then show ?thesis by (simp add: ones_sum_full)
qed

subsection \<open>Properties\<close>

text \<open>
  C34. \<open>sin_ip4_cksum\<close>, with its 32-bit accumulator, its two folds and its signed shift,
  returns the complement of the one's-complement sum of the 16-bit words of the range, for
  every range of less than 64 KiB inside the buffer.
\<close>

theorem cksum_correct:
  assumes "addr + len \<le> length b" and "len < 65536"
  shows "\<exists>c. sin_ip4_cksum b addr (int len) = Some c \<and>
    unat c = 65535 - ones_sum (word_sum (take len (drop addr b)))"
  by (rule sin_ip4_cksum_spec [OF assms])

theorem cksum_correct_witness:
  "\<exists>c. sin_ip4_cksum [0x45, 0, 0, 0x1c, 9] 0 5 = Some c \<and>
     unat c = 65535 - ones_sum (word_sum [0x45, 0, 0, 0x1c, 9])"
  using cksum_correct [of 0 5 "[0x45, 0, 0, 0x1c, 9]"] by simp

text \<open>
  Filling a checksum in makes a range valid: with the 16-bit word at an even offset of
  the range zeroed first, storing what \<open>sin_ip4_cksum\<close> returns there gives a range whose
  one's-complement sum is full.
\<close>

theorem cksum_fill_valid:
  assumes "addr + len \<le> length b" and "len < 65536" and "2 * j + 1 < len"
    and "b ! (addr + 2 * j) = 0" and "b ! (addr + 2 * j + 1) = 0"
  shows "\<exists>c b'. sin_ip4_cksum b addr (int len) = Some c \<and> st16 b (addr + 2 * j) c = Some b' \<and>
    cksum_valid (take len (drop addr b'))"
proof -
  let ?r = "take len (drop addr b)" and ?S = "word_sum (take len (drop addr b))"
  obtain c where c: "sin_ip4_cksum b addr (int len) = Some c" "unat c = 65535 - ones_sum ?S"
    using sin_ip4_cksum_spec [OF assms(1,2)] by blast
  let ?b' = "b[addr + 2 * j := ucast c, Suc (addr + 2 * j) := ucast (drop_bit 8 c)]"
  have st: "st16 b (addr + 2 * j) c = Some ?b'" using assms by (simp add: st16_def)
  have r': "take len (drop addr ?b') = ?r[2 * j := ucast c, 2 * j + 1 := ucast (drop_bit 8 c)]"
  proof (rule nth_equalityI)
    fix i assume "i < length (take len (drop addr ?b'))"
    then show "take len (drop addr ?b') ! i
        = ?r[2 * j := ucast c, 2 * j + 1 := ucast (drop_bit 8 c)] ! i"
      using assms(1,3) by (cases "i = 2 * j"; cases "i = 2 * j + 1") simp_all
  qed simp
  have "?r ! (2 * j) = 0" "?r ! (2 * j + 1) = 0" "2 * j + 1 < length ?r"
    using assms by (simp_all add: add.assoc)
  with word_sum_update [of j ?r] have "word_sum (take len (drop addr ?b')) = ?S + unat c"
    by (simp add: r' word_parts)
  moreover have "ones_sum (?S + unat c) = 65535"
    using c(2) by (rule ones_sum_complement)
  ultimately show ?thesis using c(1) st by (intro exI [of _ c] exI [of _ ?b']) (simp add: cksum_valid_def)
qed

theorem cksum_fill_valid_witness:
  "\<exists>c b'. sin_ip4_cksum [0x45, 1, 0, 0, 9] 0 5 = Some c \<and> st16 [0x45, 1, 0, 0, 9] (0 + 2 * 1) c = Some b' \<and>
     cksum_valid (take 5 b')"
  using cksum_fill_valid [of 0 5 "[0x45, 1, 0, 0, 9]" 1] by simp

end
