(* ===== verification/Sin_Pkt.thy ===== *)
theory Sin_Pkt
  imports Sin_Wi_Queue Sin_Ip4
begin

text \<open>
  Packets (\<open>sin_pkt.h\<close>, \<open>sin_pkt.c\<close>) and the store of the data path: netmap rings with their
  slots, packet descriptors, packet buffers. The descriptor of slot \<open>i\<close> of a ring is
  created once and stays with the slot; what travels between rings is the buffer.

  netmap itself is not part of this repository. Of its structures the model keeps the
  fields the library touches; its inline functions and constants are the fields of the
  parameter \<open>nm\<close>, about which the theorems assume no more than \<open>netmap_ok\<close>, the
  definitions that \<open>netmap_user.h\<close> documents.
\<close>

type_synonym timeval = "int \<times> int"

record netmap_slot =
  s_buf_idx :: u32
  s_len :: u16
  s_flags :: u16

record netmap_ring =
  num_slots :: u32
  r_head :: u32
  r_cur :: u32
  r_tail :: u32
  r_ts :: timeval
  r_slots :: "netmap_slot list"

record netmap_api =
  nm_ring_next :: "netmap_ring \<Rightarrow> u32 \<Rightarrow> u32"
  nm_ring_empty :: "netmap_ring \<Rightarrow> bool"
  NETMAP_BUF :: "addr \<Rightarrow> u32 \<Rightarrow> u64"
  NS_BUF_CHANGED :: u16

definition netmap_ok :: "netmap_api \<Rightarrow> bool" where
  "netmap_ok nm \<longleftrightarrow>
     (\<forall>r i. nm_ring_next nm r i = (if i + 1 = num_slots r then 0 else i + 1)) \<and>
     (\<forall>r. nm_ring_empty nm r \<longleftrightarrow> r_cur r = r_tail r)"

definition SPKT_BUSY :: u32 where
  "SPKT_BUSY = 0x1"

record sin_pkt =
  p_type :: u32
  my_zone :: addr
  my_ring :: addr
  my_slot :: "addr \<times> nat"
  zone_idx :: u32
  p_ts :: addr
  p_buf :: u64
  p_len :: u32
  p_flags :: u32

record sin_pkt_zone =
  z_type :: u32
  z_netmap_fd :: int
  z_pmap_blk :: addr
  z_pmap :: "addr list"
  z_pvt :: addr
  z_num_slots :: int

record pstore = qstore +
  rings :: "addr \<rightharpoonup> netmap_ring"
  pkts :: "addr \<rightharpoonup> sin_pkt"
  zones :: "addr \<rightharpoonup> sin_pkt_zone"
  times :: "addr \<rightharpoonup> timeval"
  mem :: bufs

subsection \<open>Access to slots and descriptors\<close>

definition get_slot :: "addr \<times> nat \<Rightarrow> 'a pstore_scheme \<Rightarrow> netmap_slot option" where
  "get_slot sl s = (case rings s (fst sl) of None \<Rightarrow> None
     | Some r \<Rightarrow> if snd sl < length (r_slots r) then Some (r_slots r ! snd sl) else None)"

definition upd_slot ::
  "addr \<times> nat \<Rightarrow> (netmap_slot \<Rightarrow> netmap_slot) \<Rightarrow> 'a pstore_scheme \<Rightarrow> 'a pstore_scheme option" where
  "upd_slot sl f s = (case rings s (fst sl) of None \<Rightarrow> None
     | Some r \<Rightarrow> if snd sl < length (r_slots r)
         then Some (s\<lparr>rings := (rings s)(fst sl \<mapsto>
           r\<lparr>r_slots := (r_slots r)[snd sl := f (r_slots r ! snd sl)]\<rparr>)\<rparr>)
         else None)"

definition upd_pkt ::
  "addr \<Rightarrow> (sin_pkt \<Rightarrow> sin_pkt) \<Rightarrow> 'a pstore_scheme \<Rightarrow> 'a pstore_scheme option" where
  "upd_pkt p f s = (case pkts s p of None \<Rightarrow> None
     | Some pk \<Rightarrow> Some (s\<lparr>pkts := (pkts s)(p \<mapsto> f pk)\<rparr>))"

subsection \<open>Construction and destruction\<close>

definition sin_pkt_zero :: sin_pkt where
  "sin_pkt_zero = \<lparr>p_type = 0, my_zone = 0, my_ring = 0, my_slot = (0, 0), zone_idx = 0,
     p_ts = 0, p_buf = 0, p_len = 0, p_flags = 0\<rparr>"

text \<open>
  The second allocation is not checked: \<open>memset\<close> on a \<open>NULL\<close> \<open>ts\<close> is a memory error. The
  result of \<open>pthread_mutex_init\<close> is ignored.
\<close>

definition sin_pkt_ctor :: "netmap_api \<Rightarrow> addr \<Rightarrow> nat \<Rightarrow> addr \<Rightarrow> errno option \<Rightarrow> 'a pstore_scheme \<Rightarrow>
  (ptr \<times> errno option \<times> 'a pstore_scheme) option" where
  "sin_pkt_ctor nm zone idx ring e s = (case malloc s of
     (None, s) \<Rightarrow> Some (NULL, SET_ERR e ENOMEM, s)
   | (Some pkt, s) \<Rightarrow> (case malloc s of
       (None, s) \<Rightarrow> None
     | (Some ts, s) \<Rightarrow> do {
         let s = s\<lparr>times := (times s)(ts \<mapsto> (0, 0))\<rparr>;
         slot \<leftarrow> get_slot (ring, idx) s;
         let pk = sin_pkt_zero\<lparr>p_type := SIN_TYPE_PKT, p_ts := ts, my_zone := zone,
           my_ring := ring, zone_idx := of_nat idx, my_slot := (ring, idx),
           p_buf := NETMAP_BUF nm ring (s_buf_idx slot)\<rparr>;
         let s = snd (pthread_mutex_init pkt s);
         Some (Some pkt, e, s\<lparr>pkts := (pkts s)(pkt \<mapsto> pk), links := (links s)(pkt \<mapsto> NULL)\<rparr>)
       }))"

definition sin_pkt_dtor :: "addr \<Rightarrow> 'a pstore_scheme \<Rightarrow> 'a pstore_scheme option" where
  "sin_pkt_dtor pkt s = do {
     pk \<leftarrow> pkts s pkt;
     s \<leftarrow> pthread_mutex_destroy pkt s;
     s \<leftarrow> free (p_ts pk) s;
     s \<leftarrow> free pkt s;
     Some (s\<lparr>pkts := (pkts s)(pkt := None), links := (links s)(pkt := None),
       times := (times s)(p_ts pk := None)\<rparr>)
   }"

subsection \<open>Flags\<close>

definition sin_pkt_setflags ::
  "addr \<Rightarrow> u32 \<Rightarrow> u32 \<Rightarrow> 'a pstore_scheme \<Rightarrow> (u32 \<times> 'a pstore_scheme) option" where
  "sin_pkt_setflags pkt sflags rflags s = do {
     pk \<leftarrow> pkts s pkt;
     let oldflags = p_flags pk;
     let pk = pk\<lparr>p_flags := p_flags pk OR sflags\<rparr>;
     let pk = pk\<lparr>p_flags := p_flags pk AND NOT rflags\<rparr>;
     Some (oldflags, s\<lparr>pkts := (pkts s)(pkt \<mapsto> pk)\<rparr>)
   }"

definition sin_pkt_isbusy :: "addr \<Rightarrow> 'a pstore_scheme \<Rightarrow> u32 option" where
  "sin_pkt_isbusy pkt s = do { pk \<leftarrow> pkts s pkt; Some (p_flags pk AND SPKT_BUSY) }"

definition is_busy :: "sin_pkt \<Rightarrow> bool" where
  "is_busy pk \<longleftrightarrow> bit (p_flags pk) 0"

lemma and_busy_eq: "(w :: u32) AND SPKT_BUSY = of_bool (bit w 0)"
  by (simp add: SPKT_BUSY_def and_one_eq bit_0 mod2_eq_if)

lemma sin_pkt_isbusy_iff:
  "pkts s p = Some pk \<Longrightarrow> sin_pkt_isbusy p s = Some (of_bool (is_busy pk))"
  by (simp add: sin_pkt_isbusy_def and_busy_eq is_busy_def)

text \<open>Setting and clearing the busy bit, and what the flag word is afterwards.\<close>

lemma setflags_bits:
  assumes "sin_pkt_setflags p sf rf s = Some (old, s')" and "pkts s p = Some pk"
  shows "old = p_flags pk" and "\<exists>pk'. pkts s' p = Some pk' \<and> pk' = pk\<lparr>p_flags := p_flags pk'\<rparr>
    \<and> (\<forall>n < 32. bit (p_flags pk') n \<longleftrightarrow> (bit (p_flags pk) n \<or> bit sf n) \<and> \<not> bit rf n)"
  using assms by (auto simp: sin_pkt_setflags_def Let_def bit_simps)

definition mark_busy :: "sin_pkt \<Rightarrow> sin_pkt" where
  "mark_busy pk = pk\<lparr>p_flags := p_flags pk OR SPKT_BUSY\<rparr>"

definition mark_free :: "sin_pkt \<Rightarrow> sin_pkt" where
  "mark_free pk = pk\<lparr>p_flags := p_flags pk AND NOT SPKT_BUSY\<rparr>"

lemma is_busy_mark [simp]: "is_busy (mark_busy pk)" "\<not> is_busy (mark_free pk)"
  by (simp_all add: is_busy_def mark_busy_def mark_free_def SPKT_BUSY_def bit_simps)

lemma setflags_busy: "pkts s p = Some pk \<Longrightarrow>
    sin_pkt_setflags p SPKT_BUSY 0 s = Some (p_flags pk, s\<lparr>pkts := (pkts s)(p \<mapsto> mark_busy pk)\<rparr>)"
  by (simp add: sin_pkt_setflags_def mark_busy_def)

lemma setflags_free: "pkts s p = Some pk \<Longrightarrow>
    sin_pkt_setflags p 0 SPKT_BUSY s = Some (p_flags pk, s\<lparr>pkts := (pkts s)(p \<mapsto> mark_free pk)\<rparr>)"
  by (simp add: sin_pkt_setflags_def mark_free_def)

subsection \<open>Slots\<close>

lemma get_slot_Some: "get_slot sl s = Some x \<longleftrightarrow> (\<exists>r. rings s (fst sl) = Some r \<and>
    snd sl < length (r_slots r) \<and> x = r_slots r ! snd sl)"
  by (auto simp: get_slot_def split: option.splits)

text \<open>
  All slots of the store as one map. Writing a slot is one update of that map and leaves
  the rest of the store and the ring headers alone (\<open>ring_frame\<close>).
\<close>

definition slots :: "'a pstore_scheme \<Rightarrow> addr \<times> nat \<Rightarrow> netmap_slot option" where
  "slots s sl = get_slot sl s"

lemma slots_fun: "get_slot sl s = slots s sl"
  by (simp add: slots_def)

definition ring_hdr :: "netmap_ring \<Rightarrow> netmap_ring \<times> nat" where
  "ring_hdr r = (r\<lparr>r_slots := []\<rparr>, length (r_slots r))"

definition ring_frame :: "'a pstore_scheme \<Rightarrow> 'a pstore_scheme \<Rightarrow> bool" where
  "ring_frame s s' \<longleftrightarrow> s' = s\<lparr>rings := rings s'\<rparr> \<and>
     (\<forall>a. map_option ring_hdr (rings s' a) = map_option ring_hdr (rings s a))"

lemma ring_frame_trans: "ring_frame s s' \<Longrightarrow> ring_frame s' s'' \<Longrightarrow> ring_frame s s''"
  by (cases s; cases s'; cases s'') (simp add: ring_frame_def)

lemma ring_frame_simps:
  assumes "ring_frame s s'"
  shows "pkts s' = pkts s" "links s' = links s" "zones s' = zones s" "mem s' = mem s"
    "queues s' = queues s" "times s' = times s" "os_live s' = os_live s"
proof -
  from assms have e: "s' = s\<lparr>rings := rings s'\<rparr>" by (simp add: ring_frame_def)
  show "pkts s' = pkts s" by (subst e) simp
  show "links s' = links s" by (subst e) simp
  show "zones s' = zones s" by (subst e) simp
  show "mem s' = mem s" by (subst e) simp
  show "queues s' = queues s" by (subst e) simp
  show "times s' = times s" by (subst e) simp
  show "os_live s' = os_live s" by (subst e) simp
qed

lemma upd_slot_works:
  assumes "get_slot sl s = Some x"
  obtains s' where "upd_slot sl f s = Some s'" and "ring_frame s s'"
    and "slots s' = (slots s)(sl \<mapsto> f x)"
proof -
  from assms obtain r where r: "rings s (fst sl) = Some r" "snd sl < length (r_slots r)"
    "x = r_slots r ! snd sl" by (auto simp: get_slot_Some)
  define s' where "s' = s\<lparr>rings := (rings s)(fst sl \<mapsto>
    r\<lparr>r_slots := (r_slots r)[snd sl := f (r_slots r ! snd sl)]\<rparr>)\<rparr>"
  have "upd_slot sl f s = Some s'" using r by (simp add: upd_slot_def s'_def)
  moreover have "ring_frame s s'" using r by (simp add: ring_frame_def s'_def ring_hdr_def)
  moreover have "slots s' sl' = ((slots s)(sl \<mapsto> f x)) sl'" for sl'
    using r by (cases "fst sl' = fst sl"; cases "snd sl' = snd sl")
      (auto simp: slots_def get_slot_def s'_def prod_eq_iff)
  ultimately show thesis by (intro that [of s']) auto
qed

text \<open>A packet whose buffer is mapped and holds the packet headers (42 bytes).\<close>

definition frame_ok :: "'a pstore_scheme \<Rightarrow> addr \<Rightarrow> bool" where
  "frame_ok s x \<longleftrightarrow> (case pkts s x of None \<Rightarrow> False
     | Some k \<Rightarrow> (case mem s (p_buf k) of None \<Rightarrow> False | Some b \<Rightarrow> 42 \<le> length b))"

lemma frame_okE:
  assumes "frame_ok s x"
  obtains k b where "pkts s x = Some k" "mem s (p_buf k) = Some b" "42 \<le> length b"
  using assms by (auto simp: frame_ok_def split: option.splits)

subsection \<open>Properties\<close>

text \<open>
  \<open>sin_pkt_setflags\<close> returns the old flag word and leaves a flag word in which exactly
  the bits are set that were set before or are in \<open>sflags\<close>, and are not in \<open>rflags\<close>; it
  changes nothing else. So marking and clearing \<open>SPKT_BUSY\<close> is what \<open>sin_pkt_isbusy\<close> then
  reports, and the other 31 flags survive it.
\<close>

theorem setflags_correct:
  assumes "pkts s p = Some pk"
  shows "\<exists>pk' s'. sin_pkt_setflags p sf rf s = Some (p_flags pk, s') \<and>
    s' = s\<lparr>pkts := (pkts s)(p \<mapsto> pk')\<rparr> \<and> pk' = pk\<lparr>p_flags := p_flags pk'\<rparr> \<and>
    (\<forall>n. n < 32 \<longrightarrow> bit (p_flags pk') n = ((bit (p_flags pk) n \<or> bit sf n) \<and> \<not> bit rf n)) \<and>
    sin_pkt_isbusy p s' = Some (of_bool ((bit (p_flags pk) 0 \<or> bit sf 0) \<and> \<not> bit rf 0))"
proof -
  define pk' where "pk' = pk\<lparr>p_flags := (p_flags pk OR sf) AND NOT rf\<rparr>"
  have b: "\<forall>n. n < 32 \<longrightarrow> bit (p_flags pk') n = ((bit (p_flags pk) n \<or> bit sf n) \<and> \<not> bit rf n)"
    by (simp add: pk'_def bit_simps)
  then have "is_busy pk' = ((bit (p_flags pk) 0 \<or> bit sf 0) \<and> \<not> bit rf 0)"
    by (simp add: is_busy_def)
  then have "sin_pkt_isbusy p (s\<lparr>pkts := (pkts s)(p \<mapsto> pk')\<rparr>)
      = Some (of_bool ((bit (p_flags pk) 0 \<or> bit sf 0) \<and> \<not> bit rf 0))"
    by (simp add: sin_pkt_isbusy_iff)
  moreover have "sin_pkt_setflags p sf rf s = Some (p_flags pk, s\<lparr>pkts := (pkts s)(p \<mapsto> pk')\<rparr>)"
    using assms by (simp add: sin_pkt_setflags_def pk'_def)
  ultimately show ?thesis using b by (intro exI [of _ pk'] exI conjI) (auto simp: pk'_def)
qed

theorem setflags_correct_witness:
  "let s = \<lparr>os_fresh = 1, os_live = {}, os_script = (\<lambda>_. 0), os_clock = 0, links = Map.empty,
       queues = Map.empty, rings = Map.empty, pkts = [7 \<mapsto> sin_pkt_zero\<lparr>p_flags := 4\<rparr>],
       zones = Map.empty, times = Map.empty, mem = Map.empty\<rparr> :: pstore
   in \<exists>s'. sin_pkt_setflags 7 SPKT_BUSY 0 s = Some (4, s') \<and> sin_pkt_isbusy 7 s' = Some 1"
proof -
  let ?s = "\<lparr>os_fresh = 1, os_live = {}, os_script = (\<lambda>_. 0), os_clock = 0, links = Map.empty,
       queues = Map.empty, rings = Map.empty, pkts = [7 \<mapsto> sin_pkt_zero\<lparr>p_flags := 4\<rparr>],
       zones = Map.empty, times = Map.empty, mem = Map.empty\<rparr> :: pstore"
  have "pkts ?s 7 = Some (sin_pkt_zero\<lparr>p_flags := 4\<rparr>)" by simp
  from setflags_correct [OF this, of SPKT_BUSY 0] show ?thesis
    unfolding Let_def by (auto simp: SPKT_BUSY_def)
qed

end
