(* ===== verification/Sin_Example.thy ===== *)
theory Sin_Example
  imports Sin_Pkt
begin

text \<open>
  A small concrete store, on which the theorems of the data path are tried out: a receive
  ring and a transmit ring of three slots each, their zones, their packets, and the two
  output queues of a sorter. Two packets have arrived, the first of them an ICMP echo
  request; the transmit ring has two free slots.
\<close>

definition ex_nm :: netmap_api where
  "ex_nm = \<lparr>nm_ring_next = (\<lambda>r i. if i + 1 = num_slots r then 0 else i + 1),
     nm_ring_empty = (\<lambda>r. r_cur r = r_tail r), NETMAP_BUF = (\<lambda>_ i. ucast i), NS_BUF_CHANGED = 1\<rparr>"

definition ex_slot :: "u32 \<Rightarrow> netmap_slot" where
  "ex_slot b = \<lparr>s_buf_idx = b, s_len = 64, s_flags = 0\<rparr>"

definition ex_rx_ring :: netmap_ring where
  "ex_rx_ring = \<lparr>num_slots = 3, r_head = 0, r_cur = 0, r_tail = 2, r_ts = (7, 8),
     r_slots = [ex_slot 1, ex_slot 2, ex_slot 3]\<rparr>"

definition ex_tx_ring :: netmap_ring where
  "ex_tx_ring = \<lparr>num_slots = 3, r_head = 1, r_cur = 1, r_tail = 0, r_ts = (0, 0),
     r_slots = [ex_slot 4, ex_slot 5, ex_slot 6]\<rparr>"

definition ex_zone :: "addr \<Rightarrow> addr list \<Rightarrow> sin_pkt_zone" where
  "ex_zone pvt pm = \<lparr>z_type = SIN_TYPE_PKT_ZONE, z_netmap_fd = 9, z_pmap_blk = pvt + 1,
     z_pmap = pm, z_pvt = pvt, z_num_slots = 3\<rparr>"

definition ex_pkt :: "addr \<Rightarrow> addr \<Rightarrow> nat \<Rightarrow> addr \<Rightarrow> u64 \<Rightarrow> sin_pkt" where
  "ex_pkt zone ring i ts b = \<lparr>p_type = SIN_TYPE_PKT, my_zone = zone, my_ring = ring,
     my_slot = (ring, i), zone_idx = of_nat i, p_ts = ts, p_buf = b, p_len = 64, p_flags = 0\<rparr>"

text \<open>An echo request, as far as the responder looks, in a netmap buffer of 2048 bytes.\<close>

definition ex_frame :: "u8 list" where
  "ex_frame = (replicate 2048 0)[12 := 0x08, 14 := 0x45, 23 := 1, 34 := 8]"

definition ex_queue :: sin_wi_queue where
  "ex_queue = sin_wi_queue_zero\<lparr>q_type := SIN_TYPE_WI_QUEUE\<rparr>"

definition ex_store :: pstore where
  "ex_store = \<lparr>os_fresh = 100, os_live = {}, os_script = (\<lambda>_. 0), os_clock = 0,
     links = [21 \<mapsto> NULL, 22 \<mapsto> NULL, 23 \<mapsto> NULL, 31 \<mapsto> NULL, 32 \<mapsto> NULL, 33 \<mapsto> NULL],
     queues = [51 \<mapsto> ex_queue, 52 \<mapsto> ex_queue],
     rings = [71 \<mapsto> ex_rx_ring, 72 \<mapsto> ex_tx_ring],
     pkts = [21 \<mapsto> ex_pkt 10 71 0 41 1, 22 \<mapsto> ex_pkt 10 71 1 42 2, 23 \<mapsto> ex_pkt 10 71 2 43 3,
       31 \<mapsto> ex_pkt 11 72 0 44 4, 32 \<mapsto> ex_pkt 11 72 1 45 5, 33 \<mapsto> ex_pkt 11 72 2 46 6],
     zones = [10 \<mapsto> ex_zone 61 [21, 22, 23], 11 \<mapsto> ex_zone 63 [31, 32, 33]],
     times = [41 \<mapsto> (0, 0), 42 \<mapsto> (0, 0), 43 \<mapsto> (0, 0), 44 \<mapsto> (0, 0), 45 \<mapsto> (0, 0), 46 \<mapsto> (0, 0)],
     mem = [1 \<mapsto> ex_frame, 2 \<mapsto> replicate 2048 0, 3 \<mapsto> replicate 2048 0,
       4 \<mapsto> replicate 2048 0, 5 \<mapsto> replicate 2048 0, 6 \<mapsto> replicate 2048 0]\<rparr>"

lemmas ex_defs = ex_nm_def ex_slot_def ex_rx_ring_def ex_tx_ring_def ex_zone_def ex_pkt_def
  ex_queue_def ex_store_def

lemma ex_nm_ok: "netmap_ok ex_nm"
  by (simp add: netmap_ok_def ex_nm_def)

lemma ex_frame_length [simp]: "length ex_frame = 2048"
  by (simp add: ex_frame_def)

lemma less_3: "(\<forall>i < 3. P i) \<longleftrightarrow> P 0 \<and> P 1 \<and> P (2 :: nat)"
  by (auto simp: numeral_3_eq_3 numeral_2_eq_2 less_Suc_eq)

lemma ex_store_facts:
  "pkts ex_store 21 = Some (ex_pkt 10 71 0 41 1)" "pkts ex_store 22 = Some (ex_pkt 10 71 1 42 2)"
  "pkts ex_store 32 = Some (ex_pkt 11 72 1 45 5)" "pkts ex_store 33 = Some (ex_pkt 11 72 2 46 6)"
  "mem ex_store 1 = Some ex_frame" "mem ex_store 2 = Some (replicate 2048 0)"
  "mem ex_store 5 = Some (replicate 2048 0)" "mem ex_store 6 = Some (replicate 2048 0)"
  "get_slot (71, 0) ex_store = Some (ex_slot 1)" "get_slot (72, 1) ex_store = Some (ex_slot 5)"
  "get_slot (72, 2) ex_store = Some (ex_slot 6)"
  by (simp_all add: ex_store_def get_slot_def ex_rx_ring_def ex_tx_ring_def)

lemma ex_pkt_simps [simp]:
  "my_slot (ex_pkt z r i t b) = (r, i)" "my_zone (ex_pkt z r i t b) = z"
  "p_buf (ex_pkt z r i t b) = b" "p_len (ex_pkt z r i t b) = 64" "p_ts (ex_pkt z r i t b) = t"
  "my_ring (ex_pkt z r i t b) = r" "zone_idx (ex_pkt z r i t b) = of_nat i"
  by (simp_all add: ex_pkt_def)

lemma ex_pkt_free [simp]: "\<not> is_busy (ex_pkt z r i t b)"
  by (simp add: ex_pkt_def is_busy_def)

end
