(* ===== verification/Sin_Ring.thy ===== *)
theory Sin_Ring
  imports Sin_Example
begin

text \<open>
  The cyclic indices of a netmap ring. The library keeps three of them in 32-bit words,
  \<open>head\<close>, \<open>cur\<close> and \<open>tail\<close>; the lemmas relate the word operations of the code to
  distances and offsets modulo the number of slots.
\<close>

definition ridx :: "nat \<Rightarrow> nat \<Rightarrow> nat \<Rightarrow> nat" where
  "ridx n a k = (a + k) mod n"

definition rdist :: "nat \<Rightarrow> nat \<Rightarrow> nat \<Rightarrow> nat" where
  "rdist n a b = (if a \<le> b then b - a else n + b - a)"

text \<open>The \<open>k\<close> slots from \<open>a\<close> on.\<close>

definition window :: "nat \<Rightarrow> nat \<Rightarrow> nat \<Rightarrow> nat list" where
  "window n a k = map (ridx n a) [0..<k]"

definition ring_size :: "netmap_ring \<Rightarrow> nat" where
  "ring_size r = unat (num_slots r)"

definition ring_ok :: "netmap_ring \<Rightarrow> bool" where
  "ring_ok r \<longleftrightarrow> length (r_slots r) = ring_size r \<and> unat (r_head r) < ring_size r \<and>
     unat (r_cur r) < ring_size r \<and> unat (r_tail r) < ring_size r"

lemma ring_okD:
  assumes "ring_ok r"
  shows "0 < ring_size r" "length (r_slots r) = ring_size r" "unat (r_head r) < ring_size r"
    "unat (r_cur r) < ring_size r" "unat (r_tail r) < ring_size r"
  using assms by (auto simp: ring_ok_def)

lemma ridx_less [simp]: "0 < n \<Longrightarrow> ridx n a k < n"
  by (simp add: ridx_def)

lemma ridx_0 [simp]: "a < n \<Longrightarrow> ridx n a 0 = a"
  by (simp add: ridx_def)

lemma ridx_ridx [simp]: "ridx n (ridx n a j) k = ridx n a (j + k)"
  by (simp add: ridx_def add.assoc mod_add_left_eq)

lemma rdist_self [simp]: "rdist n a a = 0"
  by (simp add: rdist_def)

lemma rdist_less: "a < n \<Longrightarrow> b < n \<Longrightarrow> rdist n a b < n"
  by (auto simp: rdist_def)

lemma ridx_rdist: "a < n \<Longrightarrow> b < n \<Longrightarrow> ridx n a (rdist n a b) = b"
  by (auto simp: ridx_def rdist_def)

lemma rdist_ridx: "a < n \<Longrightarrow> k < n \<Longrightarrow> rdist n a (ridx n a k) = k"
  by (cases "a + k < n") (auto simp: ridx_def rdist_def mod_if)

lemma rdist_zero: "a < n \<Longrightarrow> b < n \<Longrightarrow> rdist n a b = 0 \<longleftrightarrow> a = b"
  by (auto simp: rdist_def)

lemma ridx_inj: "a < n \<Longrightarrow> j < n \<Longrightarrow> k < n \<Longrightarrow> ridx n a j = ridx n a k \<longleftrightarrow> j = k"
  by (metis rdist_ridx)

lemma rdist_ridx_left:
  assumes "a < n" and "b < n" and "k \<le> rdist n a b"
  shows "rdist n (ridx n a k) b = rdist n a b - k"
proof -
  let ?d = "rdist n a b"
  have d: "?d < n" using assms by (simp add: rdist_less)
  have n: "0 < n" using assms by simp
  have "ridx n (ridx n a k) (?d - k) = b" using assms by (simp add: ridx_rdist)
  then have "rdist n (ridx n a k) b = rdist n (ridx n a k) (ridx n (ridx n a k) (?d - k))" by simp
  also have "\<dots> = ?d - k" using rdist_ridx [of "ridx n a k" n "?d - k"] n d by simp
  finally show ?thesis .
qed

text \<open>From \<open>a\<close> past \<open>b\<close> to \<open>c\<close>: distances add up.\<close>

lemma rdist_add:
  assumes "a < n" "b < n" "c < n" "rdist n a b \<le> rdist n a c"
  shows "rdist n b c = rdist n a c - rdist n a b"
  using rdist_ridx_left [OF assms(1,3,4)] assms by (simp add: ridx_rdist)

lemma length_window [simp]: "length (window n a k) = k"
  by (simp add: window_def)

lemma window_0 [simp]: "window n a 0 = []"
  by (simp add: window_def)

lemma window_Suc: "a < n \<Longrightarrow> window n a (Suc k) = a # window n (ridx n a 1) k"
  by (rule nth_equalityI) (auto simp: window_def nth_Cons simp del: upt_Suc split: nat.split)

lemma nth_window [simp]: "i < k \<Longrightarrow> window n a k ! i = ridx n a i"
  by (simp add: window_def)

lemma distinct_window: "a < n \<Longrightarrow> k \<le> n \<Longrightarrow> distinct (window n a k)"
  by (simp add: distinct_conv_nth ridx_inj)

lemma set_window: "a < n \<Longrightarrow> k \<le> n \<Longrightarrow> set (window n a k) = {i. i < n \<and> rdist n a i < k}"
proof (intro set_eqI iffI)
  fix i assume "a < n" "k \<le> n" "i \<in> set (window n a k)"
  then show "i \<in> {i. i < n \<and> rdist n a i < k}" by (auto simp: window_def rdist_ridx)
next
  fix i assume "a < n" "k \<le> n" "i \<in> {i. i < n \<and> rdist n a i < k}"
  then have "ridx n a (rdist n a i) = i" "rdist n a i < k" by (auto simp: ridx_rdist)
  then show "i \<in> set (window n a k)" by (auto simp: window_def image_iff intro!: bexI [of _ "rdist n a i"])
qed

lemma window_between:
  assumes "a < n" "b < n" "c < n" "rdist n a b \<le> rdist n a c"
  shows "set (window n b (rdist n b c)) = {j. j < n \<and> rdist n a b \<le> rdist n a j \<and> rdist n a j < rdist n a c}"
proof -
  have bc: "rdist n b c = rdist n a c - rdist n a b" by (rule rdist_add [OF assms])
  have lt: "rdist n a c < n" "rdist n b c < n" using assms by (simp_all add: rdist_less)
  have "rdist n b j < rdist n b c \<longleftrightarrow> rdist n a b \<le> rdist n a j \<and> rdist n a j < rdist n a c"
    if j: "j < n" for j
  proof (cases "rdist n a b \<le> rdist n a j")
    case True
    then show ?thesis using rdist_add [OF assms(1,2) j] bc assms(4) by auto
  next
    case False
    have "\<not> rdist n b j < rdist n b c"
    proof
      assume l: "rdist n b j < rdist n b c"
      have "j = ridx n a (rdist n a b + rdist n b j)"
        using ridx_ridx [of n a "rdist n a b" "rdist n b j"] assms j by (simp add: ridx_rdist)
      then have "rdist n a j = rdist n a b + rdist n b j"
        using rdist_ridx [OF assms(1), of "rdist n a b + rdist n b j"] l bc lt by simp
      with False show False by simp
    qed
    with False show ?thesis by simp
  qed
  then show ?thesis using set_window [OF assms(2), of "rdist n b c"] lt by auto
qed

lemma window_append: "window n a (j + k) = window n a j @ window n (ridx n a j) k"
  by (rule nth_equalityI) (auto simp: window_def nth_append)

text \<open>The words of the code.\<close>

lemma nm_next_unat:
  assumes "netmap_ok nm" and "unat i < ring_size r"
  shows "unat (nm_ring_next nm r i) = ridx (ring_size r) (unat i) 1"
proof -
  have nx: "nm_ring_next nm r i = (if i + 1 = num_slots r then 0 else i + 1)"
    using assms(1) by (simp add: netmap_ok_def)
  have u: "unat (i + 1) = unat i + 1"
    using assms(2) unat_u32_bound [of "num_slots r"] unat_Suc_word [of i] by (simp add: ring_size_def)
  show ?thesis
  proof (cases "i + 1 = num_slots r")
    case True
    then have "unat i + 1 = ring_size r" using u by (simp add: ring_size_def)
    with True nx show ?thesis by (simp add: ridx_def)
  next
    case False
    then have "unat i + 1 \<noteq> ring_size r" using u by (metis ring_size_def unsigned_word_eqI)
    with False nx u assms(2) show ?thesis by (simp add: ridx_def)
  qed
qed

text \<open>One step of \<open>cur\<close> towards \<open>tail\<close>.\<close>

lemma ring_cur_step:
  assumes nm: "netmap_ok nm" and r: "ring_ok r" and n: "ring_size r = n"
    and k: "rdist n (unat (r_cur r)) (unat (r_tail r)) = Suc k"
  defines "r' \<equiv> r\<lparr>r_cur := nm_ring_next nm r (r_cur r)\<rparr>"
  shows "unat (r_cur r') = ridx n (unat (r_cur r)) 1" "ring_ok r'" "ring_size r' = n"
    "r_slots r' = r_slots r" "r_tail r' = r_tail r"
    "rdist n (unat (r_cur r')) (unat (r_tail r')) = k"
proof -
  note o = ring_okD [OF r]
  show u: "unat (r_cur r') = ridx n (unat (r_cur r)) 1"
    using nm_next_unat [OF nm, of "r_cur r" r] o n by (simp add: r'_def)
  show "ring_size r' = n" "r_slots r' = r_slots r" "r_tail r' = r_tail r"
    using n by (simp_all add: r'_def ring_size_def)
  show "ring_ok r'" using r n u o by (auto simp: ring_ok_def r'_def ring_size_def)
  show "rdist n (unat (r_cur r')) (unat (r_tail r')) = k"
    using rdist_ridx_left [of "unat (r_cur r)" n "unat (r_tail r)" 1] n k o by (simp add: u) (simp add: r'_def)
qed

lemma window_pkts:
  assumes "length pm = n" "distinct pm" "c < n" "Suc k < n"
  shows "map ((!) pm) (window n c (Suc k)) = pm ! c # map ((!) pm) (window n (ridx n c 1) k)"
    and "distinct (map ((!) pm) (window n c (Suc k)))"
  using assms distinct_window [of c n "Suc k"] window_Suc [of c n k]
  by (auto simp: distinct_map set_window inj_on_def nth_eq_iff_index_eq)

definition set_ring :: "addr \<Rightarrow> (netmap_ring \<Rightarrow> netmap_ring) \<Rightarrow> 'a pstore_scheme \<Rightarrow>
    'a pstore_scheme option" where
  "set_ring a f s = (case rings s a of None \<Rightarrow> None
     | Some r \<Rightarrow> Some (s\<lparr>rings := (rings s)(a \<mapsto> f r)\<rparr>))"

definition pmap_at :: "addr \<Rightarrow> u32 \<Rightarrow> 'a pstore_scheme \<Rightarrow> addr option" where
  "pmap_at zone i s = (case zones s zone of None \<Rightarrow> None
     | Some z \<Rightarrow> if unat i < length (z_pmap z) then Some (z_pmap z ! unat i) else None)"

subsection \<open>A zone and its ring\<close>

text \<open>
  The invariant that ties a zone to its ring: one descriptor for each slot, which has the tag of a packet and knows its
  index, its slot, its ring and its zone, and whose buffer pointer is that of the slot.
\<close>

definition slot_pkt_ok :: "netmap_api \<Rightarrow> 'a pstore_scheme \<Rightarrow> addr \<Rightarrow> addr \<Rightarrow> netmap_ring \<Rightarrow>
    nat \<Rightarrow> addr \<Rightarrow> bool" where
  "slot_pkt_ok nm s zone ring r i p \<longleftrightarrow> (case pkts s p of None \<Rightarrow> False
     | Some k \<Rightarrow> p_type k = SIN_TYPE_PKT \<and> unat (zone_idx k) = i \<and> my_slot k = (ring, i) \<and> my_ring k = ring \<and>
         my_zone k = zone \<and> times s (p_ts k) \<noteq> None \<and>
         p_buf k = NETMAP_BUF nm ring (s_buf_idx (r_slots r ! i)))"

definition zone_ok :: "netmap_api \<Rightarrow> 'a pstore_scheme \<Rightarrow> addr \<Rightarrow> addr \<Rightarrow> bool" where
  "zone_ok nm s zone ring \<longleftrightarrow> (case (zones s zone, rings s ring) of
     (Some z, Some r) \<Rightarrow> ring_ok r \<and> length (z_pmap z) = ring_size r \<and> distinct (z_pmap z) \<and>
       (\<forall>i < ring_size r. slot_pkt_ok nm s zone ring r i (z_pmap z ! i))
   | _ \<Rightarrow> False)"

lemma zone_okE:
  assumes "zone_ok nm s zone ring"
  obtains z r where "zones s zone = Some z" "rings s ring = Some r" "ring_ok r"
    "length (z_pmap z) = ring_size r" "distinct (z_pmap z)"
    "\<And>i. i < ring_size r \<Longrightarrow> slot_pkt_ok nm s zone ring r i (z_pmap z ! i)"
  using assms by (auto simp: zone_ok_def split: option.splits)

lemma zone_okI:
  assumes "zones s zone = Some z" "rings s ring = Some r" "ring_ok r"
    "length (z_pmap z) = ring_size r" "distinct (z_pmap z)"
    "\<And>i. i < ring_size r \<Longrightarrow> slot_pkt_ok nm s zone ring r i (z_pmap z ! i)"
  shows "zone_ok nm s zone ring"
  using assms by (simp add: zone_ok_def)

lemma slot_pkt_okE:
  assumes "slot_pkt_ok nm s zone ring r i p"
  obtains k t where "pkts s p = Some k" "unat (zone_idx k) = i" "my_slot k = (ring, i)"
    "my_ring k = ring" "my_zone k = zone" "times s (p_ts k) = Some t"
    "p_buf k = NETMAP_BUF nm ring (s_buf_idx (r_slots r ! i))" "p_type k = SIN_TYPE_PKT"
  using assms by (auto simp: slot_pkt_ok_def split: option.splits)

end
