(* ===== verification/Sin_Pkt_Zone.thy ===== *)
theory Sin_Pkt_Zone
  imports Sin_Example
begin

text \<open>
  Packet zones: the packet descriptors of one ring (\<open>sin_pkt_zone.c\<close>) and the inline
  operations of \<open>sin_pkt_zone_fast.h\<close> that move a packet into a slot of a transmit ring,
  by exchanging buffers or by copying, and hand descriptors back.
\<close>

subsection \<open>Moving a packet\<close>

text \<open>
  The XOR swaps go through memory: three assignments, each reading both places again. Two
  equal places are therefore cleared, not left alone.
\<close>

definition xor_buf_idx :: "addr \<times> nat \<Rightarrow> addr \<times> nat \<Rightarrow> addr \<times> nat \<Rightarrow> 'a pstore_scheme \<Rightarrow>
    'a pstore_scheme option" where
  "xor_buf_idx a b d s = do {
     x \<leftarrow> get_slot a s;
     y \<leftarrow> get_slot b s;
     upd_slot d (\<lambda>z. z\<lparr>s_buf_idx := s_buf_idx x XOR s_buf_idx y\<rparr>) s
   }"

definition swap_buf_idx :: "addr \<times> nat \<Rightarrow> addr \<times> nat \<Rightarrow> 'a pstore_scheme \<Rightarrow>
    'a pstore_scheme option" where
  "swap_buf_idx a b s = do {
     s \<leftarrow> xor_buf_idx a b a s;
     s \<leftarrow> xor_buf_idx a b b s;
     xor_buf_idx a b a s
   }"

definition xor_buf :: "addr \<Rightarrow> addr \<Rightarrow> addr \<Rightarrow> 'a pstore_scheme \<Rightarrow> 'a pstore_scheme option" where
  "xor_buf a b d s = do {
     x \<leftarrow> pkts s a;
     y \<leftarrow> pkts s b;
     upd_pkt d (\<lambda>z. z\<lparr>p_buf := p_buf x XOR p_buf y\<rparr>) s
   }"

definition swap_buf :: "addr \<Rightarrow> addr \<Rightarrow> 'a pstore_scheme \<Rightarrow> 'a pstore_scheme option" where
  "swap_buf a b s = do {
     s \<leftarrow> xor_buf a b a s;
     s \<leftarrow> xor_buf a b b s;
     xor_buf a b a s
   }"

definition sin_pkt_zone_swap ::
  "netmap_api \<Rightarrow> addr \<Rightarrow> addr \<Rightarrow> 'a pstore_scheme \<Rightarrow> 'a pstore_scheme option" where
  "sin_pkt_zone_swap nm p1 p2 s = do {
     k1 \<leftarrow> pkts s p1;
     k2 \<leftarrow> pkts s p2;
     let src = my_slot k1;
     let dst = my_slot k2;
     s \<leftarrow> swap_buf_idx dst src s;
     s \<leftarrow> swap_buf p1 p2 s;
     s \<leftarrow> upd_slot dst (\<lambda>z. z\<lparr>s_flags := NS_BUF_CHANGED nm\<rparr>) s;
     s \<leftarrow> upd_slot src (\<lambda>z. z\<lparr>s_flags := NS_BUF_CHANGED nm\<rparr>) s;
     k1 \<leftarrow> pkts s p1;
     s \<leftarrow> upd_slot dst (\<lambda>z. z\<lparr>s_len := ucast (p_len k1)\<rparr>) s;
     z \<leftarrow> get_slot dst s;
     upd_pkt p2 (\<lambda>k. k\<lparr>p_len := ucast (s_len z)\<rparr>) s
   }"

definition sin_pkt_zone_copy ::
  "netmap_api \<Rightarrow> addr \<Rightarrow> addr \<Rightarrow> 'a pstore_scheme \<Rightarrow> 'a pstore_scheme option" where
  "sin_pkt_zone_copy nm p1 p2 s = do {
     k1 \<leftarrow> pkts s p1;
     k2 \<leftarrow> pkts s p2;
     let dst = my_slot k2;
     m \<leftarrow> sin_memcpy (p_buf k1) (p_buf k2) (sint (p_len k1)) (mem s);
     let s = s\<lparr>mem := m\<rparr>;
     s \<leftarrow> upd_slot dst (\<lambda>z. z\<lparr>s_len := ucast (p_len k1)\<rparr>) s;
     z \<leftarrow> get_slot dst s;
     s \<leftarrow> upd_pkt p2 (\<lambda>k. k\<lparr>p_len := ucast (s_len z)\<rparr>) s;
     upd_slot dst (\<lambda>z. z\<lparr>s_flags := NS_BUF_CHANGED nm\<rparr>) s
   }"

subsection \<open>Handing descriptors back\<close>

definition sin_pkt_zone_ret_pkt :: "addr \<Rightarrow> 'a pstore_scheme \<Rightarrow> 'a pstore_scheme option" where
  "sin_pkt_zone_ret_pkt pkt s = map_option snd (sin_pkt_setflags pkt 0 SPKT_BUSY s)"

partial_function (option) ret_all_loop ::
  "ptr \<Rightarrow> 'a pstore_scheme \<Rightarrow> 'a pstore_scheme option" where
  "ret_all_loop p s = (case p of None \<Rightarrow> Some s
     | Some pkt \<Rightarrow> do {
         pkt_next \<leftarrow> SIN_ITER_NEXT pkt s;
         s \<leftarrow> SIN_TYPE_LINK pkt NULL s;
         s \<leftarrow> sin_pkt_zone_ret_pkt pkt s;
         ret_all_loop pkt_next s
       })"

definition sin_pkt_zone_ret_all :: "sin_list \<Rightarrow> 'a pstore_scheme \<Rightarrow> 'a pstore_scheme option" where
  "sin_pkt_zone_ret_all pl s = ret_all_loop (lst_head pl) s"

subsection \<open>Construction and destruction of a zone\<close>

text \<open>The undo loop of \<open>sin_pkt_zone_fill_from_ring\<close>, from the last packet down.\<close>

primrec undo_fill :: "addr list \<Rightarrow> 'a pstore_scheme \<Rightarrow> 'a pstore_scheme option" where
  "undo_fill [] s = Some s"
| "undo_fill (p # ps) s = do { s \<leftarrow> sin_pkt_dtor p s; undo_fill ps s }"

text \<open>
  The fill loop with \<open>n\<close> slots to go; \<open>ps\<close> are the packets made so far, so the next index
  is their number.
\<close>

primrec fill_loop :: "netmap_api \<Rightarrow> addr \<Rightarrow> addr \<Rightarrow> errno option \<Rightarrow> nat \<Rightarrow> addr list \<Rightarrow>
    'a pstore_scheme \<Rightarrow> (int \<times> addr list \<times> errno option \<times> 'a pstore_scheme) option" where
  "fill_loop nm zone ring e 0 ps s = Some (int (length ps), ps, e, s)"
| "fill_loop nm zone ring e (Suc n) ps s = do {
     (p, e, s) \<leftarrow> sin_pkt_ctor nm zone (length ps) ring e s;
     (case p of
        None \<Rightarrow> do { s \<leftarrow> undo_fill (rev ps) s; Some (-1, ps, e, s) }
      | Some pkt \<Rightarrow> fill_loop nm zone ring e n (ps @ [pkt]) s)
   }"

definition sin_pkt_zone_fill_from_ring :: "netmap_api \<Rightarrow> addr \<Rightarrow> addr \<Rightarrow> errno option \<Rightarrow>
    'a pstore_scheme \<Rightarrow> (int \<times> addr list \<times> errno option \<times> 'a pstore_scheme) option" where
  "sin_pkt_zone_fill_from_ring nm zone ring e s = do {
     r \<leftarrow> rings s ring;
     fill_loop nm zone ring e (nat (sint (num_slots r))) [] s
   }"

definition er_undo_1 :: "addr \<Rightarrow> addr \<Rightarrow> 'a pstore_scheme \<Rightarrow> 'a pstore_scheme option" where
  "er_undo_1 spzp pvt s = do { s \<leftarrow> free pvt s; free spzp s }"

definition er_undo_2 :: "addr \<Rightarrow> addr \<Rightarrow> 'a pstore_scheme \<Rightarrow> 'a pstore_scheme option" where
  "er_undo_2 spzp pvt s = do { s \<leftarrow> pthread_mutex_destroy pvt s; er_undo_1 spzp pvt s }"

definition sin_pkt_zone_ctor :: "netmap_api \<Rightarrow> addr \<Rightarrow> int \<Rightarrow> errno option \<Rightarrow> 'a pstore_scheme \<Rightarrow>
  (ptr \<times> errno option \<times> 'a pstore_scheme) option" where
  "sin_pkt_zone_ctor nm ring netmap_fd e s = (case malloc s of
     (None, s) \<Rightarrow> Some (NULL, SET_ERR e ENOMEM, s)
   | (Some spzp, s) \<Rightarrow> (case malloc s of
       (None, s) \<Rightarrow> do { s \<leftarrow> free spzp s; Some (NULL, SET_ERR e ENOMEM, s) }
     | (Some pvt, s) \<Rightarrow>
        (let (eval, s) = pthread_mutex_init pvt s in
         if eval \<noteq> 0 then do { s \<leftarrow> er_undo_1 spzp pvt s; Some (NULL, SET_ERR e (Errno eval), s) }
         else do {
           r \<leftarrow> rings s ring;
           (case malloc s of
              (None, s) \<Rightarrow> do { s \<leftarrow> er_undo_2 spzp pvt s; Some (NULL, SET_ERR e ENOMEM, s) }
            | (Some pmap, s) \<Rightarrow> do {
                (n, ps, e, s) \<leftarrow> sin_pkt_zone_fill_from_ring nm spzp ring e s;
                if n < 0 then do { s \<leftarrow> er_undo_2 spzp pvt s; Some (NULL, e, s) }
                else Some (Some spzp, e, s\<lparr>zones := (zones s)(spzp \<mapsto>
                  \<lparr>z_type = SIN_TYPE_PKT_ZONE, z_netmap_fd = netmap_fd, z_pmap_blk = pmap,
                   z_pmap = ps, z_pvt = pvt, z_num_slots = sint (num_slots r)\<rparr>)\<rparr>)
              })
         })))"

text \<open>
  The destructor releases the descriptors with \<open>free\<close>, not with \<open>sin_pkt_dtor\<close>; a freed
  descriptor is gone from the store.
\<close>

primrec free_pkts :: "addr list \<Rightarrow> 'a pstore_scheme \<Rightarrow> 'a pstore_scheme option" where
  "free_pkts [] s = Some s"
| "free_pkts (p # ps) s = do {
     s \<leftarrow> free p s;
     free_pkts ps (s\<lparr>pkts := (pkts s)(p := None), links := (links s)(p := None)\<rparr>)
   }"

definition sin_pkt_zone_dtor :: "addr \<Rightarrow> 'a pstore_scheme \<Rightarrow> 'a pstore_scheme option" where
  "sin_pkt_zone_dtor spzp s = do {
     z \<leftarrow> zones s spzp;
     s \<leftarrow> free_pkts (take (nat (z_num_slots z)) (z_pmap z)) s;
     s \<leftarrow> free (z_pmap_blk z) s;
     s \<leftarrow> pthread_mutex_destroy (z_pvt z) s;
     s \<leftarrow> free (z_pvt z) s;
     s \<leftarrow> free spzp s;
     Some (s\<lparr>zones := (zones s)(spzp := None)\<rparr>)
   }"

text \<open>
  The two wrappers of the zone's mutex. No code of the library calls them, so the store has no
  field for a mutex that is taken; \<open>held\<close> says which ones are. Taking one that is held
  waits, releasing one that is not is an error.
\<close>

definition sin_pkt_zone_lock :: "addr \<Rightarrow> (addr \<Rightarrow> bool) \<Rightarrow> 'a pstore_scheme \<Rightarrow>
    (int outcome \<times> (addr \<Rightarrow> bool)) option" where
  "sin_pkt_zone_lock spzp held s = do {
     z \<leftarrow> zones s spzp;
     if held (z_pvt z) then Some (Wait, held) else Some (Return 0, held(z_pvt z := True))
   }"

definition sin_pkt_zone_unlock :: "addr \<Rightarrow> (addr \<Rightarrow> bool) \<Rightarrow> 'a pstore_scheme \<Rightarrow>
    (int \<times> (addr \<Rightarrow> bool)) option" where
  "sin_pkt_zone_unlock spzp held s = do {
     z \<leftarrow> zones s spzp;
     if held (z_pvt z) then Some (0, held(z_pvt z := False)) else None
   }"

lemma zone_mutex_excludes:
  assumes "sin_pkt_zone_lock a held s = Some (Return 0, held')"
  shows "sin_pkt_zone_lock a held' s = Some (Wait, held')" "sin_pkt_zone_unlock a held' s = Some (0, held)"
  using assms by (auto simp: sin_pkt_zone_lock_def sin_pkt_zone_unlock_def fun_upd_idem
      split: Option.bind_splits if_splits)

lemma zone_mutexes_apart:
  assumes "sin_pkt_zone_lock a held s = Some (Return 0, held')" and "zones s a = Some z" "zones s b = Some z'"
    and "z_pvt z \<noteq> z_pvt z'"
  shows "fst (the (sin_pkt_zone_lock b held' s)) = fst (the (sin_pkt_zone_lock b held s))"
  using assms by (auto simp: sin_pkt_zone_lock_def split: if_splits)

subsection \<open>What moving a packet does\<close>

lemma swap_buf_idx_works:
  assumes a: "get_slot a s = Some x" and b: "get_slot b s = Some y" and ne: "a \<noteq> b"
  obtains s' where "swap_buf_idx a b s = Some s'" and "ring_frame s s'"
    and "slots s' = (slots s)(a \<mapsto> x\<lparr>s_buf_idx := s_buf_idx y\<rparr>, b \<mapsto> y\<lparr>s_buf_idx := s_buf_idx x\<rparr>)"
proof -
  let ?x = "s_buf_idx x" and ?y = "s_buf_idx y"
  obtain s1 where 1: "upd_slot a (\<lambda>z. z\<lparr>s_buf_idx := ?x XOR ?y\<rparr>) s = Some s1" "ring_frame s s1"
    "slots s1 = (slots s)(a \<mapsto> x\<lparr>s_buf_idx := ?x XOR ?y\<rparr>)"
    using upd_slot_works [OF a] by metis
  have a1: "get_slot a s1 = Some (x\<lparr>s_buf_idx := ?x XOR ?y\<rparr>)" and b1: "get_slot b s1 = Some y"
    using 1(3) b ne by (simp_all add: slots_fun)
  obtain s2 where 2: "upd_slot b (\<lambda>z. z\<lparr>s_buf_idx := ?x\<rparr>) s1 = Some s2" "ring_frame s1 s2"
    "slots s2 = (slots s1)(b \<mapsto> y\<lparr>s_buf_idx := ?x\<rparr>)"
    using upd_slot_works [OF b1] by metis
  have a2: "get_slot a s2 = Some (x\<lparr>s_buf_idx := ?x XOR ?y\<rparr>)"
    and b2: "get_slot b s2 = Some (y\<lparr>s_buf_idx := ?x\<rparr>)"
    using 2(3) a1 ne by (simp_all add: slots_fun)
  obtain s3 where 3: "upd_slot a (\<lambda>z. z\<lparr>s_buf_idx := ?y\<rparr>) s2 = Some s3" "ring_frame s2 s3"
    "slots s3 = (slots s2)(a \<mapsto> x\<lparr>s_buf_idx := ?y\<rparr>)"
    by (rule upd_slot_works [OF a2, of "\<lambda>z. z\<lparr>s_buf_idx := ?y\<rparr>"]) simp
  have "swap_buf_idx a b s = Some s3"
    using a b a1 b1 a2 b2 1(1) 2(1) 3(1) by (simp add: swap_buf_idx_def xor_buf_idx_def)
  moreover have "ring_frame s s3" using 1(2) 2(2) 3(2) by (blast intro: ring_frame_trans)
  moreover have "slots s3 = (slots s)(a \<mapsto> x\<lparr>s_buf_idx := ?y\<rparr>, b \<mapsto> y\<lparr>s_buf_idx := ?x\<rparr>)"
    using 1(3) 2(3) 3(3) ne by auto
  ultimately show thesis by (rule that)
qed

lemma swap_buf_works:
  assumes "pkts s a = Some j" and "pkts s b = Some k" and "a \<noteq> b"
  shows "swap_buf a b s = Some (s\<lparr>pkts := (pkts s)(a \<mapsto> j\<lparr>p_buf := p_buf k\<rparr>,
    b \<mapsto> k\<lparr>p_buf := p_buf j\<rparr>)\<rparr>)"
  using assms by (simp add: swap_buf_def xor_buf_def upd_pkt_def fun_upd_twist)

text \<open>
  The length a packet has after the move: it passes through the 16-bit length field of the
  slot.
\<close>

definition slot_len :: "u32 \<Rightarrow> u32" where
  "slot_len n = ucast (ucast n :: u16)"

lemma slot_len_id:
  assumes "unat n < 65536"
  shows "slot_len n = n"
proof -
  have u: "unat (ucast n :: u16) = unat n"
    using assms by (simp add: unsigned_ucast_eq take_bit_nat_eq_self_iff)
  have "unat (slot_len n) = unat n" by (simp add: slot_len_def u)
  then show ?thesis by (rule unsigned_word_eqI)
qed

definition swapped_src :: "netmap_api \<Rightarrow> netmap_slot \<Rightarrow> netmap_slot \<Rightarrow> netmap_slot" where
  "swapped_src nm x y = x\<lparr>s_buf_idx := s_buf_idx y, s_flags := NS_BUF_CHANGED nm\<rparr>"

definition swapped_dst :: "netmap_api \<Rightarrow> u32 \<Rightarrow> netmap_slot \<Rightarrow> netmap_slot \<Rightarrow> netmap_slot" where
  "swapped_dst nm n x y =
     y\<lparr>s_buf_idx := s_buf_idx x, s_flags := NS_BUF_CHANGED nm, s_len := ucast n\<rparr>"

lemma sin_pkt_zone_swap_works:
  assumes p1: "pkts s p1 = Some k1" and p2: "pkts s p2 = Some k2" and ne: "p1 \<noteq> p2"
    and x: "get_slot (my_slot k1) s = Some x" and y: "get_slot (my_slot k2) s = Some y"
    and sne: "my_slot k1 \<noteq> my_slot k2"
  obtains s' where "sin_pkt_zone_swap nm p1 p2 s = Some s'"
    and "pkts s' = (pkts s)(p1 \<mapsto> k1\<lparr>p_buf := p_buf k2\<rparr>,
          p2 \<mapsto> k2\<lparr>p_buf := p_buf k1, p_len := slot_len (p_len k1)\<rparr>)"
    and "slots s' = (slots s)(my_slot k1 \<mapsto> swapped_src nm x y,
          my_slot k2 \<mapsto> swapped_dst nm (p_len k1) x y)"
    and "ring_frame (s\<lparr>pkts := pkts s'\<rparr>) s'"
proof -
  let ?a = "my_slot k1" and ?b = "my_slot k2"
  let ?j = "k1\<lparr>p_buf := p_buf k2\<rparr>" and ?k = "k2\<lparr>p_buf := p_buf k1\<rparr>"
  let ?x1 = "x\<lparr>s_buf_idx := s_buf_idx y\<rparr>" and ?y1 = "y\<lparr>s_buf_idx := s_buf_idx x\<rparr>"
  obtain s1 where 1: "swap_buf_idx ?b ?a s = Some s1" "ring_frame s s1"
    "slots s1 = (slots s)(?b \<mapsto> ?y1, ?a \<mapsto> ?x1)"
    using swap_buf_idx_works [OF y x] sne by metis
  note f1 = ring_frame_simps [OF 1(2)]
  define s2 where "s2 = s1\<lparr>pkts := (pkts s)(p1 \<mapsto> ?j, p2 \<mapsto> ?k)\<rparr>"
  have 2: "swap_buf p1 p2 s1 = Some s2"
    using swap_buf_works [of s1 p1 k1 p2 k2] p1 p2 ne f1(1) by (simp add: s2_def)
  have sl2: "slots s2 = slots s1" by (simp add: slots_def get_slot_def s2_def fun_eq_iff)
  have b2: "get_slot ?b s2 = Some ?y1" using 1(3) sl2 sne by (simp add: slots_fun)
  obtain s3 where 3: "upd_slot ?b (\<lambda>z. z\<lparr>s_flags := NS_BUF_CHANGED nm\<rparr>) s2 = Some s3"
    "ring_frame s2 s3" "slots s3 = (slots s2)(?b \<mapsto> ?y1\<lparr>s_flags := NS_BUF_CHANGED nm\<rparr>)"
    using upd_slot_works [OF b2] by metis
  have a3: "get_slot ?a s3 = Some ?x1" using 1(3) 3(3) sl2 sne by (simp add: slots_fun)
  obtain s4 where 4: "upd_slot ?a (\<lambda>z. z\<lparr>s_flags := NS_BUF_CHANGED nm\<rparr>) s3 = Some s4"
    "ring_frame s3 s4" "slots s4 = (slots s3)(?a \<mapsto> ?x1\<lparr>s_flags := NS_BUF_CHANGED nm\<rparr>)"
    using upd_slot_works [OF a3] by metis
  have b4: "get_slot ?b s4 = Some (?y1\<lparr>s_flags := NS_BUF_CHANGED nm\<rparr>)"
    using 3(3) 4(3) sne by (simp add: slots_fun)
  obtain s5 where 5: "upd_slot ?b (\<lambda>z. z\<lparr>s_len := ucast (p_len ?j)\<rparr>) s4 = Some s5"
    "ring_frame s4 s5" "slots s5 = (slots s4)(?b \<mapsto> ?y1\<lparr>s_flags := NS_BUF_CHANGED nm,
      s_len := ucast (p_len ?j)\<rparr>)"
    using upd_slot_works [OF b4] by metis
  have fr: "ring_frame s2 s5" using 3(2) 4(2) 5(2) by (blast intro: ring_frame_trans)
  note f4 = ring_frame_simps [OF ring_frame_trans [OF 3(2) 4(2)]] and f5 = ring_frame_simps [OF fr]
  define s6 where "s6 = s5\<lparr>pkts := (pkts s)(p1 \<mapsto> ?j,
    p2 \<mapsto> ?k\<lparr>p_len := slot_len (p_len k1)\<rparr>)\<rparr>"
  have b5: "get_slot ?b s5 = Some (?y1\<lparr>s_flags := NS_BUF_CHANGED nm, s_len := ucast (p_len ?j)\<rparr>)"
    using 5(3) by (simp add: slots_fun)
  have k1: "pkts s4 p1 = Some ?j" and k2: "pkts s5 p2 = Some ?k"
    using f4(1) f5(1) ne by (simp_all add: s2_def)
  have "sin_pkt_zone_swap nm p1 p2 s = Some s6"
    using p1 p2 1(1) 2 3(1) 4(1) k1 5(1) b5 k2 f5(1)
    by (simp add: sin_pkt_zone_swap_def upd_pkt_def s6_def s2_def slot_len_def)
  moreover have "slots s6 = slots s5" by (simp add: slots_def get_slot_def s6_def fun_eq_iff)
  then have "slots s6 = (slots s)(?a \<mapsto> swapped_src nm x y, ?b \<mapsto> swapped_dst nm (p_len k1) x y)"
    using 5(3) 4(3) 3(3) sl2 1(3) sne by (auto simp: swapped_src_def swapped_dst_def)
  moreover have "ring_frame (s\<lparr>pkts := pkts s6\<rparr>) s6"
    using fr 1(2) by (cases s; cases s1; cases s5) (simp add: ring_frame_def s6_def s2_def)
  ultimately show thesis by (intro that [of s6]) (simp_all add: s6_def)
qed

text \<open>
  A packet moved onto itself: the XOR swaps clear its buffer index and its buffer pointer.
  The transmit path never does this, because the two packets belong to different rings.
\<close>

lemma swap_self_clears:
  assumes "pkts s p = Some k" and "get_slot (my_slot k) s = Some x"
    and "sin_pkt_zone_swap nm p p s = Some s'"
  shows "\<exists>k' x'. pkts s' p = Some k' \<and> p_buf k' = 0 \<and>
    get_slot (my_slot k) s' = Some x' \<and> s_buf_idx x' = 0"
  using assms
  by (auto simp: sin_pkt_zone_swap_def swap_buf_idx_def xor_buf_idx_def swap_buf_def xor_buf_def
      upd_pkt_def upd_slot_def get_slot_def Let_def split: option.splits if_splits)

lemma sin_pkt_zone_copy_works:
  assumes p1: "pkts s p1 = Some k1" and p2: "pkts s p2 = Some k2" and ne: "p1 \<noteq> p2"
    and y: "get_slot (my_slot k2) s = Some y"
    and b1: "mem s (p_buf k1) = Some b1" and b2: "mem s (p_buf k2) = Some b2"
    and bne: "p_buf k1 \<noteq> p_buf k2" and small: "unat (p_len k1) < 2 ^ 31"
    and fit: "memcpy_extent (unat (p_len k1)) \<le> length b1"
      "memcpy_extent (unat (p_len k1)) \<le> length b2"
  defines "n \<equiv> memcpy_extent (unat (p_len k1))"
  obtains s' where "sin_pkt_zone_copy nm p1 p2 s = Some s'"
    and "pkts s' = (pkts s)(p2 \<mapsto> k2\<lparr>p_len := slot_len (p_len k1)\<rparr>)"
    and "mem s' = (mem s)(p_buf k2 \<mapsto> take n b1 @ drop n b2)"
    and "slots s' = (slots s)(my_slot k2 \<mapsto>
          y\<lparr>s_len := ucast (p_len k1), s_flags := NS_BUF_CHANGED nm\<rparr>)"
    and "ring_frame (s\<lparr>pkts := pkts s', mem := mem s'\<rparr>) s'"
proof -
  let ?b = "my_slot k2"
  define m where "m = (mem s)(p_buf k2 \<mapsto> take n b1 @ drop n b2)"
  have cp: "sin_memcpy (p_buf k1) (p_buf k2) (sint (p_len k1)) (mem s) = Some m"
    using sin_memcpy_copies [OF bne b1 b2 fit] small by (simp add: m_def n_def sint_nonneg_word)
  define s1 where "s1 = s\<lparr>mem := m\<rparr>"
  have sl1: "slots s1 = slots s" by (simp add: slots_def get_slot_def s1_def fun_eq_iff)
  have y1: "get_slot ?b s1 = Some y" using y sl1 by (simp add: slots_fun)
  obtain s2 where 2: "upd_slot ?b (\<lambda>z. z\<lparr>s_len := ucast (p_len k1)\<rparr>) s1 = Some s2"
    "ring_frame s1 s2" "slots s2 = (slots s1)(?b \<mapsto> y\<lparr>s_len := ucast (p_len k1)\<rparr>)"
    using upd_slot_works [OF y1] by metis
  have y2: "get_slot ?b s2 = Some (y\<lparr>s_len := ucast (p_len k1)\<rparr>)" using 2(3) by (simp add: slots_fun)
  note f2 = ring_frame_simps [OF 2(2)]
  define s3 where "s3 = s2\<lparr>pkts := (pkts s)(p2 \<mapsto> k2\<lparr>p_len := slot_len (p_len k1)\<rparr>)\<rparr>"
  have 3: "upd_pkt p2 (\<lambda>k. k\<lparr>p_len := ucast (ucast (p_len k1) :: u16)\<rparr>) s2 = Some s3"
    using p2 f2(1) by (simp add: upd_pkt_def s3_def s1_def slot_len_def)
  have sl3: "slots s3 = slots s2" by (simp add: slots_def get_slot_def s3_def fun_eq_iff)
  have y3: "get_slot ?b s3 = Some (y\<lparr>s_len := ucast (p_len k1)\<rparr>)" using y2 sl3 by (simp add: slots_fun)
  obtain s4 where 4: "upd_slot ?b (\<lambda>z. z\<lparr>s_flags := NS_BUF_CHANGED nm\<rparr>) s3 = Some s4"
    "ring_frame s3 s4"
    "slots s4 = (slots s3)(?b \<mapsto> y\<lparr>s_len := ucast (p_len k1), s_flags := NS_BUF_CHANGED nm\<rparr>)"
    using upd_slot_works [OF y3] by metis
  note f4 = ring_frame_simps [OF 4(2)]
  have "sin_pkt_zone_copy nm p1 p2 s = Some s4"
    using p1 p2 cp 2(1) y2 3 4(1) by (simp add: sin_pkt_zone_copy_def s1_def)
  moreover have "ring_frame (s\<lparr>pkts := pkts s4, mem := mem s4\<rparr>) s4"
    using 2(2) 4(2) f4 f2
    by (cases s; cases s2; cases s4) (simp add: ring_frame_def s1_def s3_def)
  moreover have "mem s4 = m" using f4(4) f2(4) by (simp add: s3_def s1_def)
  moreover have "pkts s4 = (pkts s)(p2 \<mapsto> k2\<lparr>p_len := slot_len (p_len k1)\<rparr>)"
    using f4(1) by (simp add: s3_def)
  moreover have "slots s4 = (slots s)(?b \<mapsto>
      y\<lparr>s_len := ucast (p_len k1), s_flags := NS_BUF_CHANGED nm\<rparr>)"
    using 4(3) 2(3) sl3 sl1 by simp
  ultimately show thesis by (intro that [of s4]) (simp_all add: m_def)
qed

subsection \<open>Returning a list of packets\<close>

text \<open>
  The function that \<open>sin_pkt_zone_ret_all\<close> applies to the descriptors: every packet of the
  list is free and off the list afterwards, the others are as before.
\<close>

definition free_all :: "addr list \<Rightarrow> (addr \<rightharpoonup> sin_pkt) \<Rightarrow> (addr \<rightharpoonup> sin_pkt)" where
  "free_all xs P a = (if a \<in> set xs then map_option mark_free (P a) else P a)"

definition unlink_all :: "addr list \<Rightarrow> (addr \<rightharpoonup> ptr) \<Rightarrow> (addr \<rightharpoonup> ptr)" where
  "unlink_all xs h a = (if a \<in> set xs then Some NULL else h a)"

lemma mark_free_idem [simp]: "mark_free (mark_free k) = mark_free k"
  by (simp add: mark_free_def and.assoc)

lemma free_all_simps:
  "free_all [] P = P" "P x = Some k \<Longrightarrow> free_all (x # xs) P = free_all xs (P(x \<mapsto> mark_free k))"
  by (auto simp: free_all_def fun_eq_iff)

lemma unlink_all_simps:
  "unlink_all [] h = h" "unlink_all (x # xs) h = unlink_all xs (h(x \<mapsto> NULL))"
  by (auto simp: unlink_all_def fun_eq_iff)

lemma ret_all_loop_works:
  assumes "chain (links s) p xs NULL" and "\<forall>x \<in> set xs. pkts s x \<noteq> None"
  shows "ret_all_loop p s =
    Some (s\<lparr>links := unlink_all xs (links s), pkts := free_all xs (pkts s)\<rparr>)"
  using assms
proof (induction xs arbitrary: p s)
  case Nil
  then show ?case by (simp add: ret_all_loop.simps unlink_all_simps free_all_simps)
next
  case (Cons x xs)
  then obtain n k where n: "p = Some x" "links s x = Some n" "chain (links s) n xs NULL"
    and k: "pkts s x = Some k" by auto
  have x: "x \<notin> set xs" using chain_distinct [OF Cons.prems(1)] by simp
  define s1 where "s1 = s\<lparr>links := (links s)(x \<mapsto> NULL), pkts := (pkts s)(x \<mapsto> mark_free k)\<rparr>"
  have "ret_all_loop p s = ret_all_loop n s1"
    using n k by (simp add: ret_all_loop.simps [of "Some x"] SIN_ITER_NEXT_def SIN_TYPE_LINK_def
        sin_pkt_zone_ret_pkt_def setflags_free s1_def)
  also have "\<dots> = Some (s1\<lparr>links := unlink_all xs (links s1), pkts := free_all xs (pkts s1)\<rparr>)"
  proof (rule Cons.IH)
    show "chain (links s1) n xs NULL" using n x by (simp add: s1_def)
    show "\<forall>x \<in> set xs. pkts s1 x \<noteq> None" using Cons.prems k by (simp add: s1_def)
  qed
  finally show ?case using k by (simp add: s1_def unlink_all_simps free_all_simps)
qed

subsection \<open>Properties\<close>

text \<open>
  Zero copy. \<open>sin_pkt_zone_swap\<close> exchanges, by XOR through memory, the buffers of two
  packets and of their two slots, flags both slots as changed, gives the destination the
  length of the source, and changes nothing else: no other slot, packet, buffer or link.
\<close>

theorem zone_swap_correct:
  assumes "pkts s p1 = Some k1" and "pkts s p2 = Some k2" and "p1 \<noteq> p2"
    and "get_slot (my_slot k1) s = Some x" and "get_slot (my_slot k2) s = Some y"
    and "my_slot k1 \<noteq> my_slot k2" and "unat (p_len k1) < 65536"
  shows "\<exists>s'. sin_pkt_zone_swap nm p1 p2 s = Some s' \<and>
    pkts s' = (pkts s)(p1 \<mapsto> k1\<lparr>p_buf := p_buf k2\<rparr>,
      p2 \<mapsto> k2\<lparr>p_buf := p_buf k1, p_len := p_len k1\<rparr>) \<and>
    get_slot (my_slot k1) s' = Some (x\<lparr>s_buf_idx := s_buf_idx y, s_flags := NS_BUF_CHANGED nm\<rparr>) \<and>
    get_slot (my_slot k2) s' = Some (y\<lparr>s_buf_idx := s_buf_idx x, s_flags := NS_BUF_CHANGED nm,
      s_len := ucast (p_len k1)\<rparr>) \<and>
    (\<forall>sl. sl \<noteq> my_slot k1 \<longrightarrow> sl \<noteq> my_slot k2 \<longrightarrow> get_slot sl s' = get_slot sl s) \<and>
    mem s' = mem s \<and> links s' = links s \<and> queues s' = queues s"
proof -
  obtain s' where s': "sin_pkt_zone_swap nm p1 p2 s = Some s'"
    "pkts s' = (pkts s)(p1 \<mapsto> k1\<lparr>p_buf := p_buf k2\<rparr>, p2 \<mapsto> k2\<lparr>p_buf := p_buf k1, p_len := slot_len (p_len k1)\<rparr>)"
    "slots s' = (slots s)(my_slot k1 \<mapsto> swapped_src nm x y, my_slot k2 \<mapsto> swapped_dst nm (p_len k1) x y)"
    "ring_frame (s\<lparr>pkts := pkts s'\<rparr>) s'"
    using sin_pkt_zone_swap_works [OF assms(1-6)] by metis
  note f = ring_frame_simps [OF s'(4)]
  show ?thesis using s'(1-3) f assms(6) slot_len_id [OF assms(7)]
    by (simp add: slots_fun swapped_src_def swapped_dst_def)
qed

theorem zone_swap_correct_witness:
  "\<exists>s'. sin_pkt_zone_swap ex_nm 21 33 ex_store = Some s' \<and> mem s' = mem ex_store \<and>
     pkts s' = (pkts ex_store)(21 \<mapsto> (ex_pkt 10 71 0 41 1)\<lparr>p_buf := 6\<rparr>,
       33 \<mapsto> (ex_pkt 11 72 2 46 6)\<lparr>p_buf := 1, p_len := 64\<rparr>)"
  using zone_swap_correct [OF ex_store_facts(1,4), of "ex_slot 1" "ex_slot 6" ex_nm]
  by (auto simp: ex_store_facts)

text \<open>
  A packet moved onto itself is destroyed: \<open>sin_pkt_zone_swap\<close> on twice the same packet
  clears its buffer pointer and the buffer index of its slot (index 0 is a buffer of the
  kernel). The transmit thread must never be given a packet of its own ring.
\<close>

theorem zone_swap_self:
  assumes "pkts s p = Some k" and "get_slot (my_slot k) s = Some x"
    and "sin_pkt_zone_swap nm p p s = Some s'"
  shows "\<exists>k' x'. pkts s' p = Some k' \<and> p_buf k' = 0 \<and> get_slot (my_slot k) s' = Some x' \<and>
    s_buf_idx x' = 0"
  by (rule swap_self_clears [OF assms])

theorem zone_swap_self_witness:
  "\<exists>s' k' x'. sin_pkt_zone_swap ex_nm 21 21 ex_store = Some s' \<and> pkts s' 21 = Some k' \<and>
     p_buf k' = 0 \<and> get_slot (71, 0) s' = Some x' \<and> s_buf_idx x' = 0"
proof -
  have "\<exists>s'. sin_pkt_zone_swap ex_nm 21 21 ex_store = Some s'"
    by (simp add: sin_pkt_zone_swap_def swap_buf_idx_def xor_buf_idx_def swap_buf_def xor_buf_def
        upd_pkt_def upd_slot_def get_slot_def ex_store_def ex_rx_ring_def ex_slot_def)
  then obtain s' where "sin_pkt_zone_swap ex_nm 21 21 ex_store = Some s'" ..
  with zone_swap_self [OF ex_store_facts(1) _ this] show ?thesis by (simp add: ex_store_facts)
qed

text \<open>
  \<open>sin_pkt_zone_ret_all\<close> walks the whole list, whatever zones its packets belong to, and
  leaves every packet of it free and unlinked and every other packet as it was.
\<close>

theorem ret_all_correct:
  assumes "lst_repr (links s) pl xs" and "\<forall>x \<in> set xs. x \<in> dom (pkts s)"
  shows "\<exists>s'. sin_pkt_zone_ret_all pl s = Some s' \<and>
    (\<forall>x \<in> set xs. links s' x = Some NULL \<and> sin_pkt_isbusy x s' = Some 0) \<and>
    (\<forall>x. x \<notin> set xs \<longrightarrow> links s' x = links s x \<and> pkts s' x = pkts s x)"
proof -
  let ?s = "s\<lparr>links := unlink_all xs (links s), pkts := free_all xs (pkts s)\<rparr>"
  have "\<forall>x \<in> set xs. pkts s x \<noteq> None" using assms(2) by auto
  from ret_all_loop_works [OF lst_reprD(1) [OF assms(1)] this]
  have "sin_pkt_zone_ret_all pl s = Some ?s" by (simp add: sin_pkt_zone_ret_all_def)
  moreover have "sin_pkt_isbusy x ?s = Some 0" if "x \<in> set xs" for x
  proof -
    from assms(2) that obtain k where "pkts s x = Some k" by auto
    with that have "pkts ?s x = Some (mark_free k)" by (simp add: free_all_def)
    then show ?thesis by (simp add: sin_pkt_isbusy_iff)
  qed
  ultimately show ?thesis
    by (intro exI [of _ ?s]) (simp add: unlink_all_def free_all_def)
qed

theorem ret_all_correct_witness:
  "\<exists>s'. sin_pkt_zone_ret_all \<lparr>lst_head = Some 21, lst_tail = Some 22, lst_len = 2\<rparr>
       (ex_store\<lparr>links := (links ex_store)(21 \<mapsto> Some 22)\<rparr>) = Some s' \<and>
     links s' 21 = Some NULL \<and> sin_pkt_isbusy 22 s' = Some 0"
proof -
  let ?s = "ex_store\<lparr>links := (links ex_store)(21 \<mapsto> Some 22)\<rparr>"
  have "lst_repr (links ?s) \<lparr>lst_head = Some 21, lst_tail = Some 22, lst_len = 2\<rparr> [21, 22]"
    by (simp add: lst_repr_def ex_store_def)
  moreover have "\<forall>x \<in> set [21, 22]. x \<in> dom (pkts ?s)" by (simp add: domIff ex_store_facts)
  ultimately show ?thesis using ret_all_correct by fastforce
qed

end
