(* ===== verification/Sin_Tx_Thread.thy ===== *)
theory Sin_Tx_Thread
  imports Sin_Ring Sin_Pkt_Zone
begin

text \<open>
  The transmit thread of one ring (\<open>sin_tx_thread.c\<close>): it takes packets from its output
  queue, moves as many of them as the ring has room for into the ring's slots, by exchanging
  buffers inside one netmap memory and by copying otherwise, returns them to their zone,
  and advances the ring. What does not fit stays on the local list \<open>pkts_out\<close>.
\<close>

record sin_tx_thread =
  stt_outpkt_queue :: addr
  stt_tx_ring :: addr
  stt_tx_zone :: addr
  stt_queue_fd :: int

subsection \<open>The ring\<close>

definition tx_ring_nslots :: "netmap_ring \<Rightarrow> u32" where
  "tx_ring_nslots r = (if r_cur r > r_tail r then num_slots r + r_tail r - r_cur r
     else r_tail r - r_cur r)"

partial_function (option) getpkts_loop :: "netmap_api \<Rightarrow> addr \<Rightarrow> addr \<Rightarrow> sin_list \<Rightarrow> u32 \<Rightarrow> u32 \<Rightarrow>
    'a pstore_scheme \<Rightarrow> (sin_list \<times> 'a pstore_scheme) option" where
  "getpkts_loop nm ring pkt_zone plp curidx ntx s = (if ntx > 1 then do {
     r \<leftarrow> rings s ring;
     let curidx = nm_ring_next nm r curidx;
     pkt \<leftarrow> pmap_at pkt_zone curidx s;
     (plp, s) \<leftarrow> sin_list_append plp pkt s;
     getpkts_loop nm ring pkt_zone plp curidx (ntx - 1) s
   } else Some (plp, s))"

definition tx_zone_getpkts :: "netmap_api \<Rightarrow> addr \<Rightarrow> addr \<Rightarrow> u32 \<Rightarrow> 'a pstore_scheme \<Rightarrow>
    (sin_list \<times> 'a pstore_scheme) option" where
  "tx_zone_getpkts nm ring pkt_zone ntx s = do {
     r \<leftarrow> rings s ring;
     pkt \<leftarrow> pmap_at pkt_zone (r_cur r) s;
     getpkts_loop nm ring pkt_zone \<lparr>lst_head = Some pkt, lst_tail = Some pkt, lst_len = 1\<rparr>
       (r_cur r) ntx s
   }"

text \<open>The loop \<open>while (curidx >= ring->num_slots)\<close>; on a ring without slots it never ends.\<close>

partial_function (option) advance_loop :: "u32 \<Rightarrow> u32 \<Rightarrow> u32 option" where
  "advance_loop nslots curidx = (if curidx \<ge> nslots
     then advance_loop nslots (curidx - nslots) else Some curidx)"

definition advance_tx_ring :: "addr \<Rightarrow> u32 \<Rightarrow> 'a pstore_scheme \<Rightarrow> 'a pstore_scheme option" where
  "advance_tx_ring ring ntx s = do {
     r \<leftarrow> rings s ring;
     curidx \<leftarrow> advance_loop (num_slots r) (r_cur r + ntx);
     set_ring ring (\<lambda>r. r\<lparr>r_head := curidx, r_cur := curidx\<rparr>) s
   }"

subsection \<open>Sending\<close>

text \<open>The body of the loop over the packets to send.\<close>

definition send_one :: "netmap_api \<Rightarrow> addr \<Rightarrow> addr \<Rightarrow> addr \<Rightarrow> 'a pstore_scheme \<Rightarrow>
    (ptr \<times> ptr \<times> 'a pstore_scheme) option" where
  "send_one nm tx_zone pkt pkt_tx s = do {
     zt \<leftarrow> zones s tx_zone;
     k \<leftarrow> pkts s pkt;
     z \<leftarrow> zones s (my_zone k);
     s \<leftarrow> (if z_netmap_fd zt = z_netmap_fd z then sin_pkt_zone_swap nm pkt pkt_tx s
          else sin_pkt_zone_copy nm pkt pkt_tx s);
     pkt_next \<leftarrow> SIN_ITER_NEXT pkt s;
     s \<leftarrow> SIN_TYPE_LINK pkt NULL s;
     s \<leftarrow> sin_pkt_zone_ret_pkt pkt s;
     pkt_next_tx \<leftarrow> SIN_ITER_NEXT pkt_tx s;
     s \<leftarrow> SIN_TYPE_LINK pkt_tx NULL s;
     Some (pkt_next, pkt_next_tx, s)
   }"

text \<open>The loop \<open>for (i = 0; i < ntx; i++)\<close>, by the number of packets still to send.\<close>

primrec send_loop :: "netmap_api \<Rightarrow> addr \<Rightarrow> nat \<Rightarrow> ptr \<Rightarrow> ptr \<Rightarrow> 'a pstore_scheme \<Rightarrow>
    (ptr \<times> ptr \<times> 'a pstore_scheme) option" where
  "send_loop nm tx_zone 0 pkt pkt_tx s = Some (pkt, pkt_tx, s)"
| "send_loop nm tx_zone (Suc n) pkt pkt_tx s = do {
     p \<leftarrow> pkt;
     t \<leftarrow> pkt_tx;
     (pkt, pkt_tx, s) \<leftarrow> send_one nm tx_zone p t s;
     send_loop nm tx_zone n pkt pkt_tx s
   }"

text \<open>The block under \<open>if (!SIN_LIST_IS_EMPTY(&pkts_out))\<close>; the first result is \<open>atx\<close>.\<close>

definition tx_send :: "netmap_api \<Rightarrow> sin_tx_thread \<Rightarrow> u32 \<Rightarrow> sin_list \<Rightarrow> 'a pstore_scheme \<Rightarrow>
    (u32 \<times> sin_list \<times> 'a pstore_scheme) option" where
  "tx_send nm sttp aslots pkts_out s =
     (if \<not> SIN_LIST_IS_EMPTY pkts_out then do {
        let ntx = SIN_MIN aslots (lst_len pkts_out);
        (pkts_tx, s) \<leftarrow> tx_zone_getpkts nm (stt_tx_ring sttp) (stt_tx_zone sttp) ntx s;
        (pkt, _, s) \<leftarrow> send_loop nm (stt_tx_zone sttp) (unat ntx) (lst_head pkts_out)
          (lst_head pkts_tx) s;
        s \<leftarrow> advance_tx_ring (stt_tx_ring sttp) ntx s;
        let pkts_out = pkts_out\<lparr>lst_head := pkt\<rparr>;
        let pkts_out = (if pkt = NULL then pkts_out\<lparr>lst_tail := NULL, lst_len := 0\<rparr>
          else pkts_out\<lparr>lst_len := lst_len pkts_out - ntx\<rparr>);
        Some (ntx, pkts_out, s)
      } else Some (0, pkts_out, s))"

subsection \<open>The thread\<close>

text \<open>
  One turn of the loop, with what the outside does: \<open>in_sync\<close> what \<open>NIOCTXSYNC\<close> makes of
  the ring, \<open>in_ctrl\<close> the value of \<open>check_ctrl\<close>. The turn may fall asleep in the queue; it
  is then taken up by the \<open>wake\<close> function, once the condition variable has been signalled,
  with the value of \<open>aslots\<close> computed before.
\<close>

record tx_input =
  in_sync :: "netmap_ring \<Rightarrow> netmap_ring"
  tx_ctrl :: int

datatype tx_turn = Next_turn | Exit_thread | Asleep u32

definition tx_finish :: "tx_input \<Rightarrow> sin_tx_thread \<Rightarrow> u32 \<Rightarrow> u32 \<Rightarrow> sin_list \<Rightarrow> 'a pstore_scheme \<Rightarrow>
    (tx_turn \<times> sin_list \<times> 'a pstore_scheme) option" where
  "tx_finish inp sttp aslots atx pkts_out s = do {
     s \<leftarrow> (if atx > 0 \<or> aslots = 0 then set_ring (stt_tx_ring sttp) (in_sync inp) s else Some s);
     if tx_ctrl inp = 15 then Some (Exit_thread, pkts_out, s)
     else Some (Next_turn, pkts_out, s)
   }"

definition tx_go_on :: "netmap_api \<Rightarrow> tx_input \<Rightarrow> sin_tx_thread \<Rightarrow> u32 \<Rightarrow>
    (u32 outcome \<times> sin_list \<times> 'a pstore_scheme) \<Rightarrow>
    (tx_turn \<times> sin_list \<times> 'a pstore_scheme) option" where
  "tx_go_on nm inp sttp aslots got = (case got of
     (Wait, pkts_out, s) \<Rightarrow> Some (Asleep aslots, pkts_out, s)
   | (Return _, pkts_out, s) \<Rightarrow> do {
       (atx, pkts_out, s) \<leftarrow> tx_send nm sttp aslots pkts_out s;
       tx_finish inp sttp aslots atx pkts_out s
     })"

definition sin_tx_thread_turn :: "netmap_api \<Rightarrow> tx_input \<Rightarrow> sin_tx_thread \<Rightarrow> sin_list \<Rightarrow>
    'a pstore_scheme \<Rightarrow> (tx_turn \<times> sin_list \<times> 'a pstore_scheme) option" where
  "sin_tx_thread_turn nm inp sttp pkts_out s = do {
     r \<leftarrow> rings s (stt_tx_ring sttp);
     let aslots = tx_ring_nslots r;
     if aslots = 0 then tx_finish inp sttp aslots 0 pkts_out s
     else do {
       got \<leftarrow> (if SIN_LIST_IS_EMPTY pkts_out
         then sin_wi_queue_get_items (stt_outpkt_queue sttp) pkts_out 1 1 s
         else Some (Return 0, pkts_out, s));
       tx_go_on nm inp sttp aslots got
     }
   }"

definition sin_tx_thread_wake :: "netmap_api \<Rightarrow> tx_input \<Rightarrow> sin_tx_thread \<Rightarrow> u32 \<Rightarrow> sin_list \<Rightarrow>
    'a pstore_scheme \<Rightarrow> (tx_turn \<times> sin_list \<times> 'a pstore_scheme) option" where
  "sin_tx_thread_wake nm inp sttp aslots pkts_out s = do {
     got \<leftarrow> sin_wi_queue_get_items_wake (stt_outpkt_queue sttp) pkts_out 1 1 s;
     tx_go_on nm inp sttp aslots got
   }"

subsection \<open>Indices\<close>

lemma tx_ring_nslots_spec:
  assumes "ring_ok r"
  shows "unat (tx_ring_nslots r) = rdist (ring_size r) (unat (r_cur r)) (unat (r_tail r))"
proof (cases "r_cur r > r_tail r")
  case True
  note o = ring_okD [OF assms]
  have lt: "unat (r_tail r) < unat (r_cur r)" using True by (simp add: word_less_nat_alt)
  have c: "num_slots r + r_tail r - r_cur r = num_slots r - (r_cur r - r_tail r)" by simp
  have u: "unat (r_cur r - r_tail r) = unat (r_cur r) - unat (r_tail r)"
    using lt by (intro unat_minus_word) simp
  have "unat (num_slots r + r_tail r - r_cur r)
      = unat (num_slots r) - unat (r_cur r - r_tail r)"
    unfolding c using o u by (intro unat_minus_word) (simp add: ring_size_def)
  then show ?thesis using True lt u o by (simp add: tx_ring_nslots_def rdist_def ring_size_def)
next
  case False
  then have le: "unat (r_cur r) \<le> unat (r_tail r)" by (simp add: word_less_nat_alt)
  then show ?thesis using False by (simp add: tx_ring_nslots_def rdist_def unat_minus_word)
qed

lemma advance_loop_works:
  assumes "0 < unat n"
  shows "\<exists>c. advance_loop n x = Some c \<and> unat c = unat x mod unat n"
proof (induction "unat x" arbitrary: x rule: less_induct)
  case less
  show ?case
  proof (cases "x \<ge> n")
    case True
    then have le: "unat n \<le> unat x" by (simp add: word_le_nat_alt)
    then have u: "unat (x - n) = unat x - unat n" by (rule unat_minus_word)
    with assms le have "unat (x - n) < unat x" by simp
    then obtain c where "advance_loop n (x - n) = Some c" "unat c = unat (x - n) mod unat n"
      using less by blast
    with True u le show ?thesis by (simp add: advance_loop.simps [of n x] le_mod_geq)
  next
    case False
    then have "unat x < unat n" by (simp add: word_le_nat_alt)
    with False show ?thesis by (simp add: advance_loop.simps [of n x])
  qed
qed

text \<open>
  \<open>head\<close> and \<open>cur\<close> move by \<open>ntx\<close>, around the end of the ring, as long as the sum does not
  pass \<open>2 ^ 32\<close>.
\<close>

lemma advance_tx_ring_works:
  assumes r: "rings s ring = Some r" "ring_ok r" and b: "unat (r_cur r) + unat ntx < 2 ^ 32"
  obtains c where "advance_tx_ring ring ntx s
      = Some (s\<lparr>rings := (rings s)(ring \<mapsto> r\<lparr>r_head := c, r_cur := c\<rparr>)\<rparr>)"
    and "unat c = ridx (ring_size r) (unat (r_cur r)) (unat ntx)"
proof -
  have "0 < unat (num_slots r)" using ring_okD(1) [OF r(2)] by (simp add: ring_size_def)
  from advance_loop_works [OF this, of "r_cur r + ntx"]
  obtain c where c: "advance_loop (num_slots r) (r_cur r + ntx) = Some c"
    "unat c = unat (r_cur r + ntx) mod unat (num_slots r)" by blast
  then have "unat c = ridx (ring_size r) (unat (r_cur r)) (unat ntx)"
    using unat_plus_word [OF b] by (simp add: ridx_def ring_size_def)
  with c(1) r(1) show thesis by (intro that [of c]) (simp_all add: advance_tx_ring_def set_ring_def)
qed

text \<open>On a ring without slots the loop of \<open>advance_tx_ring\<close> does not end.\<close>

lemma advance_loop_less:
  assumes "advance_loop n x = Some c"
  shows "c < n"
  by (rule advance_loop.raw_induct [where P = "\<lambda>n x c. c < n", OF _ assms])
    (auto split: if_splits)

lemma advance_loop_no_slots: "advance_loop 0 x = None"
  using advance_loop_less [of 0 x] by (cases "advance_loop 0 x") auto

subsection \<open>Collecting the slots' packets\<close>

lemma getpkts_loop_works:
  assumes nm: "netmap_ok nm" and z: "zones s zone = Some z" "length (z_pmap z) = n"
    and r: "rings s ring = Some r" "ring_size r = n"
    and c: "unat c < n" and k: "unat ntx = Suc k"
    and new: "new = map ((!) (z_pmap z)) (window n (ridx n (unat c) 1) k)"
    and l: "lst_repr h pl xs" "\<forall>p \<in> set new. h p = Some NULL" "distinct (xs @ new)"
      "length xs + k < 2 ^ 32"
  shows "\<exists>pl' h'. getpkts_loop nm ring zone pl c ntx (s\<lparr>links := h\<rparr>) = Some (pl', s\<lparr>links := h'\<rparr>) \<and>
    lst_repr h' pl' (xs @ new) \<and> (\<forall>a. a \<notin> set (xs @ new) \<longrightarrow> h' a = h a)"
  using c k new l
proof (induction k arbitrary: c ntx new h pl xs)
  case 0
  then have "\<not> ntx > 1" by (simp add: word_less_nat_alt)
  with 0 show ?case by (intro exI [of _ pl] exI [of _ h]) (simp add: getpkts_loop.simps)
next
  case (Suc k)
  let ?c = "nm_ring_next nm r c"
  have u: "unat ?c = ridx n (unat c) 1" using nm_next_unat [OF nm, of c r] Suc.prems(1) r(2) by simp
  have cn: "unat ?c < n" using u Suc.prems(1) by (metis ridx_less gr_zeroI not_less_zero)
  define p where "p = z_pmap z ! unat ?c"
  define new' where "new' = map ((!) (z_pmap z)) (window n (ridx n (unat ?c) 1) k)"
  have new: "new = p # new'" using Suc.prems(3) window_Suc [OF cn, of k] u
    by (simp add: p_def new'_def)
  have gt: "ntx > 1" and u1: "unat (ntx - 1) = Suc k"
    using Suc.prems(2) unat_minus_word [of 1 ntx] by (simp_all add: word_less_nat_alt)
  have pm: "pmap_at zone ?c (s\<lparr>links := h\<rparr>) = Some p"
    using z cn by (simp add: pmap_at_def p_def)
  define h1 where "h1 = app_links h xs (Some p)"
  obtain pl1 where a: "sin_list_append pl p (s\<lparr>links := h\<rparr>) = Some (pl1, s\<lparr>links := h1\<rparr>)"
    "lst_repr h1 pl1 (xs @ [p])"
    using sin_list_append_repr [of "s\<lparr>links := h\<rparr>" pl xs p] Suc.prems(4-7) new
    by (auto simp: h1_def)
  have step: "getpkts_loop nm ring zone pl c ntx (s\<lparr>links := h\<rparr>)
      = getpkts_loop nm ring zone pl1 ?c (ntx - 1) (s\<lparr>links := h1\<rparr>)"
    using gt r(1) pm a(1) by (simp add: getpkts_loop.simps [of nm ring zone pl c ntx] Let_def)
  have "\<forall>q \<in> set new'. h1 q = Some NULL"
  proof
    fix q assume "q \<in> set new'"
    then have "q \<notin> set xs" "h q = Some NULL" using Suc.prems(5,6) new by auto
    then show "h1 q = Some NULL" by (simp add: h1_def app_links_other)
  qed
  moreover have "distinct ((xs @ [p]) @ new')" "length (xs @ [p]) + k < 2 ^ 32"
    using Suc.prems(6,7) new by auto
  ultimately obtain pl' h' where IH: "getpkts_loop nm ring zone pl1 ?c (ntx - 1) (s\<lparr>links := h1\<rparr>)
      = Some (pl', s\<lparr>links := h'\<rparr>)" "lst_repr h' pl' ((xs @ [p]) @ new')"
      "\<forall>a. a \<notin> set ((xs @ [p]) @ new') \<longrightarrow> h' a = h1 a"
    using Suc.IH [OF cn u1 new'_def a(2)] by blast
  with step new show ?case
    by (intro exI [of _ pl'] exI [of _ h']) (simp add: h1_def app_links_other)
qed

lemma tx_zone_getpkts_works:
  assumes nm: "netmap_ok nm" and z: "zones s zone = Some z" "length (z_pmap z) = n" "distinct (z_pmap z)"
    and r: "rings s ring = Some r" "ring_ok r" "ring_size r = n"
    and k: "0 < unat ntx" "unat ntx \<le> n"
    and new: "new = map ((!) (z_pmap z)) (window n (unat (r_cur r)) (unat ntx))"
    and l: "\<forall>p \<in> set new. links s p = Some NULL"
  shows "\<exists>pl h. tx_zone_getpkts nm ring zone ntx s = Some (pl, s\<lparr>links := h\<rparr>) \<and>
    lst_repr h pl new \<and> (\<forall>a. a \<notin> set new \<longrightarrow> h a = links s a)"
proof -
  let ?c = "unat (r_cur r)" and ?p = "z_pmap z ! unat (r_cur r)"
  have c: "?c < n" using ring_okD(4) [OF r(2)] r(3) by simp
  obtain k' where k': "unat ntx = Suc k'" using k(1) gr0_implies_Suc by blast
  define new' where "new' = map ((!) (z_pmap z)) (window n (ridx n ?c 1) k')"
  have n: "new = ?p # new'" using new k' window_Suc [OF c] by (simp add: new'_def)
  have d: "distinct new"
    using new z(2,3) distinct_window [OF c k(2)] set_window [OF c k(2)]
    by (auto simp: distinct_map inj_on_def nth_eq_iff_index_eq)
  let ?pl = "\<lparr>lst_head = Some ?p, lst_tail = Some ?p, lst_len = 1\<rparr>"
  have "lst_repr (links s) ?pl [?p]" using l n by (simp add: lst_repr_def)
  moreover have "\<forall>p \<in> set new'. links s p = Some NULL" "distinct ([?p] @ new')" using l n d by auto
  moreover have "length [?p] + k' < 2 ^ 32" using k' unat_u32_bound [of ntx] by simp
  ultimately obtain pl h where "getpkts_loop nm ring zone ?pl (r_cur r) ntx (s\<lparr>links := links s\<rparr>)
      = Some (pl, s\<lparr>links := h\<rparr>)" "lst_repr h pl ([?p] @ new')"
      "\<forall>a. a \<notin> set ([?p] @ new') \<longrightarrow> h a = links s a"
    using getpkts_loop_works [OF nm z(1,2) r(1,3) c k' new'_def] by blast
  moreover have "pmap_at zone (r_cur r) s = Some ?p" using z c by (simp add: pmap_at_def)
  ultimately show ?thesis using r(1) n
    by (intro exI [of _ pl] exI [of _ h]) (simp add: tx_zone_getpkts_def)
qed

subsection \<open>Property\<close>

text \<open>
  C19. The loop of \<open>advance_tx_ring\<close> ends exactly on rings that have slots, with the index
  modulo the number of slots; on a ring without slots it runs for ever.
\<close>

theorem advance_loop_correct:
  "advance_loop n x = (if n = 0 then None else Some (x mod n))"
proof (cases "n = 0")
  case False
  then have "0 < unat n" using unat_eq_zero_iff [of n] by auto
  then obtain c where "advance_loop n x = Some c" "unat c = unat x mod unat n"
    using advance_loop_works by blast
  with False show ?thesis by (simp add: word_unat_eq_iff unat_mod)
qed (simp add: advance_loop_no_slots)

end
