(* ===== verification/Sin_Tx_Send.thy ===== *)
theory Sin_Tx_Send
  imports Sin_Tx_Thread
begin

text \<open>
  What the transmit thread does with the packets: the content of each packet sent arrives,
  in order, in the next slot of the ring, whether by exchange of buffers or by copy, and the
  packet is returned. Buffers of 2048 bytes or more are assumed, and packets that fit.
\<close>

definition buf_of :: "'a pstore_scheme \<Rightarrow> addr \<Rightarrow> u64" where
  "buf_of s x = (case pkts s x of None \<Rightarrow> 0 | Some k \<Rightarrow> p_buf k)"

definition slot_of :: "'a pstore_scheme \<Rightarrow> addr \<Rightarrow> addr \<times> nat" where
  "slot_of s x = (case pkts s x of None \<Rightarrow> (0, 0) | Some k \<Rightarrow> my_slot k)"

definition content :: "'a pstore_scheme \<Rightarrow> addr \<Rightarrow> u8 list option" where
  "content s x = (case pkts s x of None \<Rightarrow> None
     | Some k \<Rightarrow> map_option (take (unat (p_len k))) (mem s (p_buf k)))"

text \<open>What netmap finds in a slot: the first \<open>len\<close> bytes of the slot's buffer.\<close>

definition slot_content :: "netmap_api \<Rightarrow> 'a pstore_scheme \<Rightarrow> addr \<times> nat \<Rightarrow> u8 list option" where
  "slot_content nm s sl = (case slots s sl of None \<Rightarrow> None
     | Some y \<Rightarrow> map_option (take (unat (s_len y))) (mem s (NETMAP_BUF nm (fst sl) (s_buf_idx y))))"

text \<open>
  A packet in order: it points to the buffer of its slot, which has room for 2048 bytes. A
  packet in step with its slot has the length of the slot as well.
\<close>

definition tx_pkt_ok :: "netmap_api \<Rightarrow> 'a pstore_scheme \<Rightarrow> addr \<Rightarrow> bool" where
  "tx_pkt_ok nm s x \<longleftrightarrow> (case pkts s x of None \<Rightarrow> False
     | Some k \<Rightarrow> (case slots s (my_slot k) of None \<Rightarrow> False
         | Some y \<Rightarrow> p_buf k = NETMAP_BUF nm (fst (my_slot k)) (s_buf_idx y)) \<and> zones s (my_zone k) \<noteq> None \<and>
         (case mem s (p_buf k) of None \<Rightarrow> False | Some b \<Rightarrow> 2048 \<le> length b))"

definition in_step :: "netmap_api \<Rightarrow> 'a pstore_scheme \<Rightarrow> addr \<Rightarrow> bool" where
  "in_step nm s x \<longleftrightarrow> (\<exists>k y. pkts s x = Some k \<and> slots s (my_slot k) = Some y \<and>
     p_buf k = NETMAP_BUF nm (fst (my_slot k)) (s_buf_idx y) \<and> unat (s_len y) = unat (p_len k))"

lemma in_step_content: "in_step nm s x \<Longrightarrow> slot_content nm s (slot_of s x) = content s x"
  by (auto simp: in_step_def slot_content_def slot_of_def content_def)

text \<open>
  Packets are exchanged only if the zone of the transmit ring and the packet's have the same
  descriptor; their rings then address the same memory.
\<close>

definition swap_ok :: "netmap_api \<Rightarrow> addr \<Rightarrow> 'a pstore_scheme \<Rightarrow> addr \<Rightarrow> addr \<Rightarrow> bool" where
  "swap_ok nm tz s p t \<longleftrightarrow> (\<forall>k z w. pkts s p = Some k \<longrightarrow> zones s (my_zone k) = Some z \<longrightarrow> zones s tz = Some w \<longrightarrow>
     z_netmap_fd w = z_netmap_fd z \<longrightarrow> NETMAP_BUF nm (fst (slot_of s p)) = NETMAP_BUF nm (fst (slot_of s t)))"

definition fits :: "'a pstore_scheme \<Rightarrow> addr \<Rightarrow> bool" where
  "fits s x \<longleftrightarrow> (case pkts s x of None \<Rightarrow> False | Some k \<Rightarrow> unat (p_len k) \<le> 2048)"

text \<open>No two packets of a list share a buffer or a slot.\<close>

definition apart :: "'a pstore_scheme \<Rightarrow> addr list \<Rightarrow> bool" where
  "apart s xs \<longleftrightarrow> distinct xs \<and> distinct (map (buf_of s) xs) \<and> distinct (map (slot_of s) xs)"

definition tx_frame :: "'a pstore_scheme \<Rightarrow> 'a pstore_scheme \<Rightarrow> bool" where
  "tx_frame s s' \<longleftrightarrow> ring_frame (s\<lparr>pkts := pkts s', mem := mem s', links := links s'\<rparr>) s'"

lemma tx_frame_refl [simp]: "tx_frame s s"
  by (simp add: tx_frame_def ring_frame_def)

lemma tx_frame_trans: "tx_frame s s' \<Longrightarrow> tx_frame s' s'' \<Longrightarrow> tx_frame s s''"
  by (cases s; cases s'; cases s'') (simp add: tx_frame_def ring_frame_def)

lemma tx_frame_upd [simp]:
  "tx_frame s (s\<lparr>pkts := P\<rparr>)" "tx_frame s (s\<lparr>links := h\<rparr>)"
  by (simp_all add: tx_frame_def ring_frame_def)

lemma tx_frame_simps:
  assumes "tx_frame s s'"
  shows "zones s' = zones s" "queues s' = queues s" "times s' = times s"
    "map_option ring_hdr (rings s' a) = map_option ring_hdr (rings s a)"
  using ring_frame_simps [of "s\<lparr>pkts := pkts s', mem := mem s', links := links s'\<rparr>" s'] assms
  by (simp_all add: tx_frame_def ring_frame_def)

lemma slots_dom_frame:
  assumes "\<And>a. map_option ring_hdr (rings s' a) = map_option ring_hdr (rings s a)"
  shows "slots s' sl \<noteq> None \<longleftrightarrow> slots s sl \<noteq> None"
proof -
  have "map_option ring_hdr (rings s' (fst sl)) = map_option ring_hdr (rings s (fst sl))"
    by (rule assms)
  then show ?thesis
    by (cases "rings s (fst sl)"; cases "rings s' (fst sl)")
      (auto simp: slots_def get_slot_def ring_hdr_def split: if_splits)
qed

lemma memcpy_extent_bounds: "n \<le> memcpy_extent n" "n \<le> 2048 \<Longrightarrow> memcpy_extent n \<le> 2048"
  using round64_bounds [of n] by (auto simp: memcpy_extent_def)

text \<open>Moving one packet, whichever way.\<close>

definition moved :: "netmap_api \<Rightarrow> 'a pstore_scheme \<Rightarrow> addr \<Rightarrow> addr \<Rightarrow> sin_pkt \<Rightarrow> sin_pkt \<Rightarrow> 'a pstore_scheme \<Rightarrow> bool" where
  "moved nm s p t k1 k2 s' \<longleftrightarrow> (\<exists>bp bt y.
     slots s' (my_slot k2) = Some y \<and> bt = NETMAP_BUF nm (fst (my_slot k2)) (s_buf_idx y) \<and>
     unat (s_len y) = unat (p_len k1) \<and>
     pkts s' = (pkts s)(p \<mapsto> k1\<lparr>p_buf := bp\<rparr>, t \<mapsto> k2\<lparr>p_buf := bt, p_len := p_len k1\<rparr>) \<and>
     {bp, bt} = {p_buf k1, p_buf k2} \<and> bp \<noteq> bt \<and>
     map_option (take (unat (p_len k1))) (mem s' bt)
       = map_option (take (unat (p_len k1))) (mem s (p_buf k1)) \<and>
     (\<forall>a. map_option length (mem s' a) = map_option length (mem s a)) \<and>
     (\<forall>a. a \<notin> {p_buf k1, p_buf k2} \<longrightarrow> mem s' a = mem s a)) \<and>
     (\<forall>sl. sl \<noteq> my_slot k1 \<longrightarrow> sl \<noteq> my_slot k2 \<longrightarrow> slots s' sl = slots s sl) \<and>
     links s' = links s \<and> tx_frame s s'"

lemma slot_u16:
  assumes "unat n \<le> 2048"
  shows "unat (ucast n :: u16) = unat (n :: u32)"
  using assms by (simp add: unsigned_ucast_eq take_bit_nat_eq_self_iff)

lemma swap_moves:
  assumes k: "pkts s p = Some k1" "pkts s t = Some k2" "p \<noteq> t" "p_buf k1 \<noteq> p_buf k2"
    and sl: "slots s (my_slot k1) = Some x" "slots s (my_slot k2) = Some y" "my_slot k1 \<noteq> my_slot k2"
    and b: "p_buf k1 = NETMAP_BUF nm (fst (my_slot k2)) (s_buf_idx x)"
    and len: "unat (p_len k1) \<le> 2048"
  shows "\<exists>s'. sin_pkt_zone_swap nm p t s = Some s' \<and> moved nm s p t k1 k2 s'"
proof -
  from sl have xy: "get_slot (my_slot k1) s = Some x" "get_slot (my_slot k2) s = Some y"
    by (auto simp: slots_def)
  obtain s' where s': "sin_pkt_zone_swap nm p t s = Some s'"
    "pkts s' = (pkts s)(p \<mapsto> k1\<lparr>p_buf := p_buf k2\<rparr>, t \<mapsto> k2\<lparr>p_buf := p_buf k1, p_len := slot_len (p_len k1)\<rparr>)"
    "slots s' = (slots s)(my_slot k1 \<mapsto> swapped_src nm x y, my_slot k2 \<mapsto> swapped_dst nm (p_len k1) x y)"
    "ring_frame (s\<lparr>pkts := pkts s'\<rparr>) s'"
    using sin_pkt_zone_swap_works [OF k(1-3) xy sl(3)] by metis
  note f = ring_frame_simps [OF s'(4)]
  have "tx_frame s s'" using s'(4) f by (simp add: tx_frame_def)
  moreover have "slot_len (p_len k1) = p_len k1" using len by (intro slot_len_id) simp
  moreover have "slots s' (my_slot k2) = Some (swapped_dst nm (p_len k1) x y)"
    "\<forall>sl. sl \<noteq> my_slot k1 \<longrightarrow> sl \<noteq> my_slot k2 \<longrightarrow> slots s' sl = slots s sl" using s'(3) by simp_all
  ultimately have "moved nm s p t k1 k2 s'"
    unfolding moved_def using s'(2) f k(4) b slot_u16 [OF len]
    by (intro conjI exI [of _ "p_buf k2"] exI [of _ "p_buf k1"] exI [of _ "swapped_dst nm (p_len k1) x y"])
      (auto simp: swapped_dst_def)
  with s'(1) show ?thesis by blast
qed

lemma copy_moves:
  assumes k: "pkts s p = Some k1" "pkts s t = Some k2" "p \<noteq> t" "p_buf k1 \<noteq> p_buf k2"
    and sl: "slots s (my_slot k2) = Some y" "p_buf k2 = NETMAP_BUF nm (fst (my_slot k2)) (s_buf_idx y)"
    and b: "mem s (p_buf k1) = Some b1" "mem s (p_buf k2) = Some b2" "2048 \<le> length b1" "2048 \<le> length b2"
    and len: "unat (p_len k1) \<le> 2048"
  shows "\<exists>s'. sin_pkt_zone_copy nm p t s = Some s' \<and> moved nm s p t k1 k2 s'"
proof -
  from sl(1) have y: "get_slot (my_slot k2) s = Some y" by (auto simp: slots_def)
  let ?n = "unat (p_len k1)" and ?e = "memcpy_extent (unat (p_len k1))"
  have e: "?n \<le> ?e" "?e \<le> 2048" using memcpy_extent_bounds [of ?n] len by simp_all
  have "?n < 2 ^ 31" "?e \<le> length b1" "?e \<le> length b2" using e b len by simp_all
  from sin_pkt_zone_copy_works [OF k(1-3) y b(1,2) k(4) this]
  obtain s' where s': "sin_pkt_zone_copy nm p t s = Some s'"
    "pkts s' = (pkts s)(t \<mapsto> k2\<lparr>p_len := slot_len (p_len k1)\<rparr>)"
    "mem s' = (mem s)(p_buf k2 \<mapsto> take ?e b1 @ drop ?e b2)"
    "ring_frame (s\<lparr>pkts := pkts s', mem := mem s'\<rparr>) s'"
    "slots s' = (slots s)(my_slot k2 \<mapsto> y\<lparr>s_len := ucast (p_len k1), s_flags := NS_BUF_CHANGED nm\<rparr>)" by metis
  note f = ring_frame_simps [OF s'(4)]
  have "tx_frame s s'" using s'(4) f by (simp add: tx_frame_def)
  moreover have "slot_len (p_len k1) = p_len k1" using len by (intro slot_len_id) simp
  moreover have "pkts s = (pkts s)(p \<mapsto> k1\<lparr>p_buf := p_buf k1\<rparr>)" using k(1) by auto
  ultimately have "pkts s' = (pkts s)(p \<mapsto> k1\<lparr>p_buf := p_buf k1\<rparr>,
      t \<mapsto> k2\<lparr>p_buf := p_buf k2, p_len := p_len k1\<rparr>)" and "tx_frame s s'"
    using s'(2) by auto
  moreover have "take ?n (take ?e b1 @ drop ?e b2) = take ?n b1" using e b by (simp add: min_absorb1)
  moreover have "length (take ?e b1 @ drop ?e b2) = length b2" using e b by simp
  ultimately have "moved nm s p t k1 k2 s'"
    unfolding moved_def using s'(3,5) f k(4) b sl(2) slot_u16 [OF len]
    by (intro conjI exI [of _ "p_buf k1"] exI [of _ "p_buf k2"]
        exI [of _ "y\<lparr>s_len := ucast (p_len k1), s_flags := NS_BUF_CHANGED nm\<rparr>"]) auto
  with s'(1) show ?thesis by blast
qed

text \<open>The body of the sending loop: move, unlink and return the packet, unlink the slot's.\<close>

lemma move_works:
  assumes ok: "tx_pkt_ok nm s p" "tx_pkt_ok nm s t" "fits s p" "apart s [p, t]" "swap_ok nm tx_zone s p t"
    and w: "zones s tx_zone = Some w" and k: "pkts s p = Some k1" "pkts s t = Some k2"
  obtains s1 z where "zones s (my_zone k1) = Some z"
    "(if z_netmap_fd w = z_netmap_fd z then sin_pkt_zone_swap nm p t s else sin_pkt_zone_copy nm p t s) = Some s1"
    "moved nm s p t k1 k2 s1"
proof -
  obtain b1 b2 z x y where b: "mem s (p_buf k1) = Some b1" "mem s (p_buf k2) = Some b2"
    "2048 \<le> length b1" "2048 \<le> length b2" "zones s (my_zone k1) = Some z"
    "slots s (my_slot k1) = Some x" "slots s (my_slot k2) = Some y"
    "p_buf k1 = NETMAP_BUF nm (fst (my_slot k1)) (s_buf_idx x)" "p_buf k2 = NETMAP_BUF nm (fst (my_slot k2)) (s_buf_idx y)"
    using ok(1,2) k by (auto simp: tx_pkt_ok_def split: option.splits)
  have ne: "p \<noteq> t" "p_buf k1 \<noteq> p_buf k2" "my_slot k1 \<noteq> my_slot k2" "unat (p_len k1) \<le> 2048"
    using ok(3,4) k by (auto simp: apart_def buf_of_def slot_of_def fits_def)
  have same: "NETMAP_BUF nm (fst (my_slot k1)) = NETMAP_BUF nm (fst (my_slot k2))" if "z_netmap_fd w = z_netmap_fd z"
    using ok(5) k w b(5) that by (simp add: swap_ok_def slot_of_def)
  show thesis
    using swap_moves [OF k ne(1,2) b(6,7) ne(3) _ ne(4), of nm] same b(8)
      copy_moves [OF k ne(1,2) b(7,9) b(1-4) ne(4)] that [OF b(5)]
    by (cases "z_netmap_fd w = z_netmap_fd z") auto
qed

lemma send_one_works:
  assumes ok: "tx_pkt_ok nm s p" "tx_pkt_ok nm s t" "fits s p" "apart s [p, t]" "swap_ok nm tx_zone s p t"
    and l: "links s p = Some n" "links s t = Some m" and zt: "zones s tx_zone \<noteq> None"
    and k: "pkts s p = Some k1" "pkts s t = Some k2"
  shows "\<exists>s1. moved nm s p t k1 k2 s1 \<and> send_one nm tx_zone p t s = Some (n, m,
    s1\<lparr>links := (links s)(p \<mapsto> NULL, t \<mapsto> NULL),
       pkts := (pkts s1)(p := map_option mark_free (pkts s1 p))\<rparr>)"
proof -
  obtain w where w: "zones s tx_zone = Some w" using zt by auto
  obtain s1 z where s1: "zones s (my_zone k1) = Some z" "(if z_netmap_fd w = z_netmap_fd z
      then sin_pkt_zone_swap nm p t s else sin_pkt_zone_copy nm p t s) = Some s1" "moved nm s p t k1 k2 s1"
    by (rule move_works [OF ok w k])
  have ne: "p \<noteq> t" using ok(4) by (simp add: apart_def)
  with s1(3) have "pkts s1 p \<noteq> None" and l1: "links s1 = links s" by (auto simp: moved_def)
  then obtain k' where k': "pkts s1 p = Some k'" by auto
  have "send_one nm tx_zone p t s = Some (n, m, s1\<lparr>links := (links s)(p \<mapsto> NULL, t \<mapsto> NULL),
       pkts := (pkts s1)(p := map_option mark_free (pkts s1 p))\<rparr>)"
    using s1(1,2) w k l l1 ne k'
    by (simp add: send_one_def SIN_ITER_NEXT_def SIN_TYPE_LINK_def sin_pkt_zone_ret_pkt_def setflags_free)
  with s1(3) show ?thesis by blast
qed

text \<open>What the sending loop needs of the packets it still has to send, and their slots.\<close>

definition tx_pre :: "netmap_api \<Rightarrow> addr \<Rightarrow> 'a pstore_scheme \<Rightarrow> addr list \<Rightarrow> addr list \<Rightarrow> bool" where
  "tx_pre nm tz s ps ts \<longleftrightarrow> (\<forall>x \<in> set (ps @ ts). tx_pkt_ok nm s x) \<and> (\<forall>x \<in> set ps. fits s x) \<and>
     apart s (ps @ ts) \<and> (\<forall>p \<in> set ps. \<forall>t \<in> set ts. swap_ok nm tz s p t)"

text \<open>The effect of one round, in the terms the loop's proof uses.\<close>

definition sent :: "netmap_api \<Rightarrow> 'a pstore_scheme \<Rightarrow> addr \<Rightarrow> addr \<Rightarrow> 'a pstore_scheme \<Rightarrow> bool" where
  "sent nm s p t s' \<longleftrightarrow> content s' t = content s p \<and> tx_frame s s' \<and> in_step nm s' t \<and>
     slot_of s' p = slot_of s p \<and> slot_of s' t = slot_of s t \<and>
     (\<forall>sl. sl \<noteq> slot_of s p \<longrightarrow> sl \<noteq> slot_of s t \<longrightarrow> slots s' sl = slots s sl) \<and>
     (\<forall>x. x \<noteq> p \<longrightarrow> x \<noteq> t \<longrightarrow> pkts s' x = pkts s x) \<and>
     (\<forall>a. a \<noteq> buf_of s p \<longrightarrow> a \<noteq> buf_of s t \<longrightarrow> mem s' a = mem s a) \<and>
     {buf_of s' p, buf_of s' t} = {buf_of s p, buf_of s t} \<and>
     (\<exists>k. pkts s' p = Some k \<and> \<not> is_busy k) \<and> pkts s' t \<noteq> None \<and>
     links s' = (links s)(p \<mapsto> NULL, t \<mapsto> NULL)"

lemma slots_irrelevant [simp]:
  "slots (s\<lparr>links := h\<rparr>) = slots s" "slots (s\<lparr>pkts := P\<rparr>) = slots s" "slots (s\<lparr>mem := M\<rparr>) = slots s"
  "slots (s\<lparr>queues := Q\<rparr>) = slots s"
  by (simp_all add: slots_def get_slot_def fun_eq_iff)

lemma moved_sent:
  assumes m: "moved nm s p t k1 k2 s1" and k: "pkts s p = Some k1" "pkts s t = Some k2" "p \<noteq> t"
  defines "s' \<equiv> s1\<lparr>links := (links s)(p \<mapsto> NULL, t \<mapsto> NULL),
       pkts := (pkts s1)(p := map_option mark_free (pkts s1 p))\<rparr>"
  shows "sent nm s p t s'"
proof -
  from m obtain bp bt y where
    Y: "slots s1 (my_slot k2) = Some y" "bt = NETMAP_BUF nm (fst (my_slot k2)) (s_buf_idx y)" "unat (s_len y) = unat (p_len k1)" and
    P: "pkts s1 = (pkts s)(p \<mapsto> k1\<lparr>p_buf := bp\<rparr>, t \<mapsto> k2\<lparr>p_buf := bt, p_len := p_len k1\<rparr>)" and
    B: "{bp, bt} = {p_buf k1, p_buf k2}" and
    C: "map_option (take (unat (p_len k1))) (mem s1 bt) = map_option (take (unat (p_len k1))) (mem s (p_buf k1))" and
    M: "\<forall>a. a \<notin> {p_buf k1, p_buf k2} \<longrightarrow> mem s1 a = mem s a" and
    S: "\<forall>sl. sl \<noteq> my_slot k1 \<longrightarrow> sl \<noteq> my_slot k2 \<longrightarrow> slots s1 sl = slots s sl" and L: "links s1 = links s" and F: "tx_frame s s1"
    unfolding moved_def by (elim exE conjE)
  have P': "pkts s' = (pkts s)(p \<mapsto> mark_free (k1\<lparr>p_buf := bp\<rparr>), t \<mapsto> k2\<lparr>p_buf := bt, p_len := p_len k1\<rparr>)"
    using P k(3) by (auto simp: s'_def)
  have "tx_frame s1 s'" by (simp add: tx_frame_def ring_frame_def s'_def)
  with F have "tx_frame s s'" by (rule tx_frame_trans)
  moreover have "content s' t = content s p"
    using C k(1) by (simp add: content_def P') (simp add: s'_def)
  moreover have "{buf_of s' p, buf_of s' t} = {buf_of s p, buf_of s t}"
    using B k by (simp add: buf_of_def P' mark_free_def)
  moreover have "\<forall>a. a \<noteq> buf_of s p \<longrightarrow> a \<noteq> buf_of s t \<longrightarrow> mem s' a = mem s a"
    using M k by (simp add: buf_of_def s'_def)
  moreover have "links s' = (links s)(p \<mapsto> NULL, t \<mapsto> NULL)" by (simp add: s'_def)
  moreover have S': "slots s' = slots s1" by (simp add: s'_def)
  have "in_step nm s' t" using Y by (simp add: in_step_def S' P')
  moreover have "slot_of s' p = slot_of s p" "slot_of s' t = slot_of s t"
    using k by (simp_all add: slot_of_def P' mark_free_def)
  moreover have "\<forall>sl. sl \<noteq> slot_of s p \<longrightarrow> sl \<noteq> slot_of s t \<longrightarrow> slots s' sl = slots s sl"
    using S k by (simp add: slot_of_def S')
  ultimately show ?thesis using k(3) by (simp add: sent_def P')
qed

text \<open>A round leaves the packets still to be sent as they were.\<close>

lemma sent_others:
  assumes pre: "tx_pre nm tz s (p # ps) (t # ts)" and st: "sent nm s p t s'" and x: "x \<in> set (ps @ ts)"
  shows "pkts s' x = pkts s x" "buf_of s' x = buf_of s x" "slot_of s' x = slot_of s x"
    "content s' x = content s x" "tx_pkt_ok nm s' x"
proof -
  from pre have d: "distinct ((p # ps) @ t # ts)" "distinct (map (buf_of s) ((p # ps) @ t # ts))"
    "distinct (map (slot_of s) ((p # ps) @ t # ts))"
    by (simp_all add: tx_pre_def apart_def)
  from d(1) x have ne: "x \<noteq> p" "x \<noteq> t" by auto
  have "buf_of s p \<notin> set (map (buf_of s) (ps @ ts))" "buf_of s t \<notin> set (map (buf_of s) (ps @ ts))"
    using d(2) by auto
  moreover have "buf_of s x \<in> set (map (buf_of s) (ps @ ts))" using x by auto
  ultimately have bne: "buf_of s x \<noteq> buf_of s p" "buf_of s x \<noteq> buf_of s t" by metis+
  show px: "pkts s' x = pkts s x" using st ne by (simp add: sent_def)
  then show "buf_of s' x = buf_of s x" "slot_of s' x = slot_of s x"
    by (simp_all add: buf_of_def slot_of_def)
  have mx: "mem s' (buf_of s x) = mem s (buf_of s x)" using st bne by (simp add: sent_def)
  show "content s' x = content s x"
    using px mx by (cases "pkts s x") (simp_all add: content_def buf_of_def)
  have "tx_pkt_ok nm s x" using pre x by (auto simp: tx_pre_def)
  then obtain k where k: "pkts s x = Some k" by (auto simp: tx_pkt_ok_def split: option.splits)
  have "tx_frame s s'" using st by (simp add: sent_def)
  note f = tx_frame_simps [OF this]
  have "slot_of s p \<notin> set (map (slot_of s) (ps @ ts))" "slot_of s t \<notin> set (map (slot_of s) (ps @ ts))"
    using d(3) by auto
  moreover have "slot_of s x \<in> set (map (slot_of s) (ps @ ts))" using x by auto
  ultimately have "slot_of s x \<noteq> slot_of s p" "slot_of s x \<noteq> slot_of s t" by metis+
  then have "slots s' (slot_of s x) = slots s (slot_of s x)" using st unfolding sent_def by blast
  then have "slots s' (my_slot k) = slots s (my_slot k)" using k by (simp add: slot_of_def)
  then show "tx_pkt_ok nm s' x"
    using \<open>tx_pkt_ok nm s x\<close> k px mx f(1) by (simp add: tx_pkt_ok_def buf_of_def)
qed

lemma sent_pre:
  assumes pre: "tx_pre nm tz s (p # ps) (t # ts)" and st: "sent nm s p t s'"
  shows "tx_pre nm tz s' ps ts"
proof -
  note o = sent_others [OF pre st]
  have "map (buf_of s') (ps @ ts) = map (buf_of s) (ps @ ts)"
    "map (slot_of s') (ps @ ts) = map (slot_of s) (ps @ ts)"
    using o(2,3) by (intro map_cong; simp)+
  moreover have "apart s (ps @ ts)" using pre by (auto simp: tx_pre_def apart_def)
  ultimately have "apart s' (ps @ ts)" by (simp only: apart_def)
  moreover have "fits s' x" if "x \<in> set ps" for x
  proof -
    have "fits s x" using pre that by (simp add: tx_pre_def)
    then show ?thesis using o(1) [of x] that by (simp add: fits_def)
  qed
  moreover have "swap_ok nm tz s' x y" if xy: "x \<in> set ps" "y \<in> set ts" for x y
  proof -
    have "swap_ok nm tz s x y" using pre xy by (simp add: tx_pre_def)
    moreover have "pkts s' x = pkts s x" "pkts s' y = pkts s y" using o(1) xy by simp_all
    moreover have "zones s' = zones s" using st by (intro tx_frame_simps(1)) (simp add: sent_def)
    ultimately show ?thesis by (simp add: swap_ok_def slot_of_def)
  qed
  ultimately show ?thesis using o(5) by (simp add: tx_pre_def)
qed

lemma tx_pre_round:
  assumes pre: "tx_pre nm tz s (p # ps) (t # ts)" and l: "links s p = Some n" "links s t = Some m"
    and zt: "zones s tz \<noteq> None"
  obtains s1 where "send_one nm tz p t s = Some (n, m, s1)" "sent nm s p t s1" "tx_pre nm tz s1 ps ts"
proof -
  have ok: "tx_pkt_ok nm s p" "tx_pkt_ok nm s t" "fits s p" "apart s [p, t]" "swap_ok nm tz s p t"
    using pre by (auto simp: tx_pre_def apart_def)
  then obtain k1 k2 where k: "pkts s p = Some k1" "pkts s t = Some k2"
    by (auto simp: tx_pkt_ok_def split: option.splits)
  have "p \<noteq> t" using ok(4) by (simp add: apart_def)
  with send_one_works [OF ok l zt k] moved_sent [OF _ k]
  obtain s1 where "send_one nm tz p t s = Some (n, m, s1)" "sent nm s p t s1" by blast
  with sent_pre [OF pre this(2)] show thesis by (intro that)
qed

text \<open>The state after the loop over the packets \<open>ps\<close> and the slots' packets \<open>ts\<close>.\<close>

definition all_sent :: "netmap_api \<Rightarrow> 'a pstore_scheme \<Rightarrow> addr list \<Rightarrow> addr list \<Rightarrow> 'a pstore_scheme \<Rightarrow> bool" where
  "all_sent nm s ps ts s' \<longleftrightarrow> map (content s') ts = map (content s) ps \<and> tx_frame s s' \<and>
     (\<forall>t \<in> set ts. in_step nm s' t \<and> slot_of s' t = slot_of s t) \<and>
     (\<forall>sl. sl \<notin> slot_of s ` set (ps @ ts) \<longrightarrow> slots s' sl = slots s sl) \<and>
     (\<forall>p \<in> set ps. \<exists>k. pkts s' p = Some k \<and> \<not> is_busy k) \<and>
     (\<forall>x \<in> set (ps @ ts). links s' x = Some NULL) \<and>
     (\<forall>x. x \<notin> set (ps @ ts) \<longrightarrow> pkts s' x = pkts s x \<and> links s' x = links s x) \<and>
     buf_of s' ` set (ps @ ts) = buf_of s ` set (ps @ ts) \<and>
     (\<forall>a. a \<notin> buf_of s ` set (ps @ ts) \<longrightarrow> mem s' a = mem s a)"

lemma all_sent_Nil: "all_sent nm s [] [] s"
  by (simp add: all_sent_def)

lemma all_sent_Cons:
  assumes pre: "tx_pre nm tz s (p # ps) (t # ts)" and st: "sent nm s p t s1" and al: "all_sent nm s1 ps ts s'"
    and len: "length ts = length ps"
  shows "all_sent nm s (p # ps) (t # ts) s'"
proof -
  note o = sent_others [OF pre st]
  from pre have d: "distinct ((p # ps) @ t # ts)" "distinct (map (buf_of s) ((p # ps) @ t # ts))"
    by (simp_all add: tx_pre_def apart_def)
  have d3: "distinct (map (slot_of s) ((p # ps) @ t # ts))" using pre by (simp add: tx_pre_def apart_def)
  from d have pt: "p \<notin> set (ps @ ts)" "t \<notin> set (ps @ ts)" "p \<noteq> t" by auto
  have B: "buf_of s1 ` set (ps @ ts) = buf_of s ` set (ps @ ts)"
    using o(2) by (intro image_cong refl) simp
  have P: "pkts s' x = pkts s1 x" "links s' x = links s1 x" if "x \<notin> set (ps @ ts)" for x
    using al that by (simp_all add: all_sent_def)
  have bt: "{buf_of s1 p, buf_of s1 t} = {buf_of s p, buf_of s t}" using st by (simp add: sent_def)
  then have "buf_of s1 t \<in> {buf_of s p, buf_of s t}" by blast
  with d(2) have "buf_of s1 t \<notin> buf_of s1 ` set (ps @ ts)" unfolding B by auto
  then have mt: "mem s' (buf_of s1 t) = mem s1 (buf_of s1 t)" using al by (simp add: all_sent_def)
  have "content s' t = content s1 t"
    using mt P(1) [OF pt(2)] by (cases "pkts s1 t") (simp_all add: content_def buf_of_def)
  also have "\<dots> = content s p" using st by (simp add: sent_def)
  finally have "content s' t = content s p" .
  moreover have "in_step nm s' t" "slot_of s' t = slot_of s t"
  proof -
    have S: "slot_of s1 ` set (ps @ ts) = slot_of s ` set (ps @ ts)"
      using o(3) by (intro image_cong refl) simp
    have t1: "slot_of s1 t = slot_of s t" "in_step nm s1 t" using st by (simp_all add: sent_def)
    have "slot_of s t \<notin> slot_of s1 ` set (ps @ ts)" unfolding S using d3 by auto
    then have "slots s' (slot_of s1 t) = slots s1 (slot_of s1 t)" unfolding t1(1) using al unfolding all_sent_def by blast
    then show "in_step nm s' t" "slot_of s' t = slot_of s t"
      using t1 P(1) [OF pt(2)] by (auto simp: in_step_def slot_of_def)
  qed
  moreover have "\<forall>x \<in> set ts. in_step nm s' x \<and> slot_of s' x = slot_of s x"
    using al o(3) by (simp add: all_sent_def)
  moreover have "slots s' sl = slots s sl" if sl: "sl \<notin> slot_of s ` set ((p # ps) @ t # ts)" for sl
  proof -
    have "slot_of s1 ` set (ps @ ts) = slot_of s ` set (ps @ ts)"
      using o(3) by (intro image_cong refl) simp
    with sl have "sl \<notin> slot_of s1 ` set (ps @ ts)" by auto
    with al have "slots s' sl = slots s1 sl" unfolding all_sent_def by blast
    also have "\<dots> = slots s sl" using st sl unfolding sent_def by (simp del: split_paired_All)
    finally show ?thesis .
  qed
  moreover have "map (content s') ts = map (content s) ps"
    using al o(4) by (simp add: all_sent_def cong: map_cong)
  moreover have "tx_frame s s'"
    using st al by (auto simp: sent_def all_sent_def intro: tx_frame_trans)
  moreover have bufs: "buf_of s' ` set ((p # ps) @ t # ts) = buf_of s ` set ((p # ps) @ t # ts)"
  proof -
    have "buf_of s' p = buf_of s1 p" "buf_of s' t = buf_of s1 t"
      using P(1) pt by (simp_all add: buf_of_def)
    moreover have "buf_of s' ` set (ps @ ts) = buf_of s ` set (ps @ ts)"
      using al B by (simp add: all_sent_def)
    ultimately have "buf_of s' ` set ((p # ps) @ t # ts)
        = {buf_of s1 p, buf_of s1 t} \<union> buf_of s ` set (ps @ ts)" by auto
    then show ?thesis unfolding bt by auto
  qed
  moreover have "\<forall>a. a \<notin> buf_of s ` set ((p # ps) @ t # ts) \<longrightarrow> mem s' a = mem s a"
    using al st B by (auto simp: all_sent_def sent_def)
  ultimately show ?thesis
    using al st P pt unfolding all_sent_def sent_def by auto
qed

lemma send_loop_works:
  assumes "tx_pre nm tz s ps ts" and "length ts = length ps" and "zones s tz \<noteq> None"
    and "chain (links s) hp (ps @ rest) NULL" and "chain (links s) ht ts NULL"
    and "set rest \<inter> set ts = {}"
  shows "\<exists>hp' s'. send_loop nm tz (length ps) hp ht s = Some (hp', NULL, s') \<and>
    chain (links s') hp' rest NULL \<and> all_sent nm s ps ts s'"
  using assms
proof (induction ps arbitrary: ts s hp ht)
  case Nil
  then show ?case by (auto simp: all_sent_Nil)
next
  case (Cons p ps)
  from Cons.prems(2) obtain t ts' where t: "ts = t # ts'" "length ts' = length ps"
    by (cases ts) auto
  from Cons.prems(4,5) t(1) obtain n m where nm: "hp = Some p" "links s p = Some n"
    "chain (links s) n (ps @ rest) NULL" "ht = Some t" "links s t = Some m" "chain (links s) m ts' NULL"
    by auto
  have pre: "tx_pre nm tz s (p # ps) (t # ts')" using Cons.prems(1) t by simp
  from tx_pre_round [OF pre nm(2,5) Cons.prems(3)]
  obtain s1 where s1: "send_one nm tz p t s = Some (n, m, s1)" "sent nm s p t s1" "tx_pre nm tz s1 ps ts'"
    by metis
  have l1: "links s1 = (links s)(p \<mapsto> NULL, t \<mapsto> NULL)" and f1: "tx_frame s s1"
    using s1(2) by (simp_all add: sent_def)
  have "distinct (p # ps @ rest)" using chain_distinct [OF Cons.prems(4)] by simp
  moreover have "p \<notin> set ts'" "t \<notin> set ps" "t \<notin> set ts'"
    using pre by (auto simp: tx_pre_def apart_def)
  ultimately have "chain (links s1) n (ps @ rest) NULL" "chain (links s1) m ts' NULL"
    using nm(3,6) Cons.prems(6) t(1) by (auto simp: l1)
  moreover have "zones s1 tz \<noteq> None" using Cons.prems(3) tx_frame_simps(1) [OF f1] by simp
  moreover have "set rest \<inter> set ts' = {}" using Cons.prems(6) t(1) by auto
  ultimately obtain hp' s' where IH: "send_loop nm tz (length ps) n m s1 = Some (hp', NULL, s')"
    "chain (links s') hp' rest NULL" "all_sent nm s1 ps ts' s'"
    using Cons.IH [OF s1(3) t(2)] by blast
  have "all_sent nm s (p # ps) (t # ts') s'"
    by (rule all_sent_Cons [OF pre s1(2) IH(3) t(2)])
  with IH(1,2) s1(1) nm(1,4) t(1) show ?case by auto
qed

text \<open>
  The whole block: of \<open>ps\<close>, what the ring has room for is sent into the slots from \<open>cur\<close>
  on, the rest stays on the list, in order and with the right header.
\<close>

lemma links_irrelevant [simp]:
  "content (s\<lparr>links := h\<rparr>) = content s" "buf_of (s\<lparr>links := h\<rparr>) = buf_of s"
  "slot_of (s\<lparr>links := h\<rparr>) = slot_of s" "swap_ok nm tz (s\<lparr>links := h\<rparr>) = swap_ok nm tz s" "fits (s\<lparr>links := h\<rparr>) = fits s"
  by (auto simp: content_def buf_of_def slot_of_def fits_def swap_ok_def fun_eq_iff
      split: option.splits)

lemma rings_irrelevant [simp]: "content (s\<lparr>rings := R\<rparr>) = content s"
  by (auto simp: content_def fun_eq_iff split: option.splits)

lemma tx_pkt_ok_links [simp]: "tx_pkt_ok nm (s\<lparr>links := h\<rparr>) = tx_pkt_ok nm s"
  by (auto simp: tx_pkt_ok_def fun_eq_iff split: option.splits)

lemma tx_pre_links: "tx_pre nm tz (s\<lparr>links := h\<rparr>) ps ts = tx_pre nm tz s ps ts"
  by (simp add: tx_pre_def apart_def)

lemma all_sent_links:
  assumes "all_sent nm (s\<lparr>links := h\<rparr>) ps ts s'" and "\<forall>a. a \<notin> set ts \<longrightarrow> h a = links s a"
  shows "all_sent nm s ps ts s'"
proof -
  have "tx_frame s s'" if "tx_frame (s\<lparr>links := h\<rparr>) s'"
    using tx_frame_upd(2) [of s h] that by (rule tx_frame_trans)
  then show ?thesis using assms unfolding all_sent_def by simp
qed

lemma ntx_length:
  assumes "unat len = length ps"
  shows "unat (SIN_MIN aslots len) = length (take (unat aslots) ps)"
  using assms by (simp add: unat_SIN_MIN)

lemma lst_repr_rest:
  assumes l: "lst_repr h l ps" and c: "chain h' hp rest NULL" and r: "rest = drop (unat n) ps"
    and n: "unat n \<le> length ps" "rest \<noteq> []"
  shows "lst_repr h' (l\<lparr>lst_head := hp, lst_len := lst_len l - n\<rparr>) rest"
proof -
  note d = lst_reprD [OF l]
  have "unat (lst_len l - n) = length rest" using d(3) n r unat_minus_word [of n "lst_len l"] by simp
  moreover have "tail_of ps = tail_of rest" using n r by (auto simp: tail_of_def)
  ultimately show ?thesis using c d(2) by (simp add: lst_repr_def)
qed

text \<open>What the turn needs of the ring, its zone and the packets to send.\<close>

definition tx_ready :: "netmap_api \<Rightarrow> sin_tx_thread \<Rightarrow> 'a pstore_scheme \<Rightarrow> sin_pkt_zone \<Rightarrow> netmap_ring \<Rightarrow> addr list \<Rightarrow> addr list \<Rightarrow> bool" where
  "tx_ready nm th s z r ps ts \<longleftrightarrow> length (z_pmap z) = ring_size r \<and> distinct (z_pmap z) \<and> ring_ok r \<and>
     (\<forall>j < ring_size r. slot_of s (z_pmap z ! j) = (stt_tx_ring th, j)) \<and>
     ring_size r \<le> 2 ^ 31 \<and> tx_pre nm (stt_tx_zone th) s ps ts \<and> (\<forall>t \<in> set ts. links s t = Some NULL)"

lemma tx_send_phases:
  assumes nm: "netmap_ok nm" and z: "zones s (stt_tx_zone th) = Some z"
    and r: "rings s (stt_tx_ring th) = Some r" and rdy: "tx_ready nm th s z r ps ts"
    and l: "chain (links s) hp (ps @ rest) NULL" and k: "unat ntx = length ps" "ps \<noteq> []" "length ps \<le> ring_size r"
    and ts: "ts = map ((!) (z_pmap z)) (window (ring_size r) (unat (r_cur r)) (length ps))"
    and dis: "set (ps @ rest) \<inter> set ts = {}"
  shows "\<exists>pl hp' h s1. tx_zone_getpkts nm (stt_tx_ring th) (stt_tx_zone th) ntx s = Some (pl, s\<lparr>links := h\<rparr>) \<and>
    send_loop nm (stt_tx_zone th) (unat ntx) hp (lst_head pl) (s\<lparr>links := h\<rparr>) = Some (hp', NULL, s1) \<and>
    chain (links s1) hp' rest NULL \<and> all_sent nm s ps ts s1"
proof -
  have t: "length (z_pmap z) = ring_size r" "distinct (z_pmap z)" "ring_ok r" "tx_pre nm (stt_tx_zone th) s ps ts"
    "\<forall>t \<in> set ts. links s t = Some NULL" using rdy by (simp_all add: tx_ready_def)
  have "0 < unat ntx" "unat ntx \<le> ring_size r"
    "ts = map ((!) (z_pmap z)) (window (ring_size r) (unat (r_cur r)) (unat ntx))" using k ts by simp_all
  from tx_zone_getpkts_works [OF nm z t(1,2) r t(3) refl this t(5)]
  obtain pl h where g: "tx_zone_getpkts nm (stt_tx_ring th) (stt_tx_zone th) ntx s = Some (pl, s\<lparr>links := h\<rparr>)"
    "lst_repr h pl ts" "\<forall>a. a \<notin> set ts \<longrightarrow> h a = links s a" by blast
  have ch: "chain h hp (ps @ rest) NULL"
    using l g(3) dis chain_cong [of "ps @ rest" h "links s"] by (metis disjoint_iff)
  have "tx_pre nm (stt_tx_zone th) (s\<lparr>links := h\<rparr>) ps ts" using t(4) by (simp add: tx_pre_links)
  moreover have "length ts = length ps" using ts by simp
  moreover have "zones (s\<lparr>links := h\<rparr>) (stt_tx_zone th) \<noteq> None" using z by simp
  moreover have "chain (links (s\<lparr>links := h\<rparr>)) hp (ps @ rest) NULL" using ch by simp
  moreover have "chain (links (s\<lparr>links := h\<rparr>)) (lst_head pl) ts NULL" using lst_reprD(1) [OF g(2)] by simp
  moreover have "set rest \<inter> set ts = {}" using dis by auto
  ultimately obtain hp' s1 where "send_loop nm (stt_tx_zone th) (length ps) hp (lst_head pl) (s\<lparr>links := h\<rparr>)
      = Some (hp', NULL, s1)" "chain (links s1) hp' rest NULL" "all_sent nm (s\<lparr>links := h\<rparr>) ps ts s1"
    using send_loop_works by blast
  with g k(1) all_sent_links [OF this(3) g(3)] show ?thesis by auto
qed

lemma ring_hdr_fields:
  assumes "ring_hdr r' = ring_hdr r"
  shows "r_cur r' = r_cur r" "r_head r' = r_head r" "r_tail r' = r_tail r"
    "ring_size r' = ring_size r" "ring_ok r' = ring_ok r"
  using assms by (cases r; cases r'; simp add: ring_hdr_def ring_ok_def ring_size_def)+

lemma tx_send_works:
  assumes nm: "netmap_ok nm" and z: "zones s (stt_tx_zone th) = Some z"
    and r: "rings s (stt_tx_ring th) = Some r" and l: "lst_repr (links s) out ps" "ps \<noteq> []"
    and a: "aslots = tx_ring_nslots r" "aslots \<noteq> 0"
  defines "now \<equiv> take (unat aslots) ps" and "rest \<equiv> drop (unat aslots) ps"
  defines "w \<equiv> window (ring_size r) (unat (r_cur r)) (length now)"
  defines "ts \<equiv> map ((!) (z_pmap z)) w"
  assumes rdy: "tx_ready nm th s z r now ts" and dis: "set ps \<inter> set ts = {}"
  shows "\<exists>out' s' r'. tx_send nm th aslots out s = Some (of_nat (length now), out', s') \<and>
    lst_repr (links s') out' rest \<and>
    map (\<lambda>j. slot_content nm s' (stt_tx_ring th, j)) w = map (content s) now \<and>
    (\<forall>p \<in> set now. \<exists>k. pkts s' p = Some k \<and> \<not> is_busy k) \<and>
    (\<forall>x \<in> set (now @ ts). links s' x = Some NULL) \<and>
    rings s' (stt_tx_ring th) = Some r' \<and> r_head r' = r_cur r' \<and> r_tail r' = r_tail r \<and>
    unat (r_cur r') = ridx (ring_size r) (unat (r_cur r)) (length now)"
proof -
  have t: "ring_ok r" "ring_size r \<le> 2 ^ 31" using rdy by (simp_all add: tx_ready_def)
  note o = ring_okD [OF t(1)]
  have as: "unat aslots < ring_size r" "0 < unat aslots"
    using tx_ring_nslots_spec [OF t(1)] rdist_less [OF o(4,5)] a unat_eq_zero_iff [of aslots] by auto
  define ntx where "ntx = SIN_MIN aslots (lst_len out)"
  have nl: "unat ntx = length now" using ntx_length [OF lst_reprD(3) [OF l(1)]] by (simp add: ntx_def now_def)
  have now: "now \<noteq> []" "length now \<le> ring_size r" using l(2) as by (simp_all add: now_def)
  have ps: "ps = now @ rest" by (simp add: now_def rest_def)
  have "chain (links s) (lst_head out) (now @ rest) NULL" using lst_reprD(1) [OF l(1)] ps by simp
  from tx_send_phases [OF nm z r rdy this nl now ts_def [unfolded w_def, THEN meta_eq_to_obj_eq]] dis ps
  obtain pl hp' h s1 where
    g: "tx_zone_getpkts nm (stt_tx_ring th) (stt_tx_zone th) ntx s = Some (pl, s\<lparr>links := h\<rparr>)" and
    sl: "send_loop nm (stt_tx_zone th) (unat ntx) (lst_head out) (lst_head pl) (s\<lparr>links := h\<rparr>) = Some (hp', NULL, s1)" and
    ch: "chain (links s1) hp' rest NULL" and al: "all_sent nm s now ts s1"
    by auto
  have "tx_frame s s1" using al by (simp add: all_sent_def)
  then have "map_option ring_hdr (rings s1 (stt_tx_ring th)) = Some (ring_hdr r)"
    using tx_frame_simps(4) r by (metis option.map(2))
  then obtain r1 where r1: "rings s1 (stt_tx_ring th) = Some r1" "ring_hdr r1 = ring_hdr r" by auto
  note e = ring_hdr_fields [OF r1(2)]
  have "unat (r_cur r1) + unat ntx < 2 ^ 32" using e o as t(2) nl by (simp add: now_def)
  then obtain c where c: "advance_tx_ring (stt_tx_ring th) ntx s1 = Some (s1\<lparr>rings := (rings s1)
      (stt_tx_ring th \<mapsto> r1\<lparr>r_head := c, r_cur := c\<rparr>)\<rparr>)" "unat c = ridx (ring_size r) (unat (r_cur r)) (length now)"
    using advance_tx_ring_works [OF r1(1)] t(1) e nl by metis
  let ?s = "s1\<lparr>rings := (rings s1)(stt_tx_ring th \<mapsto> r1\<lparr>r_head := c, r_cur := c\<rparr>)\<rparr>"
  define out' where "out' = (if hp' = NULL then out\<lparr>lst_head := NULL, lst_tail := NULL, lst_len := 0\<rparr>
    else out\<lparr>lst_head := hp', lst_len := lst_len out - ntx\<rparr>)"
  have "hp' = NULL \<longleftrightarrow> rest = []" using ch by (cases rest) auto
  then have "lst_repr (links ?s) out' rest"
    using lst_repr_rest [OF l(1) ch, of ntx] nl ps by (auto simp: out'_def lst_repr_def)
  moreover have "ntx = of_nat (length now)" by (simp flip: nl)
  then have "tx_send nm th aslots out s = Some (of_nat (length now), out', ?s)"
    using lst_repr_empty [OF l(1)] l(2) g sl c(1)
    by (auto simp: tx_send_def ntx_def [symmetric] out'_def Let_def)
  moreover have "map (\<lambda>j. slot_content nm ?s (stt_tx_ring th, j)) w = map (content s) now"
  proof -
    have sl: "slots ?s = slots s1" using r1(1) by (auto simp: slots_def get_slot_def fun_eq_iff split: option.splits)
    have "slot_content nm ?s (stt_tx_ring th, j) = content s1 (z_pmap z ! j)" if j: "j \<in> set w" for j
    proof -
      have "j < ring_size r" using j set_window [OF o(4) now(2)] by (auto simp: w_def)
      then have "slot_of s1 (z_pmap z ! j) = (stt_tx_ring th, j)" "in_step nm s1 (z_pmap z ! j)"
        using al rdy j by (auto simp: all_sent_def tx_ready_def ts_def)
      then show ?thesis using in_step_content [of nm s1 "z_pmap z ! j"]
        by (simp add: slot_content_def sl cong: option.case_cong)
    qed
    then have "map (\<lambda>j. slot_content nm ?s (stt_tx_ring th, j)) w = map (content s1) ts"
      by (simp add: ts_def)
    then show ?thesis using al by (simp add: all_sent_def)
  qed
  ultimately show ?thesis using al c(2) e(3)
    by (intro exI [of _ out'] exI [of _ ?s] exI [of _ "r1\<lparr>r_head := c, r_cur := c\<rparr>"])
      (simp add: all_sent_def)
qed

subsection \<open>Property\<close>

text \<open>
  What the transmit thread does with its list of packets, when the ring has free slots:
  of the \<open>ps\<close> on the list, as many as there are free slots go out, in order: the slots from
  \<open>cur\<close> on hold their content, with their length, whether the buffers were exchanged or
  copied. They come back free and unlinked; the rest stays on the list in order, with the
  right length, and \<open>cur\<close> and \<open>head\<close> move by the number sent, around the end of the ring.
\<close>

theorem tx_send_correct:
  assumes nm: "netmap_ok nm" and z: "zones s (stt_tx_zone th) = Some z"
    and r: "rings s (stt_tx_ring th) = Some r" and l: "lst_repr (links s) out ps" "ps \<noteq> []"
    and a: "tx_ring_nslots r \<noteq> 0" and n: "n = min (unat (tx_ring_nslots r)) (length ps)"
    and w: "w = window (ring_size r) (unat (r_cur r)) n" and ts: "ts = map ((!) (z_pmap z)) w"
    and rdy: "tx_ready nm th s z r (take n ps) ts" and dis: "set ps \<inter> set ts = {}"
  shows "\<exists>out' s' r'. tx_send nm th (tx_ring_nslots r) out s = Some (of_nat n, out', s') \<and>
    lst_repr (links s') out' (drop n ps) \<and>
    map (\<lambda>j. slot_content nm s' (stt_tx_ring th, j)) w = map (content s) (take n ps) \<and>
    (\<forall>p \<in> set (take n ps). \<exists>k. pkts s' p = Some k \<and> \<not> is_busy k) \<and>
    (\<forall>x \<in> set (take n ps @ ts). links s' x = Some NULL) \<and>
    rings s' (stt_tx_ring th) = Some r' \<and> r_head r' = r_cur r' \<and> r_tail r' = r_tail r \<and>
    unat (r_cur r') = ridx (ring_size r) (unat (r_cur r)) n"
proof -
  let ?a = "unat (tx_ring_nslots r)"
  have t: "take n ps = take ?a ps" "drop n ps = drop ?a ps" "n = length (take ?a ps)"
    using n by (auto simp: min_def)
  note W = tx_send_works [OF nm z r l refl a, folded t(3), folded t(1,2) w ts]
  show ?thesis by (rule W [OF rdy dis])
qed

definition ex_tx :: sin_tx_thread where
  "ex_tx = \<lparr>stt_outpkt_queue = 51, stt_tx_ring = 72, stt_tx_zone = 11, stt_queue_fd = 9\<rparr>"

definition ex_out :: sin_list where
  "ex_out = \<lparr>lst_head = Some 21, lst_tail = Some 21, lst_len = 1\<rparr>"

lemma ex_tx_facts:
  "zones ex_store (stt_tx_zone ex_tx) = Some (ex_zone 63 [31, 32, 33])"
  "rings ex_store (stt_tx_ring ex_tx) = Some ex_tx_ring"
  "lst_repr (links ex_store) ex_out [21]" "tx_ring_nslots ex_tx_ring = 2"
  "[1] = window (ring_size ex_tx_ring) (unat (r_cur ex_tx_ring)) 1"
  "[32] = map ((!) (z_pmap (ex_zone 63 [31, 32, 33]))) [1]"
  "tx_ready ex_nm ex_tx ex_store (ex_zone 63 [31, 32, 33]) ex_tx_ring [21] [32]"
proof -
  show "rings ex_store (stt_tx_ring ex_tx) = Some ex_tx_ring"
    "zones ex_store (stt_tx_zone ex_tx) = Some (ex_zone 63 [31, 32, 33])"
    "lst_repr (links ex_store) ex_out [21]"
    by (simp_all add: ex_store_def ex_tx_def lst_repr_def ex_out_def)
  show "tx_ring_nslots ex_tx_ring = 2" by (simp add: tx_ring_nslots_def ex_tx_ring_def)
  show "[1] = window (ring_size ex_tx_ring) (unat (r_cur ex_tx_ring)) 1"
    "[32] = map ((!) (z_pmap (ex_zone 63 [31, 32, 33]))) [1]"
    by (simp_all add: ex_zone_def ex_tx_ring_def ring_size_def window_def ridx_def)
  have "tx_pkt_ok ex_nm ex_store 21" "tx_pkt_ok ex_nm ex_store 32" "fits ex_store 21"
    by (simp_all add: tx_pkt_ok_def fits_def ex_store_def ex_tx_ring_def ex_rx_ring_def slots_def get_slot_def
        ex_nm_def ex_slot_def)
  moreover have "apart ex_store [21, 32]" by (simp add: apart_def buf_of_def slot_of_def ex_store_def)
  moreover have "swap_ok ex_nm 11 ex_store 21 32" by (simp add: swap_ok_def ex_nm_def)
  ultimately have "tx_pre ex_nm (stt_tx_zone ex_tx) ex_store [21] [32]" by (simp add: tx_pre_def ex_tx_def)
  moreover have "ring_ok ex_tx_ring" by (simp add: ring_ok_def ring_size_def ex_tx_ring_def)
  moreover have "links ex_store 32 = Some NULL" by (simp add: ex_store_def)
  moreover have "\<forall>j < 3. slot_of ex_store ([31, 32, 33] ! j) = (72, j)"
    unfolding less_3 by (simp add: slot_of_def ex_store_def)
  ultimately show "tx_ready ex_nm ex_tx ex_store (ex_zone 63 [31, 32, 33]) ex_tx_ring [21] [32]"
    by (simp add: tx_ready_def ex_zone_def ring_size_def ex_tx_ring_def ex_tx_def)
qed

theorem tx_send_correct_witness:
  "\<exists>out' s'. tx_send ex_nm ex_tx 2 ex_out ex_store = Some (1, out', s') \<and>
     slot_content ex_nm s' (72, 1) = content ex_store 21"
  using tx_send_correct [OF ex_nm_ok ex_tx_facts(1-3) _ _ _ ex_tx_facts(5,6)] ex_tx_facts(4,7)
  by (auto simp: ex_tx_def)

end
