(* ===== verification/Sin_Consumer.thy ===== *)
theory Sin_Consumer
  imports Sin_Example
begin

text \<open>
  The contract between the sorter and the functions that consume its lists, as a locale: a
  consumer hands the list it is given, in order, to the end of one output queue, may
  rewrite the packets' buffers on the way, and leaves the rest of the store
  alone. The queue keeps it (\<open>sin_wi_queue_put_items\<close>), and so does every consumer that
  first rewrites its packets (\<open>sin_ip4_icmp_proc\<close>, \<open>udpm_proc\<close>).
\<close>

text \<open>The queues \<open>Q\<close> of a store hold the sequences \<open>C\<close>, no object being on two of them.\<close>

definition qs_repr :: "'a qstore_scheme \<Rightarrow> addr set \<Rightarrow> (addr \<Rightarrow> addr list) \<Rightarrow> bool" where
  "qs_repr s Q C \<longleftrightarrow> (\<forall>q \<in> Q. q_repr s q (C q)) \<and>
     (\<forall>q \<in> Q. \<forall>q' \<in> Q. q \<noteq> q' \<longrightarrow> set (C q) \<inter> set (C q') = {})"

text \<open>Everything but links, queues and buffers is as before.\<close>

definition data_frame :: "'a pstore_scheme \<Rightarrow> 'a pstore_scheme \<Rightarrow> bool" where
  "data_frame s s' \<longleftrightarrow> s' = s\<lparr>links := links s', queues := queues s', mem := mem s'\<rparr>"

lemma data_frame_refl [simp]: "data_frame s s"
  by (simp add: data_frame_def)

lemma data_frame_trans: "data_frame s s' \<Longrightarrow> data_frame s' s'' \<Longrightarrow> data_frame s s''"
  by (cases s; cases s'; cases s'') (simp add: data_frame_def)

lemma data_frame_simps:
  assumes "data_frame s s'"
  shows "pkts s' = pkts s" "rings s' = rings s" "zones s' = zones s"
proof -
  from assms have e: "s' = s\<lparr>links := links s', queues := queues s', mem := mem s'\<rparr>"
    by (simp add: data_frame_def)
  show "pkts s' = pkts s" by (subst e) simp
  show "rings s' = rings s" by (subst e) simp
  show "zones s' = zones s" by (subst e) simp
qed

lemma qs_reprD: "qs_repr s Q C \<Longrightarrow> q \<in> Q \<Longrightarrow> q_repr s q (C q)"
  by (simp add: qs_repr_def)

lemma qs_repr_mem [simp]: "qs_repr (s\<lparr>mem := m\<rparr>) Q C = qs_repr s Q C"
  by (simp add: qs_repr_def q_repr_def cong: option.case_cong)

locale consumer =
  fixes q :: addr
    and act :: "(addr \<rightharpoonup> sin_pkt) \<Rightarrow> addr list \<Rightarrow> bufs \<Rightarrow> bufs"
    and consume :: "sin_list \<Rightarrow> 'a pstore_scheme \<Rightarrow> 'a pstore_scheme option"
  assumes deliver: "\<lbrakk>qs_repr s Q C; q \<in> Q; lst_repr (links s) l ys; ys \<noteq> [];
      \<forall>q' \<in> Q. set (C q') \<inter> set ys = {}; length (C q) + length ys < 2 ^ 32;
      \<forall>y \<in> set ys. frame_ok s y\<rbrakk> \<Longrightarrow>
      \<exists>s'. consume l s = Some s' \<and> qs_repr s' Q (C(q := C q @ ys)) \<and> data_frame s s' \<and>
        mem s' = act (pkts s) ys (mem s) \<and> (\<forall>a. a \<notin> set (C q) \<longrightarrow> links s' a = links s a)"
    and act_nil: "act P [] m = m"
    and act_length: "m a = Some b \<Longrightarrow> 42 \<le> length b \<Longrightarrow>
      \<exists>b'. act P ys m a = Some b' \<and> length b' = length b"
begin

lemma frame_kept:
  assumes "data_frame s s'" and "mem s' = act (pkts s) ys (mem s)" and "frame_ok s y"
  shows "frame_ok s' y"
proof -
  from assms(3) obtain k b where k: "pkts s y = Some k" "mem s (p_buf k) = Some b" "42 \<le> length b"
    by (rule frame_okE)
  with act_length [of "mem s" "p_buf k" b "pkts s" ys] assms(2) data_frame_simps(1) [OF assms(1)]
  show ?thesis by (auto simp: frame_ok_def)
qed

text \<open>Handing over two lists one after the other keeps their order.\<close>

lemma deliver_twice:
  assumes "qs_repr s Q C" "q \<in> Q" "lst_repr (links s) l ys" "lst_repr (links s) l' ys'"
    and "ys \<noteq> []" "ys' \<noteq> []" "set ys \<inter> set ys' = {}"
    and "\<forall>q' \<in> Q. set (C q') \<inter> (set ys \<union> set ys') = {}"
    and "length (C q) + length ys + length ys' < 2 ^ 32"
    and "\<forall>y \<in> set ys \<union> set ys'. frame_ok s y"
  shows "\<exists>s' s''. consume l s = Some s' \<and> consume l' s' = Some s'' \<and>
    q_repr s'' q (C q @ ys @ ys')"
proof -
  obtain s' where s': "consume l s = Some s'" "qs_repr s' Q (C(q := C q @ ys))"
    "data_frame s s'" "mem s' = act (pkts s) ys (mem s)"
    "\<forall>a. a \<notin> set (C q) \<longrightarrow> links s' a = links s a"
    using deliver [of s Q C l ys] assms by auto
  have "links s a = links s' a" if "a \<in> set ys'" for a
    using that assms(2,8) s'(5) by (metis IntI UnCI empty_iff)
  then have l': "lst_repr (links s') l' ys'"
    using assms(4) lst_repr_cong [of ys' "links s" "links s'"] by simp
  have ok: "frame_ok s' y" if "y \<in> set ys'" for y
    using assms(10) frame_kept [OF s'(3,4)] that by blast
  have "\<forall>q' \<in> Q. set ((C(q := C q @ ys)) q') \<inter> set ys' = {}" using assms(7,8) by auto
  then have "\<exists>s''. consume l' s' = Some s'' \<and> qs_repr s'' Q (C(q := C q @ ys @ ys'))"
    using deliver [of s' Q "C(q := C q @ ys)" l' ys'] s'(2) l' ok assms(2,6,9) by auto
  with s'(1) assms(2) show ?thesis by (auto dest: qs_reprD)
qed

end

lemma data_frameI:
  "s' = s\<lparr>mem := m, links := links s', queues := queues s'\<rparr> \<Longrightarrow> data_frame s s' \<and> mem s' = m"
  by (cases s; cases s') (simp add: data_frame_def)

subsection \<open>The queue as a consumer\<close>

lemma put_items_delivers:
  assumes "qs_repr s Q C" "q \<in> Q" "lst_repr (links s) l ys" "ys \<noteq> []"
    and "\<forall>q' \<in> Q. set (C q') \<inter> set ys = {}" "length (C q) + length ys < 2 ^ 32"
  shows "\<exists>s'. sin_wi_queue_put_items l q s = Some s' \<and> qs_repr s' Q (C(q := C q @ ys)) \<and>
    s' = s\<lparr>links := links s', queues := queues s'\<rparr> \<and>
    (\<forall>a. a \<notin> set (C q) \<longrightarrow> links s' a = links s a)"
proof -
  have q: "q_repr s q (C q)" using assms by (simp add: qs_repr_def)
  obtain s' where s': "sin_wi_queue_put_items l q s = Some s'" "q_repr s' q (C q @ ys)"
    "links s' = app_links (links s) (C q) (lst_head l)"
    "\<And>q'. q' \<noteq> q \<Longrightarrow> queues s' q' = queues s q'"
    using put_items_repr [OF q assms(3,4)] assms(2,5,6) by blast
  have fr: "links s' a = links s a" if "a \<notin> set (C q)" for a
    using that s'(3) by (simp add: app_links_other)
  have other: "q_repr s' q' (C q')" if "q' \<in> Q" "q' \<noteq> q" for q'
  proof -
    have "set (C q') \<inter> set (C q) = {}" using that assms(1,2) by (simp add: qs_repr_def)
    then have "links s' a = links s a" if "a \<in> set (C q')" for a using that fr by blast
    then have "lst_repr (links s') l (C q') = lst_repr (links s) l (C q')" for l
      by (rule lst_repr_cong)
    then show ?thesis using that assms(1) s'(4) by (simp add: qs_repr_def q_repr_def cong: option.case_cong)
  qed
  have "qs_repr s' Q (C(q := C q @ ys))"
    unfolding qs_repr_def
  proof (intro conjI ballI impI)
    fix a assume "a \<in> Q"
    then show "q_repr s' a ((C(q := C q @ ys)) a)" using s'(2) other by simp
  next
    fix a b assume "a \<in> Q" "b \<in> Q" "a \<noteq> b"
    then have "set (C a) \<inter> set (C b) = {}" "set (C a) \<inter> set ys = {}" "set (C b) \<inter> set ys = {}"
      using assms(1,5) by (simp_all add: qs_repr_def)
    with \<open>a \<noteq> b\<close> show "set ((C(q := C q @ ys)) a) \<inter> set ((C(q := C q @ ys)) b) = {}"
      by auto
  qed
  moreover have "s' = s\<lparr>links := links s', queues := queues s'\<rparr>"
    using s'(1) q by (auto simp: q_repr_def put_items_exact split: option.splits)
  ultimately show ?thesis using s'(1) fr by blast
qed

interpretation put_cons: consumer q "\<lambda>P ys m. m" "\<lambda>l. sin_wi_queue_put_items l q" for q
proof unfold_locales
  fix s :: "'a pstore_scheme" and Q C l ys
  assume "qs_repr s Q C" "q \<in> Q" "lst_repr (links s) l ys" "ys \<noteq> []"
    "\<forall>q' \<in> Q. set (C q') \<inter> set ys = {}" "length (C q) + length ys < 2 ^ 32"
  from put_items_delivers [OF this]
  obtain s' where s': "sin_wi_queue_put_items l q s = Some s'" "qs_repr s' Q (C(q := C q @ ys))"
    "s' = s\<lparr>links := links s', queues := queues s'\<rparr>"
    "\<forall>a. a \<notin> set (C q) \<longrightarrow> links s' a = links s a" by (elim exE conjE)
  have "data_frame s s' \<and> mem s' = mem s"
    using s'(3) by (intro data_frameI) simp
  with s' show "\<exists>s'. sin_wi_queue_put_items l q s = Some s' \<and> qs_repr s' Q (C(q := C q @ ys)) \<and>
      data_frame s s' \<and> mem s' = mem s \<and> (\<forall>a. a \<notin> set (C q) \<longrightarrow> links s' a = links s a)"
    by blast
qed auto

subsection \<open>Rewriting the packets of a list\<close>

text \<open>
  The second kind of consumer first rewrites the buffer of every packet of its list, in
  place, and then hands the list to the queue. \<open>rewrite_mem f P x m\<close> is the memory \<open>m\<close>
  after \<open>f\<close> on the buffer of packet \<open>x\<close>.
\<close>

definition rewrite_mem :: "(u8 list \<Rightarrow> u8 list option) \<Rightarrow> (addr \<rightharpoonup> sin_pkt) \<Rightarrow> addr \<Rightarrow> bufs \<Rightarrow> bufs" where
  "rewrite_mem f P x m = (case P x of None \<Rightarrow> m | Some k \<Rightarrow>
     (case m (p_buf k) of None \<Rightarrow> m | Some b \<Rightarrow> m(p_buf k := f b)))"

text \<open>
  With the packets in different buffers each buffer is rewritten once and no other buffer
  changes.
\<close>

lemma fold_rewrite_other:
  assumes "\<And>x k. x \<in> set xs \<Longrightarrow> P x = Some k \<Longrightarrow> p_buf k \<noteq> a"
  shows "fold (rewrite_mem f P) xs m a = m a"
  using assms
proof (induction xs arbitrary: m)
  case (Cons x xs)
  have "fold (rewrite_mem f P) (x # xs) m a = rewrite_mem f P x m a"
    using Cons.IH [of "rewrite_mem f P x m"] Cons.prems by (metis fold_simps(2) list.set_intros(2))
  also have "\<dots> = m a" using Cons.prems [of x] by (auto simp: rewrite_mem_def split: option.splits)
  finally show ?case .
qed simp

lemma fold_rewrite_at:
  assumes "x \<in> set xs" and "distinct xs" and "P x = Some k" and "m (p_buf k) = Some b"
    and "\<And>y j. y \<in> set xs \<Longrightarrow> y \<noteq> x \<Longrightarrow> P y = Some j \<Longrightarrow> p_buf j \<noteq> p_buf k"
  shows "fold (rewrite_mem f P) xs m (p_buf k) = f b"
proof -
  from assms(1) obtain us vs where xs: "xs = us @ x # vs" by (auto simp: in_set_conv_decomp)
  with assms(2) have "x \<notin> set us" "x \<notin> set vs" by auto
  then have "fold (rewrite_mem f P) us m (p_buf k) = m (p_buf k)"
    and "fold (rewrite_mem f P) vs n (p_buf k) = n (p_buf k)" for n
    using assms(5) by (auto intro!: fold_rewrite_other simp: xs)
  then show ?thesis using assms(3,4) by (simp add: xs rewrite_mem_def)
qed

lemma fold_rewrite_Some [simp]: "fold (rewrite_mem Some P) ys m = m"
proof -
  have "rewrite_mem Some P x m = m" for x and m :: bufs
    by (auto simp: rewrite_mem_def split: option.splits)
  then show ?thesis by (induction ys) simp_all
qed

locale packet_rewriter =
  fixes f :: "u8 list \<Rightarrow> u8 list option"
    and loop :: "ptr \<Rightarrow> 'a pstore_scheme \<Rightarrow> 'a pstore_scheme option"
  assumes f_ok: "42 \<le> length b \<Longrightarrow> \<exists>b'. f b = Some b' \<and> length b' = length b"
    and loop_NULL: "loop NULL s = Some s"
    and loop_Some: "frame_ok s x \<Longrightarrow> links s x = Some n \<Longrightarrow>
      loop (Some x) s = loop n (s\<lparr>mem := rewrite_mem f (pkts s) x (mem s)\<rparr>)"
begin

lemma rewrite_length:
  assumes "m a = Some b" and "42 \<le> length b"
  shows "\<exists>b'. fold (rewrite_mem f P) ys m a = Some b' \<and> length b' = length b"
  using assms
proof (induction ys arbitrary: m b)
  case (Cons y ys)
  have "\<exists>b'. rewrite_mem f P y m a = Some b' \<and> length b' = length b"
    using Cons.prems f_ok [of b] by (auto simp: rewrite_mem_def split: option.splits)
  then obtain b' where "rewrite_mem f P y m a = Some b'" "length b' = length b" by blast
  with Cons.IH [of "rewrite_mem f P y m" b'] Cons.prems(2) show ?case by simp
qed simp

lemma rewrite_frame_ok:
  assumes "frame_ok s y"
  shows "frame_ok (s\<lparr>mem := rewrite_mem f (pkts s) x (mem s)\<rparr>) y"
proof -
  from assms obtain k b where k: "pkts s y = Some k" "mem s (p_buf k) = Some b" "42 \<le> length b"
    by (rule frame_okE)
  with rewrite_length [of "mem s" "p_buf k" b "pkts s" "[x]"] show ?thesis
    by (auto simp: frame_ok_def)
qed

lemma loop_works:
  assumes "chain (links s) p xs NULL" and "\<forall>x \<in> set xs. frame_ok s x"
  shows "loop p s = Some (s\<lparr>mem := fold (rewrite_mem f (pkts s)) xs (mem s)\<rparr>)"
  using assms
proof (induction xs arbitrary: p s)
  case Nil
  then show ?case by (simp add: loop_NULL)
next
  case (Cons x xs)
  then obtain n where n: "p = Some x" "links s x = Some n" "chain (links s) n xs NULL" by auto
  define s1 where "s1 = s\<lparr>mem := rewrite_mem f (pkts s) x (mem s)\<rparr>"
  have "loop p s = loop n s1" using n loop_Some [of s x n] Cons.prems(2) by (simp add: s1_def)
  also have "\<dots> = Some (s1\<lparr>mem := fold (rewrite_mem f (pkts s1)) xs (mem s1)\<rparr>)"
  proof (rule Cons.IH)
    show "chain (links s1) n xs NULL" using n by (simp add: s1_def)
    show "\<forall>y \<in> set xs. frame_ok s1 y"
      using Cons.prems(2) rewrite_frame_ok [of s _ x] by (simp add: s1_def)
  qed
  finally show ?case by (simp add: s1_def)
qed

end

text \<open>Rewriting and then queueing is a consumer.\<close>

sublocale packet_rewriter < dlv: consumer q "\<lambda>P. fold (rewrite_mem f P)"
    "\<lambda>l s. do { s \<leftarrow> loop (lst_head l) s; sin_wi_queue_put_items l q s }" for q
proof unfold_locales
  fix s :: "'a pstore_scheme" and Q C l ys
  assume a: "qs_repr s Q C" "q \<in> Q" "lst_repr (links s) l ys" "ys \<noteq> []"
    "\<forall>q' \<in> Q. set (C q') \<inter> set ys = {}" "length (C q) + length ys < 2 ^ 32"
    "\<forall>y \<in> set ys. frame_ok s y"
  define s1 where "s1 = s\<lparr>mem := fold (rewrite_mem f (pkts s)) ys (mem s)\<rparr>"
  have lp: "loop (lst_head l) s = Some s1"
    using loop_works [OF lst_reprD(1) [OF a(3)] a(7)] by (simp add: s1_def)
  have "qs_repr s1 Q C" "lst_repr (links s1) l ys" using a(1,3) by (simp_all add: s1_def)
  from put_items_delivers [OF this(1) a(2) this(2) a(4-6)]
  obtain s' where s': "sin_wi_queue_put_items l q s1 = Some s'" "qs_repr s' Q (C(q := C q @ ys))"
    "s' = s1\<lparr>links := links s', queues := queues s'\<rparr>"
    "\<forall>a. a \<notin> set (C q) \<longrightarrow> links s' a = links s1 a" by (elim exE conjE)
  have "data_frame s s' \<and> mem s' = fold (rewrite_mem f (pkts s)) ys (mem s)"
    using s'(3) by (intro data_frameI) (simp add: s1_def)
  with s' lp show "\<exists>s'. do { s \<leftarrow> loop (lst_head l) s; sin_wi_queue_put_items l q s } = Some s' \<and>
      qs_repr s' Q (C(q := C q @ ys)) \<and> data_frame s s' \<and>
      mem s' = fold (rewrite_mem f (pkts s)) ys (mem s) \<and>
      (\<forall>a. a \<notin> set (C q) \<longrightarrow> links s' a = links s a)"
    by (intro exI [of _ s']) (simp add: s1_def)
qed (simp_all add: rewrite_length)

end
