(* ===== verification/Sin_Ip4_Icmp.thy ===== *)
theory Sin_Ip4_Icmp
  imports Sin_Consumer
begin

text \<open>
  The ICMP echo responder of \<open>sin_ip4_icmp.c\<close>: it recognises echo requests and turns each
  into its reply in place. A frame is the byte list of its buffer; the packed C structs
  give every header field a fixed offset (Ethernet header of 14 bytes, IP header of 20
  bytes without options, ICMP header).
\<close>

subsection \<open>Header layout\<close>

definition OFF_ETHER_DHOST :: nat where "OFF_ETHER_DHOST = 0"
definition OFF_ETHER_SHOST :: nat where "OFF_ETHER_SHOST = 6"
definition OFF_ETHER_TYPE :: nat where "OFF_ETHER_TYPE = 12"
definition OFF_IP :: nat where "OFF_IP = 14"
definition OFF_IP_P :: nat where "OFF_IP_P = 23"
definition OFF_IP_SUM :: nat where "OFF_IP_SUM = 24"
definition OFF_IP_SRC :: nat where "OFF_IP_SRC = 26"
definition OFF_IP_DST :: nat where "OFF_IP_DST = 30"
definition OFF_ICMP_TYPE :: nat where "OFF_ICMP_TYPE = 34"
definition OFF_ICMP_CKSUM :: nat where "OFF_ICMP_CKSUM = 36"
definition SIZEOF_IP :: nat where "SIZEOF_IP = 20"

definition SIN_IP4_ICMP_MINLEN :: u32 where
  "SIN_IP4_ICMP_MINLEN = 14 + 20 + 16"

lemmas off_defs = OFF_ETHER_DHOST_def OFF_ETHER_SHOST_def OFF_ETHER_TYPE_def OFF_IP_def
  OFF_IP_P_def OFF_IP_SUM_def OFF_IP_SRC_def OFF_IP_DST_def OFF_ICMP_TYPE_def
  OFF_ICMP_CKSUM_def SIZEOF_IP_def

subsection \<open>Recognising a packet\<close>

definition sin_ip4_icmp_taste :: "addr \<Rightarrow> 'a pstore_scheme \<Rightarrow> int option" where
  "sin_ip4_icmp_taste pkt s = do {
     pk \<leftarrow> pkts s pkt;
     if p_len pk < SIN_IP4_ICMP_MINLEN then Some 0
     else do {
       p \<leftarrow> mem s (p_buf pk);
       ether_type \<leftarrow> ld16 p OFF_ETHER_TYPE;
       if ether_type \<noteq> htons 0x0800 then Some 0
       else do {
         vhl \<leftarrow> ld8 p OFF_IP;
         if drop_bit 4 vhl \<noteq> 0x4 then Some 0
         else do {
           ip_p \<leftarrow> ld8 p OFF_IP_P;
           if ip_p \<noteq> 0x1 then Some 0
           else do {
             icmp_type \<leftarrow> ld8 p OFF_ICMP_TYPE;
             if icmp_type \<noteq> 0x8 then Some 0 else Some 1
           }
         }
       }
     }
   }"

definition sin_ip4_icmp_repl_taste :: "addr \<Rightarrow> 'a pstore_scheme \<Rightarrow> int option" where
  "sin_ip4_icmp_repl_taste pkt s = do {
     pk \<leftarrow> pkts s pkt;
     if p_len pk < SIN_IP4_ICMP_MINLEN then Some 0
     else do {
       p \<leftarrow> mem s (p_buf pk);
       ether_type \<leftarrow> ld16 p OFF_ETHER_TYPE;
       if ether_type \<noteq> htons 0x0800 then Some 0
       else do {
         vhl \<leftarrow> ld8 p OFF_IP;
         if drop_bit 4 vhl \<noteq> 0x4 then Some 0
         else do {
           ip_p \<leftarrow> ld8 p OFF_IP_P;
           if ip_p \<noteq> 0x1 then Some 0
           else do {
             icmp_type \<leftarrow> ld8 p OFF_ICMP_TYPE;
             if icmp_type \<noteq> 0x0 then Some 0 else Some 1
           }
         }
       }
     }
   }"

subsection \<open>From request to reply\<close>

definition req2rpl_buf :: "u8 list \<Rightarrow> u8 list option" where
  "req2rpl_buf p = do {
     p \<leftarrow> sin_memswp OFF_ETHER_SHOST OFF_ETHER_DHOST 6 p;
     p \<leftarrow> sin_memswp OFF_IP_SRC OFF_IP_DST 4 p;
     ip_sum \<leftarrow> sin_ip4_cksum p OFF_IP (int SIZEOF_IP);
     p \<leftarrow> st16 p OFF_IP_SUM ip_sum;
     p \<leftarrow> st8 p OFF_ICMP_TYPE 0x0;
     icmp_cksum \<leftarrow> ld16 p OFF_ICMP_CKSUM;
     st16 p OFF_ICMP_CKSUM (icmp_cksum + htons 0x0800)
   }"

definition sin_ip4_icmp_req2rpl :: "addr \<Rightarrow> 'a pstore_scheme \<Rightarrow> 'a pstore_scheme option" where
  "sin_ip4_icmp_req2rpl pkt s = do {
     pk \<leftarrow> pkts s pkt;
     p \<leftarrow> mem s (p_buf pk);
     p \<leftarrow> req2rpl_buf p;
     Some (s\<lparr>mem := (mem s)(p_buf pk \<mapsto> p)\<rparr>)
   }"

partial_function (option) icmp_proc_loop :: "ptr \<Rightarrow> 'a pstore_scheme \<Rightarrow> 'a pstore_scheme option" where
  "icmp_proc_loop p s = (case p of None \<Rightarrow> Some s
     | Some pkt \<Rightarrow> do {
         s \<leftarrow> sin_ip4_icmp_req2rpl pkt s;
         pkt_next \<leftarrow> SIN_ITER_NEXT pkt s;
         icmp_proc_loop pkt_next s
       })"

definition sin_ip4_icmp_proc :: "sin_list \<Rightarrow> addr \<Rightarrow> 'a pstore_scheme \<Rightarrow> 'a pstore_scheme option" where
  "sin_ip4_icmp_proc pl outq s = do {
     s \<leftarrow> icmp_proc_loop (lst_head pl) s;
     sin_wi_queue_put_items pl outq s
   }"

subsection \<open>The taste functions\<close>

lemma htons_0800: "htons 0x0800 = 8"
  by (simp add: htons_def le16_def drop_bit_eq_div)

text \<open>What the tasters test, as one predicate on the frame.\<close>

definition icmp_frame :: "u8 \<Rightarrow> u8 list \<Rightarrow> bool" where
  "icmp_frame ty p \<longleftrightarrow> p ! 12 = 0x08 \<and> p ! 13 = 0x00 \<and> drop_bit 4 (p ! 14) = 4 \<and>
     p ! 23 = 1 \<and> p ! 34 = ty"

lemma le16_eq_iff: "le16 a b = le16 c d \<longleftrightarrow> a = c \<and> b = d"
proof
  assume "le16 a b = le16 c d"
  then have e: "unat a + 256 * unat b = unat c + 256 * unat d" by (metis unat_le16)
  have "unat a mod 256 = unat a" "unat c mod 256 = unat c"
    using unat_u8_bound [of a] unat_u8_bound [of c] by simp_all
  with e have "unat a = unat c" by (metis mod_mult_self2)
  with e have "unat b = unat d" by simp
  with \<open>unat a = unat c\<close> show "a = c \<and> b = d" by (simp add: unsigned_word_eqI)
qed simp

lemma ether_type_iff: "le16 a b = htons 0x0800 \<longleftrightarrow> a = 8 \<and> b = 0"
proof -
  have "htons 0x0800 = le16 8 0" by (simp add: htons_0800 le16_def)
  then show ?thesis by (simp add: le16_eq_iff)
qed

lemma icmp_taste_spec:
  assumes "pkts s pkt = Some pk" and "mem s (p_buf pk) = Some p"
    and "unat (p_len pk) \<le> length p"
  shows "sin_ip4_icmp_taste pkt s = Some (of_bool (50 \<le> unat (p_len pk) \<and> icmp_frame 8 p))"
    and "sin_ip4_icmp_repl_taste pkt s = Some (of_bool (50 \<le> unat (p_len pk) \<and> icmp_frame 0 p))"
proof -
  have "p_len pk < SIN_IP4_ICMP_MINLEN \<longleftrightarrow> unat (p_len pk) < 50"
    by (simp add: SIN_IP4_ICMP_MINLEN_def word_less_nat_alt)
  with assms show
    "sin_ip4_icmp_taste pkt s = Some (of_bool (50 \<le> unat (p_len pk) \<and> icmp_frame 8 p))"
    "sin_ip4_icmp_repl_taste pkt s = Some (of_bool (50 \<le> unat (p_len pk) \<and> icmp_frame 0 p))"
    by (auto simp: sin_ip4_icmp_taste_def sin_ip4_icmp_repl_taste_def icmp_frame_def ld8_def
        ld16_def off_defs ether_type_iff numeral_eq_Suc)
qed

subsection \<open>What the reply is\<close>

definition swap_addrs :: "u8 list \<Rightarrow> u8 list" where
  "swap_addrs p = swapped 26 30 4 (swapped 6 0 6 p)"

definition icmp_reply :: "u16 \<Rightarrow> u8 list \<Rightarrow> u8 list" where
  "icmp_reply ip_sum p = (let v = le16 (p ! 36) (p ! 37) + 8 in
     (swap_addrs p)[24 := ucast ip_sum, 25 := ucast (drop_bit 8 ip_sum), 34 := 0,
       36 := ucast v, 37 := ucast (drop_bit 8 v)])"

definition ip_hdr_sum :: "u8 list \<Rightarrow> nat" where
  "ip_hdr_sum p = word_sum (take 20 (drop 14 p))"

lemma length_icmp_reply [simp]: "length (icmp_reply c p) = length p"
  by (simp add: icmp_reply_def swap_addrs_def Let_def)

lemma length_swap_addrs [simp]: "length (swap_addrs p) = length p"
  by (simp add: swap_addrs_def)

lemma nth_swap_addrs:
  assumes "38 \<le> length p" and "i < length p"
  shows "swap_addrs p ! i = (if i < 6 then p ! (i + 6) else if i < 12 then p ! (i - 6)
    else if 26 \<le> i \<and> i < 30 then p ! (i + 4) else if 30 \<le> i \<and> i < 34 then p ! (i - 4) else p ! i)"
  using assms by (auto simp: swap_addrs_def nth_swapped add.commute)

lemma ip_hdr_sum_eq: "34 \<le> length p \<Longrightarrow> ip_hdr_sum p =
    (\<Sum>k < 10. unat (p ! (14 + 2 * k)) + 256 * unat (p ! (14 + 2 * k + 1)))"
  using word_sum_range [of 14 10 p] by (simp add: ip_hdr_sum_def)

lemma lessThan_10: "{..<10 :: nat} = {0, 1, 2, 3, 4, 5, 6, 7, 8, 9}"
  by auto

text \<open>Exchanging source and destination does not change the sum of the IP header.\<close>

lemma ip_hdr_sum_swap: "38 \<le> length p \<Longrightarrow> ip_hdr_sum (swap_addrs p) = ip_hdr_sum p"
  by (simp add: ip_hdr_sum_eq lessThan_10 nth_swap_addrs)

lemma ip_hdr_sum_upd:
  "38 \<le> length p \<Longrightarrow> ip_hdr_sum (p[24 := a, 25 := b]) + unat (p ! 24) + 256 * unat (p ! 25)
    = ip_hdr_sum p + unat a + 256 * unat b"
  by (simp add: ip_hdr_sum_eq lessThan_10)

lemma req2rpl_buf_spec:
  assumes "38 \<le> length p"
  obtains c where "req2rpl_buf p = Some (icmp_reply c p)"
    and "unat c = 65535 - ones_sum (ip_hdr_sum p)"
proof -
  have "sin_memswp OFF_ETHER_SHOST OFF_ETHER_DHOST 6 p = Some (swapped 6 0 6 p)"
    using memswp_loop_swaps [of 6 6 0 p] assms by (simp add: sin_memswp_def off_defs)
  moreover have "sin_memswp OFF_IP_SRC OFF_IP_DST 4 (swapped 6 0 6 p) = Some (swap_addrs p)"
    using memswp_loop_swaps [of 26 4 30 "swapped 6 0 6 p"] assms
    by (simp add: sin_memswp_def off_defs swap_addrs_def)
  moreover obtain c where c: "sin_ip4_cksum (swap_addrs p) OFF_IP (int SIZEOF_IP) = Some c"
    and u: "unat c = 65535 - ones_sum (ip_hdr_sum (swap_addrs p))"
    using sin_ip4_cksum_spec [of 14 20 "swap_addrs p"] assms
    by (auto simp: off_defs ip_hdr_sum_def)
  ultimately have "req2rpl_buf p = Some (icmp_reply c p)"
    using assms by (simp add: req2rpl_buf_def icmp_reply_def st16_def st8_def ld16_def off_defs
        nth_swap_addrs htons_0800 Let_def)
  then show thesis using u assms by (intro that) (simp_all add: ip_hdr_sum_swap)
qed

subsection \<open>The checksums of the reply\<close>

lemma nth_icmp_reply:
  assumes "38 \<le> length p" and "i < length p"
  shows "icmp_reply c p ! i = (if i = 24 then ucast c else if i = 25 then ucast (drop_bit 8 c)
    else if i = 34 then 0
    else if i = 36 then ucast (le16 (p ! 36) (p ! 37) + 8)
    else if i = 37 then ucast (drop_bit 8 (le16 (p ! 36) (p ! 37) + 8))
    else swap_addrs p ! i)"
  using assms by (auto simp: icmp_reply_def Let_def nth_list_update)

lemma ip_hdr_sum_reply:
  assumes "38 \<le> length p"
  shows "ip_hdr_sum (icmp_reply c p) + unat (le16 (p ! 24) (p ! 25)) = ip_hdr_sum p + unat c"
proof -
  have "ip_hdr_sum (icmp_reply c p)
      = ip_hdr_sum ((swap_addrs p)[24 := ucast c, 25 := ucast (drop_bit 8 c)])"
    using assms by (simp add: ip_hdr_sum_eq lessThan_10 nth_icmp_reply nth_list_update)
  moreover have "unat (ucast c :: u8) + 256 * unat (ucast (drop_bit 8 c) :: u8) = unat c"
    by (simp flip: unat_le16 add: le16_split)
  ultimately show ?thesis
    using ip_hdr_sum_upd [of "swap_addrs p" "ucast c" "ucast (drop_bit 8 c)"] assms
    by (simp add: ip_hdr_sum_swap nth_swap_addrs unat_le16)
qed

text \<open>
  The checksum of the reply is computed over the header with the request's checksum still in
  place. For a valid request that sum is full, so the field becomes zero, and the header
  of the reply is valid only if the request's field was itself a one's-complement zero.
\<close>

lemma reply_ip_sum_zero:
  assumes "38 \<le> length p" and "ones_sum (ip_hdr_sum p) = 65535"
    and "req2rpl_buf p = Some p'"
  shows "p' ! 24 = 0" and "p' ! 25 = 0"
    and "ones_sum (ip_hdr_sum p') = 65535 \<longleftrightarrow>
      unat (le16 (p ! 24) (p ! 25)) mod 65535 = 0 \<and>
      unat (le16 (p ! 24) (p ! 25)) \<noteq> ip_hdr_sum p"
proof -
  obtain c where r: "req2rpl_buf p = Some (icmp_reply c p)"
    and u: "unat c = 65535 - ones_sum (ip_hdr_sum p)"
    using req2rpl_buf_spec [OF assms(1)] by blast
  from r assms(3) have p': "p' = icmp_reply c p" by simp
  from u assms(2) have c: "c = 0" by (simp add: unat_eq_0)
  show "p' ! 24 = 0" "p' ! 25 = 0"
    using assms(1) by (simp_all add: p' c nth_icmp_reply)
  define k where "k = unat (le16 (p ! 24) (p ! 25))"
  have sum: "ip_hdr_sum p' + k = ip_hdr_sum p"
    using ip_hdr_sum_reply [OF assms(1), of c] by (simp add: p' c k_def)
  have "ip_hdr_sum p mod 65535 = 0" using assms(2) by (simp add: ones_sum_full)
  then have "ip_hdr_sum p' mod 65535 = 0 \<longleftrightarrow> k mod 65535 = 0"
    using sum by (metis add.right_neutral add_0 dvd_add_left_iff dvd_add_right_iff mod_0_imp_dvd mod_eq_0_iff_dvd)
  then show "ones_sum (ip_hdr_sum p') = 65535 \<longleftrightarrow>
      unat (le16 (p ! 24) (p ! 25)) mod 65535 = 0 \<and>
      unat (le16 (p ! 24) (p ! 25)) \<noteq> ip_hdr_sum p"
    using sum by (auto simp: ones_sum_full k_def [symmetric])
qed

text \<open>The ICMP message of a frame of \<open>n\<close> bytes.\<close>

definition icmp_msg :: "nat \<Rightarrow> u8 list \<Rightarrow> u8 list" where
  "icmp_msg n p = take (n - 34) (drop 34 p)"

lemma icmp_msg_sum:
  assumes "38 \<le> n" and "n \<le> length p"
  shows "word_sum (icmp_msg n p) = unat (p ! 34) + 256 * unat (p ! 35)
    + unat (le16 (p ! 36) (p ! 37)) + word_sum (take (n - 38) (drop 38 p))"
proof -
  have "icmp_msg n p = p ! 34 # p ! 35 # p ! 36 # p ! 37 # take (n - 38) (drop 38 p)"
    using take2 [of "n - 34" 34 p] take2 [of "n - 36" 36 p] assms
    by (simp add: icmp_msg_def)
  then show ?thesis by (simp add: unat_le16)
qed

lemma icmp_reply_rest:
  "38 \<le> length p \<Longrightarrow> drop 38 (icmp_reply c p) = drop 38 p"
  by (rule nth_equalityI) (simp_all add: nth_icmp_reply nth_swap_addrs)

text \<open>
  The ICMP checksum is updated by adding 8, the drop in the type field, without the
  end-around carry: it stays correct exactly if that addition does not wrap.
\<close>

lemma reply_icmp_sum:
  assumes n: "38 \<le> n" "n \<le> length p" and ty: "p ! 34 = 8"
    and valid: "cksum_valid (icmp_msg n p)"
    and r: "req2rpl_buf p = Some p'"
  shows "cksum_valid (icmp_msg n p') \<longleftrightarrow> unat (le16 (p ! 36) (p ! 37)) < 65528"
proof -
  let ?k = "le16 (p ! 36) (p ! 37)" and ?rest = "word_sum (take (n - 38) (drop 38 p))"
  from n have len: "38 \<le> length p" by simp
  obtain c where "req2rpl_buf p = Some (icmp_reply c p)"
    using req2rpl_buf_spec [OF len] by blast
  with r have p': "p' = icmp_reply c p" by simp
  have "le16 (p' ! 36) (p' ! 37) = ?k + 8"
    using n len by (simp add: p' nth_icmp_reply le16_split)
  then have new: "word_sum (icmp_msg n p') = 256 * unat (p ! 35) + unat (?k + 8) + ?rest"
    using icmp_msg_sum [of n p'] n len icmp_reply_rest [OF len, of c]
    by (simp add: p' nth_icmp_reply nth_swap_addrs)
  have old: "word_sum (icmp_msg n p) = 8 + 256 * unat (p ! 35) + unat ?k + ?rest"
    using icmp_msg_sum [OF n] ty by simp
  show ?thesis
  proof (cases "unat ?k < 65528")
    case True
    then have "unat (?k + 8) = unat ?k + 8" by (simp add: unat_word_ariths)
    with old new have "word_sum (icmp_msg n p') = word_sum (icmp_msg n p)" by simp
    with True valid show ?thesis by (simp add: cksum_valid_def)
  next
    case False
    moreover have "unat (?k + 8) = (unat ?k + 8) mod 65536" by (simp add: unat_word_ariths)
    ultimately have "unat (?k + 8) + 65528 = unat ?k"
      using unat_u16_bound [of ?k] by (simp add: le_mod_geq)
    with old new have eq: "word_sum (icmp_msg n p) = word_sum (icmp_msg n p') + 65536" by simp
    from valid have "word_sum (icmp_msg n p) mod 65535 = 0"
      by (simp add: cksum_valid_def ones_sum_full)
    moreover have "word_sum (icmp_msg n p) = (word_sum (icmp_msg n p') + 1) + 65535"
      using eq by simp
    ultimately have "(word_sum (icmp_msg n p') + 1) mod 65535 = 0" by (simp only: mod_add_self2)
    then have "word_sum (icmp_msg n p') mod 65535 \<noteq> 0"
      using mod_Suc [of "word_sum (icmp_msg n p')" 65535] by (auto split: if_splits)
    with False show ?thesis by (simp add: cksum_valid_def ones_sum_full)
  qed
qed

subsection \<open>Processing a list of requests\<close>

abbreviation reply_mem :: "(addr \<rightharpoonup> sin_pkt) \<Rightarrow> addr \<Rightarrow> bufs \<Rightarrow> bufs" where
  "reply_mem \<equiv> rewrite_mem req2rpl_buf"

lemma req2rpl_buf_total: "42 \<le> length b \<Longrightarrow> \<exists>b'. req2rpl_buf b = Some b' \<and> length b' = length b"
proof -
  assume "42 \<le> length b"
  then obtain c where "req2rpl_buf b = Some (icmp_reply c b)"
    using req2rpl_buf_spec [of b] by auto
  then show ?thesis by simp
qed

lemma req2rpl_works:
  assumes "frame_ok s x"
  shows "sin_ip4_icmp_req2rpl x s = Some (s\<lparr>mem := reply_mem (pkts s) x (mem s)\<rparr>)"
proof -
  from assms obtain k b where "pkts s x = Some k" "mem s (p_buf k) = Some b" "42 \<le> length b"
    by (rule frame_okE)
  then show ?thesis
    using req2rpl_buf_total [of b] by (auto simp: sin_ip4_icmp_req2rpl_def rewrite_mem_def)
qed

interpretation icmp: packet_rewriter req2rpl_buf icmp_proc_loop
proof unfold_locales
  show "42 \<le> length b \<Longrightarrow> \<exists>b'. req2rpl_buf b = Some b' \<and> length b' = length b" for b
    by (rule req2rpl_buf_total)
  show "icmp_proc_loop NULL s = Some s" for s :: "'a pstore_scheme"
    by (simp add: icmp_proc_loop.simps)
  show "icmp_proc_loop (Some x) s = icmp_proc_loop n (s\<lparr>mem := reply_mem (pkts s) x (mem s)\<rparr>)"
    if "frame_ok s x" "links s x = Some n" for s :: "'a pstore_scheme" and x n
    using that req2rpl_works [of s x]
    by (simp add: icmp_proc_loop.simps [of "Some x"] SIN_ITER_NEXT_def)
qed

lemma icmp_proc_consumer: "consumer q (\<lambda>P. fold (reply_mem P)) (\<lambda>l. sin_ip4_icmp_proc l q)"
  using icmp.dlv.consumer_axioms [of q] by (simp add: sin_ip4_icmp_proc_def [abs_def])

subsection \<open>Properties\<close>

text \<open>
  C38. The taste functions accept exactly the frames of at least 50 bytes with EtherType 0x0800,
  IP version 4, protocol 1 and ICMP type 8 (request) or 0 (reply), and read nothing
  outside a buffer that holds the frame.
\<close>

theorem icmp_taste_correct:
  assumes "pkts s pkt = Some pk" and "mem s (p_buf pk) = Some p" and "unat (p_len pk) \<le> length p"
  shows "sin_ip4_icmp_taste pkt s = Some (of_bool (50 \<le> unat (p_len pk) \<and> icmp_frame 8 p)) \<and>
    sin_ip4_icmp_repl_taste pkt s = Some (of_bool (50 \<le> unat (p_len pk) \<and> icmp_frame 0 p))"
  using icmp_taste_spec [OF assms] by blast

lemma ex_frame_request: "icmp_frame 8 ex_frame" "\<not> icmp_frame 0 ex_frame"
  by (simp_all add: icmp_frame_def ex_frame_def nth_list_update drop_bit_eq_div)

theorem icmp_taste_correct_witness:
  "sin_ip4_icmp_taste 21 ex_store = Some 1 \<and> sin_ip4_icmp_repl_taste 21 ex_store = Some 0"
  using icmp_taste_correct [OF ex_store_facts(1), of ex_frame]
  by (simp add: ex_store_facts ex_frame_request)

text \<open>
  C33. \<open>sin_ip4_icmp_proc\<close> turns every request of its list into a reply, in place, and appends
  the list in order to the output queue. The reply has the Ethernet and IP addresses
  exchanged, type 0, the checksums the code computes, and otherwise the bytes of the
  request; buffers of other packets do not change.
\<close>

theorem icmp_proc_correct:
  assumes q: "q_repr s q xs" and l: "lst_repr (links s) l ys" "ys \<noteq> []"
    and dis: "set xs \<inter> set ys = {}" "length xs + length ys < 2 ^ 32"
    and ok: "\<forall>y \<in> set ys. frame_ok s y"
    and bufs: "\<forall>x \<in> set ys. \<forall>y \<in> set ys. x \<noteq> y \<longrightarrow>
      map_option p_buf (pkts s x) \<noteq> map_option p_buf (pkts s y)"
  shows "\<exists>s'. sin_ip4_icmp_proc l q s = Some s' \<and> q_repr s' q (xs @ ys) \<and> pkts s' = pkts s \<and>
    (\<forall>y \<in> set ys. \<exists>k b c. pkts s y = Some k \<and> mem s (p_buf k) = Some b \<and>
      mem s' (p_buf k) = Some (icmp_reply c b) \<and> unat c = 65535 - ones_sum (ip_hdr_sum b)) \<and>
    (\<forall>a. (\<forall>y \<in> set ys. map_option p_buf (pkts s y) \<noteq> Some a) \<longrightarrow> mem s' a = mem s a)"
proof -
  have "qs_repr s {q} (\<lambda>_. xs)" using q by (simp add: qs_repr_def)
  with consumer.deliver [OF icmp_proc_consumer [of q], of s "{q}" "\<lambda>_. xs" l ys] l dis ok
  obtain s' where s': "sin_ip4_icmp_proc l q s = Some s'" "qs_repr s' {q} ((\<lambda>_. xs)(q := xs @ ys))"
    "data_frame s s'" "mem s' = fold (reply_mem (pkts s)) ys (mem s)" by auto
  have r: "\<exists>k b c. pkts s y = Some k \<and> mem s (p_buf k) = Some b \<and>
      mem s' (p_buf k) = Some (icmp_reply c b) \<and> unat c = 65535 - ones_sum (ip_hdr_sum b)"
    if y: "y \<in> set ys" for y
  proof -
    from ok y obtain k b where k: "pkts s y = Some k" "mem s (p_buf k) = Some b" "42 \<le> length b"
      by (meson frame_okE)
    have o: "p_buf j \<noteq> p_buf k" if "x \<in> set ys" "x \<noteq> y" "pkts s x = Some j" for x j
      using bufs y that k(1) by fastforce
    have "mem s' (p_buf k) = req2rpl_buf b"
      unfolding s'(4) using y lst_reprD(4) [OF l(1)] k(1,2) o by (rule fold_rewrite_at)
    moreover obtain c where "req2rpl_buf b = Some (icmp_reply c b)"
      "unat c = 65535 - ones_sum (ip_hdr_sum b)" using req2rpl_buf_spec [of b] k(3) by auto
    ultimately show ?thesis using k by auto
  qed
  have "mem s' a = mem s a" if "\<forall>y \<in> set ys. map_option p_buf (pkts s y) \<noteq> Some a" for a
    unfolding s'(4) using that by (intro fold_rewrite_other) auto
  with s' r data_frame_simps(1) [OF s'(3)] show ?thesis by (auto dest: qs_reprD)
qed

theorem icmp_proc_correct_witness:
  "\<exists>s' c. sin_ip4_icmp_proc \<lparr>lst_head = Some 21, lst_tail = Some 21, lst_len = 1\<rparr> 51 ex_store = Some s' \<and>
     q_repr s' 51 [21] \<and> mem s' 1 = Some (icmp_reply c ex_frame)"
proof -
  have "lst_repr (links ex_store) \<lparr>lst_head = Some 21, lst_tail = Some 21, lst_len = 1\<rparr> [21]"
    "q_repr ex_store 51 []"
    by (simp_all add: lst_repr_def q_repr_def ex_defs sin_wi_queue_zero_def)
  moreover have "frame_ok ex_store 21" by (simp add: frame_ok_def ex_store_facts)
  ultimately show ?thesis
    using icmp_proc_correct [of ex_store 51 "[]" "\<lparr>lst_head = Some 21, lst_tail = Some 21, lst_len = 1\<rparr>" "[21]"]
    by (auto simp: ex_store_facts)
qed

text \<open>
  C36. The IP checksum of a reply. \<open>sin_ip4_icmp_req2rpl\<close> computes it with the request's
  checksum still in the header: for every request with a valid header the field of the
  reply becomes zero, and the reply is then valid only if the request's own field was a
  one's-complement zero. \<open>sin_ip4_udp_mirror\<close> zeroes the field first.
\<close>

theorem icmp_reply_ip_checksum:
  assumes "38 \<le> length p" and "ones_sum (ip_hdr_sum p) = 65535" and "req2rpl_buf p = Some p'"
  shows "p' ! 24 = 0 \<and> p' ! 25 = 0 \<and> (ones_sum (ip_hdr_sum p') = 65535 \<longleftrightarrow>
      unat (le16 (p ! 24) (p ! 25)) mod 65535 = 0 \<and>
      unat (le16 (p ! 24) (p ! 25)) \<noteq> ip_hdr_sum p)"
  using reply_ip_sum_zero [OF assms] by blast

text \<open>A header with checksum 0xbaff in network order: valid, but the reply's is not.\<close>

definition ex_ip_frame :: "u8 list" where
  "ex_ip_frame = (replicate 40 0)[14 := 0x45, 24 := 0xba, 25 := 0xff]"

theorem icmp_reply_ip_checksum_witness:
  "\<exists>p'. req2rpl_buf ex_ip_frame = Some p' \<and> ones_sum (ip_hdr_sum ex_ip_frame) = 65535 \<and>
     ones_sum (ip_hdr_sum p') \<noteq> 65535"
proof -
  have l: "38 \<le> length ex_ip_frame" by (simp add: ex_ip_frame_def)
  have v: "ones_sum (ip_hdr_sum ex_ip_frame) = 65535"
    by (simp add: ip_hdr_sum_eq ex_ip_frame_def lessThan_10 nth_list_update ones_sum_def)
  from req2rpl_buf_spec [OF l] obtain p' where "req2rpl_buf ex_ip_frame = Some p'" by metis
  with icmp_reply_ip_checksum [OF l v this] v show ?thesis
    by (auto simp: ex_ip_frame_def nth_list_update unat_le16)
qed

text \<open>
  C37. The ICMP checksum of a reply. Adding 8 to the checksum of a valid request gives a valid
  reply exactly if the addition does not wrap; a stored checksum of 0xfff8 or more (in the
  byte order of the host) is updated without the end-around carry and comes out wrong.
\<close>

theorem icmp_reply_checksum:
  assumes "38 \<le> n" and "n \<le> length p" and "p ! 34 = 8" and "cksum_valid (icmp_msg n p)"
    and "req2rpl_buf p = Some p'"
  shows "cksum_valid (icmp_msg n p') \<longleftrightarrow> unat (le16 (p ! 36) (p ! 37)) < 65528"
  by (rule reply_icmp_sum [OF assms])

text \<open>Two echo requests: one whose checksum stays right, one whose checksum wraps.\<close>

definition ex_echo :: "u8 \<Rightarrow> u8 \<Rightarrow> u8 \<Rightarrow> u8 list" where
  "ex_echo k x y = (replicate 40 0)[34 := 8, 36 := k, 37 := 0xff, 38 := x, 39 := y]"

lemma replicate_2: "replicate 2 x = [x, x]"
  by (simp add: numeral_2_eq_2)

lemma ex_echo_sum:
  "word_sum (icmp_msg 40 (ex_echo k x y)) = 8 + unat (le16 k 0xff) + unat x + 256 * unat y"
  using icmp_msg_sum [of 40 "ex_echo k x y"]
  by (simp add: ex_echo_def nth_list_update drop_update_swap replicate_2)

theorem icmp_reply_checksum_witness:
  "(\<exists>p'. req2rpl_buf (ex_echo 0xf7 0 0) = Some p' \<and> cksum_valid (icmp_msg 40 p')) \<and>
   (\<exists>p'. req2rpl_buf (ex_echo 0xf8 0xfe 0xff) = Some p' \<and> \<not> cksum_valid (icmp_msg 40 p'))"
proof -
  have v: "cksum_valid (icmp_msg 40 (ex_echo 0xf7 0 0))" "cksum_valid (icmp_msg 40 (ex_echo 0xf8 0xfe 0xff))"
    by (simp_all add: cksum_valid_def ex_echo_sum unat_le16 ones_sum_def)
  have e: "40 \<le> length (ex_echo k x y)" "38 \<le> length (ex_echo k x y)" "ex_echo k x y ! 34 = 8"
    "ex_echo k x y ! 36 = k" "ex_echo k x y ! 37 = 0xff" for k x y
    by (simp_all add: ex_echo_def nth_list_update)
  obtain p q where "req2rpl_buf (ex_echo 0xf7 0 0) = Some p" "req2rpl_buf (ex_echo 0xf8 0xfe 0xff) = Some q"
    using req2rpl_buf_spec [OF e(2)] by metis
  with icmp_reply_checksum [OF _ e(1,3) v(1)] icmp_reply_checksum [OF _ e(1,3) v(2)]
  show ?thesis by (simp add: e unat_le16)
qed

end
