(* ===== verification/Sin_Pkt_Sorter.thy ===== *)
theory Sin_Pkt_Sorter
  imports Sin_Ip4_Icmp Sin_Pkt_Zone
begin

text \<open>
  The packet sorter of \<open>sin_pkt_sorter.c\<close>: a chain of entries, each with a function that
  recognises its packets and a function that consumes a list of them. The chain reachable
  from \<open>first\<close> through \<open>sin_next\<close> is kept as the list of its entries in chain order; nobody
  but the sorter holds a pointer into it. The function pointers are HOL functions on the
  store, the first argument of a callback being the packet or the list, the second its
  \<open>void *\<close> argument.
\<close>

text \<open>The \<open>void *\<close> argument of a callback: the bare output queue, or the \<open>struct ps_arg\<close>.\<close>

datatype cb_arg = Outq addr | Ps_arg addr addr

record 's ps_entry =
  e_addr :: addr
  e_type :: u32
  pkt_taste :: "addr \<Rightarrow> cb_arg \<Rightarrow> 's \<Rightarrow> int option"
  pkt_consume :: "sin_list \<Rightarrow> cb_arg \<Rightarrow> 's \<Rightarrow> 's option"
  e_outq :: addr
  e_ap :: ptr
  e_wrklist :: sin_list

record 's sin_pkt_sorter =
  so_addr :: addr
  so_type :: u32
  so_first :: "'s ps_entry list"
  pkt_consume_default :: "sin_list \<Rightarrow> cb_arg \<Rightarrow> 's \<Rightarrow> 's option"
  so_outq :: addr
  so_ap :: ptr
  so_wrklist :: sin_list

definition arg_of :: "addr \<Rightarrow> ptr \<Rightarrow> cb_arg" where
  "arg_of outq ap = (case ap of None \<Rightarrow> Outq outq | Some a \<Rightarrow> Ps_arg outq a)"

definition e_arg :: "'s ps_entry \<Rightarrow> cb_arg" where
  "e_arg e = arg_of (e_outq e) (e_ap e)"

definition so_arg :: "'s sin_pkt_sorter \<Rightarrow> cb_arg" where
  "so_arg so = arg_of (so_outq so) (so_ap so)"

subsection \<open>Construction, registration, destruction\<close>

definition sin_pkt_sorter_ctor :: "addr \<Rightarrow> (sin_list \<Rightarrow> cb_arg \<Rightarrow> 's \<Rightarrow> 's option) \<Rightarrow> ptr \<Rightarrow>
    errno option \<Rightarrow> 'a os_scheme \<Rightarrow> 's sin_pkt_sorter option \<times> errno option \<times> 'a os_scheme" where
  "sin_pkt_sorter_ctor outq consume_default ap e s = (case malloc s of
     (None, s) \<Rightarrow> (None, SET_ERR e ENOMEM, s)
   | (Some inst, s) \<Rightarrow> (Some \<lparr>so_addr = inst, so_type = SIN_TYPE_PKT_SORTER, so_first = [],
       pkt_consume_default = consume_default, so_outq = outq, so_ap = ap,
       so_wrklist = SIN_LIST_RESET\<rparr>, e, s))"

text \<open>
  Registration sets the type tag of the sorter (\<open>SIN_TYPE_SET(inst, _SIN_TYPE_ITERABLE)\<close>)
  and leaves that of the new entry zero.
\<close>

definition sin_pkt_sorter_reg :: "'s sin_pkt_sorter \<Rightarrow> addr \<Rightarrow>
    (addr \<Rightarrow> cb_arg \<Rightarrow> 's \<Rightarrow> int option) \<Rightarrow> (sin_list \<Rightarrow> cb_arg \<Rightarrow> 's \<Rightarrow> 's option) \<Rightarrow> ptr \<Rightarrow>
    errno option \<Rightarrow> 'a os_scheme \<Rightarrow> int \<times> 's sin_pkt_sorter \<times> errno option \<times> 'a os_scheme" where
  "sin_pkt_sorter_reg inst outq taste consume ap e s = (case malloc s of
     (None, s) \<Rightarrow> (-1, inst, SET_ERR e ENOMEM, s)
   | (Some ent, s) \<Rightarrow>
     (let inst = inst\<lparr>so_type := SIN_TYPE_ITERABLE\<rparr>;
          e' = \<lparr>e_addr = ent, e_type = 0, pkt_taste = taste, pkt_consume = consume,
            e_outq = outq, e_ap = ap, e_wrklist = SIN_LIST_RESET\<rparr>
      in (0, inst\<lparr>so_first := e' # so_first inst\<rparr>, e, s)))"

primrec free_entries :: "'s ps_entry list \<Rightarrow> 'a os_scheme \<Rightarrow> 'a os_scheme option" where
  "free_entries [] s = Some s"
| "free_entries (x # xs) s = do { s \<leftarrow> free (e_addr x) s; free_entries xs s }"

definition sin_pkt_sorter_dtor :: "'s sin_pkt_sorter \<Rightarrow> 'a os_scheme \<Rightarrow> 'a os_scheme option" where
  "sin_pkt_sorter_dtor so s = do {
     s \<leftarrow> free_entries (so_first so) s;
     free (so_addr so) s
   }"

subsection \<open>Sorting\<close>

text \<open>The inner loop over the entries: the position of the first that takes the packet.\<close>

primrec taste_loop :: "'s ps_entry list \<Rightarrow> addr \<Rightarrow> 's \<Rightarrow> nat option option" where
  "taste_loop [] pkt s = Some None"
| "taste_loop (x # xs) pkt s = do {
     r \<leftarrow> pkt_taste x pkt (e_arg x) s;
     if r \<noteq> 0 then Some (Some 0)
     else map_option (map_option Suc) (taste_loop xs pkt s)
   }"

partial_function (option) sort_loop :: "('a lnk_scheme) sin_pkt_sorter \<Rightarrow> ptr \<Rightarrow> 'a lnk_scheme \<Rightarrow>
    (('a lnk_scheme) sin_pkt_sorter \<times> 'a lnk_scheme) option" where
  "sort_loop so p s = (case p of None \<Rightarrow> Some (so, s)
     | Some pkt \<Rightarrow> do {
         k \<leftarrow> taste_loop (so_first so) pkt s;
         pkt_next \<leftarrow> SIN_ITER_NEXT pkt s;
         s \<leftarrow> SIN_TYPE_LINK pkt NULL s;
         (case k of
            Some i \<Rightarrow> do {
              (l, s) \<leftarrow> sin_list_append (e_wrklist (so_first so ! i)) pkt s;
              sort_loop (so\<lparr>so_first := (so_first so)
                [i := (so_first so ! i)\<lparr>e_wrklist := l\<rparr>]\<rparr>) pkt_next s
            }
          | None \<Rightarrow> do {
              (l, s) \<leftarrow> sin_list_append (so_wrklist so) pkt s;
              sort_loop (so\<lparr>so_wrklist := l\<rparr>) pkt_next s
            })
       })"

text \<open>The second loop: each entry with work consumes it, and its list is reset.\<close>

primrec consume_loop :: "'s ps_entry list \<Rightarrow> 's \<Rightarrow> ('s ps_entry list \<times> 's) option" where
  "consume_loop [] s = Some ([], s)"
| "consume_loop (x # xs) s = do {
     (x, s) \<leftarrow> (if \<not> SIN_LIST_IS_EMPTY (e_wrklist x) then do {
         s \<leftarrow> pkt_consume x (e_wrklist x) (e_arg x) s;
         Some (x\<lparr>e_wrklist := SIN_LIST_RESET\<rparr>, s)
       } else Some (x, s));
     (xs, s) \<leftarrow> consume_loop xs s;
     Some (x # xs, s)
   }"

definition sin_pkt_sorter_proc :: "('a lnk_scheme) sin_pkt_sorter \<Rightarrow> sin_list \<Rightarrow> 'a lnk_scheme \<Rightarrow>
    (('a lnk_scheme) sin_pkt_sorter \<times> 'a lnk_scheme) option" where
  "sin_pkt_sorter_proc so pl s = do {
     (so, s) \<leftarrow> sort_loop so (lst_head pl) s;
     (es, s) \<leftarrow> consume_loop (so_first so) s;
     let so = so\<lparr>so_first := es\<rparr>;
     if \<not> SIN_LIST_IS_EMPTY (so_wrklist so) then do {
       s \<leftarrow> pkt_consume_default so (so_wrklist so) (so_arg so) s;
       Some (so\<lparr>so_wrklist := SIN_LIST_RESET\<rparr>, s)
     } else Some (so, s)
   }"

subsection \<open>Work lists\<close>

text \<open>
  The work lists of a sorter with \<open>n\<close> entries are numbered 0 to \<open>n\<close>, the last being the
  default list. \<open>strip\<close> empties them all; the loops change nothing else.
\<close>

definition no_work :: "'s ps_entry \<Rightarrow> 's ps_entry" where
  "no_work x = x\<lparr>e_wrklist := SIN_LIST_RESET\<rparr>"

definition strip :: "'s sin_pkt_sorter \<Rightarrow> 's sin_pkt_sorter" where
  "strip so = so\<lparr>so_first := map no_work (so_first so), so_wrklist := SIN_LIST_RESET\<rparr>"

definition wl :: "'s sin_pkt_sorter \<Rightarrow> nat \<Rightarrow> sin_list" where
  "wl so i = (if i < length (so_first so) then e_wrklist (so_first so ! i) else so_wrklist so)"

definition cls :: "'s sin_pkt_sorter \<Rightarrow> 's \<Rightarrow> addr \<Rightarrow> nat" where
  "cls so s p = (case taste_loop (so_first so) p s of
     Some (Some i) \<Rightarrow> i | _ \<Rightarrow> length (so_first so))"

definition link_blind :: "('a lnk_scheme) ps_entry \<Rightarrow> bool" where
  "link_blind x \<longleftrightarrow> (\<forall>p s h. pkt_taste x p (e_arg x) (s\<lparr>links := h\<rparr>) = pkt_taste x p (e_arg x) s)"

text \<open>All the work lists at once: list \<open>i\<close> represents \<open>W i\<close>, and no packet is on two of them.\<close>

definition wls_repr :: "(addr \<rightharpoonup> ptr) \<Rightarrow> 's sin_pkt_sorter \<Rightarrow> (nat \<Rightarrow> addr list) \<Rightarrow> bool" where
  "wls_repr h so W \<longleftrightarrow> (\<forall>i \<le> length (so_first so). lst_repr h (wl so i) (W i)) \<and>
     (\<forall>i \<le> length (so_first so). \<forall>j \<le> length (so_first so).
        i \<noteq> j \<longrightarrow> set (W i) \<inter> set (W j) = {})"

lemma no_work_simps [simp]:
  "e_arg (no_work x) = e_arg x" "pkt_taste (no_work x) = pkt_taste x"
  "pkt_consume (no_work x) = pkt_consume x" "e_wrklist (no_work x) = SIN_LIST_RESET"
  "no_work (x\<lparr>e_wrklist := l\<rparr>) = no_work x" "e_arg (x\<lparr>e_wrklist := l\<rparr>) = e_arg x"
  "no_work (no_work x) = no_work x"
  by (simp_all add: no_work_def e_arg_def)

lemma strip_simps [simp]:
  "so_first (strip so) = map no_work (so_first so)" "so_arg (strip so) = so_arg so"
  "pkt_consume_default (strip so) = pkt_consume_default so"
  "so_wrklist (strip so) = SIN_LIST_RESET"
  "strip (so\<lparr>so_wrklist := l\<rparr>) = strip so"
  by (simp_all add: strip_def so_arg_def)

lemma strip_upd_entry [simp]:
  "strip (so\<lparr>so_first := (so_first so)[i := (so_first so ! i)\<lparr>e_wrklist := l\<rparr>]\<rparr>) = strip so"
proof -
  have "(map no_work (so_first so))[i := no_work (so_first so ! i)] = map no_work (so_first so)"
    by (cases "i < length (so_first so)") (simp_all add: list_update_same_conv list_update_beyond)
  then show ?thesis by (simp add: strip_def map_update)
qed

lemma taste_loop_no_work: "taste_loop (map no_work xs) p s = taste_loop xs p s"
  by (induction xs) (simp_all cong: if_cong)

lemma taste_loop_strip: "strip so' = strip so \<Longrightarrow>
    taste_loop (so_first so') p s = taste_loop (so_first so) p s"
  using taste_loop_no_work [of "so_first so"] taste_loop_no_work [of "so_first so'"]
  by (metis strip_simps(1))

lemma length_strip: "strip so' = strip so \<Longrightarrow> length (so_first so') = length (so_first so)"
  by (metis length_map strip_simps(1))

lemma taste_loop_links:
  "\<forall>x \<in> set xs. link_blind x \<Longrightarrow> taste_loop xs p (s\<lparr>links := h\<rparr>) = taste_loop xs p s"
  by (induction xs) (simp_all add: link_blind_def cong: if_cong)

lemma taste_loop_index: "taste_loop xs p s = Some (Some i) \<Longrightarrow> i < length xs"
  by (induction xs arbitrary: i)
    (auto split: if_splits simp: Option.bind_eq_Some_conv map_option_case split: option.splits)

text \<open>
  What the number found by \<open>taste_loop\<close> means: that entry takes the packet and no earlier one
  does.
\<close>

lemma taste_loop_first:
  assumes "taste_loop xs p s = Some (Some i)"
  shows "\<exists>r. pkt_taste (xs ! i) p (e_arg (xs ! i)) s = Some r \<and> r \<noteq> 0"
    and "\<forall>j < i. pkt_taste (xs ! j) p (e_arg (xs ! j)) s = Some 0"
  using assms
proof (induction xs arbitrary: i)
  case (Cons x xs)
  {
    case 1
    then show ?case using Cons.IH(1)
      by (auto split: if_splits simp: Option.bind_eq_Some_conv)
  next
    case 2
    then show ?case using Cons.IH(2)
      by (auto split: if_splits simp: Option.bind_eq_Some_conv nth_Cons split: nat.splits)
  }
qed simp_all

lemma taste_loop_none:
  "taste_loop xs p s = Some None \<longleftrightarrow> (\<forall>x \<in> set xs. pkt_taste x p (e_arg x) s = Some 0)"
  by (induction xs) (auto simp: Option.bind_eq_Some_conv)

subsection \<open>The sorting loop distributes the packets\<close>

definition set_wl :: "'s sin_pkt_sorter \<Rightarrow> nat \<Rightarrow> sin_list \<Rightarrow> 's sin_pkt_sorter" where
  "set_wl so j l = (if j < length (so_first so)
     then so\<lparr>so_first := (so_first so)[j := (so_first so ! j)\<lparr>e_wrklist := l\<rparr>]\<rparr>
     else so\<lparr>so_wrklist := l\<rparr>)"

lemma strip_set_wl [simp]: "strip (set_wl so j l) = strip so"
  by (simp add: set_wl_def)

lemma length_set_wl [simp]: "length (so_first (set_wl so j l)) = length (so_first so)"
  by (simp add: set_wl_def)

lemma wl_set_wl:
  "i \<le> length (so_first so) \<Longrightarrow> j \<le> length (so_first so) \<Longrightarrow>
    wl (set_wl so j l) i = (if i = j then l else wl so i)"
  by (auto simp: wl_def set_wl_def nth_list_update)

lemma wls_repr_append:
  assumes W: "wls_repr h so W" and j: "j \<le> length (so_first so)" and n: "h p = Some n"
    and new: "\<forall>i \<le> length (so_first so). p \<notin> set (W i)" and b: "Suc (length (W j)) < 2 ^ 32"
  defines "h' \<equiv> app_links (h(p \<mapsto> NULL)) (W j) (Some p)"
  shows "\<exists>l. sin_list_append (wl so j) p (s\<lparr>links := h(p \<mapsto> NULL)\<rparr>) = Some (l, s\<lparr>links := h'\<rparr>)
    \<and> wls_repr h' (set_wl so j l) (W(j := W j @ [p]))"
proof -
  let ?h = "h(p \<mapsto> NULL)" and ?N = "length (so_first so)"
  have wj: "lst_repr ?h (wl so j) (W j)" and pj: "p \<notin> set (W j)"
    using W j new by (simp_all add: wls_repr_def)
  obtain l where l: "sin_list_append (wl so j) p (s\<lparr>links := ?h\<rparr>) = Some (l, s\<lparr>links := h'\<rparr>)"
    "lst_repr h' l (W j @ [p])"
    using sin_list_append_repr [of "s\<lparr>links := ?h\<rparr>" "wl so j" "W j" p] wj pj b
    by (auto simp: h'_def)
  have other: "lst_repr h' (wl so i) (W i)" if i: "i \<le> ?N" "i \<noteq> j" for i
  proof -
    have "set (W i) \<inter> set (W j) = {}" using W i j unfolding wls_repr_def by blast
    then have "x \<noteq> p" "x \<notin> set (W j)" if "x \<in> set (W i)" for x
      using that i new by auto
    then have "h' x = h x" if "x \<in> set (W i)" for x
      using that app_links_other [of x "W j" ?h "Some p"] by (auto simp: h'_def)
    then show ?thesis using i W lst_repr_cong [of "W i" h' h] by (simp add: wls_repr_def)
  qed
  have "wls_repr h' (set_wl so j l) (W(j := W j @ [p]))"
    using l(2) other W j new by (auto simp: wls_repr_def wl_set_wl)
  with l(1) show ?thesis by blast
qed

lemma link_blind_strip:
  assumes "strip so' = strip so"
  shows "(\<forall>y \<in> set (so_first so'). link_blind y) \<longleftrightarrow> (\<forall>y \<in> set (so_first so). link_blind y)"
proof -
  have "(\<forall>y \<in> set xs. link_blind y) \<longleftrightarrow> (\<forall>y \<in> set (map no_work xs). link_blind y)" for xs
    by (simp add: link_blind_def)
  moreover have "map no_work (so_first so') = map no_work (so_first so)"
    using strip_simps(1) [of so'] strip_simps(1) [of so] assms by simp
  ultimately show ?thesis by metis
qed

lemma sort_loop_step:
  assumes "taste_loop (so_first so) p s = Some k" and "links s p = Some n"
    and "sin_list_append (wl so j) p (s\<lparr>links := (links s)(p \<mapsto> NULL)\<rparr>) = Some (l, s')"
    and "j = (case k of Some i \<Rightarrow> i | None \<Rightarrow> length (so_first so))"
  shows "sort_loop so (Some p) s = sort_loop (set_wl so j l) n s'"
  using assms taste_loop_index [of "so_first so" p s j]
  by (auto simp: sort_loop.simps [of so "Some p"] SIN_ITER_NEXT_def SIN_TYPE_LINK_def
      wl_def set_wl_def split: option.splits)

lemma sort_loop_works:
  assumes "chain h p xs NULL" and "wls_repr h so W"
    and "\<forall>i \<le> length (so_first so). set (W i) \<inter> set xs = {}"
    and "\<forall>x \<in> set (so_first so). link_blind x"
    and "\<forall>q \<in> set xs. taste_loop (so_first so) q s \<noteq> None"
    and "\<forall>i \<le> length (so_first so). length (W i) + length xs < 2 ^ 32"
  shows "\<exists>so' h'. sort_loop so p (s\<lparr>links := h\<rparr>) = Some (so', s\<lparr>links := h'\<rparr>) \<and>
    strip so' = strip so \<and> wls_repr h' so' (\<lambda>i. W i @ filter (\<lambda>q. cls so s q = i) xs) \<and>
    (\<forall>a. a \<notin> set xs \<longrightarrow> (\<forall>i \<le> length (so_first so). a \<notin> set (W i)) \<longrightarrow> h' a = h a)"
  using assms
proof (induction xs arbitrary: p h so W)
  case Nil
  then show ?case by (auto simp: sort_loop.simps)
next
  case (Cons x xs)
  let ?N = "length (so_first so)"
  from Cons.prems(1) obtain n where n: "p = Some x" "h x = Some n" "chain h n xs NULL" by auto
  have x: "x \<notin> set xs" using chain_distinct [OF Cons.prems(1)] by simp
  obtain k where k: "taste_loop (so_first so) x s = Some k" using Cons.prems(5) by auto
  define j where "j = cls so s x"
  have j: "j = (case k of Some i \<Rightarrow> i | None \<Rightarrow> ?N)" and jN: "j \<le> ?N"
    using k taste_loop_index [of "so_first so" x s]
    by (auto simp: j_def cls_def split: option.splits dest: less_imp_le)
  have "length (W j) + length (x # xs) < 2 ^ 32" using Cons.prems(6) jN by blast
  then have room: "Suc (length (W j)) < 2 ^ 32" by simp
  define h1 where "h1 = app_links (h(x \<mapsto> NULL)) (W j) (Some x)"
  define W1 where "W1 = W(j := W j @ [x])"
  obtain l where l: "sin_list_append (wl so j) x (s\<lparr>links := h(x \<mapsto> NULL)\<rparr>)
      = Some (l, s\<lparr>links := h1\<rparr>)" "wls_repr h1 (set_wl so j l) W1"
    using wls_repr_append [OF Cons.prems(2) jN n(2), of s] Cons.prems(3) room
    by (auto simp: h1_def W1_def)
  define so1 where "so1 = set_wl so j l"
  have st: "strip so1 = strip so" by (simp add: so1_def)
  note len = length_strip [OF st] and ta = taste_loop_strip [OF st]
  have step: "sort_loop so p (s\<lparr>links := h\<rparr>) = sort_loop so1 n (s\<lparr>links := h1\<rparr>)"
    using sort_loop_step [of so x "s\<lparr>links := h\<rparr>" k n j l] n(1,2) k j l(1) Cons.prems(4)
    by (simp add: taste_loop_links so1_def)
  have frame: "h1 a = h a" if "a \<noteq> x" "a \<notin> set (W j)" for a
    using that app_links_other [of a "W j"] by (simp add: h1_def)
  have c1: "chain h1 n xs NULL"
  proof -
    have "h1 a = h a" if "a \<in> set xs" for a
      using that x Cons.prems(3) jN by (intro frame) auto
    then show ?thesis using n(3) chain_cong [of xs h1 h] by simp
  qed
  have c2: "wls_repr h1 so1 W1" using l(2) by (simp add: so1_def)
  have c3: "\<forall>q \<in> set xs. taste_loop (so_first so1) q s \<noteq> None"
    using Cons.prems(5) by (simp add: ta)
  have c4: "\<forall>i \<le> length (so_first so1). set (W1 i) \<inter> set xs = {}"
    using Cons.prems(3) x len by (auto simp: W1_def)
  have c5: "\<forall>y \<in> set (so_first so1). link_blind y"
    using link_blind_strip [OF st] Cons.prems(4) by blast
  have c6: "\<forall>i \<le> length (so_first so1). length (W1 i) + length xs < 2 ^ 32"
    using Cons.prems(6) len by (auto simp: W1_def)
  from Cons.IH [OF c1 c2 c4 c5 c3 c6]
  obtain so' h' where IH: "sort_loop so1 n (s\<lparr>links := h1\<rparr>) = Some (so', s\<lparr>links := h'\<rparr>)"
      "strip so' = strip so1" "wls_repr h' so' (\<lambda>i. W1 i @ filter (\<lambda>q. cls so1 s q = i) xs)"
      "\<forall>a. a \<notin> set xs \<longrightarrow> (\<forall>i \<le> length (so_first so1). a \<notin> set (W1 i)) \<longrightarrow> h' a = h1 a"
    by (elim exE conjE)
  have cls: "cls so1 s q = cls so s q" for q by (simp only: cls_def ta len)
  have "(\<lambda>i. W1 i @ filter (\<lambda>q. cls so1 s q = i) xs)
      = (\<lambda>i. W i @ filter (\<lambda>q. cls so s q = i) (x # xs))"
    by (auto simp: W1_def cls j_def)
  with IH(3) have "wls_repr h' so' (\<lambda>i. W i @ filter (\<lambda>q. cls so s q = i) (x # xs))" by simp
  moreover have "h' a = h a"
    if a: "a \<notin> set (x # xs)" "\<forall>i \<le> ?N. a \<notin> set (W i)" for a
    using IH(4) frame [of a] a len jN by (auto simp: W1_def)
  ultimately show ?case using step IH(1,2) st by auto
qed

subsection \<open>Properties\<close>

text \<open>
  First match. When \<open>sin_pkt_sorter_proc\<close> looks for the entry of a packet, the number it
  settles on is that of the first entry, in chain order, whose taste function returns
  non-zero, and it falls back to the default exactly if all return zero.
\<close>

theorem sorter_first_match:
  assumes "taste_loop (so_first so) p s \<noteq> None"
  shows "(cls so s p < length (so_first so) \<longrightarrow>
      (\<exists>r. r \<noteq> 0 \<and> pkt_taste (so_first so ! cls so s p) p (e_arg (so_first so ! cls so s p)) s = Some r) \<and>
      (\<forall>j < cls so s p. pkt_taste (so_first so ! j) p (e_arg (so_first so ! j)) s = Some 0)) \<and>
    (cls so s p = length (so_first so) \<longleftrightarrow>
      (\<forall>x \<in> set (so_first so). pkt_taste x p (e_arg x) s = Some 0))"
proof -
  from assms obtain k where k: "taste_loop (so_first so) p s = Some k" by auto
  show ?thesis
  proof (cases k)
    case None
    with k show ?thesis using taste_loop_none [of "so_first so" p s] by (simp add: cls_def)
  next
    case (Some i)
    then have i: "taste_loop (so_first so) p s = Some (Some i)" "cls so s p = i"
      using k by (simp_all add: cls_def)
    then have "i < length (so_first so)" by (simp add: taste_loop_index)
    with i taste_loop_first [OF i(1)] show ?thesis using taste_loop_none [of "so_first so" p s] by auto
  qed
qed

theorem sorter_first_match_witness:
  "cls \<lparr>so_addr = 5, so_type = 0, so_first = [
       \<lparr>e_addr = 6, e_type = 0, pkt_taste = (\<lambda>p _ s. Some (of_bool (p = 8))), pkt_consume = (\<lambda>_ _ _. None),
         e_outq = 51, e_ap = None, e_wrklist = SIN_LIST_RESET\<rparr>],
     pkt_consume_default = (\<lambda>_ _ _. None), so_outq = 52, so_ap = None, so_wrklist = SIN_LIST_RESET\<rparr> () 9 = 1"
proof -
  let ?e = "\<lparr>e_addr = 6, e_type = 0, pkt_taste = (\<lambda>p _ s. Some (of_bool (p = 8))), pkt_consume = (\<lambda>_ _ _. None),
         e_outq = 51, e_ap = None, e_wrklist = SIN_LIST_RESET\<rparr> :: unit ps_entry"
  let ?so = "\<lparr>so_addr = 5, so_type = 0, so_first = [?e], pkt_consume_default = (\<lambda>_ _ _. None), so_outq = 52,
     so_ap = None, so_wrklist = SIN_LIST_RESET\<rparr> :: unit sin_pkt_sorter"
  have "taste_loop (so_first ?so) 9 () \<noteq> None" by simp
  from conjunct2 [OF sorter_first_match [OF this]] show ?thesis by simp
qed

text \<open>
  C29. Registration and destruction. \<open>sin_pkt_sorter_reg\<close> puts a new entry with an empty work
  list in front of the chain and returns 0, or returns -1 with \<open>ENOMEM\<close> and leaves the
  sorter alone. The tag \<open>ITERABLE\<close> meant for the entry lands on the sorter, which loses its
  own tag, while the entry's stays zero.
\<close>

theorem sorter_reg_correct:
  "sin_pkt_sorter_reg inst outq taste consume ap e s = (ret, inst', e', s') \<Longrightarrow>
   (ret = 0 \<and> e' = e \<and> so_type inst' = SIN_TYPE_ITERABLE \<and> so_type inst' \<noteq> SIN_TYPE_PKT_SORTER \<and>
     (\<exists>x. so_first inst' = x # so_first inst \<and> e_type x = 0 \<and> pkt_taste x = taste \<and>
        pkt_consume x = consume \<and> e_arg x = arg_of outq ap \<and> SIN_LIST_IS_EMPTY (e_wrklist x) \<and>
        os_live s' = insert (Block (e_addr x)) (os_live s))) \<or>
   (ret = -1 \<and> inst' = inst \<and> e' = SET_ERR e ENOMEM \<and> os_live s' = os_live s)"
  by (auto simp: sin_pkt_sorter_reg_def malloc_def os_result_def e_arg_def SIN_LIST_IS_EMPTY_def
      SIN_LIST_RESET_def SIN_TYPE_ITERABLE_def SIN_TYPE_PKT_SORTER_def Let_def split: if_splits)

definition ex_sorter0 :: "pstore sin_pkt_sorter" where
  "ex_sorter0 = \<lparr>so_addr = 5, so_type = SIN_TYPE_PKT_SORTER, so_first = [],
     pkt_consume_default = (\<lambda>_ _ s. Some s), so_outq = 52, so_ap = None, so_wrklist = SIN_LIST_RESET\<rparr>"

theorem sorter_reg_correct_witness:
  "\<exists>i s'. sin_pkt_sorter_reg ex_sorter0 51 (\<lambda>_ _ _. Some 1) (\<lambda>_ _ s. Some s) NULL None ex_store
       = (0, i, None, s') \<and> so_type i = SIN_TYPE_ITERABLE \<and> length (so_first i) = 1"
proof -
  obtain ret i e' s' where r: "sin_pkt_sorter_reg ex_sorter0 51 (\<lambda>_ _ _. Some 1) (\<lambda>_ _ s. Some s) NULL None ex_store
      = (ret, i, e', s')" by (metis prod_cases4)
  moreover have "ret = 0" "e' = None"
    using r by (auto simp: sin_pkt_sorter_reg_def malloc_def os_result_def ex_store_def Let_def)
  ultimately show ?thesis using sorter_reg_correct [OF r] by (auto simp: ex_sorter0_def)
qed

lemma free_entries_works:
  assumes "distinct (map e_addr xs)" and "\<forall>x \<in> set xs. Block (e_addr x) \<in> os_live s"
  shows "free_entries xs s = Some (s\<lparr>os_live := os_live s - Block ` e_addr ` set xs\<rparr>)"
  using assms
proof (induction xs arbitrary: s)
  case (Cons x xs)
  let ?s = "s\<lparr>os_live := os_live s - {Block (e_addr x)}\<rparr>"
  have "free (e_addr x) s = Some ?s" using Cons.prems by (simp add: free_def)
  moreover have "free_entries xs ?s = Some (?s\<lparr>os_live := os_live ?s - Block ` e_addr ` set xs\<rparr>)"
    using Cons.prems by (intro Cons.IH) (auto simp: image_iff)
  ultimately show ?case by (simp add: Diff_insert2 [symmetric])
qed simp

lemma sorter_dtor_works:
  assumes "distinct (so_addr so # map e_addr (so_first so))"
    and "Block (so_addr so) \<in> os_live s" "\<forall>x \<in> set (so_first so). Block (e_addr x) \<in> os_live s"
  shows "sin_pkt_sorter_dtor so s = Some (s\<lparr>os_live := os_live s
    - (Block ` e_addr ` set (so_first so) \<union> {Block (so_addr so)})\<rparr>)"
proof -
  let ?E = "Block ` e_addr ` set (so_first so)"
  have "free_entries (so_first so) s = Some (s\<lparr>os_live := os_live s - ?E\<rparr>)"
    using assms by (intro free_entries_works) simp_all
  moreover have "Block (so_addr so) \<in> os_live s - ?E" using assms(1,2) by (auto simp: image_iff)
  moreover have "os_live s - ?E - {Block (so_addr so)} = os_live s - (?E \<union> {Block (so_addr so)})" by auto
  ultimately show ?thesis by (simp add: sin_pkt_sorter_dtor_def free_def)
qed

text \<open>Several successful registrations in a row, and the blocks a sorter owns.\<close>

primrec register_all :: "(addr \<times> (addr \<Rightarrow> cb_arg \<Rightarrow> 's \<Rightarrow> int option) \<times>
    (sin_list \<Rightarrow> cb_arg \<Rightarrow> 's \<Rightarrow> 's option) \<times> ptr) list \<Rightarrow> 's sin_pkt_sorter \<Rightarrow> 'a os_scheme \<Rightarrow>
    ('s sin_pkt_sorter \<times> 'a os_scheme) option" where
  "register_all [] so s = Some (so, s)"
| "register_all (r # rs) so s = (case r of (outq, taste, consume, ap) \<Rightarrow>
     case sin_pkt_sorter_reg so outq taste consume ap None s of
       (ret, so, _, s) \<Rightarrow> if ret = 0 then register_all rs so s else None)"

definition so_blocks :: "'s sin_pkt_sorter \<Rightarrow> resource set" where
  "so_blocks so = insert (Block (so_addr so)) (Block ` e_addr ` set (so_first so))"

definition so_owns :: "resource set \<Rightarrow> 's sin_pkt_sorter \<Rightarrow> 'a os_scheme \<Rightarrow> bool" where
  "so_owns L so s \<longleftrightarrow> os_ok s \<and> os_live s = L \<union> so_blocks so \<and> L \<inter> so_blocks so = {} \<and>
     distinct (so_addr so # map e_addr (so_first so))"

lemma reg_owns:
  assumes o: "so_owns L so s" and r: "sin_pkt_sorter_reg so q taste consume ap e s = (0, so', e', s')"
  shows "so_owns L so' s'" "length (so_first so') = Suc (length (so_first so))"
proof -
  from r obtain x where x: "so_first so' = x # so_first so" "so_addr so' = so_addr so"
    "e_addr x = os_fresh s" "os_live s' = insert (Block (os_fresh s)) (os_live s)"
    "os_fresh s' = Suc (os_fresh s)"
    by (auto simp: sin_pkt_sorter_reg_def malloc_def os_result_def Let_def split: if_splits)
  have n: "Block (os_fresh s) \<notin> os_live s" using o by (intro fresh_not_live) (simp_all add: so_owns_def)
  have "os_ok s'" using o x(4,5) by (auto simp: so_owns_def os_ok_def less_Suc_eq)
  moreover have "so_blocks so' = insert (Block (os_fresh s)) (so_blocks so)"
    using x by (auto simp: so_blocks_def)
  moreover have "os_fresh s \<notin> set (so_addr so # map e_addr (so_first so))"
    using n o by (auto simp: so_owns_def so_blocks_def)
  ultimately show "so_owns L so' s'" using o n x by (auto simp: so_owns_def)
  show "length (so_first so') = Suc (length (so_first so))" using x by simp
qed

lemma register_all_owns:
  assumes "so_owns L so s" and "register_all rs so s = Some (so', s')"
  shows "so_owns L so' s' \<and> length (so_first so') = length (so_first so) + length rs"
  using assms
proof (induction rs arbitrary: so s)
  case (Cons r rs)
  obtain q taste consume ap where r: "r = (q, taste, consume, ap)" by (cases r) auto
  from Cons.prems(2) r obtain so1 e1 s1 where
    "sin_pkt_sorter_reg so q taste consume ap None s = (0, so1, e1, s1)"
    "register_all rs so1 s1 = Some (so', s')" by (auto split: prod.splits if_splits)
  with Cons.IH reg_owns [OF Cons.prems(1)] show ?case by fastforce
qed simp

lemma owned_dtor:
  assumes "so_owns L so s"
  shows "\<exists>s'. sin_pkt_sorter_dtor so s = Some s' \<and> os_live s' = L"
  using assms sorter_dtor_works [of so s] by (auto simp: so_owns_def so_blocks_def)

text \<open>
  C30. The life of a sorter. \<open>sin_pkt_sorter_ctor\<close> gives an empty sorter or fails with
  \<open>ENOMEM\<close> and allocates nothing; after any number of successful registrations,
  \<open>sin_pkt_sorter_dtor\<close> frees every entry once and then the sorter, and the live
  resources are exactly those before the constructor.
\<close>

theorem sorter_lifecycle:
  assumes "os_ok s" and "sin_pkt_sorter_ctor outq cd ap e s = (r, e', s')"
  shows "(r = None \<and> e' = SET_ERR e ENOMEM \<and> os_live s' = os_live s) \<or>
    (\<exists>so. r = Some so \<and> e' = e \<and> so_first so = [] \<and> so_type so = SIN_TYPE_PKT_SORTER \<and>
      SIN_LIST_IS_EMPTY (so_wrklist so) \<and>
      (\<forall>so' s''. register_all regs so s' = Some (so', s'') \<longrightarrow>
        length (so_first so') = length regs \<and>
        (\<exists>s3. sin_pkt_sorter_dtor so' s'' = Some s3 \<and> os_live s3 = os_live s)))"
proof (cases "os_script s (os_clock s) = 0")
  case False
  then show ?thesis using assms(2) by (auto simp: sin_pkt_sorter_ctor_def malloc_def os_result_def Let_def)
next
  case True
  let ?so = "\<lparr>so_addr = os_fresh s, so_type = SIN_TYPE_PKT_SORTER, so_first = [],
      pkt_consume_default = cd, so_outq = outq, so_ap = ap, so_wrklist = SIN_LIST_RESET\<rparr>"
  from True assms(2) have r: "r = Some ?so" "e' = e" "os_fresh s' = Suc (os_fresh s)"
    "os_live s' = insert (Block (os_fresh s)) (os_live s)"
    by (auto simp: sin_pkt_sorter_ctor_def malloc_def os_result_def Let_def)
  have "Block (os_fresh s) \<notin> os_live s" using assms(1) by (intro fresh_not_live) simp_all
  then have "so_owns (os_live s) ?so s'"
    using assms(1) r(3,4) by (auto simp: so_owns_def so_blocks_def os_ok_def less_Suc_eq)
  from register_all_owns [OF this]
  have "\<forall>so' s''. register_all regs ?so s' = Some (so', s'') \<longrightarrow> length (so_first so') = length regs \<and>
      (\<exists>s3. sin_pkt_sorter_dtor so' s'' = Some s3 \<and> os_live s3 = os_live s)"
    using owned_dtor by fastforce
  then show ?thesis using r by (simp add: SIN_LIST_IS_EMPTY_def SIN_LIST_RESET_def)
qed

theorem sorter_lifecycle_witness:
  "\<exists>so so' s' s'' s3. sin_pkt_sorter_ctor 52 (\<lambda>_ _ s. Some s) NULL None ex_store = (Some so, None, s') \<and>
     register_all [(51, \<lambda>_ _ _. Some 1, \<lambda>_ _ s. Some s, NULL)] so s' = Some (so', s'') \<and>
     sin_pkt_sorter_dtor (so' :: pstore sin_pkt_sorter) s'' = Some s3 \<and> os_live s3 = {}"
proof -
  have ok: "os_ok ex_store" by (simp add: os_ok_def ex_store_def)
  obtain r e' s' where c: "sin_pkt_sorter_ctor 52 (\<lambda>_ _ s. Some s) NULL None ex_store
      = (r :: pstore sin_pkt_sorter option, e', s')" by (metis prod_cases3)
  then obtain so where so: "r = Some so" "e' = None" "os_script s' = (\<lambda>_. 0)"
    by (auto simp: sin_pkt_sorter_ctor_def malloc_def os_result_def ex_store_def Let_def)
  obtain so' s'' where "register_all [(51, \<lambda>_ _ _. Some 1, \<lambda>_ _ s. Some s, NULL)] so s' = Some (so', s'')"
    using so(3) by (simp add: sin_pkt_sorter_reg_def malloc_def os_result_def Let_def)
  with sorter_lifecycle [OF ok c, of "[(51, \<lambda>_ _ _. Some 1, \<lambda>_ _ s. Some s, NULL)]"] c so
  show ?thesis by (auto simp: ex_store_def)
qed

end
