(* ===== verification/Sin_Sort_Deliver.thy ===== *)
theory Sin_Sort_Deliver
  imports Sin_Pkt_Sorter Sin_Consumer
begin

text \<open>
  The whole of \<open>sin_pkt_sorter_proc\<close>: with consumers that keep the \<open>consumer\<close> contract,
  every packet of the input list ends at the end of the output queue of the first entry that
  recognised it, in arrival order within each entry, the entries being served in the order
  of the chain and the default last, and the sorter is left idle.
\<close>

text \<open>Delivery of the work lists \<open>W i\<close>, for \<open>i\<close> in \<open>is\<close>, to the queues \<open>qo i\<close>.\<close>

definition deliver_all :: "(nat \<Rightarrow> addr) \<Rightarrow> (nat \<Rightarrow> addr list) \<Rightarrow> nat list \<Rightarrow>
    (addr \<Rightarrow> addr list) \<Rightarrow> (addr \<Rightarrow> addr list)" where
  "deliver_all qo W is C = fold (\<lambda>i C. C(qo i := C (qo i) @ W i)) is C"

definition act_all :: "(nat \<Rightarrow> (addr \<rightharpoonup> sin_pkt) \<Rightarrow> addr list \<Rightarrow> bufs \<Rightarrow> bufs) \<Rightarrow>
    (addr \<rightharpoonup> sin_pkt) \<Rightarrow> (nat \<Rightarrow> addr list) \<Rightarrow> nat list \<Rightarrow> bufs \<Rightarrow> bufs" where
  "act_all act P W is m = fold (\<lambda>i. act i P (W i)) is m"

lemma deliver_all_simps [simp]:
  "deliver_all qo W [] C = C"
  "deliver_all qo W (i # is) C = deliver_all qo W is (C(qo i := C (qo i) @ W i))"
  "deliver_all qo W (is @ js) C = deliver_all qo W js (deliver_all qo W is C)"
  by (simp_all add: deliver_all_def)

lemma act_all_simps [simp]:
  "act_all act P W [] m = m"
  "act_all act P W (i # is) m = act_all act P W is (act i P (W i) m)"
  "act_all act P W (is @ js) m = act_all act P W js (act_all act P W is m)"
  by (simp_all add: act_all_def)

text \<open>What one queue holds afterwards: its old content, then its work lists in order.\<close>

lemma deliver_all_at:
  "deliver_all qo W is C q = C q @ concat (map W (filter (\<lambda>i. qo i = q) is))"
  by (induction "is" arbitrary: C) auto

lemma run_work:
  assumes c: "consumer q act f" and l: "lst_repr (links s) l ys" and Q: "qs_repr s Q C" "q \<in> Q"
    and dis: "\<forall>q' \<in> Q. set (C q') \<inter> set ys = {}" and b: "length (C q) + length ys < 2 ^ 32"
    and fr: "\<forall>y \<in> set ys. frame_ok s y"
  shows "\<exists>s'. (if \<not> SIN_LIST_IS_EMPTY l then f l s else Some s) = Some s' \<and>
    qs_repr s' Q (C(q := C q @ ys)) \<and> data_frame s s' \<and> mem s' = act (pkts s) ys (mem s) \<and>
    (\<forall>a. (\<forall>q' \<in> Q. a \<notin> set (C q')) \<longrightarrow> links s' a = links s a)"
proof (cases "ys = []")
  case True
  then show ?thesis using lst_repr_empty [OF l] Q consumer.act_nil [OF c] by simp
next
  case False
  from consumer.deliver [OF c Q l False dis b fr]
  obtain s' where "f l s = Some s'" "qs_repr s' Q (C(q := C q @ ys))"
    "data_frame s s'" "mem s' = act (pkts s) ys (mem s)"
    "\<forall>a. a \<notin> set (C q) \<longrightarrow> links s' a = links s a" by (elim exE conjE)
  with False lst_repr_empty [OF l] Q(2) show ?thesis by (intro exI [of _ s']) simp
qed

lemma lst_repr_Nil_reset: "lst_repr h l [] \<Longrightarrow> l = SIN_LIST_RESET"
  by (cases l) (simp add: lst_repr_def SIN_LIST_RESET_def unat_eq_zero_iff)

lemma no_work_idle: "e_wrklist x = SIN_LIST_RESET \<Longrightarrow> no_work x = x"
  by (cases x) (simp add: no_work_def)

lemma consume_loop_Cons:
  assumes "(if \<not> SIN_LIST_IS_EMPTY (e_wrklist x) then pkt_consume x (e_wrklist x) (e_arg x) s
      else Some s) = Some s'" and "lst_repr h (e_wrklist x) ys"
    and "consume_loop xs s' = Some (map no_work xs, s'')"
  shows "consume_loop (x # xs) s = Some (map no_work (x # xs), s'')"
proof (cases "SIN_LIST_IS_EMPTY (e_wrklist x)")
  case True
  then have "no_work x = x"
    using assms(2) lst_repr_empty lst_repr_Nil_reset no_work_idle by blast
  with True assms show ?thesis by simp
next
  case False
  with assms show ?thesis by (simp add: no_work_def)
qed

text \<open>What the second loop needs of the work lists it still has to deliver.\<close>

definition jobs_ok :: "'a pstore_scheme \<Rightarrow> addr set \<Rightarrow> (addr \<Rightarrow> addr list) \<Rightarrow> (nat \<Rightarrow> addr) \<Rightarrow>
    (nat \<Rightarrow> addr list) \<Rightarrow> nat list \<Rightarrow> bool" where
  "jobs_ok s Q C qo W is \<longleftrightarrow> distinct is \<and>
     (\<forall>i \<in> set is. qo i \<in> Q \<and> (\<forall>q \<in> Q. set (C q) \<inter> set (W i) = {}) \<and>
        (\<forall>y \<in> set (W i). frame_ok s y)) \<and>
     (\<forall>i \<in> set is. \<forall>j \<in> set is. i \<noteq> j \<longrightarrow> set (W i) \<inter> set (W j) = {}) \<and>
     (\<forall>q \<in> Q. length (C q) + sum_list (map (\<lambda>i. length (W i)) is) < 2 ^ 32)"

lemma jobs_ok_head:
  assumes "jobs_ok s Q C qo W (i # is)"
  shows "qo i \<in> Q" "\<forall>q \<in> Q. set (C q) \<inter> set (W i) = {}" "\<forall>y \<in> set (W i). frame_ok s y"
    "length (C (qo i)) + length (W i) < 2 ^ 32"
proof -
  show q: "qo i \<in> Q" and "\<forall>q \<in> Q. set (C q) \<inter> set (W i) = {}" "\<forall>y \<in> set (W i). frame_ok s y"
    using assms by (simp_all add: jobs_ok_def)
  have "length (C (qo i)) + (length (W i) + sum_list (map (\<lambda>i. length (W i)) is)) < 2 ^ 32"
    using assms q by (simp add: jobs_ok_def)
  then show "length (C (qo i)) + length (W i) < 2 ^ 32" by linarith
qed

lemma jobs_ok_step:
  assumes j: "jobs_ok s Q C qo W (i # is)" and fr: "\<And>y. frame_ok s y \<Longrightarrow> frame_ok s' y"
  shows "jobs_ok s' Q (C(qo i := C (qo i) @ W i)) qo W is"
  unfolding jobs_ok_def
proof (intro conjI ballI impI)
  let ?C = "C(qo i := C (qo i) @ W i)"
  show "distinct is" using j by (simp add: jobs_ok_def)
  fix k assume k: "k \<in> set is"
  then show "qo k \<in> Q" using j by (simp add: jobs_ok_def)
  from k j have ik: "set (W i) \<inter> set (W k) = {}" by (auto simp: jobs_ok_def)
  fix q assume "q \<in> Q"
  then have "set (C q) \<inter> set (W k) = {}" using j k by (simp add: jobs_ok_def)
  with ik show "set (?C q) \<inter> set (W k) = {}" by auto
next
  fix k y assume "k \<in> set is" "y \<in> set (W k)"
  then show "frame_ok s' y" using j by (intro fr) (simp add: jobs_ok_def)
next
  fix k l assume "k \<in> set is" "l \<in> set is" "k \<noteq> l"
  then show "set (W k) \<inter> set (W l) = {}" using j by (simp add: jobs_ok_def)
next
  fix q assume q: "q \<in> Q"
  then have "length (C q) + (length (W i) + sum_list (map (\<lambda>i. length (W i)) is)) < 2 ^ 32"
    using j by (simp add: jobs_ok_def)
  then show "length ((C(qo i := C (qo i) @ W i)) q)
      + sum_list (map (\<lambda>i. length (W i)) is) < 2 ^ 32"
    by auto
qed

lemma deliver_all_incl: "set (deliver_all qo W is C q) \<subseteq> set (C q) \<union> (\<Union>i \<in> set is. set (W i))"
  by (auto simp: deliver_all_at)

lemma consume_loop_works:
  assumes "qs_repr s Q C" and "jobs_ok s Q C qo W (is @ js)"
    and "list_all2 (\<lambda>i x. consumer (qo i) (act i) (\<lambda>l. pkt_consume x l (e_arg x)) \<and>
      lst_repr (links s) (e_wrklist x) (W i)) is xs"
  shows "\<exists>s'. consume_loop xs s = Some (map no_work xs, s') \<and>
    qs_repr s' Q (deliver_all qo W is C) \<and> data_frame s s' \<and>
    jobs_ok s' Q (deliver_all qo W is C) qo W js \<and>
    mem s' = act_all act (pkts s) W is (mem s) \<and>
    (\<forall>a. (\<forall>q \<in> Q. a \<notin> set (C q)) \<longrightarrow> (\<forall>i \<in> set is. a \<notin> set (W i)) \<longrightarrow> links s' a = links s a)"
  using assms
proof (induction xs arbitrary: "is" s C)
  case Nil
  then show ?case by auto
next
  case (Cons x xs)
  then obtain i is' where i: "is = i # is'"
    and c: "consumer (qo i) (act i) (\<lambda>l. pkt_consume x l (e_arg x))"
    and l: "lst_repr (links s) (e_wrklist x) (W i)"
    and rest: "list_all2 (\<lambda>i x. consumer (qo i) (act i) (\<lambda>l. pkt_consume x l (e_arg x)) \<and>
      lst_repr (links s) (e_wrklist x) (W i)) is' xs"
    by (auto simp: list_all2_Cons2)
  have j: "jobs_ok s Q C qo W (i # (is' @ js))" using Cons.prems(2) i by simp
  let ?C = "C(qo i := C (qo i) @ W i)"
  from run_work [OF c l Cons.prems(1) jobs_ok_head(1) [OF j] jobs_ok_head(2) [OF j]
      jobs_ok_head(4) [OF j] jobs_ok_head(3) [OF j]]
  obtain s1 where s1: "(if \<not> SIN_LIST_IS_EMPTY (e_wrklist x)
      then pkt_consume x (e_wrklist x) (e_arg x) s else Some s) = Some s1"
    "qs_repr s1 Q ?C" "data_frame s s1" "mem s1 = act i (pkts s) (W i) (mem s)"
    "\<forall>a. (\<forall>q' \<in> Q. a \<notin> set (C q')) \<longrightarrow> links s1 a = links s a" by (elim exE conjE)
  have j1: "jobs_ok s1 Q ?C qo W (is' @ js)"
    using j consumer.frame_kept [OF c s1(3,4)] by (rule jobs_ok_step)
  have same: "lst_repr (links s1) h (W k) = lst_repr (links s) h (W k)" if "k \<in> set is'" for h k
  proof (rule lst_repr_cong)
    fix a assume "a \<in> set (W k)"
    moreover have "\<forall>q \<in> Q. set (C q) \<inter> set (W k) = {}" using j that by (simp add: jobs_ok_def)
    ultimately have "\<forall>q \<in> Q. a \<notin> set (C q)" by blast
    with s1(5) show "links s1 a = links s a" by blast
  qed
  have "list_all2 (\<lambda>i x. consumer (qo i) (act i) (\<lambda>l. pkt_consume x l (e_arg x)) \<and>
      lst_repr (links s1) (e_wrklist x) (W i)) is' xs"
    using rest by (rule list.rel_mono_strong) (simp add: same)
  from Cons.IH [OF s1(2) j1 this]
  obtain s' where s': "consume_loop xs s1 = Some (map no_work xs, s')"
    "qs_repr s' Q (deliver_all qo W is' ?C)" "data_frame s1 s'"
    "jobs_ok s' Q (deliver_all qo W is' ?C) qo W js"
    "mem s' = act_all act (pkts s1) W is' (mem s1)"
    "\<forall>a. (\<forall>q \<in> Q. a \<notin> set (?C q)) \<longrightarrow> (\<forall>i \<in> set is'. a \<notin> set (W i)) \<longrightarrow> links s' a = links s1 a"
    by (elim exE conjE)
  have "consume_loop (x # xs) s = Some (map no_work (x # xs), s')"
    by (rule consume_loop_Cons [OF s1(1) l s'(1)])
  moreover have "links s' a = links s a"
    if "\<forall>q \<in> Q. a \<notin> set (C q)" "\<forall>i \<in> set is. a \<notin> set (W i)" for a
    using that s'(6) s1(5) by (simp add: i)
  ultimately show ?case
    using s' s1(4) data_frame_trans [OF s1(3) s'(3)] data_frame_simps(1) [OF s1(3)] i
    by (intro exI [of _ s']) simp
qed

subsection \<open>The whole procedure\<close>

text \<open>
  \<open>sorted so s xs i\<close>: the packets of \<open>xs\<close> that entry \<open>i\<close> is the first to recognise, in
  order; number \<open>N\<close>, the number of entries, stands for the default.
\<close>

definition sorted_to :: "'s sin_pkt_sorter \<Rightarrow> 's \<Rightarrow> addr list \<Rightarrow> nat \<Rightarrow> addr list" where
  "sorted_to so s xs i = filter (\<lambda>q. cls so s q = i) xs"

definition consume_of :: "'s sin_pkt_sorter \<Rightarrow> nat \<Rightarrow> sin_list \<Rightarrow> 's \<Rightarrow> 's option" where
  "consume_of so i l = (if i < length (so_first so)
     then pkt_consume (so_first so ! i) l (e_arg (so_first so ! i))
     else pkt_consume_default so l (so_arg so))"

definition idle :: "'s sin_pkt_sorter \<Rightarrow> bool" where
  "idle so \<longleftrightarrow> strip so = so"

lemma cls_le: "cls so s q \<le> length (so_first so)"
  using taste_loop_index [of "so_first so" q s] by (auto simp: cls_def split: option.splits)

lemma sum_list_sorted_to:
  "sum_list (map (\<lambda>i. length (sorted_to so s xs i)) [0..<Suc (length (so_first so))]) = length xs"
proof (induction xs)
  case (Cons x xs)
  let ?N = "Suc (length (so_first so))"
  have "sum_list (map (\<lambda>i. length (sorted_to so s (x # xs) i)) [0..<?N])
      = sum_list (map (\<lambda>i. of_bool (cls so s x = i) + length (sorted_to so s xs i)) [0..<?N])"
    by (intro arg_cong [where f = sum_list] map_cong refl) (simp add: sorted_to_def)
  also have "\<dots> = sum_list (map (\<lambda>i. of_bool (cls so s x = i)) [0..<?N]) + length xs"
    by (simp only: sum_list_addf Cons.IH)
  also have "sum_list (map (\<lambda>i. of_bool (cls so s x = i)) [0..<?N]) = (1 :: nat)"
    using cls_le [of so s x]
    by (simp add: sum_list_distinct_conv_sum_set interv_sum_list_conv_sum_set_nat of_bool_def del: upt_Suc)
  finally show ?case by simp
qed (simp add: sorted_to_def)

text \<open>What the caller must provide: the list, the queues, and well-behaved call-backs.\<close>

definition sort_pre :: "'a pstore_scheme \<Rightarrow> 'a pstore_scheme sin_pkt_sorter \<Rightarrow> addr set \<Rightarrow>
    (addr \<Rightarrow> addr list) \<Rightarrow> (nat \<Rightarrow> addr) \<Rightarrow> addr list \<Rightarrow> bool" where
  "sort_pre s so Q C qo xs \<longleftrightarrow> idle so \<and> qs_repr s Q C \<and>
     (\<forall>i \<le> length (so_first so). qo i \<in> Q) \<and>
     (\<forall>x \<in> set (so_first so). link_blind x) \<and>
     (\<forall>q \<in> set xs. taste_loop (so_first so) q s \<noteq> None \<and> frame_ok s q) \<and>
     (\<forall>q \<in> Q. set (C q) \<inter> set xs = {} \<and> length (C q) + length xs < 2 ^ 32)"

lemma idle_wl: "idle so \<Longrightarrow> i \<le> length (so_first so) \<Longrightarrow> wl so i = SIN_LIST_RESET"
  by (simp add: idle_def wl_def) (metis no_work_simps(4) nth_map strip_simps(1,4))

lemma sort_phase:
  assumes l: "chain (links s) p xs NULL" and pre: "sort_pre s so Q C qo xs" and b: "length xs < 2 ^ 32"
  shows "\<exists>so' h. sort_loop so p s = Some (so', s\<lparr>links := h\<rparr>) \<and> strip so' = so \<and>
    wls_repr h so' (sorted_to so s xs) \<and> (\<forall>a. a \<notin> set xs \<longrightarrow> h a = links s a)"
proof -
  have "wls_repr (links s) so (\<lambda>i. [])"
    using pre by (simp add: wls_repr_def sort_pre_def idle_wl)
  from sort_loop_works [OF l this, of s] pre b
  obtain so' h where "sort_loop so p s = Some (so', s\<lparr>links := h\<rparr>)" "strip so' = strip so"
    "wls_repr h so' (\<lambda>i. filter (\<lambda>q. cls so s q = i) xs)" "\<forall>a. a \<notin> set xs \<longrightarrow> h a = links s a"
    by (auto simp: sort_pre_def)
  then show ?thesis using pre
    by (intro exI [of _ so'] exI [of _ h]) (simp add: sorted_to_def [abs_def] sort_pre_def idle_def)
qed

lemma jobs_ok_sorted:
  assumes "sort_pre s so Q C qo xs" and "s1 = s\<lparr>links := h\<rparr>"
  shows "jobs_ok s1 Q C qo (sorted_to so s xs) ([0..<length (so_first so)] @ [length (so_first so)])"
  unfolding jobs_ok_def
proof (intro conjI ballI impI)
  let ?N = "length (so_first so)" and ?W = "sorted_to so s xs"
  show "distinct ([0..<?N] @ [?N])" by simp
  fix i assume i: "i \<in> set ([0..<?N] @ [?N])"
  then show "qo i \<in> Q" using assms by (auto simp: sort_pre_def)
  fix q assume "q \<in> Q"
  then have "set (C q) \<inter> set xs = {}" using assms by (simp add: sort_pre_def)
  then show "set (C q) \<inter> set (?W i) = {}" by (auto simp: sorted_to_def)
next
  fix i y assume "y \<in> set (sorted_to so s xs i)"
  then have "frame_ok s y" using assms by (simp add: sort_pre_def sorted_to_def)
  then show "frame_ok s1 y" by (simp add: frame_ok_def assms(2) cong: option.case_cong)
next
  fix i j :: nat assume "i \<noteq> j"
  then show "set (sorted_to so s xs i) \<inter> set (sorted_to so s xs j) = {}"
    by (auto simp: sorted_to_def)
next
  fix q assume "q \<in> Q"
  then have "length (C q) + length xs < 2 ^ 32" using assms by (simp add: sort_pre_def)
  then show "length (C q) + sum_list (map (\<lambda>i. length (sorted_to so s xs i))
      ([0..<length (so_first so)] @ [length (so_first so)])) < 2 ^ 32"
    using sum_list_sorted_to [of so s xs] by simp
qed

lemma strip_entry:
  assumes "strip so' = so" and "i < length (so_first so)"
  shows "pkt_consume (so_first so' ! i) = pkt_consume (so_first so ! i)"
    "e_arg (so_first so' ! i) = e_arg (so_first so ! i)"
proof -
  from assms have "so_first so ! i = no_work (so_first so' ! i)" by auto
  then show "pkt_consume (so_first so' ! i) = pkt_consume (so_first so ! i)"
    "e_arg (so_first so' ! i) = e_arg (so_first so ! i)" by simp_all
qed

lemma entries_ready:
  assumes c: "\<forall>i \<le> length (so_first so). consumer (qo i) (act i) (consume_of so i)"
    and so': "strip so' = so" "wls_repr h so' W"
  shows "list_all2 (\<lambda>i x. consumer (qo i) (act i) (\<lambda>l. pkt_consume x l (e_arg x)) \<and>
      lst_repr h (e_wrklist x) (W i)) [0..<length (so_first so)] (so_first so')"
  unfolding list_all2_conv_all_nth
proof (intro conjI allI impI)
  let ?N = "length (so_first so)"
  have N: "length (so_first so') = ?N" by (metis so'(1) length_map strip_simps(1))
  then show "length [0..<?N] = length (so_first so')" by simp
  fix i assume "i < length [0..<?N]"
  then have i: "i < ?N" "[0..<?N] ! i = i" by simp_all
  let ?x = "so_first so' ! i"
  have "(\<lambda>l. pkt_consume ?x l (e_arg ?x)) = consume_of so i"
    using i(1) strip_entry [OF so'(1) i(1)] by (simp add: consume_of_def fun_eq_iff)
  then show "consumer (qo ([0..<?N] ! i)) (act ([0..<?N] ! i)) (\<lambda>l. pkt_consume ?x l (e_arg ?x))"
    using c i by (metis less_imp_le)
  have "lst_repr h (wl so' i) (W i)" using so'(2) i N by (simp add: wls_repr_def)
  then show "lst_repr h (e_wrklist ?x) (W ([0..<?N] ! i))" using i N by (simp add: wl_def)
qed

lemma qs_repr_links:
  assumes "qs_repr s Q C" and "\<And>a. \<exists>q \<in> Q. a \<in> set (C q) \<Longrightarrow> h a = links s a"
  shows "qs_repr (s\<lparr>links := h\<rparr>) Q C"
proof -
  have "q_repr (s\<lparr>links := h\<rparr>) q (C q)" if "q \<in> Q" for q
  proof -
    have "lst_repr h l (C q) = lst_repr (links s) l (C q)" for l
      using assms(2) that by (intro lst_repr_cong) blast
    then show ?thesis using assms(1) that by (simp add: qs_repr_def q_repr_def cong: option.case_cong)
  qed
  then show ?thesis using assms(1) by (simp add: qs_repr_def)
qed

lemma data_frame_links: "data_frame s (s\<lparr>links := h\<rparr>)"
  by (simp add: data_frame_def)

lemma so_arg_upd [simp]: "so_arg (so\<lparr>so_first := es\<rparr>) = so_arg so"
  by (simp add: so_arg_def)

lemma strip_consumed:
  assumes "strip so' = so"
  shows "so'\<lparr>so_first := map no_work (so_first so'), so_wrklist := SIN_LIST_RESET\<rparr> = so"
    "so_wrklist so' = SIN_LIST_RESET \<Longrightarrow> so'\<lparr>so_first := map no_work (so_first so')\<rparr> = so"
  using assms by (cases so'; auto simp: strip_def)+

text \<open>Up to the end of the second loop: the entries are served, the default list is ready.\<close>

lemma sorter_entries:
  assumes l: "lst_repr (links s) pl xs" and pre: "sort_pre s so Q C qo xs"
    and c: "\<forall>i \<le> length (so_first so). consumer (qo i) (act i) (consume_of so i)"
  defines "W \<equiv> sorted_to so s xs" and "N \<equiv> length (so_first so)"
  shows "\<exists>so' s1 s2. sort_loop so (lst_head pl) s = Some (so', s1) \<and> strip so' = so \<and>
    consume_loop (so_first so') s1 = Some (map no_work (so_first so'), s2) \<and>
    qs_repr s2 Q (deliver_all qo W [0..<N] C) \<and> data_frame s s2 \<and>
    jobs_ok s2 Q (deliver_all qo W [0..<N] C) qo W [N] \<and>
    mem s2 = act_all act (pkts s) W [0..<N] (mem s) \<and>
    lst_repr (links s2) (so_wrklist so') (W N) \<and>
    (\<forall>a. a \<notin> set xs \<longrightarrow> (\<forall>q \<in> Q. a \<notin> set (C q)) \<longrightarrow> links s2 a = links s a)"
proof -
  have "length xs < 2 ^ 32" using lst_reprD(3) [OF l] unat_u32_bound [of "lst_len pl"] by simp
  from sort_phase [OF lst_reprD(1) [OF l] pre this]
  obtain so' h where so': "sort_loop so (lst_head pl) s = Some (so', s\<lparr>links := h\<rparr>)"
    "strip so' = so" "wls_repr h so' W" "\<forall>a. a \<notin> set xs \<longrightarrow> h a = links s a"
    by (auto simp: W_def)
  define s1 where "s1 = s\<lparr>links := h\<rparr>"
  have N: "length (so_first so') = N" by (metis so'(2) length_map strip_simps(1) N_def)
  have "qs_repr s Q C" and CX: "\<forall>q \<in> Q. set (C q) \<inter> set xs = {}"
    using pre by (simp_all add: sort_pre_def)
  then have Q1: "qs_repr s1 Q C" unfolding s1_def using so'(4) by (intro qs_repr_links) blast+
  have j1: "jobs_ok s1 Q C qo W ([0..<N] @ [N])"
    using jobs_ok_sorted [OF pre s1_def] by (simp add: W_def N_def)
  from consume_loop_works [OF Q1 j1, of act "so_first so'"] entries_ready [OF c so'(2,3)]
  obtain s2 where s2: "consume_loop (so_first so') s1 = Some (map no_work (so_first so'), s2)"
    "qs_repr s2 Q (deliver_all qo W [0..<N] C)" "data_frame s1 s2"
    "jobs_ok s2 Q (deliver_all qo W [0..<N] C) qo W [N]"
    "mem s2 = act_all act (pkts s) W [0..<N] (mem s)"
    "\<forall>a. (\<forall>q \<in> Q. a \<notin> set (C q)) \<longrightarrow> (\<forall>i \<in> set [0..<N]. a \<notin> set (W i)) \<longrightarrow> links s2 a = h a"
    by (auto simp: s1_def N_def)
  have W: "a \<in> set (W i) \<Longrightarrow> a \<in> set xs" "a \<in> set (W i) \<Longrightarrow> i \<noteq> j \<Longrightarrow> a \<notin> set (W j)" for a i j
    by (auto simp: W_def sorted_to_def)
  have "links s2 a = h a" if "a \<in> set (W N)" for a
    using that s2(6) W CX by (metis IntI atLeastLessThan_iff atLeast_upt empty_iff less_irrefl lessThan_iff)
  moreover have "lst_repr h (wl so' N) (W N)" using so'(3) N by (simp add: wls_repr_def)
  ultimately have "lst_repr (links s2) (so_wrklist so') (W N)"
    using lst_repr_cong [of "W N" "links s2" h] N by (simp add: wl_def)
  moreover have "links s2 a = links s a" if "a \<notin> set xs" "\<forall>q \<in> Q. a \<notin> set (C q)" for a
    using that s2(6) W(1) so'(4) by metis
  moreover have "data_frame s s2" using data_frame_links s2(3) data_frame_trans s1_def by blast
  ultimately show ?thesis using so'(1,2) s2(1,2,4,5)
    by (intro exI [of _ so'] exI [of _ s1] exI [of _ s2]) (simp add: s1_def)
qed

lemma sorter_proc_delivers:
  assumes l: "lst_repr (links s) pl xs" and pre: "sort_pre s so Q C qo xs"
    and c: "\<forall>i \<le> length (so_first so). consumer (qo i) (act i) (consume_of so i)"
  defines "W \<equiv> sorted_to so s xs" and "all \<equiv> [0..<Suc (length (so_first so))]"
  shows "\<exists>s'. sin_pkt_sorter_proc so pl s = Some (so, s') \<and>
    qs_repr s' Q (deliver_all qo W all C) \<and> data_frame s s' \<and>
    mem s' = act_all act (pkts s) W all (mem s) \<and>
    (\<forall>a. a \<notin> set xs \<longrightarrow> (\<forall>q \<in> Q. a \<notin> set (C q)) \<longrightarrow> links s' a = links s a)"
proof -
  let ?N = "length (so_first so)"
  let ?C = "deliver_all qo W [0..<?N] C"
  from sorter_entries [OF l pre c]
  obtain so' s1 s2 where s2: "sort_loop so (lst_head pl) s = Some (so', s1)" "strip so' = so"
    "consume_loop (so_first so') s1 = Some (map no_work (so_first so'), s2)"
    "qs_repr s2 Q ?C" "data_frame s s2" "jobs_ok s2 Q ?C qo W [?N]"
    "mem s2 = act_all act (pkts s) W [0..<?N] (mem s)"
    "lst_repr (links s2) (so_wrklist so') (W ?N)"
    "\<forall>a. a \<notin> set xs \<longrightarrow> (\<forall>q \<in> Q. a \<notin> set (C q)) \<longrightarrow> links s2 a = links s a"
    unfolding W_def by (elim exE conjE)
  have c2: "consumer (qo ?N) (act ?N) (consume_of so ?N)" using c by simp
  note j2 = jobs_ok_head [OF s2(6)]
  from run_work [OF c2 s2(8,4) j2(1,2,4,3)]
  obtain s3 where s3: "(if \<not> SIN_LIST_IS_EMPTY (so_wrklist so')
      then consume_of so ?N (so_wrklist so') s2 else Some s2) = Some s3"
    "qs_repr s3 Q (deliver_all qo W all C)" "data_frame s2 s3"
    "mem s3 = act ?N (pkts s2) (W ?N) (mem s2)"
    "\<forall>a. (\<forall>q \<in> Q. a \<notin> set (?C q)) \<longrightarrow> links s3 a = links s2 a"
    by (auto simp: all_def)
  have d: "pkt_consume_default so' = pkt_consume_default so" "so_arg so' = so_arg so"
    using strip_simps(2,3) [of so'] s2(2) by simp_all
  have r: "SIN_LIST_IS_EMPTY (so_wrklist so') \<Longrightarrow> so_wrklist so' = SIN_LIST_RESET"
    using s2(8) lst_repr_empty lst_repr_Nil_reset by metis
  have "sin_pkt_sorter_proc so pl s = Some (so, s3)"
    using s2(1,3) s3(1) d r strip_consumed [OF s2(2)]
    by (cases "SIN_LIST_IS_EMPTY (so_wrklist so')")
      (simp_all add: sin_pkt_sorter_proc_def consume_of_def)
  moreover have "links s3 a = links s a" if a: "a \<notin> set xs" "\<forall>q \<in> Q. a \<notin> set (C q)" for a
  proof -
    have "\<forall>q \<in> Q. a \<notin> set (?C q)" using a by (auto simp: deliver_all_at W_def sorted_to_def)
    then show ?thesis using a s2(9) s3(5) by simp
  qed
  ultimately show ?thesis
    using s3 s2(7) data_frame_trans [OF s2(5) s3(3)] data_frame_simps(1) [OF s2(5)]
    by (intro exI [of _ s3]) (simp add: all_def)
qed

subsection \<open>Consumers that rewrite\<close>

text \<open>
  When every consumer rewrites the buffers of its packets by some function (the identity for
  the queue) and the packets have different buffers, each buffer is rewritten once, by the
  function of the entry that took its packet.
\<close>

lemma act_all_other:
  assumes "\<And>i x k. i \<in> set is \<Longrightarrow> x \<in> set (W i) \<Longrightarrow> P x = Some k \<Longrightarrow> p_buf k \<noteq> a"
  shows "act_all (\<lambda>i P. fold (rewrite_mem (fs i) P)) P W is m a = m a"
  using assms
proof (induction "is" arbitrary: m)
  case (Cons i js)
  have "act_all (\<lambda>i P. fold (rewrite_mem (fs i) P)) P W (i # js) m a
      = fold (rewrite_mem (fs i) P) (W i) m a"
    unfolding act_all_simps
  proof (rule Cons.IH)
    fix j x k assume "j \<in> set js" "x \<in> set (W j)" "P x = Some k"
    then show "p_buf k \<noteq> a" using Cons.prems [of j x k] by simp
  qed
  also have "\<dots> = m a"
  proof (rule fold_rewrite_other)
    fix x k assume "x \<in> set (W i)" "P x = Some k"
    then show "p_buf k \<noteq> a" using Cons.prems [of i x k] by simp
  qed
  finally show ?case .
qed simp

lemma act_all_at:
  assumes "i \<in> set is" "distinct is" "x \<in> set (W i)" "distinct (W i)" "P x = Some k" "m (p_buf k) = Some b"
    and other: "\<And>j y k'. j \<in> set is \<Longrightarrow> y \<in> set (W j) \<Longrightarrow> j \<noteq> i \<or> y \<noteq> x \<Longrightarrow> P y = Some k' \<Longrightarrow> p_buf k' \<noteq> p_buf k"
  shows "act_all (\<lambda>i P. fold (rewrite_mem (fs i) P)) P W is m (p_buf k) = fs i b"
proof -
  let ?act = "\<lambda>i P. fold (rewrite_mem (fs i) P)"
  from assms(1) obtain us vs where e: "is = us @ i # vs" by (auto simp: in_set_conv_decomp)
  with assms(2) have n: "i \<notin> set us" "i \<notin> set vs" by auto
  have 1: "act_all ?act P W us m (p_buf k) = m (p_buf k)"
    by (rule act_all_other) (use other n(1) e in \<open>fastforce\<close>)
  have 2: "fold (rewrite_mem (fs i) P) (W i) m' (p_buf k) = fs i b" if "m' (p_buf k) = Some b" for m'
    using assms(3,4,5) that by (rule fold_rewrite_at) (use other assms(1) in blast)
  have 3: "act_all ?act P W vs m' (p_buf k) = m' (p_buf k)" for m'
    by (rule act_all_other) (use other n(2) e in \<open>fastforce\<close>)
  show ?thesis using 1 2 3 assms(6) by (simp add: e)
qed

lemma sorter_delivers_rewritten:
  assumes l: "lst_repr (links s) pl xs" and pre: "sort_pre s so Q C qo xs"
    and c: "\<forall>i \<le> length (so_first so). consumer (qo i) (\<lambda>P. fold (rewrite_mem (fs i) P)) (consume_of so i)"
    and bufs: "\<forall>x \<in> set xs. \<forall>y \<in> set xs. x \<noteq> y \<longrightarrow> map_option p_buf (pkts s x) \<noteq> map_option p_buf (pkts s y)"
  shows "\<exists>s'. sin_pkt_sorter_proc so pl s = Some (so, s') \<and>
    qs_repr s' Q (deliver_all qo (sorted_to so s xs) [0..<Suc (length (so_first so))] C) \<and>
    data_frame s s' \<and>
    (\<forall>y k b. y \<in> set xs \<longrightarrow> pkts s y = Some k \<longrightarrow> mem s (p_buf k) = Some b \<longrightarrow>
      mem s' (p_buf k) = fs (cls so s y) b) \<and>
    (\<forall>a. (\<forall>y k. y \<in> set xs \<longrightarrow> pkts s y = Some k \<longrightarrow> p_buf k \<noteq> a) \<longrightarrow> mem s' a = mem s a) \<and>
    (\<forall>a. a \<notin> set xs \<longrightarrow> (\<forall>q \<in> Q. a \<notin> set (C q)) \<longrightarrow> links s' a = links s a)"
proof -
  let ?N = "length (so_first so)" and ?W = "sorted_to so s xs"
  let ?act = "\<lambda>i P. fold (rewrite_mem (fs i) P)"
  from sorter_proc_delivers [OF l pre c] obtain s' where s':
    "sin_pkt_sorter_proc so pl s = Some (so, s')"
    "qs_repr s' Q (deliver_all qo ?W [0..<Suc ?N] C)" "data_frame s s'"
    "mem s' = act_all ?act (pkts s) ?W [0..<Suc ?N] (mem s)"
    "\<forall>a. a \<notin> set xs \<longrightarrow> (\<forall>q \<in> Q. a \<notin> set (C q)) \<longrightarrow> links s' a = links s a"
    by (elim exE conjE)
  have "mem s' (p_buf k) = fs (cls so s y) b"
    if "y \<in> set xs" "pkts s y = Some k" "mem s (p_buf k) = Some b" for y k b
    unfolding s'(4)
  proof (rule act_all_at)
    show "cls so s y \<in> set [0..<Suc ?N]" using cls_le [of so s y] by (simp add: less_Suc_eq_le del: upt_Suc)
    show "y \<in> set (?W (cls so s y))" using that by (simp add: sorted_to_def)
    show "distinct (?W (cls so s y))" using lst_reprD(4) [OF l] by (simp add: sorted_to_def)
    fix j z k' assume "z \<in> set (?W j)" "j \<noteq> cls so s y \<or> z \<noteq> y" "pkts s z = Some k'"
    then have "z \<in> set xs" "z \<noteq> y" by (auto simp: sorted_to_def)
    with bufs that(1,2) \<open>pkts s z = Some k'\<close> show "p_buf k' \<noteq> p_buf k" by fastforce
  qed (use that in simp_all)
  moreover have "mem s' a = mem s a" if "\<forall>y k. y \<in> set xs \<longrightarrow> pkts s y = Some k \<longrightarrow> p_buf k \<noteq> a" for a
    unfolding s'(4) by (rule act_all_other) (use that in \<open>auto simp: sorted_to_def\<close>)
  ultimately show ?thesis using s' by (intro exI [of _ s']) blast
qed

subsection \<open>Properties\<close>


text \<open>Two entries, both handing over to queue 51, and a default that hands over to 52.\<close>

definition ex_put :: "sin_list \<Rightarrow> cb_arg \<Rightarrow> pstore \<Rightarrow> pstore option" where
  "ex_put l a s = (case a of Outq q \<Rightarrow> sin_wi_queue_put_items l q s | Ps_arg q _ \<Rightarrow> None)"

definition ex_entry :: "addr \<Rightarrow> pstore ps_entry" where
  "ex_entry p = \<lparr>e_addr = p + 100, e_type = 0, pkt_taste = (\<lambda>x _ _. Some (of_bool (x = p))),
     pkt_consume = ex_put, e_outq = 51, e_ap = NULL, e_wrklist = SIN_LIST_RESET\<rparr>"

definition ex_sorter :: "pstore sin_pkt_sorter" where
  "ex_sorter = ex_sorter0\<lparr>so_first := [ex_entry 22, ex_entry 21], pkt_consume_default := ex_put\<rparr>"

definition ex_list :: sin_list where
  "ex_list = \<lparr>lst_head = Some 21, lst_tail = Some 23, lst_len = 3\<rparr>"

definition ex_linked :: pstore where
  "ex_linked = ex_store\<lparr>links := (links ex_store)(21 \<mapsto> Some 22, 22 \<mapsto> Some 23)\<rparr>"

lemma ex_linked_repr: "lst_repr (links ex_linked) ex_list [21, 22, 23]"
  by (simp add: lst_repr_def ex_linked_def ex_list_def ex_store_def tail_of_def)

lemma ex_linked_queues: "qs_repr ex_linked {51, 52} (\<lambda>_. [])"
  by (simp add: qs_repr_def q_repr_def ex_linked_def ex_store_def ex_queue_def sin_wi_queue_zero_def
      lst_repr_def)

lemma ex_linked_frames: "\<forall>q \<in> {21, 22, 23}. frame_ok ex_linked q"
  by (simp add: frame_ok_def ex_linked_def ex_store_def)


end
