(* ===== verification/Sin_Signal.thy ===== *)
theory Sin_Signal
  imports Sin_Tx_Send Sin_Sort_Deliver
begin

text \<open>
  Signals (\<open>sin_signal.c\<close>): the linkable objects that travel through the control queue of
  a worker thread. The only signal the library sends is \<open>SIGTERM\<close>.
\<close>

record sin_signal =
  sg_type :: u32
  sg_signum :: int

record sgstore = pstore +
  signals :: "addr \<rightharpoonup> sin_signal"

definition sin_signal_ctor :: "int \<Rightarrow> errno option \<Rightarrow> 'a sgstore_scheme \<Rightarrow>
    ptr \<times> errno option \<times> 'a sgstore_scheme" where
  "sin_signal_ctor signum e s = (case malloc s of
     (None, s) \<Rightarrow> (NULL, SET_ERR e ENOMEM, s)
   | (Some ssign, s) \<Rightarrow> (Some ssign, e,
       s\<lparr>signals := (signals s)(ssign \<mapsto> \<lparr>sg_type = SIN_TYPE_SIGNAL, sg_signum = signum\<rparr>),
         links := (links s)(ssign \<mapsto> NULL)\<rparr>))"

definition sin_signal_dtor :: "addr \<Rightarrow> 'a sgstore_scheme \<Rightarrow> 'a sgstore_scheme option" where
  "sin_signal_dtor ssign s = do {
     s \<leftarrow> free ssign s;
     Some (s\<lparr>signals := (signals s)(ssign := None), links := (links s)(ssign := None)\<rparr>)
   }"

definition sin_signal_get_signum :: "addr \<Rightarrow> 'a sgstore_scheme \<Rightarrow> int option" where
  "sin_signal_get_signum ssign s = map_option sg_signum (signals s ssign)"

lemma signal_dtor_works:
  "Block a \<in> os_live s \<Longrightarrow> sin_signal_dtor a s = Some (s\<lparr>os_live := os_live s - {Block a},
     signals := (signals s)(a := None), links := (links s)(a := None)\<rparr>)"
  by (simp add: sin_signal_dtor_def free_def)

end
