(* ===== verification/Sin_Rx_Thread.thy ===== *)
theory Sin_Rx_Thread
  imports Sin_Ring Sin_Sort_Deliver
begin

text \<open>
  The receive thread of one ring (\<open>sin_rx_thread.c\<close>): take the packets that the kernel has
  put between \<open>cur\<close> and \<open>tail\<close>, mark their descriptors busy and sort them; then give back
  to the kernel the slots from \<open>head\<close> on whose packets have been returned.
\<close>

record 's sin_rx_thread =
  srt_rx_ring :: addr
  srt_rx_zone :: addr
  srt_rx_sort :: "'s sin_pkt_sorter"
  srt_queue_fd :: int

subsection \<open>Taking packets off the ring\<close>

text \<open>
  What the assertions met in the loop body require, for slot \<open>i\<close>: that of \<open>sin_pkt_setflags\<close>,
  the three of the body itself, and the two of \<open>sin_list_append\<close>, on what the lines between do
  not change. The model is of the release build, where they are empty; that they hold is a
  theorem.
\<close>

definition append_asserts :: "addr \<Rightarrow> 'a pstore_scheme \<Rightarrow> bool" where
  "append_asserts elem s = (case do {
       pk \<leftarrow> pkts s elem;
       sin_next \<leftarrow> SIN_ITER_NEXT elem s;
       Some (SIN_TYPE_IS_LINKABLE (p_type pk) \<and> sin_next = NULL)
     } of None \<Rightarrow> False | Some ok \<Rightarrow> ok)"

definition dequeue_asserts :: "netmap_api \<Rightarrow> addr \<Rightarrow> addr \<Rightarrow> u32 \<Rightarrow> 'a pstore_scheme \<Rightarrow> bool" where
  "dequeue_asserts nm ring pzone i s = (case do {
       pkt \<leftarrow> pmap_at pzone i s;
       pk \<leftarrow> pkts s pkt;
       slot \<leftarrow> get_slot (ring, unat i) s;
       b \<leftarrow> sin_pkt_isbusy pkt s;
       Some (p_type pk = SIN_TYPE_PKT \<and> b = 0 \<and> zone_idx pk = i \<and>
         p_buf pk = NETMAP_BUF nm ring (s_buf_idx slot) \<and> append_asserts pkt s)
     } of None \<Rightarrow> False | Some ok \<Rightarrow> ok)"

definition dequeue_one :: "netmap_api \<Rightarrow> addr \<Rightarrow> addr \<Rightarrow> sin_list \<Rightarrow> 'a pstore_scheme \<Rightarrow>
    (sin_list \<times> 'a pstore_scheme) option" where
  "dequeue_one nm ring pzone pl s = do {
     r \<leftarrow> rings s ring;
     let i = r_cur r;
     pkt \<leftarrow> pmap_at pzone i s;
     (_, s) \<leftarrow> sin_pkt_setflags pkt SPKT_BUSY 0 s;
     pk \<leftarrow> pkts s pkt;
     s \<leftarrow> (if times s (p_ts pk) = None then None
       else Some (s\<lparr>times := (times s)(p_ts pk \<mapsto> r_ts r)\<rparr>));
     slot \<leftarrow> get_slot (ring, unat i) s;
     s \<leftarrow> upd_pkt pkt (\<lambda>k. k\<lparr>p_len := ucast (s_len slot)\<rparr>) s;
     s \<leftarrow> set_ring ring (\<lambda>r. r\<lparr>r_cur := nm_ring_next nm r i\<rparr>) s;
     sin_list_append pl pkt s
   }"

partial_function (option) dequeue_loop :: "netmap_api \<Rightarrow> addr \<Rightarrow> addr \<Rightarrow> u32 \<Rightarrow> sin_list \<Rightarrow>
    'a pstore_scheme \<Rightarrow> (u32 \<times> sin_list \<times> 'a pstore_scheme) option" where
  "dequeue_loop nm ring pzone nrx pl s = do {
     r \<leftarrow> rings s ring;
     if nm_ring_empty nm r then Some (nrx, pl, s)
     else do {
       (pl, s) \<leftarrow> dequeue_one nm ring pzone pl s;
       dequeue_loop nm ring pzone (nrx + 1) pl s
     }
   }"

definition dequeue_pkts :: "netmap_api \<Rightarrow> addr \<Rightarrow> addr \<Rightarrow> sin_list \<Rightarrow> 'a pstore_scheme \<Rightarrow>
    (u32 \<times> sin_list \<times> 'a pstore_scheme) option" where
  "dequeue_pkts nm ring pzone pl s = dequeue_loop nm ring pzone 0 pl s"

subsection \<open>Giving slots back\<close>

text \<open>The loop of \<open>_spin_ring\<close>; the value returned is \<open>new_head\<close>.\<close>

partial_function (option) spin_loop :: "netmap_api \<Rightarrow> addr \<Rightarrow> addr \<Rightarrow> u32 \<Rightarrow> u32 \<Rightarrow>
    'a pstore_scheme \<Rightarrow> u32 option" where
  "spin_loop nm ring pzone i new_head s = do {
     r \<leftarrow> rings s ring;
     if i \<noteq> r_cur r then do {
       pkt \<leftarrow> pmap_at pzone i s;
       b \<leftarrow> sin_pkt_isbusy pkt s;
       if b \<noteq> 0 then Some new_head
       else let new_head = nm_ring_next nm r i in spin_loop nm ring pzone new_head new_head s
     } else Some new_head
   }"

definition spin_ring :: "netmap_api \<Rightarrow> addr \<Rightarrow> addr \<Rightarrow> 'a pstore_scheme \<Rightarrow> 'a pstore_scheme option" where
  "spin_ring nm ring pzone s = do {
     r \<leftarrow> rings s ring;
     new_head \<leftarrow> spin_loop nm ring pzone (r_head r) (r_head r) s;
     if new_head = r_head r then Some s
     else set_ring ring (\<lambda>r. r\<lparr>r_head := new_head\<rparr>) s
   }"

subsection \<open>The thread\<close>

text \<open>
  One turn of the loop, with what the outside said and did: \<open>in_poll\<close> what \<open>poll\<close> made of
  the ring (the kernel fills slots and moves \<open>tail\<close>), \<open>in_ready\<close> if it reported input,
  \<open>in_ctrl\<close> the value of \<open>check_ctrl\<close>. The result says whether the loop ends. The sequence
  of turns runs over a list of such inputs.
\<close>

record rx_input =
  in_poll :: "netmap_ring \<Rightarrow> netmap_ring"
  in_ready :: bool
  in_ctrl :: int

definition SIGTERM :: int where
  "SIGTERM = 15"

definition sin_rx_thread_turn :: "netmap_api \<Rightarrow> rx_input \<Rightarrow>
    ('a pstore_scheme) sin_rx_thread \<Rightarrow> sin_list \<Rightarrow> 'a pstore_scheme \<Rightarrow>
    (bool \<times> ('a pstore_scheme) sin_rx_thread \<times> sin_list \<times> 'a pstore_scheme) option" where
  "sin_rx_thread_turn nm inp srtp pkts_in s = do {
     s \<leftarrow> set_ring (srt_rx_ring srtp) (in_poll inp) s;
     r \<leftarrow> rings s (srt_rx_ring srtp);
     (srtp, pkts_in, s) \<leftarrow> (if in_ready inp \<and> \<not> nm_ring_empty nm r then do {
         (ndeq, pkts_in, s) \<leftarrow> dequeue_pkts nm (srt_rx_ring srtp) (srt_rx_zone srtp) pkts_in s;
         if \<not> SIN_LIST_IS_EMPTY pkts_in then do {
           (so, s) \<leftarrow> sin_pkt_sorter_proc (srt_rx_sort srtp) pkts_in s;
           Some (srtp\<lparr>srt_rx_sort := so\<rparr>, SIN_LIST_RESET, s)
         } else Some (srtp, pkts_in, s)
       } else Some (srtp, pkts_in, s));
     if in_ctrl inp = SIGTERM then Some (True, srtp, pkts_in, s)
     else do {
       s \<leftarrow> spin_ring nm (srt_rx_ring srtp) (srt_rx_zone srtp) s;
       Some (False, srtp, pkts_in, s)
     }
   }"

primrec sin_rx_thread_loop :: "netmap_api \<Rightarrow> rx_input list \<Rightarrow> ('a pstore_scheme) sin_rx_thread \<Rightarrow>
    sin_list \<Rightarrow> 'a pstore_scheme \<Rightarrow>
    (bool \<times> ('a pstore_scheme) sin_rx_thread \<times> sin_list \<times> 'a pstore_scheme) option" where
  "sin_rx_thread_loop nm [] srtp pkts_in s = Some (False, srtp, pkts_in, s)"
| "sin_rx_thread_loop nm (inp # inps) srtp pkts_in s = do {
     (fin, srtp, pkts_in, s) \<leftarrow> sin_rx_thread_turn nm inp srtp pkts_in s;
     if fin then Some (True, srtp, pkts_in, s)
     else sin_rx_thread_loop nm inps srtp pkts_in s
   }"

subsection \<open>What dequeueing does\<close>

text \<open>The descriptor of a dequeued packet, from its slot.\<close>

definition rx_mark :: "netmap_slot \<Rightarrow> sin_pkt \<Rightarrow> sin_pkt" where
  "rx_mark sl k = (mark_busy k)\<lparr>p_len := ucast (s_len sl)\<rparr>"

definition rx_fill :: "netmap_slot list \<Rightarrow> addr list \<Rightarrow> nat list \<Rightarrow> (addr \<rightharpoonup> sin_pkt) \<Rightarrow>
    (addr \<rightharpoonup> sin_pkt)" where
  "rx_fill sl pm is P = fold (\<lambda>i P. P(pm ! i := map_option (rx_mark (sl ! i)) (P (pm ! i)))) is P"

lemma rx_mark_simps [simp]:
  "p_ts (rx_mark sl k) = p_ts k" "zone_idx (rx_mark sl k) = zone_idx k"
  "my_slot (rx_mark sl k) = my_slot k" "my_ring (rx_mark sl k) = my_ring k"
  "my_zone (rx_mark sl k) = my_zone k" "p_buf (rx_mark sl k) = p_buf k" "p_type (rx_mark sl k) = p_type k"
  "is_busy (rx_mark sl k)" "p_len (rx_mark sl k) = ucast (s_len sl)"
  by (simp_all add: rx_mark_def mark_busy_def is_busy_def SPKT_BUSY_def bit_simps)

lemma rx_fill_simps [simp]:
  "rx_fill sl pm [] P = P"
  "rx_fill sl pm (i # is) P = rx_fill sl pm is (P(pm ! i := map_option (rx_mark (sl ! i)) (P (pm ! i))))"
  by (simp_all add: rx_fill_def)

lemma rx_fill_other: "a \<notin> (!) pm ` set is \<Longrightarrow> rx_fill sl pm is P a = P a"
  by (induction "is" arbitrary: P) auto

lemma rx_fill_at:
  assumes "distinct pm" and "distinct is" and "\<forall>i \<in> set is. i < length pm" and "j < length pm"
  shows "rx_fill sl pm is P (pm ! j)
    = (if j \<in> set is then map_option (rx_mark (sl ! j)) (P (pm ! j)) else P (pm ! j))"
proof (cases "j \<in> set is")
  case True
  then obtain us vs where e: "is = us @ j # vs" by (auto simp: in_set_conv_decomp)
  have n: "pm ! j \<notin> (!) pm ` set us" "pm ! j \<notin> (!) pm ` set vs"
    using assms by (auto simp: e nth_eq_iff_index_eq)
  have "rx_fill sl pm is P (pm ! j) = rx_fill sl pm vs
      ((rx_fill sl pm us P)(pm ! j := map_option (rx_mark (sl ! j)) (rx_fill sl pm us P (pm ! j)))) (pm ! j)"
    by (simp add: e rx_fill_def)
  then show ?thesis using True n by (simp add: rx_fill_other)
next
  case False
  then have "pm ! j \<notin> (!) pm ` set is" using assms by (auto simp: nth_eq_iff_index_eq)
  then show ?thesis using False by (simp add: rx_fill_other)
qed

lemma dequeue_one_works:
  assumes nm: "netmap_ok nm" and z: "zones s zone = Some z" and r: "rings s ring = Some r"
    and ok: "ring_ok r" "length (z_pmap z) = ring_size r"
    and c: "c = unat (r_cur r)" and p: "p = z_pmap z ! c"
    and pk: "pkts s p = Some k" "times s (p_ts k) = Some t"
    and l: "lst_repr (links s) pl xs" "links s p = Some NULL" "p \<notin> set xs" "Suc (length xs) < 2 ^ 32"
  shows "\<exists>pl'. dequeue_one nm ring zone pl s = Some (pl', s\<lparr>
      times := (times s)(p_ts k \<mapsto> r_ts r),
      pkts := (pkts s)(p \<mapsto> rx_mark (r_slots r ! c) k),
      rings := (rings s)(ring \<mapsto> r\<lparr>r_cur := nm_ring_next nm r (r_cur r)\<rparr>),
      links := app_links (links s) xs (Some p)\<rparr>) \<and>
    lst_repr (app_links (links s) xs (Some p)) pl' (xs @ [p])"
proof -
  note o = ring_okD [OF ok(1)]
  have pm: "pmap_at zone (r_cur r) s = Some p" using z ok(2) o c p by (simp add: pmap_at_def)
  define s1 where "s1 = s\<lparr>times := (times s)(p_ts k \<mapsto> r_ts r),
      pkts := (pkts s)(p \<mapsto> rx_mark (r_slots r ! c) k),
      rings := (rings s)(ring \<mapsto> r\<lparr>r_cur := nm_ring_next nm r (r_cur r)\<rparr>)\<rparr>"
  from sin_list_append_repr [of s1 pl xs p] l
  obtain pl' where "sin_list_append pl p s1 = Some (pl', s1\<lparr>links := app_links (links s) xs (Some p)\<rparr>)"
    "lst_repr (app_links (links s) xs (Some p)) pl' (xs @ [p])"
    by (auto simp: s1_def)
  moreover have "dequeue_one nm ring zone pl s = sin_list_append pl p s1"
    using r pm pk c o setflags_busy [OF pk(1)]
    by (simp add: dequeue_one_def get_slot_def upd_pkt_def set_ring_def s1_def rx_mark_def
        mark_busy_def Let_def)
  ultimately show ?thesis by (simp add: s1_def)
qed

text \<open>
  The whole loop. From \<open>cur\<close> to \<open>tail\<close>, in ring order, every descriptor is marked busy,
  takes length and time stamp from its slot and its ring, and is appended to the list;
  \<open>cur\<close> arrives at \<open>tail\<close>.
\<close>

definition rx_ready :: "'a pstore_scheme \<Rightarrow> addr \<Rightarrow> bool" where
  "rx_ready s p \<longleftrightarrow> (case pkts s p of None \<Rightarrow> False
     | Some k \<Rightarrow> times s (p_ts k) \<noteq> None \<and> links s p = Some NULL)"

definition rx_frame :: "'a pstore_scheme \<Rightarrow> 'a pstore_scheme \<Rightarrow> bool" where
  "rx_frame s s' \<longleftrightarrow>
     s' = s\<lparr>links := links s', times := times s', pkts := pkts s', rings := rings s'\<rparr>"

lemma rx_frame_refl [simp]: "rx_frame s s"
  by (simp add: rx_frame_def)

lemma rx_frame_trans: "rx_frame s s' \<Longrightarrow> rx_frame s' s'' \<Longrightarrow> rx_frame s s''"
  by (cases s; cases s'; cases s'') (simp add: rx_frame_def)

lemma rx_frame_simps:
  assumes "rx_frame s s'"
  shows "zones s' = zones s" "mem s' = mem s" "queues s' = queues s"
proof -
  from assms have e: "s' = s\<lparr>links := links s', times := times s', pkts := pkts s', rings := rings s'\<rparr>"
    by (simp add: rx_frame_def)
  show "zones s' = zones s" by (subst e) simp
  show "mem s' = mem s" by (subst e) simp
  show "queues s' = queues s" by (subst e) simp
qed

lemma dequeue_loop_works:
  assumes nm: "netmap_ok nm" and z: "zones s zone = Some z" "length (z_pmap z) = n" "distinct (z_pmap z)"
    and r: "rings s ring = Some r" "ring_ok r" "ring_size r = n"
    and k: "rdist n (unat (r_cur r)) (unat (r_tail r)) = k"
    and new: "new = map ((!) (z_pmap z)) (window n (unat (r_cur r)) k)"
    and ready: "\<forall>p \<in> set new. rx_ready s p"
    and l: "lst_repr (links s) pl xs" "set new \<inter> set xs = {}" "length xs + k < 2 ^ 32"
  shows "\<exists>pl' s'. dequeue_loop nm ring zone nrx pl s = Some (nrx + of_nat k, pl', s') \<and>
    lst_repr (links s') pl' (xs @ new) \<and>
    rings s' = (rings s)(ring \<mapsto> r\<lparr>r_cur := r_tail r\<rparr>) \<and>
    pkts s' = rx_fill (r_slots r) (z_pmap z) (window n (unat (r_cur r)) k) (pkts s) \<and>
    (\<forall>p \<in> set new. times s' (p_ts (the (pkts s p))) = Some (r_ts r)) \<and>
    rx_frame s s' \<and>
    (\<forall>t. times s' t = times s t \<or> times s t \<noteq> None \<and> times s' t = Some (r_ts r)) \<and>
    (\<forall>a. a \<notin> set (xs @ new) \<longrightarrow> links s' a = links s a)"
  using r k new ready l z(1)
proof (induction k arbitrary: s r pl xs new nrx)
  case 0
  note o = ring_okD [OF 0(2)]
  have "unat (r_cur r) = unat (r_tail r)" using 0(3,4) rdist_zero [OF o(4,5)] by simp
  then have e: "r_cur r = r_tail r" by (rule unsigned_word_eqI)
  then have "nm_ring_empty nm r" using nm by (simp add: netmap_ok_def)
  moreover have "r\<lparr>r_cur := r_tail r\<rparr> = r" using e by (cases r) simp
  ultimately show ?case
    using 0(1,5,7) e by (intro exI [of _ pl] exI [of _ s]) (auto simp: dequeue_loop.simps)
next
  case (Suc k)
  note prem = Suc.prems
  note o = ring_okD [OF prem(2)]
  let ?c = "unat (r_cur r)"
  define p where "p = z_pmap z ! ?c"
  define new' where "new' = map ((!) (z_pmap z)) (window n (ridx n ?c 1) k)"
  have cn: "?c < n" using o prem(3) by simp
  have kn: "Suc k < n" using rdist_less [of ?c n "unat (r_tail r)"] o prem(3,4) by simp
  have new: "new = p # new'" and dis: "distinct new"
    using window_pkts [OF z(2,3) cn kn] prem(5) by (simp_all add: p_def new'_def)
  have p: "p \<notin> set new'" "p \<notin> set xs" using dis new prem(8) by auto
  have "rx_ready s p" using prem(6) new by simp
  then obtain pk t where pk: "pkts s p = Some pk" "times s (p_ts pk) = Some t" "links s p = Some NULL"
    by (auto simp: rx_ready_def split: option.splits)
  define r1 where "r1 = r\<lparr>r_cur := nm_ring_next nm r (r_cur r)\<rparr>"
  define s1 where "s1 = s\<lparr>times := (times s)(p_ts pk \<mapsto> r_ts r),
      pkts := (pkts s)(p \<mapsto> rx_mark (r_slots r ! ?c) pk), rings := (rings s)(ring \<mapsto> r1),
      links := app_links (links s) xs (Some p)\<rparr>"
  have "length (z_pmap z) = ring_size r" "Suc (length xs) < 2 ^ 32" using z prem(3,9) by simp_all
  from dequeue_one_works [OF nm prem(10,1,2) this(1) refl p_def pk(1,2) prem(7) pk(3) p(2) this(2)]
  obtain pl1 where one: "dequeue_one nm ring zone pl s = Some (pl1, s1)"
    "lst_repr (links s1) pl1 (xs @ [p])" by (auto simp: s1_def r1_def)
  have "r_cur r \<noteq> r_tail r" using prem(4) by auto
  then have step: "dequeue_loop nm ring zone nrx pl s = dequeue_loop nm ring zone (nrx + 1) pl1 s1"
    using nm prem(1) one(1) by (simp add: dequeue_loop.simps [of nm ring zone nrx] netmap_ok_def)
  note u1 = ring_cur_step(1) [OF nm prem(2,3,4), folded r1_def]
    and ok1 = ring_cur_step(2-5) [OF nm prem(2,3,4), folded r1_def]
    and d1 = ring_cur_step(6) [OF nm prem(2,3,4), folded r1_def]
  have rdy: "\<forall>q \<in> set new'. rx_ready s1 q"
  proof
    fix q assume q: "q \<in> set new'"
    then have "q \<noteq> p" "q \<notin> set xs" "rx_ready s q" using p prem(6,8) new by auto
    then show "rx_ready s1 q"
      by (auto simp: rx_ready_def s1_def app_links_other split: option.splits)
  qed
  have "rings s1 ring = Some r1" "zones s1 zone = Some z" using prem(10) by (simp_all add: s1_def)
  moreover have "new' = map ((!) (z_pmap z)) (window n (unat (r_cur r1)) k)"
    by (simp add: u1 new'_def)
  moreover have "set new' \<inter> set (xs @ [p]) = {}" "length (xs @ [p]) + k < 2 ^ 32"
    using p prem(8,9) new by auto
  ultimately obtain pl' s' where IH: "dequeue_loop nm ring zone (nrx + 1) pl1 s1
        = Some (nrx + 1 + of_nat k, pl', s')" "lst_repr (links s') pl' ((xs @ [p]) @ new')"
      "rings s' = (rings s1)(ring \<mapsto> r1\<lparr>r_cur := r_tail r1\<rparr>)"
      "pkts s' = rx_fill (r_slots r1) (z_pmap z) (window n (unat (r_cur r1)) k) (pkts s1)"
      "\<forall>p \<in> set new'. times s' (p_ts (the (pkts s1 p))) = Some (r_ts r1)"
      "rx_frame s1 s'"
      "\<forall>t. times s' t = times s1 t \<or> times s1 t \<noteq> None \<and> times s' t = Some (r_ts r1)"
      "\<forall>a. a \<notin> set ((xs @ [p]) @ new') \<longrightarrow> links s' a = links s1 a"
    using Suc.IH [OF _ ok1(1,2) d1 _ rdy one(2), of "nrx + 1"] by blast
  have ts: "r_ts r1 = r_ts r" by (simp add: r1_def)
  have t: "times s' t' = times s t' \<or> times s t' \<noteq> None \<and> times s' t' = Some (r_ts r)" for t'
    using spec [OF IH(7), of t'] pk(2) ts by (cases "t' = p_ts pk") (auto simp: s1_def)
  have "times s' (p_ts pk) = Some (r_ts r)"
    using spec [OF IH(7), of "p_ts pk"] ts by (simp add: s1_def)
  moreover have "pkts s1 q = pkts s q" if "q \<in> set new'" for q
    using that p(1) by (auto simp: s1_def)
  ultimately have "\<forall>q \<in> set new. times s' (p_ts (the (pkts s q))) = Some (r_ts r)"
    using IH(5) pk(1) ts new by simp
  moreover have "rx_frame s s1" by (simp add: rx_frame_def s1_def)
  then have "rx_frame s s'" using IH(6) by (rule rx_frame_trans)
  moreover have "rings s' = (rings s)(ring \<mapsto> r\<lparr>r_cur := r_tail r\<rparr>)"
    using IH(3) by (simp add: s1_def r1_def)
  moreover have "pkts s' = rx_fill (r_slots r) (z_pmap z) (window n ?c (Suc k)) (pkts s)"
    using IH(4) pk(1) by (simp add: window_Suc [OF cn] u1 ok1 s1_def p_def)
  moreover have "links s' a = links s a" if "a \<notin> set (xs @ new)" for a
    using IH(8) that new by (simp add: s1_def app_links_other)
  ultimately show ?case
    using step IH(1,2) t new by (intro exI [of _ pl'] exI [of _ s']) (simp add: add.assoc)
qed

subsection \<open>What giving back does\<close>

definition busy_at :: "'a pstore_scheme \<Rightarrow> sin_pkt_zone \<Rightarrow> nat \<Rightarrow> bool" where
  "busy_at s z j \<longleftrightarrow> (case pkts s (z_pmap z ! j) of None \<Rightarrow> False | Some k \<Rightarrow> is_busy k)"

text \<open>
  \<open>head\<close> moves over the longest run of slots, from \<open>head\<close> and not beyond \<open>cur\<close>, whose
  packets are not busy.
\<close>

definition free_run :: "'a pstore_scheme \<Rightarrow> sin_pkt_zone \<Rightarrow> nat \<Rightarrow> nat \<Rightarrow> nat \<Rightarrow> nat" where
  "free_run s z n h k = length (takeWhile (\<lambda>j. \<not> busy_at s z j) (window n h k))"

lemma spin_loop_works:
  assumes nm: "netmap_ok nm" and z: "zones s zone = Some z" "length (z_pmap z) = n"
    and r: "rings s ring = Some r" "ring_ok r" "ring_size r = n"
    and pk: "\<forall>j < n. pkts s (z_pmap z ! j) \<noteq> None"
    and i: "unat i < n" and k: "rdist n (unat i) (unat (r_cur r)) = k"
  shows "\<exists>h. spin_loop nm ring zone i i s = Some h \<and>
    unat h = ridx n (unat i) (free_run s z n (unat i) k)"
  using i k
proof (induction k arbitrary: i)
  case 0
  note o = ring_okD [OF r(2)]
  have "unat i = unat (r_cur r)" using 0 rdist_zero [of "unat i" n "unat (r_cur r)"] o r(3) by simp
  then have "i = r_cur r" by (rule unsigned_word_eqI)
  then show ?case using r(1) 0(1) by (simp add: spin_loop.simps free_run_def)
next
  case (Suc k)
  note o = ring_okD [OF r(2)]
  have ne: "i \<noteq> r_cur r" using Suc.prems(2) by auto
  let ?p = "z_pmap z ! unat i"
  obtain q where q: "pkts s ?p = Some q" using pk Suc.prems(1) by blast
  have b: "busy_at s z (unat i) = is_busy q" using q by (simp add: busy_at_def)
  have w: "window n (unat i) (Suc k) = unat i # window n (ridx n (unat i) 1) k"
    using Suc.prems(1) by (rule window_Suc)
  have pm: "pmap_at zone i s = Some ?p" using z Suc.prems(1) by (simp add: pmap_at_def)
  show ?case
  proof (cases "is_busy q")
    case True
    then show ?thesis using r(1) ne pm sin_pkt_isbusy_iff [OF q] b w Suc.prems(1)
      by (simp add: spin_loop.simps free_run_def)
  next
    case False
    let ?i = "nm_ring_next nm r i"
    have u: "unat ?i = ridx n (unat i) 1" using nm_next_unat [OF nm, of i r] Suc.prems(1) r(3) by simp
    have "rdist n (unat ?i) (unat (r_cur r)) = k"
      using rdist_ridx_left [of "unat i" n "unat (r_cur r)" 1] Suc.prems o r(3) by (simp add: u)
    moreover have "unat ?i < n" using u Suc.prems(1) by (metis ridx_less gr_zeroI not_less_zero)
    ultimately obtain h where h: "spin_loop nm ring zone ?i ?i s = Some h"
      "unat h = ridx n (unat ?i) (free_run s z n (unat ?i) k)"
      using Suc.IH by blast
    have "spin_loop nm ring zone i i s = spin_loop nm ring zone ?i ?i s"
      using r(1) ne pm sin_pkt_isbusy_iff [OF q] False by (simp add: spin_loop.simps [of nm ring zone i] Let_def)
    then show ?thesis using h b w False by (simp add: u free_run_def)
  qed
qed

lemma spin_ring_works:
  assumes nm: "netmap_ok nm" and z: "zones s zone = Some z" "length (z_pmap z) = n"
    and r: "rings s ring = Some r" "ring_ok r" "ring_size r = n"
    and pk: "\<forall>j < n. pkts s (z_pmap z ! j) \<noteq> None"
  defines "k \<equiv> rdist n (unat (r_head r)) (unat (r_cur r))"
  shows "\<exists>h. spin_ring nm ring zone s = Some (s\<lparr>rings := (rings s)(ring \<mapsto> r\<lparr>r_head := h\<rparr>)\<rparr>) \<and>
    unat h = ridx n (unat (r_head r)) (free_run s z n (unat (r_head r)) k)"
proof -
  have "unat (r_head r) < n" using ring_okD [OF r(2)] r(3) by simp
  from spin_loop_works [OF nm z r pk this, of k]
  obtain h where h: "spin_loop nm ring zone (r_head r) (r_head r) s = Some h"
    "unat h = ridx n (unat (r_head r)) (free_run s z n (unat (r_head r)) k)"
    by (auto simp: k_def)
  have "r\<lparr>r_head := r_head r\<rparr> = r" "(rings s)(ring \<mapsto> r) = rings s" using r(1) by auto
  then have "spin_ring nm ring zone s = Some (s\<lparr>rings := (rings s)(ring \<mapsto> r\<lparr>r_head := h\<rparr>)\<rparr>)"
    using h(1) r(1) by (cases "h = r_head r") (simp_all add: spin_ring_def set_ring_def)
  with h(2) show ?thesis by blast
qed

subsection \<open>The assertions of the debug build\<close>

text \<open>
  \<open>dequeue_pkts\<close> as a build with \<open>SIN_DEBUG\<close> has it: an assertion that does not hold ends
  the program, here as an undefined result.
\<close>

partial_function (option) dequeue_loop_debug :: "netmap_api \<Rightarrow> addr \<Rightarrow> addr \<Rightarrow> u32 \<Rightarrow> sin_list \<Rightarrow>
    'a pstore_scheme \<Rightarrow> (u32 \<times> sin_list \<times> 'a pstore_scheme) option" where
  "dequeue_loop_debug nm ring pzone nrx pl s = do {
     r \<leftarrow> rings s ring;
     if nm_ring_empty nm r then Some (nrx, pl, s)
     else if dequeue_asserts nm ring pzone (r_cur r) s then do {
       (pl, s) \<leftarrow> dequeue_one nm ring pzone pl s;
       dequeue_loop_debug nm ring pzone (nrx + 1) pl s
     }
     else None
   }"

definition dequeue_pkts_debug :: "netmap_api \<Rightarrow> addr \<Rightarrow> addr \<Rightarrow> sin_list \<Rightarrow> 'a pstore_scheme \<Rightarrow>
    (u32 \<times> sin_list \<times> 'a pstore_scheme) option" where
  "dequeue_pkts_debug nm ring pzone pl s = dequeue_loop_debug nm ring pzone 0 pl s"

lemma append_links: "sin_list_append l p s = Some (l', s') \<Longrightarrow> \<exists>h. s' = s\<lparr>links := h\<rparr>"
  by (rule exI [of _ "links s'"])
    (auto simp: sin_list_append_def SIN_TYPE_LINK_def Option.bind_eq_Some_conv
      split: if_splits option.splits)

text \<open>Only the link of the last packet of the list is written to.\<close>

lemma append_effect:
  assumes "sin_list_append l p s = Some (l', s')"
  shows "lst_tail l' = Some p" "\<And>a. lst_tail l \<noteq> Some a \<Longrightarrow> links s' a = links s a"
  using assms by (auto simp: sin_list_append_def SIN_TYPE_LINK_def split: if_splits Option.bind_splits option.splits)

lemma dequeue_one_effect:
  assumes z: "zones s zone = Some z" and r: "rings s ring = Some r" "ring_ok r"
    and p: "unat (r_cur r) < length (z_pmap z)" "p = z_pmap z ! unat (r_cur r)" "pkts s p = Some k"
    and d: "dequeue_one nm ring zone pl s = Some (pl', s')"
  shows "\<exists>h. s' = s\<lparr>times := (times s)(p_ts k \<mapsto> r_ts r), links := h,
      pkts := (pkts s)(p \<mapsto> rx_mark (r_slots r ! unat (r_cur r)) k),
      rings := (rings s)(ring \<mapsto> r\<lparr>r_cur := nm_ring_next nm r (r_cur r)\<rparr>)\<rparr> \<and>
      lst_tail pl' = Some p \<and> (\<forall>a. lst_tail pl \<noteq> Some a \<longrightarrow> h a = links s a)"
proof -
  note o = ring_okD [OF r(2)]
  have pm: "pmap_at zone (r_cur r) s = Some p" using z p by (simp add: pmap_at_def)
  have "dequeue_one nm ring zone pl s = (if times s (p_ts k) = None then None else
      sin_list_append pl p (s\<lparr>times := (times s)(p_ts k \<mapsto> r_ts r),
      pkts := (pkts s)(p \<mapsto> rx_mark (r_slots r ! unat (r_cur r)) k),
      rings := (rings s)(ring \<mapsto> r\<lparr>r_cur := nm_ring_next nm r (r_cur r)\<rparr>)\<rparr>))"
    using r pm p(3) o setflags_busy [OF p(3)]
    by (simp add: dequeue_one_def get_slot_def upd_pkt_def set_ring_def rx_mark_def
        mark_busy_def Let_def)
  with d have a: "sin_list_append pl p (s\<lparr>times := (times s)(p_ts k \<mapsto> r_ts r),
      pkts := (pkts s)(p \<mapsto> rx_mark (r_slots r ! unat (r_cur r)) k),
      rings := (rings s)(ring \<mapsto> r\<lparr>r_cur := nm_ring_next nm r (r_cur r)\<rparr>)\<rparr>) = Some (pl', s')"
    by (simp split: if_splits)
  from append_links [OF a] obtain h where h: "s' = s\<lparr>times := (times s)(p_ts k \<mapsto> r_ts r),
      pkts := (pkts s)(p \<mapsto> rx_mark (r_slots r ! unat (r_cur r)) k),
      rings := (rings s)(ring \<mapsto> r\<lparr>r_cur := nm_ring_next nm r (r_cur r)\<rparr>), links := h\<rparr>" by blast
  then show ?thesis using append_effect [OF a] by (intro exI [of _ h]) auto
qed

lemma slot_asserts:
  assumes "zones s zone = Some z" "rings s ring = Some r" "ring_ok r" "length (z_pmap z) = ring_size r"
    and "slot_pkt_ok nm s zone ring r (unat (r_cur r)) (z_pmap z ! unat (r_cur r))"
    and "\<not> busy_at s z (unat (r_cur r))" and "links s (z_pmap z ! unat (r_cur r)) = Some NULL"
  shows "dequeue_asserts nm ring zone (r_cur r) s"
proof -
  let ?c = "unat (r_cur r)"
  note o = ring_okD [OF assms(3)]
  from assms(5) obtain k where k: "pkts s (z_pmap z ! ?c) = Some k" "unat (zone_idx k) = ?c"
    "p_buf k = NETMAP_BUF nm ring (s_buf_idx (r_slots r ! ?c))" "p_type k = SIN_TYPE_PKT"
    by (rule slot_pkt_okE)
  have "append_asserts (z_pmap z ! ?c) s"
    using k(1,4) assms(7) by (simp add: append_asserts_def SIN_ITER_NEXT_def SIN_TYPE_IS_LINKABLE_def)
  moreover have "\<not> is_busy k" using assms(6) k(1) by (simp add: busy_at_def)
  moreover have "zone_idx k = r_cur r" using k(2) by (rule unsigned_word_eqI)
  moreover have "pmap_at zone (r_cur r) s = Some (z_pmap z ! ?c)"
    using assms(1,4) o(4) by (simp add: pmap_at_def)
  ultimately show ?thesis
    using k o assms(2) sin_pkt_isbusy_iff [OF k(1)] by (simp add: dequeue_asserts_def get_slot_def)
qed

text \<open>
  As long as the packets ahead are in order, not busy and on no list, no assertion fails. The
  list so far must not end in one of them; it is enough that its last packet is busy.
\<close>

definition tail_busy :: "'a pstore_scheme \<Rightarrow> sin_list \<Rightarrow> bool" where
  "tail_busy s pl \<longleftrightarrow> (case lst_tail pl of None \<Rightarrow> True
     | Some t \<Rightarrow> (case pkts s t of None \<Rightarrow> False | Some k \<Rightarrow> is_busy k))"

lemma dequeue_debug_eq:
  assumes nm: "netmap_ok nm" and z: "zones s zone = Some z" "length (z_pmap z) = n" "distinct (z_pmap z)"
    and r: "rings s ring = Some r" "ring_ok r" "ring_size r = n"
    and k: "rdist n (unat (r_cur r)) (unat (r_tail r)) = k"
    and ok: "\<forall>j \<in> set (window n (unat (r_cur r)) k).
      slot_pkt_ok nm s zone ring r j (z_pmap z ! j) \<and> \<not> busy_at s z j \<and> links s (z_pmap z ! j) = Some NULL"
    and tl: "tail_busy s pl"
  shows "dequeue_loop_debug nm ring zone nrx pl s = dequeue_loop nm ring zone nrx pl s"
  using z(1) r k ok tl
proof (induction k arbitrary: s r pl nrx)
  case 0
  note o = ring_okD [OF 0(3)]
  have "unat (r_cur r) = unat (r_tail r)" using 0(4,5) rdist_zero [OF o(4,5)] by simp
  then have "r_cur r = r_tail r" by (rule unsigned_word_eqI)
  then have "nm_ring_empty nm r" using nm by (simp add: netmap_ok_def)
  then show ?case using 0(2) by (simp add: dequeue_loop.simps dequeue_loop_debug.simps)
next
  case (Suc k)
  note prem = Suc.prems
  note o = ring_okD [OF prem(3)]
  let ?c = "unat (r_cur r)"
  define p where "p = z_pmap z ! ?c"
  have cn: "?c < n" and c: "?c \<in> set (window n ?c (Suc k))"
    using o prem(4) by (simp_all add: window_Suc)
  obtain q where q: "pkts s p = Some q" 
    using bspec [OF prem(6) c] unfolding p_def by (blast elim: slot_pkt_okE)
  have as: "dequeue_asserts nm ring zone (r_cur r) s"
    using slot_asserts [OF prem(1,2,3)] z(2) prem(4,6) c by simp
  have ne: "\<not> nm_ring_empty nm r" using nm prem(5) by (auto simp: netmap_ok_def)
  show ?case
  proof (cases "dequeue_one nm ring zone pl s")
    case None
    then show ?thesis using prem(2) as ne
      by (simp add: dequeue_loop.simps [of nm ring zone nrx] dequeue_loop_debug.simps [of nm ring zone nrx])
  next
    case (Some x)
    then obtain pl1 s1 where one: "dequeue_one nm ring zone pl s = Some (pl1, s1)" by (cases x) simp
    have "?c < length (z_pmap z)" using cn z(2) by simp
    from dequeue_one_effect [OF prem(1,2,3) this p_def q one]
    obtain h where s1: "s1 = s\<lparr>times := (times s)(p_ts q \<mapsto> r_ts r), links := h,
      pkts := (pkts s)(p \<mapsto> rx_mark (r_slots r ! ?c) q),
      rings := (rings s)(ring \<mapsto> r\<lparr>r_cur := nm_ring_next nm r (r_cur r)\<rparr>)\<rparr>"
      and pl1: "lst_tail pl1 = Some p" "\<forall>a. lst_tail pl \<noteq> Some a \<longrightarrow> h a = links s a" by blast
    define r1 where "r1 = r\<lparr>r_cur := nm_ring_next nm r (r_cur r)\<rparr>"
    note u1 = ring_cur_step(1) [OF nm prem(3,4,5), folded r1_def]
      and ok1 = ring_cur_step(2-5) [OF nm prem(3,4,5), folded r1_def]
      and d1 = ring_cur_step(6) [OF nm prem(3,4,5), folded r1_def]
    have kn: "Suc k < n" using rdist_less [of ?c n "unat (r_tail r)"] o prem(4,5) by simp
    have "slot_pkt_ok nm s1 zone ring r1 j (z_pmap z ! j) \<and> \<not> busy_at s1 z j \<and> links s1 (z_pmap z ! j) = Some NULL"
      if j: "j \<in> set (window n (unat (r_cur r1)) k)" for j
    proof -
      have jw: "j \<in> set (window n ?c (Suc k))" using j window_Suc [OF cn] by (simp add: u1)
      have "distinct (window n ?c (Suc k))" using distinct_window [OF cn] kn by simp
      then have "j \<noteq> ?c" using j window_Suc [OF cn, of k] by (auto simp: u1)
      moreover have "j < n" using jw set_window [OF cn, of "Suc k"] kn by simp
      ultimately have "z_pmap z ! j \<noteq> p" using z(2,3) cn by (simp add: p_def nth_eq_iff_index_eq)
      moreover have "lst_tail pl \<noteq> Some (z_pmap z ! j)"
        using prem(6,7) jw by (auto simp: tail_busy_def busy_at_def split: option.splits)
      ultimately show ?thesis using prem(6) jw pl1(2)
        by (auto simp: s1 r1_def slot_pkt_ok_def busy_at_def split: option.splits)
    qed
    moreover have "tail_busy s1 pl1" using pl1(1) by (simp add: tail_busy_def s1)
    ultimately have "dequeue_loop_debug nm ring zone (nrx + 1) pl1 s1 = dequeue_loop nm ring zone (nrx + 1) pl1 s1"
      using prem(1) ok1(1,2) d1 by (intro Suc.IH [of s1 r1]) (simp_all add: s1 r1_def)
    then show ?thesis using prem(2) as ne one
      by (simp add: dequeue_loop.simps [of nm ring zone nrx] dequeue_loop_debug.simps [of nm ring zone nrx])
  qed
qed

subsection \<open>The run of free slots\<close>

lemma free_run_free: "\<forall>i < free_run s z n h k. \<not> busy_at s z (ridx n h i)"
proof (intro allI impI)
  fix i assume i: "i < free_run s z n h k"
  then have "takeWhile (\<lambda>j. \<not> busy_at s z j) (window n h k) ! i = window n h k ! i"
    by (simp add: free_run_def takeWhile_nth)
  moreover have "i < k"
    using i length_takeWhile_le [of "\<lambda>j. \<not> busy_at s z j" "window n h k"] by (simp add: free_run_def)
  ultimately show "\<not> busy_at s z (ridx n h i)"
    using i nth_mem [of i "takeWhile (\<lambda>j. \<not> busy_at s z j) (window n h k)"]
    by (auto simp: free_run_def dest: set_takeWhileD)
qed

subsection \<open>The example store\<close>

lemma ex_rx_ring_facts:
  "ring_size ex_rx_ring = 3" "ring_ok ex_rx_ring" "rings ex_store 71 = Some ex_rx_ring"
  "unat (r_head ex_rx_ring) = 0" "unat (r_cur ex_rx_ring) = 0" "unat (r_tail ex_rx_ring) = 2"
  by (simp_all add: ring_ok_def ring_size_def ex_rx_ring_def ex_store_def)

lemma ex_rx_zone: "zones ex_store 10 = Some (ex_zone 61 [21, 22, 23])"
  by (simp add: ex_store_def)

subsection \<open>Properties\<close>

text \<open>
  \<open>dequeue_pkts\<close> returns, and takes exactly the packets between \<open>cur\<close> and \<open>tail\<close>, in ring
  order: their number is returned, they are appended to the list, each descriptor is marked
  busy and gets the length of its slot, each time stamp becomes that of the ring; \<open>cur\<close>
  arrives at \<open>tail\<close> and the descriptors of all other slots stay as they are.
\<close>

theorem dequeue_pkts_correct:
  fixes s :: "'a pstore_scheme"
  assumes "netmap_ok nm" and "zones s zone = Some z" and "rings s ring = Some r" and "ring_ok r"
    and "length (z_pmap z) = ring_size r" and "distinct (z_pmap z)"
    and "k = rdist (ring_size r) (unat (r_cur r)) (unat (r_tail r))"
    and "new = map ((!) (z_pmap z)) (window (ring_size r) (unat (r_cur r)) k)"
    and "\<forall>p \<in> set new. rx_ready s p"
    and "lst_repr (links s) pl xs" and "set new \<inter> set xs = {}" and "length xs + k < 2 ^ 32"
  shows "\<exists>pl' s'. dequeue_pkts nm ring zone pl s = Some (of_nat k, pl', s') \<and>
    lst_repr (links s') pl' (xs @ new) \<and> length new = k \<and>
    rings s' = (rings s)(ring \<mapsto> r\<lparr>r_cur := r_tail r\<rparr>) \<and>
    (\<forall>j < ring_size r. pkts s' (z_pmap z ! j) =
      (if z_pmap z ! j \<in> set new then map_option (rx_mark (r_slots r ! j)) (pkts s (z_pmap z ! j))
       else pkts s (z_pmap z ! j))) \<and>
    (\<forall>p \<in> set new. times s' (p_ts (the (pkts s p))) = Some (r_ts r)) \<and>
    mem s' = mem s \<and> queues s' = queues s"
proof -
  let ?w = "window (ring_size r) (unat (r_cur r)) k"
  note o = ring_okD [OF assms(4)]
  have k: "k < ring_size r" using rdist_less [OF o(4,5)] assms(7) by simp
  from dequeue_loop_works [OF assms(1,2,5,6,3,4) refl assms(7) [symmetric] assms(8-12), of 0]
  obtain pl' s' where d: "dequeue_loop nm ring zone 0 pl s = Some (0 + of_nat k, pl', s')"
    "lst_repr (links s') pl' (xs @ new)" "rings s' = (rings s)(ring \<mapsto> r\<lparr>r_cur := r_tail r\<rparr>)"
    "pkts s' = rx_fill (r_slots r) (z_pmap z) ?w (pkts s)"
    "\<forall>p \<in> set new. times s' (p_ts (the (pkts s p))) = Some (r_ts r)" "rx_frame s s'"
    by (elim exE conjE)
  have w: "distinct ?w" "\<forall>i \<in> set ?w. i < length (z_pmap z)"
    using distinct_window [OF o(4)] k set_window [OF o(4), of k] assms(5) by auto
  have at: "pkts s' (z_pmap z ! j) =
      (if z_pmap z ! j \<in> set new then map_option (rx_mark (r_slots r ! j)) (pkts s (z_pmap z ! j))
       else pkts s (z_pmap z ! j))" if j: "j < ring_size r" for j
  proof -
    have "z_pmap z ! j \<in> set new \<longleftrightarrow> j \<in> set ?w"
      using assms(5,6,8) w(2) j by (auto simp: nth_eq_iff_index_eq)
    then show ?thesis using rx_fill_at [OF assms(6) w, of j] j assms(5) by (simp add: d(4))
  qed
  have "length new = k" by (simp add: assms(8) window_def)
  then show ?thesis using d at rx_frame_simps [OF d(6)]
    by (intro exI [of _ pl'] exI [of _ s']) (simp add: dequeue_pkts_def)
qed

theorem dequeue_pkts_correct_witness:
  "\<exists>pl' s'. dequeue_pkts ex_nm 71 10 SIN_LIST_RESET ex_store = Some (2, pl', s') \<and>
     lst_repr (links s') pl' [21, 22] \<and> map_option is_busy (pkts s' 22) = Some True \<and>
     pkts s' 23 = pkts ex_store 23 \<and> times s' 42 = Some (7, 8)"
proof -
  have w: "window 3 0 2 = [0, 1]" by (simp add: window_def ridx_def numeral_2_eq_2)
  have rdy: "\<forall>p \<in> set [21, 22]. rx_ready ex_store p"
    by (simp add: rx_ready_def) (simp add: ex_defs)
  have z: "z_pmap (ex_zone 61 [21, 22, 23]) = [21, 22, 23]" by (simp add: ex_zone_def)
  have "\<exists>pl' s'. dequeue_pkts ex_nm 71 10 SIN_LIST_RESET ex_store = Some (of_nat 2, pl', s') \<and>
    lst_repr (links s') pl' ([] @ [21, 22]) \<and> length [21, 22 :: addr] = 2 \<and>
    rings s' = (rings ex_store)(71 \<mapsto> ex_rx_ring\<lparr>r_cur := r_tail ex_rx_ring\<rparr>) \<and>
    (\<forall>j < ring_size ex_rx_ring. pkts s' ([21, 22, 23] ! j) = (if [21, 22, 23] ! j \<in> set [21, 22 :: addr]
       then map_option (rx_mark (r_slots ex_rx_ring ! j)) (pkts ex_store ([21, 22, 23] ! j))
       else pkts ex_store ([21, 22, 23] ! j))) \<and>
    (\<forall>p \<in> set [21, 22]. times s' (p_ts (the (pkts ex_store p))) = Some (r_ts ex_rx_ring)) \<and>
    mem s' = mem ex_store \<and> queues s' = queues ex_store"
    by (rule dequeue_pkts_correct [OF ex_nm_ok ex_rx_zone ex_rx_ring_facts(3,2) _ _ _ _ rdy, unfolded z])
      (simp_all add: z ex_rx_ring_facts w rdist_def lst_repr_def SIN_LIST_RESET_def)
  then obtain pl' s' where d: "dequeue_pkts ex_nm 71 10 SIN_LIST_RESET ex_store = Some (of_nat 2, pl', s')"
    "lst_repr (links s') pl' ([] @ [21, 22])"
    "\<forall>j < ring_size ex_rx_ring. pkts s' ([21, 22, 23] ! j) = (if [21, 22, 23] ! j \<in> set [21, 22 :: addr]
       then map_option (rx_mark (r_slots ex_rx_ring ! j)) (pkts ex_store ([21, 22, 23] ! j))
       else pkts ex_store ([21, 22, 23] ! j))"
    "\<forall>p \<in> set [21, 22]. times s' (p_ts (the (pkts ex_store p))) = Some (r_ts ex_rx_ring)"
    by (elim exE conjE) blast
  have "map_option is_busy (pkts s' 22) = Some True" "pkts s' 23 = pkts ex_store 23"
    using spec [OF d(3), of 1] spec [OF d(3), of 2] by (simp_all add: ex_store_facts ex_rx_ring_facts)
  moreover have "times s' 42 = Some (7, 8)" using d(4) by (simp add: ex_store_facts ex_rx_ring_def)
  ultimately show ?thesis using d(1,2) by auto
qed

text \<open>
  C27. \<open>spin_ring\<close> returns, changes nothing but \<open>head\<close>, and gives back the longest run of slots
  starting at \<open>head\<close>, and not passing \<open>cur\<close>, whose packets are not busy: all of them are
  free, and \<open>head\<close> stops at \<open>cur\<close> or at a busy packet.
\<close>

theorem spin_ring_correct:
  assumes "netmap_ok nm" and "zones s zone = Some z" and "rings s ring = Some r" and "ring_ok r"
    and "length (z_pmap z) = ring_size r" and "\<forall>j < ring_size r. pkts s (z_pmap z ! j) \<noteq> None"
  shows "\<exists>h m. spin_ring nm ring zone s = Some (s\<lparr>rings := (rings s)(ring \<mapsto> r\<lparr>r_head := h\<rparr>)\<rparr>) \<and>
    unat h = ridx (ring_size r) (unat (r_head r)) m \<and>
    m \<le> rdist (ring_size r) (unat (r_head r)) (unat (r_cur r)) \<and>
    (\<forall>i < m. \<not> busy_at s z (ridx (ring_size r) (unat (r_head r)) i)) \<and>
    (h = r_cur r \<or> busy_at s z (unat h))"
proof -
  let ?n = "ring_size r" and ?h = "unat (r_head r)" and ?k = "rdist (ring_size r) (unat (r_head r)) (unat (r_cur r))"
  let ?m = "free_run s z ?n ?h ?k"
  note o = ring_okD [OF assms(4)]
  obtain h where h: "spin_ring nm ring zone s = Some (s\<lparr>rings := (rings s)(ring \<mapsto> r\<lparr>r_head := h\<rparr>)\<rparr>)"
    "unat h = ridx ?n ?h ?m" using spin_ring_works [OF assms(1,2,5,3,4) refl assms(6)] by blast
  have m: "?m \<le> ?k" using length_takeWhile_le [of _ "window ?n ?h ?k"] by (simp add: free_run_def)
  have run: "\<forall>i < ?m. \<not> busy_at s z (ridx ?n ?h i)"
    by (rule free_run_free)
  have "h = r_cur r \<or> busy_at s z (unat h)"
  proof (cases "?m = ?k")
    case True
    then have "unat h = unat (r_cur r)" using h(2) ridx_rdist [OF o(3,4)] by simp
    then have "h = r_cur r" by (rule unsigned_word_eqI)
    then show ?thesis by simp
  next
    case False
    then have "?m < length (window ?n ?h ?k)" using m by simp
    then have "busy_at s z (window ?n ?h ?k ! ?m)" unfolding free_run_def using nth_length_takeWhile by blast
    then show ?thesis using False m h(2) by simp
  qed
  with h m run show ?thesis by blast
qed

theorem spin_ring_correct_witness:
  "\<exists>h. spin_ring ex_nm 71 10 (ex_store\<lparr>rings := (rings ex_store)(71 \<mapsto> ex_rx_ring\<lparr>r_cur := 2\<rparr>)\<rparr>) =
     Some (ex_store\<lparr>rings := (rings ex_store)(71 \<mapsto> ex_rx_ring\<lparr>r_cur := 2, r_head := h\<rparr>)\<rparr>) \<and> h = 2"
proof -
  let ?s = "ex_store\<lparr>rings := (rings ex_store)(71 \<mapsto> ex_rx_ring\<lparr>r_cur := 2\<rparr>)\<rparr>"
  have "ring_ok (ex_rx_ring\<lparr>r_cur := 2\<rparr>)" by (simp add: ring_ok_def ring_size_def ex_rx_ring_def)
  moreover have "\<forall>j < 3. pkts ?s ([21, 22, 23] ! j) \<noteq> None"
    by (simp add: less_3) (simp add: ex_defs)
  moreover have "\<not> busy_at ?s (ex_zone 61 [21, 22, 23]) j" if "j < 3" for j
    using that by (auto simp: busy_at_def ex_zone_def ex_store_def less_Suc_eq numeral_3_eq_3)
  ultimately show ?thesis
    using spin_ring_correct [OF ex_nm_ok, of ?s 10 "ex_zone 61 [21, 22, 23]" 71 "ex_rx_ring\<lparr>r_cur := 2\<rparr>"]
      ex_rx_zone by (auto simp: ex_zone_def ring_size_def ex_rx_ring_def ridx_def)
qed

end
