(* ===== verification/Sin_Wrk_Thread.thy ===== *)
theory Sin_Wrk_Thread
  imports Sin_Signal Sin_Rx_Thread
begin

text \<open>
  Worker threads (\<open>sin_wrk_thread.c\<close>): the common first part of the receive and transmit
  threads. A worker has a control queue on which \<open>SIGTERM\<close> arrives, and a table of methods
  (the function pointers of \<open>struct sin_type_wrk_thread\<close>) that the thread itself and its
  owner call through.

  The public part sits at the start of the structure of the thread that uses it, so it has
  the address of that structure; the private part has a block of its own.
\<close>

text \<open>The two functions a worker runs, and the four methods.\<close>

datatype routine = Rx_routine | Tx_routine

datatype wrk_method = Wrk_dtor | Wrk_check_ctrl | Wrk_notify_on_ctrl | Wrk_get_tname

record sin_wrk_thread_private =
  wp_tid :: addr
  wp_tname :: ptr
  wp_ctrl_queue :: ptr
  wp_ctrl_notify_queue :: ptr
  wp_sigterm :: ptr
  wp_runner :: "routine option"

record sin_type_wrk_thread =
  w_type :: u32
  w_dtor :: "wrk_method option"
  w_check_ctrl :: "wrk_method option"
  w_notify_on_ctrl :: "wrk_method option"
  w_get_tname :: "wrk_method option"
  w_pvt :: ptr

record wstore = sgstore +
  wrks :: "addr \<rightharpoonup> sin_type_wrk_thread"
  pvts :: "addr \<rightharpoonup> sin_wrk_thread_private"

definition wrk_zero :: sin_type_wrk_thread where
  "wrk_zero = \<lparr>w_type = 0, w_dtor = None, w_check_ctrl = None, w_notify_on_ctrl = None,
     w_get_tname = None, w_pvt = NULL\<rparr>"

definition pvt_zero :: sin_wrk_thread_private where
  "pvt_zero = \<lparr>wp_tid = 0, wp_tname = NULL, wp_ctrl_queue = NULL, wp_ctrl_notify_queue = NULL,
     wp_sigterm = NULL, wp_runner = None\<rparr>"

definition upd_wrk :: "addr \<Rightarrow> (sin_type_wrk_thread \<Rightarrow> sin_type_wrk_thread) \<Rightarrow>
    'a wstore_scheme \<Rightarrow> 'a wstore_scheme option" where
  "upd_wrk a f s = map_option (\<lambda>w. s\<lparr>wrks := (wrks s)(a \<mapsto> f w)\<rparr>) (wrks s a)"

definition upd_pvt :: "addr \<Rightarrow> (sin_wrk_thread_private \<Rightarrow> sin_wrk_thread_private) \<Rightarrow>
    'a wstore_scheme \<Rightarrow> 'a wstore_scheme option" where
  "upd_pvt a f s = map_option (\<lambda>p. s\<lparr>pvts := (pvts s)(a \<mapsto> f p)\<rparr>) (pvts s a)"

definition pvt_of :: "addr \<Rightarrow> 'a wstore_scheme \<Rightarrow> (addr \<times> sin_wrk_thread_private) option" where
  "pvt_of swtp s = do { w \<leftarrow> wrks s swtp; a \<leftarrow> w_pvt w; p \<leftarrow> pvts s a; Some (a, p) }"

subsection \<open>Construction\<close>

text \<open>The undo labels, each falling through to the next.\<close>

definition wrk_undo_0 :: "addr \<Rightarrow> 'a wstore_scheme \<Rightarrow> 'a wstore_scheme option" where
  "wrk_undo_0 pvt s = do { s \<leftarrow> free pvt s; Some (s\<lparr>pvts := (pvts s)(pvt := None)\<rparr>) }"

definition wrk_undo_1 :: "addr \<Rightarrow> 'a wstore_scheme \<Rightarrow> 'a wstore_scheme option" where
  "wrk_undo_1 pvt s = do {
     p \<leftarrow> pvts s pvt;
     s \<leftarrow> (case wp_tname p of None \<Rightarrow> Some s | Some n \<Rightarrow> free n s);
     wrk_undo_0 pvt s
   }"

definition wrk_undo_2 :: "addr \<Rightarrow> 'a wstore_scheme \<Rightarrow> 'a wstore_scheme option" where
  "wrk_undo_2 pvt s = do {
     p \<leftarrow> pvts s pvt;
     q \<leftarrow> wp_ctrl_queue p;
     s \<leftarrow> sin_wi_queue_dtor q s;
     wrk_undo_1 pvt s
   }"

definition wrk_undo_3 :: "addr \<Rightarrow> 'a wstore_scheme \<Rightarrow> 'a wstore_scheme option" where
  "wrk_undo_3 pvt s = do {
     p \<leftarrow> pvts s pvt;
     sg \<leftarrow> wp_sigterm p;
     s \<leftarrow> sin_signal_dtor sg s;
     wrk_undo_2 pvt s
   }"

text \<open>The last part, with the queue in place: the signal and the thread.\<close>

definition wrk_start :: "addr \<Rightarrow> routine \<Rightarrow> errno option \<Rightarrow> 'a wstore_scheme \<Rightarrow>
    (int \<times> errno option \<times> 'a wstore_scheme) option" where
  "wrk_start pvt start_routine e s = do {
     let (sigterm, e, s) = sin_signal_ctor SIGTERM e s;
     s \<leftarrow> upd_pvt pvt (\<lambda>p. p\<lparr>wp_sigterm := sigterm\<rparr>) s;
     if sigterm = NULL then do {
       s \<leftarrow> wrk_undo_2 pvt s; Some (-1, e, s)
     } else do {
       s \<leftarrow> upd_pvt pvt (\<lambda>p. p\<lparr>wp_runner := Some start_routine\<rparr>) s;
       let (rval, tid, s) = pthread_create s;
       if rval \<noteq> 0 then do {
         s \<leftarrow> wrk_undo_3 pvt s; Some (-1, SET_ERR e (Errno rval), s)
       } else do {
         s \<leftarrow> upd_pvt pvt (\<lambda>p. p\<lparr>wp_tid := tid\<rparr>) s;
         Some (0, e, s)
       }
     }
   }"

text \<open>
  Up to and including \<open>pthread_create\<close>: from here on the new thread runs. The methods are
  set afterwards, by \<open>wrk_set_methods\<close>. The name is formatted by \<open>asprintf\<close>, which
  allocates it and leaves \<open>NULL\<close> when it fails.
\<close>

definition wrk_create :: "addr \<Rightarrow> routine \<Rightarrow> errno option \<Rightarrow> 'a wstore_scheme \<Rightarrow>
    (int \<times> errno option \<times> 'a wstore_scheme) option" where
  "wrk_create swtp start_routine e s = do {
     s \<leftarrow> upd_wrk swtp (\<lambda>w. w\<lparr>w_type := SIN_TYPE_WRK_THREAD\<rparr>) s;
     let (pvt, s) = malloc s;
     s \<leftarrow> upd_wrk swtp (\<lambda>w. w\<lparr>w_pvt := pvt\<rparr>) s;
     (case pvt of
        None \<Rightarrow> Some (-1, SET_ERR e ENOMEM, s)
      | Some pvt \<Rightarrow> do {
          let s = s\<lparr>pvts := (pvts s)(pvt \<mapsto> pvt_zero)\<rparr>;
          let (tname, s) = malloc s;
          s \<leftarrow> upd_pvt pvt (\<lambda>p. p\<lparr>wp_tname := tname\<rparr>) s;
          if tname = NULL then do {
            s \<leftarrow> wrk_undo_0 pvt s; Some (-1, SET_ERR e ENOMEM, s)
          } else do {
            (ctrl_queue, e, s) \<leftarrow> sin_wi_queue_ctor e s;
            s \<leftarrow> upd_pvt pvt (\<lambda>p. p\<lparr>wp_ctrl_queue := ctrl_queue\<rparr>) s;
            if ctrl_queue = NULL then do {
              s \<leftarrow> wrk_undo_1 pvt s; Some (-1, e, s)
            } else wrk_start pvt start_routine e s
          }
        })
   }"

definition wrk_set_methods :: "addr \<Rightarrow> 'a wstore_scheme \<Rightarrow> 'a wstore_scheme option" where
  "wrk_set_methods swtp = upd_wrk swtp (\<lambda>w. w\<lparr>w_dtor := Some Wrk_dtor,
     w_check_ctrl := Some Wrk_check_ctrl, w_notify_on_ctrl := Some Wrk_notify_on_ctrl,
     w_get_tname := Some Wrk_get_tname\<rparr>)"

definition sin_wrk_thread_ctor :: "addr \<Rightarrow> routine \<Rightarrow> errno option \<Rightarrow> 'a wstore_scheme \<Rightarrow>
    (int \<times> errno option \<times> 'a wstore_scheme) option" where
  "sin_wrk_thread_ctor swtp start_routine e s = do {
     (rval, e, s) \<leftarrow> wrk_create swtp start_routine e s;
     if rval \<noteq> 0 then Some (rval, e, s)
     else do { s \<leftarrow> wrk_set_methods swtp s; Some (0, e, s) }
   }"

subsection \<open>Methods\<close>

text \<open>\<open>CALL_METHOD\<close>: calling through a null function pointer is a memory error.\<close>

definition sin_wrk_thread_get_tname :: "addr \<Rightarrow> 'a wstore_scheme \<Rightarrow> ptr option" where
  "sin_wrk_thread_get_tname swtp s = do { (a, p) \<leftarrow> pvt_of swtp s; Some (wp_tname p) }"

definition call_get_tname :: "addr \<Rightarrow> 'a wstore_scheme \<Rightarrow> ptr option" where
  "call_get_tname swtp s = do {
     w \<leftarrow> wrks s swtp;
     m \<leftarrow> w_get_tname w;
     sin_wrk_thread_get_tname swtp s
   }"

definition sin_wrk_thread_check_ctrl :: "addr \<Rightarrow> 'a wstore_scheme \<Rightarrow>
    (int \<times> 'a wstore_scheme) option" where
  "sin_wrk_thread_check_ctrl swtp s = do {
     (a, p) \<leftarrow> pvt_of swtp s;
     q \<leftarrow> wp_ctrl_queue p;
     (r, s) \<leftarrow> sin_wi_queue_get_item q 0 0 s;
     (case r of
        Return (Some ssign) \<Rightarrow> do {
          signum \<leftarrow> sin_signal_get_signum ssign s;
          s \<leftarrow> (if Some ssign \<noteq> wp_sigterm p then sin_signal_dtor ssign s else Some s);
          Some (signum, s)
        }
      | _ \<Rightarrow> Some (-1, s))
   }"

definition sin_wrk_thread_notify_on_ctrl :: "addr \<Rightarrow> ptr \<Rightarrow> 'a wstore_scheme \<Rightarrow>
    'a wstore_scheme option" where
  "sin_wrk_thread_notify_on_ctrl swtp ctrl_notify_queue s = do {
     (a, _) \<leftarrow> pvt_of swtp s;
     upd_pvt a (\<lambda>p. p\<lparr>wp_ctrl_notify_queue := ctrl_notify_queue\<rparr>) s
   }"

text \<open>
  The new thread starts in \<open>sin_wrk_thread_runner\<close>, which calls the routine; both routines
  begin with \<open>CALL_METHOD(..., get_tname)\<close>.
\<close>

definition sin_wrk_thread_runner :: "addr \<Rightarrow> 'a wstore_scheme \<Rightarrow> (routine \<times> ptr) option" where
  "sin_wrk_thread_runner swtp s = do {
     (_, p) \<leftarrow> pvt_of swtp s;
     r \<leftarrow> wp_runner p;
     tname \<leftarrow> call_get_tname swtp s;
     Some (r, tname)
   }"

subsection \<open>Destruction\<close>

text \<open>
  The destructor up to \<open>pthread_join\<close>: the signal is queued, with a limit of one item, and
  the queue the thread may sleep in is pumped. The result of \<open>put_item\<close> is ignored.
\<close>

definition wrk_put_sigterm :: "addr \<Rightarrow> 'a wstore_scheme \<Rightarrow> 'a wstore_scheme option" where
  "wrk_put_sigterm swtp s = do {
     (_, p) \<leftarrow> pvt_of swtp s;
     sg \<leftarrow> wp_sigterm p;
     q \<leftarrow> wp_ctrl_queue p;
     (_, s) \<leftarrow> sin_wi_queue_put_item sg q 1 s;
     Some s
   }"

definition wrk_pump :: "addr \<Rightarrow> 'a wstore_scheme \<Rightarrow> 'a wstore_scheme option" where
  "wrk_pump swtp s = do {
     (_, p) \<leftarrow> pvt_of swtp s;
     (case wp_ctrl_notify_queue p of None \<Rightarrow> Some s
      | Some nq \<Rightarrow> do { (_, s) \<leftarrow> sin_wi_queue_pump nq s; Some s })
   }"

text \<open>After the join: \<open>while (sin_wrk_thread_check_ctrl(swtp) != -1)\<close>, then the releases.\<close>

partial_function (option) drain_ctrl :: "addr \<Rightarrow> 'a wstore_scheme \<Rightarrow> 'a wstore_scheme option" where
  "drain_ctrl swtp s = do {
     (r, s) \<leftarrow> sin_wrk_thread_check_ctrl swtp s;
     if r \<noteq> -1 then drain_ctrl swtp s else Some s
   }"

definition wrk_reap :: "addr \<Rightarrow> 'a wstore_scheme \<Rightarrow> 'a wstore_scheme option" where
  "wrk_reap swtp s = do {
     (pp, p) \<leftarrow> pvt_of swtp s;
     s \<leftarrow> pthread_join (wp_tid p) s;
     sg \<leftarrow> wp_sigterm p;
     s \<leftarrow> sin_signal_dtor sg s;
     s \<leftarrow> drain_ctrl swtp s;
     q \<leftarrow> wp_ctrl_queue p;
     s \<leftarrow> sin_wi_queue_dtor q s;
     s \<leftarrow> (case wp_tname p of None \<Rightarrow> Some s | Some n \<Rightarrow> free n s);
     wrk_undo_0 pp s
   }"

text \<open>
  The whole destructor. \<open>run\<close> is what the thread does until it ends, which is when the join
  returns.
\<close>

definition sin_wrk_thread_dtor :: "(addr \<Rightarrow> 'a wstore_scheme \<Rightarrow> 'a wstore_scheme option) \<Rightarrow>
    addr \<Rightarrow> 'a wstore_scheme \<Rightarrow> 'a wstore_scheme option" where
  "sin_wrk_thread_dtor run swtp s = do {
     s \<leftarrow> wrk_put_sigterm swtp s;
     s \<leftarrow> wrk_pump swtp s;
     s \<leftarrow> run swtp s;
     wrk_reap swtp s
   }"

end
