(* ===== verification/Sin_Threads.thy ===== *)
theory Sin_Threads
  imports Sin_Wrk_Thread
begin

text \<open>
  Creation and destruction of the receive and transmit threads (\<open>sin_rx_thread.c\<close>,
  \<open>sin_tx_thread.c\<close>) on top of the worker, from the working set of one ring
  (\<open>struct wrk_set\<close> of \<open>sin_stance.h\<close>).
\<close>

record wrk_set =
  ws_tx_ring :: addr
  ws_rx_ring :: addr
  ws_rx_zone :: ptr
  ws_tx_zone :: ptr
  ws_tx_thread :: ptr
  ws_rx_thread :: ptr
  ws_rx_sort :: ptr
  ws_queue_fd :: int

text \<open>
  The members of \<open>struct sin_rx_thread\<close> and \<open>struct sin_tx_thread\<close> behind the worker, as the
  constructors set them.
\<close>

record rx_obj =
  rxo_rx_ring :: addr
  rxo_rx_zone :: ptr
  rxo_rx_sort :: ptr
  rxo_queue_fd :: int

record tx_obj =
  txo_outpkt_queue :: ptr
  txo_tx_ring :: addr
  txo_tx_zone :: ptr
  txo_queue_fd :: int

record tstore = wstore +
  rxts :: "addr \<rightharpoonup> rx_obj"
  txts :: "addr \<rightharpoonup> tx_obj"

subsection \<open>Receive threads\<close>

definition sin_rx_thread_ctor :: "wrk_set \<Rightarrow> errno option \<Rightarrow> 'a tstore_scheme \<Rightarrow>
    (ptr \<times> errno option \<times> 'a tstore_scheme) option" where
  "sin_rx_thread_ctor wsp e s = (case malloc s of
     (None, s) \<Rightarrow> Some (NULL, SET_ERR e ENOMEM, s)
   | (Some srtp, s) \<Rightarrow> do {
       let s = s\<lparr>wrks := (wrks s)(srtp \<mapsto> wrk_zero), rxts := (rxts s)(srtp \<mapsto>
         \<lparr>rxo_rx_ring = ws_rx_ring wsp, rxo_rx_zone = ws_rx_zone wsp,
          rxo_rx_sort = ws_rx_sort wsp, rxo_queue_fd = ws_queue_fd wsp\<rparr>)\<rparr>;
       (r, e, s) \<leftarrow> sin_wrk_thread_ctor srtp Rx_routine e s;
       if r \<noteq> 0 then do {
         s \<leftarrow> free srtp s;
         Some (NULL, e, s\<lparr>wrks := (wrks s)(srtp := None), rxts := (rxts s)(srtp := None)\<rparr>)
       } else Some (Some srtp, e, s)
     })"

text \<open>\<open>CALL_METHOD(&srtp->t, dtor)\<close>; \<open>run\<close> is what the thread does until the join returns.\<close>

definition call_dtor :: "(addr \<Rightarrow> 'a wstore_scheme \<Rightarrow> 'a wstore_scheme option) \<Rightarrow> addr \<Rightarrow>
    'a wstore_scheme \<Rightarrow> 'a wstore_scheme option" where
  "call_dtor run swtp s = do {
     w \<leftarrow> wrks s swtp;
     m \<leftarrow> w_dtor w;
     sin_wrk_thread_dtor run swtp s
   }"

definition sin_rx_thread_dtor :: "(addr \<Rightarrow> 'a tstore_scheme \<Rightarrow> 'a tstore_scheme option) \<Rightarrow>
    addr \<Rightarrow> 'a tstore_scheme \<Rightarrow> 'a tstore_scheme option" where
  "sin_rx_thread_dtor run srtp s = do {
     s \<leftarrow> call_dtor run srtp s;
     s \<leftarrow> free srtp s;
     Some (s\<lparr>wrks := (wrks s)(srtp := None), rxts := (rxts s)(srtp := None)\<rparr>)
   }"

subsection \<open>Transmit threads\<close>

definition tx_undo_1 :: "addr \<Rightarrow> 'a tstore_scheme \<Rightarrow> 'a tstore_scheme option" where
  "tx_undo_1 sttp s = do {
     s \<leftarrow> free sttp s;
     Some (s\<lparr>wrks := (wrks s)(sttp := None), txts := (txts s)(sttp := None)\<rparr>)
   }"

definition sin_tx_thread_ctor :: "wrk_set \<Rightarrow> errno option \<Rightarrow> 'a tstore_scheme \<Rightarrow>
    (ptr \<times> errno option \<times> 'a tstore_scheme) option" where
  "sin_tx_thread_ctor wsp e s = (case malloc s of
     (None, s) \<Rightarrow> Some (NULL, SET_ERR e ENOMEM, s)
   | (Some sttp, s) \<Rightarrow> do {
       let s = s\<lparr>wrks := (wrks s)(sttp \<mapsto> wrk_zero)\<rparr>;
       (outq, e, s) \<leftarrow> sin_wi_queue_ctor e s;
       (case outq of
          None \<Rightarrow> do { s \<leftarrow> tx_undo_1 sttp s; Some (NULL, e, s) }
        | Some q \<Rightarrow> do {
            let s = s\<lparr>txts := (txts s)(sttp \<mapsto> \<lparr>txo_outpkt_queue = outq,
              txo_tx_ring = ws_tx_ring wsp, txo_tx_zone = ws_tx_zone wsp,
              txo_queue_fd = ws_queue_fd wsp\<rparr>)\<rparr>;
            (r, e, s) \<leftarrow> sin_wrk_thread_ctor sttp Tx_routine e s;
            if r \<noteq> 0 then do {
              s \<leftarrow> sin_wi_queue_dtor q s;
              s \<leftarrow> tx_undo_1 sttp s;
              Some (NULL, e, s)
            } else do {
              w \<leftarrow> wrks s sttp;
              m \<leftarrow> w_notify_on_ctrl w;
              s \<leftarrow> sin_wrk_thread_notify_on_ctrl sttp outq s;
              Some (Some sttp, e, s)
            }
          })
     })"

definition sin_tx_thread_get_out_queue :: "addr \<Rightarrow> 'a tstore_scheme \<Rightarrow> addr option" where
  "sin_tx_thread_get_out_queue sttp s = do { t \<leftarrow> txts s sttp; txo_outpkt_queue t }"

definition sin_tx_thread_dtor :: "(addr \<Rightarrow> 'a tstore_scheme \<Rightarrow> 'a tstore_scheme option) \<Rightarrow>
    addr \<Rightarrow> 'a tstore_scheme \<Rightarrow> 'a tstore_scheme option" where
  "sin_tx_thread_dtor run sttp s = do {
     t \<leftarrow> txts s sttp;
     s \<leftarrow> call_dtor run sttp s;
     q \<leftarrow> txo_outpkt_queue t;
     s \<leftarrow> sin_wi_queue_dtor q s;
     tx_undo_1 sttp s
   }"

end
