(* ===== verification/Sin_Rx_Safety.thy ===== *)
theory Sin_Rx_Safety
  imports Sin_Rx_Thread
begin

text \<open>
  The life of the slots of a receive ring, as a step relation: the receive thread takes
  packets and gives slots back, the kernel fills slots, other threads work on busy packets
  and return them, in any order. The invariant says that the packets in use all lie
  between \<open>head\<close> and \<open>cur\<close>; hence the kernel is never handed a slot whose buffer is in
  use, and the assertions of \<open>dequeue_pkts\<close> hold.
\<close>

text \<open>
  What the kernel may do to a ring during \<open>poll\<close>: move \<open>tail\<close> forward, write the time
  stamp and the lengths of slots; it leaves \<open>head\<close>, \<open>cur\<close> and the buffers of the slots.
\<close>

definition kernel_step :: "netmap_ring \<Rightarrow> netmap_ring \<Rightarrow> bool" where
  "kernel_step r r' \<longleftrightarrow> num_slots r' = num_slots r \<and> r_head r' = r_head r \<and> r_cur r' = r_cur r \<and>
     unat (r_tail r') < ring_size r \<and> map s_buf_idx (r_slots r') = map s_buf_idx (r_slots r) \<and>
     rdist (ring_size r) (unat (r_head r)) (unat (r_tail r))
       \<le> rdist (ring_size r) (unat (r_head r)) (unat (r_tail r'))"

text \<open>
  What other threads may do while they hold busy packets: relink them, rewrite or exchange
  their buffers; the packets that are not busy and the indices of the ring stay.
\<close>

definition work_step :: "netmap_api \<Rightarrow> addr \<Rightarrow> addr \<Rightarrow> 'a pstore_scheme \<Rightarrow> 'a pstore_scheme \<Rightarrow> bool" where
  "work_step nm ring zone s s' \<longleftrightarrow> (case (zones s zone, rings s ring, rings s' ring) of
     (Some z, Some r, Some r') \<Rightarrow> zone_ok nm s' zone ring \<and> zones s' zone = Some z \<and>
       r' = r\<lparr>r_slots := r_slots r'\<rparr> \<and>
       (\<forall>j < ring_size r. busy_at s' z j = busy_at s z j \<and>
          (\<not> busy_at s z j \<longrightarrow> rx_ready s' (z_pmap z ! j)))
   | _ \<Rightarrow> False)"

inductive rx_step :: "netmap_api \<Rightarrow> addr \<Rightarrow> addr \<Rightarrow> 'a pstore_scheme \<Rightarrow> 'a pstore_scheme \<Rightarrow> bool"
  for nm ring zone where
  deq: "dequeue_pkts nm ring zone SIN_LIST_RESET s = Some (nrx, pl, s') \<Longrightarrow> rx_step nm ring zone s s'"
| spin: "spin_ring nm ring zone s = Some s' \<Longrightarrow> rx_step nm ring zone s s'"
| poll: "rings s ring = Some r \<Longrightarrow> kernel_step r r' \<Longrightarrow>
    rx_step nm ring zone s (s\<lparr>rings := (rings s)(ring \<mapsto> r')\<rparr>)"
| ret: "links s p = Some NULL \<Longrightarrow> sin_pkt_zone_ret_pkt p s = Some s' \<Longrightarrow> rx_step nm ring zone s s'"
| work: "work_step nm ring zone s s' \<Longrightarrow> rx_step nm ring zone s s'"

inductive_cases rx_stepE: "rx_step nm ring zone s s'"

inductive rx_reach :: "netmap_api \<Rightarrow> addr \<Rightarrow> addr \<Rightarrow> 'a pstore_scheme \<Rightarrow> 'a pstore_scheme \<Rightarrow> bool"
  for nm ring zone where
  start: "rx_reach nm ring zone s s"
| more: "rx_reach nm ring zone s s' \<Longrightarrow> rx_step nm ring zone s' s'' \<Longrightarrow> rx_reach nm ring zone s s''"

subsection \<open>The invariant\<close>

definition ring_order :: "netmap_ring \<Rightarrow> bool" where
  "ring_order r \<longleftrightarrow> rdist (ring_size r) (unat (r_head r)) (unat (r_cur r))
     \<le> rdist (ring_size r) (unat (r_head r)) (unat (r_tail r))"

definition slots_inv :: "'a pstore_scheme \<Rightarrow> sin_pkt_zone \<Rightarrow> netmap_ring \<Rightarrow> bool" where
  "slots_inv s z r \<longleftrightarrow> (\<forall>j < ring_size r.
     (busy_at s z j \<longrightarrow> rdist (ring_size r) (unat (r_head r)) j
        < rdist (ring_size r) (unat (r_head r)) (unat (r_cur r))) \<and>
     (\<not> busy_at s z j \<longrightarrow> rx_ready s (z_pmap z ! j)))"

definition rx_inv :: "netmap_api \<Rightarrow> addr \<Rightarrow> addr \<Rightarrow> 'a pstore_scheme \<Rightarrow> bool" where
  "rx_inv nm ring zone s \<longleftrightarrow> zone_ok nm s zone ring \<and>
     (case (zones s zone, rings s ring) of
        (Some z, Some r) \<Rightarrow> ring_order r \<and> slots_inv s z r | _ \<Rightarrow> False)"

lemma rx_invE:
  assumes "rx_inv nm ring zone s"
  obtains z r where "zone_ok nm s zone ring" "zones s zone = Some z" "rings s ring = Some r"
    "ring_ok r" "length (z_pmap z) = ring_size r" "distinct (z_pmap z)" "ring_order r" "slots_inv s z r"
    "\<And>i. i < ring_size r \<Longrightarrow> slot_pkt_ok nm s zone ring r i (z_pmap z ! i)"
  using assms by (auto simp: rx_inv_def zone_ok_def split: option.splits)

lemma rx_invI:
  assumes "zone_ok nm s zone ring" "zones s zone = Some z" "rings s ring = Some r"
    "ring_order r" "slots_inv s z r"
  shows "rx_inv nm ring zone s"
  using assms by (simp add: rx_inv_def)

lemma slot_pkt_ok_pkt: "slot_pkt_ok nm s zone ring r i p \<Longrightarrow> pkts s p \<noteq> None"
  by (auto simp: slot_pkt_ok_def split: option.splits)

text \<open>Changing a ring but not its buffers keeps the zone in order.\<close>

lemma zone_ok_ring:
  assumes "zone_ok nm s zone ring" "rings s ring = Some r" "ring_ok r'" "ring_size r' = ring_size r"
    and b: "map s_buf_idx (r_slots r') = map s_buf_idx (r_slots r)"
  shows "zone_ok nm (s\<lparr>rings := (rings s)(ring \<mapsto> r')\<rparr>) zone ring"
proof -
  have "s_buf_idx (r_slots r' ! i) = s_buf_idx (r_slots r ! i)" if "i < ring_size r" for i
  proof -
    have "length (r_slots r) = ring_size r" "length (r_slots r') = ring_size r"
      using assms by (auto simp: zone_ok_def ring_ok_def split: option.splits)
    then show ?thesis using that b by (metis nth_map)
  qed
  then show ?thesis using assms
    by (auto simp: zone_ok_def slot_pkt_ok_def split: option.splits)
qed

lemma rx_ready_rings [simp]: "rx_ready (s\<lparr>rings := R\<rparr>) p = rx_ready s p"
  by (simp add: rx_ready_def cong: option.case_cong)

lemma busy_at_rings [simp]: "busy_at (s\<lparr>rings := R\<rparr>) z j = busy_at s z j"
  by (simp add: busy_at_def)

subsection \<open>Each kind of step keeps it\<close>

lemma spin_keeps:
  assumes nm: "netmap_ok nm" and inv: "rx_inv nm ring zone s" and st: "spin_ring nm ring zone s = Some s'"
  shows "rx_inv nm ring zone s'"
proof -
  from inv obtain z r where i: "zone_ok nm s zone ring" "zones s zone = Some z" "rings s ring = Some r"
    "ring_ok r" "length (z_pmap z) = ring_size r" "distinct (z_pmap z)" "ring_order r" "slots_inv s z r"
    "\<And>i. i < ring_size r \<Longrightarrow> slot_pkt_ok nm s zone ring r i (z_pmap z ! i)"
    by (rule rx_invE) blast
  let ?n = "ring_size r" and ?h = "unat (r_head r)" and ?c = "unat (r_cur r)" and ?t = "unat (r_tail r)"
  note o = ring_okD [OF i(4)]
  have pk: "\<forall>j < ?n. pkts s (z_pmap z ! j) \<noteq> None" using i(9) slot_pkt_ok_pkt by metis
  let ?k = "rdist ?n ?h ?c" and ?m = "free_run s z ?n ?h (rdist ?n ?h ?c)"
  obtain h where h: "s' = s\<lparr>rings := (rings s)(ring \<mapsto> r\<lparr>r_head := h\<rparr>)\<rparr>" "unat h = ridx ?n ?h ?m"
    using spin_ring_works [OF nm i(2,5,3,4) refl pk] st by auto
  define r' where "r' = r\<lparr>r_head := h\<rparr>"
  have r': "ring_size r' = ?n" "r_cur r' = r_cur r" "r_tail r' = r_tail r" "r_slots r' = r_slots r"
    "r_head r' = h" by (simp_all add: r'_def ring_size_def)
  have m: "?m \<le> ?k" using length_takeWhile_le [of _ "window ?n ?h ?k"] by (simp add: free_run_def)
  have kn: "?k < ?n" "?k \<le> rdist ?n ?h ?t" using o i(7) by (simp_all add: rdist_less ring_order_def)
  have dc: "rdist ?n (unat h) ?c = ?k - ?m" using rdist_ridx_left [OF o(3,4) m] by (simp add: h(2))
  have dt: "rdist ?n (unat h) ?t = rdist ?n ?h ?t - ?m"
    using rdist_ridx_left [OF o(3,5), of ?m] m kn by (simp add: h(2))
  have run: "\<not> busy_at s z (ridx ?n ?h j)" if "j < ?m" for j
    using that m takeWhile_nth [of j "\<lambda>j. \<not> busy_at s z j" "window ?n ?h ?k"]
      nth_mem [of j "takeWhile (\<lambda>j. \<not> busy_at s z j) (window ?n ?h ?k)"]
    by (auto simp: free_run_def dest: set_takeWhileD)
  have sl: "slots_inv s' z r'"
    unfolding slots_inv_def r'
  proof (intro allI impI conjI)
    fix j assume j: "j < ?n"
    { assume "busy_at s' z j"
      then have b: "busy_at s z j" by (simp add: h(1))
      then have lt: "rdist ?n ?h j < ?k" using i(8) j by (simp add: slots_inv_def)
      have "\<not> rdist ?n ?h j < ?m" using run [of "rdist ?n ?h j"] b ridx_rdist [OF o(3) j] by auto
      then show "rdist ?n (unat h) j < rdist ?n (unat h) ?c"
        using rdist_ridx_left [OF o(3) j, of ?m] lt dc by (simp add: h(2)) }
    assume "\<not> busy_at s' z j"
    then show "rx_ready s' (z_pmap z ! j)" using i(8) j by (simp add: h(1) slots_inv_def)
  qed
  have "unat h < ?n" using h(2) o(1) by simp
  then have "ring_ok r'" using i(4) o by (simp add: ring_ok_def r')
  then have "zone_ok nm s' zone ring" using zone_ok_ring [OF i(1,3)] r' h(1) by (simp add: r'_def)
  moreover have "ring_order r'" using m kn(2) dc dt by (simp add: ring_order_def r')
  ultimately show ?thesis using i(2) sl by (intro rx_invI) (simp_all add: h(1) r'_def)
qed

lemma kernel_step_ok:
  assumes "kernel_step r r'" and "ring_ok r"
  shows "ring_ok r'" "ring_size r' = ring_size r"
proof -
  show "ring_size r' = ring_size r" using assms(1) by (simp add: kernel_step_def ring_size_def)
  moreover have "length (r_slots r') = length (r_slots r)"
    using assms(1) by (metis kernel_step_def length_map)
  ultimately show "ring_ok r'" using assms by (simp add: kernel_step_def ring_ok_def)
qed

lemma poll_keeps:
  assumes inv: "rx_inv nm ring zone s" and r0: "rings s ring = Some r" and k: "kernel_step r r'"
  shows "rx_inv nm ring zone (s\<lparr>rings := (rings s)(ring \<mapsto> r')\<rparr>)"
proof -
  from inv r0 obtain z where i: "zone_ok nm s zone ring" "zones s zone = Some z" "ring_ok r"
    "ring_order r" "slots_inv s z r"
    by (auto elim: rx_invE)
  note k' = kernel_step_ok [OF k i(3)]
  have "zone_ok nm (s\<lparr>rings := (rings s)(ring \<mapsto> r')\<rparr>) zone ring"
    using zone_ok_ring [OF i(1) r0 k'] k by (simp add: kernel_step_def)
  moreover have "ring_order r'" using i(4) k k'(2) by (simp add: ring_order_def kernel_step_def)
  moreover have "slots_inv (s\<lparr>rings := (rings s)(ring \<mapsto> r')\<rparr>) z r'"
    using i(5) k k'(2) by (simp add: slots_inv_def kernel_step_def)
  ultimately show ?thesis using i(2) by (intro rx_invI) simp_all
qed

lemma work_keeps:
  assumes inv: "rx_inv nm ring zone s" and w: "work_step nm ring zone s s'"
  shows "rx_inv nm ring zone s'"
proof -
  from inv obtain z r where i: "zones s zone = Some z" "rings s ring = Some r" "ring_order r"
    "slots_inv s z r" by (auto elim: rx_invE)
  with w obtain r' where w': "rings s' ring = Some r'" "zone_ok nm s' zone ring" "zones s' zone = Some z"
    "r' = r\<lparr>r_slots := r_slots r'\<rparr>" "\<forall>j < ring_size r. busy_at s' z j = busy_at s z j \<and>
      (\<not> busy_at s z j \<longrightarrow> rx_ready s' (z_pmap z ! j))"
    by (auto simp: work_step_def split: option.splits)
  have h: "ring_size r' = ring_size r" "r_head r' = r_head r" "r_cur r' = r_cur r" "r_tail r' = r_tail r"
    by (subst w'(4), simp add: ring_size_def)+
  have "ring_order r'" "slots_inv s' z r'"
    using i(3,4) w'(5) by (simp_all add: ring_order_def slots_inv_def h)
  then show ?thesis using w' by (intro rx_invI) simp_all
qed

lemma ret_keeps:
  assumes inv: "rx_inv nm ring zone s" and l: "links s p = Some NULL"
    and st: "sin_pkt_zone_ret_pkt p s = Some s'"
  shows "rx_inv nm ring zone s'"
proof -
  from inv obtain z r where i: "zone_ok nm s zone ring" "zones s zone = Some z" "rings s ring = Some r"
    "ring_order r" "slots_inv s z r" "\<And>i. i < ring_size r \<Longrightarrow> slot_pkt_ok nm s zone ring r i (z_pmap z ! i)"
    by (rule rx_invE) blast
  from st obtain k where k: "pkts s p = Some k" "s' = s\<lparr>pkts := (pkts s)(p \<mapsto> mark_free k)\<rparr>"
    by (cases "pkts s p")
      (auto simp: sin_pkt_zone_ret_pkt_def setflags_free mark_free_def sin_pkt_setflags_def)
  have same: "slot_pkt_ok nm s' zone ring r j q = slot_pkt_ok nm s zone ring r j q" for j q
    using k by (auto simp: slot_pkt_ok_def mark_free_def split: option.splits)
  have "zone_ok nm s' zone ring" using i(1-3) same by (auto simp: zone_ok_def k(2) split: option.splits)
  moreover have "slots_inv s' z r"
    unfolding slots_inv_def
  proof (intro allI impI conjI)
    fix j assume j: "j < ring_size r"
    { assume "busy_at s' z j"
      then have "busy_at s z j" by (auto simp: busy_at_def k(2) split: if_splits)
      then show "rdist (ring_size r) (unat (r_head r)) j
          < rdist (ring_size r) (unat (r_head r)) (unat (r_cur r))"
        using i(5) j by (simp add: slots_inv_def) }
    assume nb: "\<not> busy_at s' z j"
    show "rx_ready s' (z_pmap z ! j)"
    proof (cases "z_pmap z ! j = p")
      case True
      then show ?thesis using i(6) [OF j] l k by (auto simp: slot_pkt_ok_def rx_ready_def mark_free_def)
    next
      case False
      then have "busy_at s' z j = busy_at s z j" by (simp add: busy_at_def k(2))
      with nb have "rx_ready s (z_pmap z ! j)" using i(5) j by (simp add: slots_inv_def)
      with False show ?thesis by (simp add: rx_ready_def k(2) cong: option.case_cong)
    qed
  qed
  ultimately show ?thesis using i(2-4) by (intro rx_invI) (simp_all add: k(2))
qed

lemma deq_state_inv:
  assumes i: "zone_ok nm s zone ring" "zones s zone = Some z" "rings s ring = Some r"
    "ring_ok r" "length (z_pmap z) = ring_size r" "distinct (z_pmap z)" "ring_order r" "slots_inv s z r"
    "\<And>i. i < ring_size r \<Longrightarrow> slot_pkt_ok nm s zone ring r i (z_pmap z ! i)"
  defines "n \<equiv> ring_size r" and "h \<equiv> unat (r_head r)"
    and "win \<equiv> set (window (ring_size r) (unat (r_cur r)) (rdist (ring_size r) (unat (r_cur r)) (unat (r_tail r))))"
  assumes rings: "rings s1 = (rings s)(ring \<mapsto> r\<lparr>r_cur := r_tail r\<rparr>)" and fr: "rx_frame s s1"
    and at: "\<And>j. j < n \<Longrightarrow> pkts s1 (z_pmap z ! j) = (if j \<in> win
      then map_option (rx_mark (r_slots r ! j)) (pkts s (z_pmap z ! j)) else pkts s (z_pmap z ! j))"
    and ts: "\<forall>t. times s1 t = times s t \<or> times s t \<noteq> None \<and> times s1 t = Some (r_ts r)"
    and lk: "\<And>j. j < n \<Longrightarrow> j \<notin> win \<Longrightarrow> links s1 (z_pmap z ! j) = links s (z_pmap z ! j)"
  shows "rx_inv nm ring zone s1"
proof -
  let ?r = "r\<lparr>r_cur := r_tail r\<rparr>"
  note o = ring_okD [OF i(4)]
  have ord: "rdist n h (unat (r_cur r)) \<le> rdist n h (unat (r_tail r))"
    using i(7) by (simp add: ring_order_def n_def h_def)
  have w: "win = {j. j < n \<and> rdist n h (unat (r_cur r)) \<le> rdist n h j \<and> rdist n h j < rdist n h (unat (r_tail r))}"
    using window_between [OF o(3,4,5)] ord by (simp add: win_def n_def h_def)
  have tsN: "times s1 t \<noteq> None" if "times s t \<noteq> None" for t using spec [OF ts, of t] that by auto
  have sp: "slot_pkt_ok nm s1 zone ring ?r j (z_pmap z ! j)" if j: "j < n" for j
    using i(9) [of j] at [OF j] j tsN by (auto simp: slot_pkt_ok_def n_def split: option.splits)
  have "ring_ok ?r" "ring_size ?r = n" using i(4) o by (simp_all add: ring_ok_def ring_size_def n_def)
  then have zok: "zone_ok nm s1 zone ring"
    using i(2,5,6) rings sp rx_frame_simps(1) [OF fr] by (simp add: zone_ok_def n_def)
  have "slots_inv s1 z ?r"
    unfolding slots_inv_def \<open>ring_size ?r = n\<close>
  proof (intro allI impI conjI)
    fix j assume j: "j < n"
    have b: "busy_at s1 z j \<longleftrightarrow> j \<in> win \<or> busy_at s z j"
      using at [OF j] i(9) [of j] j by (auto simp: busy_at_def slot_pkt_ok_def n_def split: option.splits)
    { assume "busy_at s1 z j"
      then have "j \<in> win \<or> rdist n h j < rdist n h (unat (r_cur r))"
        using b i(8) j by (auto simp: slots_inv_def n_def h_def)
      then show "rdist n (unat (r_head ?r)) j < rdist n (unat (r_head ?r)) (unat (r_cur ?r))"
        using ord by (auto simp: w h_def) }
    assume "\<not> busy_at s1 z j"
    then have "j \<notin> win" "rx_ready s (z_pmap z ! j)" using b i(8) j by (auto simp: slots_inv_def n_def)
    then show "rx_ready s1 (z_pmap z ! j)"
      using at [OF j] lk [OF j] tsN by (auto simp: rx_ready_def split: option.splits)
  qed
  then show ?thesis using zok i(2) rings rx_frame_simps(1) [OF fr]
    by (intro rx_invI) (simp_all add: ring_order_def ring_size_def)
qed

lemma deq_keeps:
  assumes nm: "netmap_ok nm" and inv: "rx_inv nm ring zone s"
    and st: "dequeue_pkts nm ring zone SIN_LIST_RESET s = Some (nrx, pl, s')"
  shows "rx_inv nm ring zone s'"
proof -
  from inv obtain z r where i: "zone_ok nm s zone ring" "zones s zone = Some z" "rings s ring = Some r"
    "ring_ok r" "length (z_pmap z) = ring_size r" "distinct (z_pmap z)" "ring_order r" "slots_inv s z r"
    "\<And>i. i < ring_size r \<Longrightarrow> slot_pkt_ok nm s zone ring r i (z_pmap z ! i)"
    by (rule rx_invE) blast
  let ?n = "ring_size r" and ?h = "unat (r_head r)" and ?c = "unat (r_cur r)" and ?t = "unat (r_tail r)"
  let ?k = "rdist ?n ?c ?t"
  let ?new = "map ((!) (z_pmap z)) (window ?n ?c ?k)"
  note o = ring_okD [OF i(4)]
  have ord: "rdist ?n ?h ?c \<le> rdist ?n ?h ?t" using i(7) by (simp add: ring_order_def)
  note w = window_between [OF o(3,4,5) ord]
  have free: "\<not> busy_at s z j" if "j \<in> set (window ?n ?c ?k)" for j
    using that i(8) unfolding w slots_inv_def by fastforce
  have "\<forall>p \<in> set ?new. rx_ready s p"
    using free i(8) unfolding w slots_inv_def by (auto simp: w)
  moreover have "length [] + ?k < 2 ^ 32"
    using rdist_less [OF o(4,5)] unat_u32_bound [of "num_slots r"] by (simp add: ring_size_def)
  ultimately obtain pl' s1 where d: "dequeue_loop nm ring zone 0 SIN_LIST_RESET s
        = Some (0 + of_nat ?k, pl', s1)"
      "rings s1 = (rings s)(ring \<mapsto> r\<lparr>r_cur := r_tail r\<rparr>)"
      "pkts s1 = rx_fill (r_slots r) (z_pmap z) (window ?n ?c ?k) (pkts s)"
      "rx_frame s s1" "\<forall>t. times s1 t = times s t \<or> times s t \<noteq> None \<and> times s1 t = Some (r_ts r)"
      "\<forall>a. a \<notin> set ([] @ ?new) \<longrightarrow> links s1 a = links s a"
    using dequeue_loop_works [OF nm i(2,5,6,3,4) refl refl refl, of SIN_LIST_RESET "[]" 0] by auto
  then have s': "s' = s1" using st by (simp add: dequeue_pkts_def)
  have "distinct (window ?n ?c ?k)" using distinct_window [OF o(4)] rdist_less [OF o(4,5)] by simp
  moreover have "\<forall>j \<in> set (window ?n ?c ?k). j < length (z_pmap z)" using i(5) by (simp add: w)
  ultimately have at: "pkts s1 (z_pmap z ! j) = (if j \<in> set (window ?n ?c ?k)
      then map_option (rx_mark (r_slots r ! j)) (pkts s (z_pmap z ! j)) else pkts s (z_pmap z ! j))"
    if "j < ?n" for j
    using rx_fill_at [OF i(6)] that i(5) by (simp add: d(3))
  have link: "links s1 (z_pmap z ! j) = links s (z_pmap z ! j)"
    if "j < ?n" "j \<notin> set (window ?n ?c ?k)" for j
  proof -
    have "z_pmap z ! j \<notin> set ?new"
      using that i(5,6) by (auto simp: w nth_eq_iff_index_eq)
    then show ?thesis using d(6) by simp
  qed
  show ?thesis unfolding s' by (rule deq_state_inv [OF i d(2,4) at d(5) link])
qed

subsection \<open>All steps, all reachable states\<close>

lemma rx_step_keeps:
  assumes "netmap_ok nm" and "rx_step nm ring zone s s'" and "rx_inv nm ring zone s"
  shows "rx_inv nm ring zone s'"
  using assms(2,3)
  by (cases rule: rx_step.cases)
    (blast intro: deq_keeps [OF assms(1)] spin_keeps [OF assms(1)] poll_keeps ret_keeps work_keeps)+

lemma rx_reach_keeps:
  assumes "netmap_ok nm" and "rx_reach nm ring zone s s'" and "rx_inv nm ring zone s"
  shows "rx_inv nm ring zone s'"
  using assms(2,3)
  by (induction rule: rx_reach.induct) (auto intro: rx_step_keeps [OF assms(1)])

text \<open>A slot belongs to the kernel if it lies from \<open>tail\<close> on, up to \<open>head\<close>.\<close>

definition kernel_owns :: "netmap_ring \<Rightarrow> nat \<Rightarrow> bool" where
  "kernel_owns r j \<longleftrightarrow> j < ring_size r \<and> rdist (ring_size r) (unat (r_head r)) (unat (r_tail r))
     \<le> rdist (ring_size r) (unat (r_head r)) j"

lemma rx_inv_kernel_slots:
  assumes "rx_inv nm ring zone s" and "zones s zone = Some z" and "rings s ring = Some r"
    and "kernel_owns r j"
  shows "\<not> busy_at s z j"
proof
  let ?d = "rdist (ring_size r) (unat (r_head r))"
  assume "busy_at s z j"
  moreover have "slots_inv s z r" "ring_order r" using assms(1-3) by (simp_all add: rx_inv_def)
  ultimately have "?d j < ?d (unat (r_cur r))" "?d (unat (r_cur r)) \<le> ?d (unat (r_tail r))"
    using assms(4) by (simp_all add: slots_inv_def ring_order_def kernel_owns_def)
  with assms(4) show False by (simp add: kernel_owns_def)
qed

text \<open>In every state that satisfies the invariant the assertions hold, in every iteration.\<close>

lemma rx_inv_debug_eq:
  assumes nm: "netmap_ok nm" and "rx_inv nm ring zone s" and tl: "tail_busy s pl"
  shows "dequeue_pkts_debug nm ring zone pl s = dequeue_pkts nm ring zone pl s"
proof -
  from assms(2) obtain z r where i: "zones s zone = Some z" "rings s ring = Some r" "ring_ok r"
    "length (z_pmap z) = ring_size r" "distinct (z_pmap z)" "ring_order r" "slots_inv s z r"
    "\<And>i. i < ring_size r \<Longrightarrow> slot_pkt_ok nm s zone ring r i (z_pmap z ! i)"
    by (rule rx_invE) blast
  note o = ring_okD [OF i(3)]
  note w = window_between [OF o(3,4,5) i(6) [unfolded ring_order_def]]
  have "\<forall>j \<in> set (window (ring_size r) (unat (r_cur r)) (rdist (ring_size r) (unat (r_cur r)) (unat (r_tail r)))).
      slot_pkt_ok nm s zone ring r j (z_pmap z ! j) \<and> \<not> busy_at s z j"
    using i(7,8) unfolding w slots_inv_def by fastforce
  moreover have "rx_ready s (z_pmap z ! j)" if "\<not> busy_at s z j"
    "j \<in> set (window (ring_size r) (unat (r_cur r)) (rdist (ring_size r) (unat (r_cur r)) (unat (r_tail r))))" for j
    using that i(7) unfolding w slots_inv_def by fastforce
  ultimately have "\<forall>j \<in> set (window (ring_size r) (unat (r_cur r)) (rdist (ring_size r) (unat (r_cur r)) (unat (r_tail r)))).
      slot_pkt_ok nm s zone ring r j (z_pmap z ! j) \<and> \<not> busy_at s z j \<and> links s (z_pmap z ! j) = Some NULL"
    by (fastforce simp: rx_ready_def split: option.splits)
  from dequeue_debug_eq [OF nm i(1,4,5,2,3) refl refl this tl] show ?thesis
    by (simp add: dequeue_pkts_def dequeue_pkts_debug_def)
qed

subsection \<open>The example store\<close>

lemma ex_rx_inv: "rx_inv ex_nm 71 10 ex_store"
proof -
  have "slot_pkt_ok ex_nm ex_store 10 71 ex_rx_ring i ([21, 22, 23] ! i)" if "i < 3" for i
  proof -
    from that have "i = 0 \<or> i = 1 \<or> i = 2" by auto
    then show ?thesis by (auto simp: slot_pkt_ok_def ex_defs)
  qed
  then have "zone_ok ex_nm ex_store 10 71"
    by (intro zone_okI [OF ex_rx_zone ex_rx_ring_facts(3,2)])
      (simp_all add: ex_rx_ring_facts, simp_all add: ex_zone_def)
  moreover have "ring_order ex_rx_ring" by (simp add: ring_order_def ex_rx_ring_facts)
  moreover have "slots_inv ex_store (ex_zone 61 [21, 22, 23]) ex_rx_ring"
    by (simp add: slots_inv_def ex_rx_ring_facts less_3 busy_at_def rx_ready_def)
      (simp add: ex_defs is_busy_def)
  ultimately show ?thesis by (intro rx_invI [OF _ ex_rx_zone ex_rx_ring_facts(3)])
qed

lemma ex_dequeue:
  "\<exists>pl s'. dequeue_pkts ex_nm 71 10 SIN_LIST_RESET ex_store = Some (2, pl, s') \<and>
     rings s' 71 = Some (ex_rx_ring\<lparr>r_cur := 2\<rparr>) \<and> zones s' = zones ex_store \<and>
     busy_at s' (ex_zone 61 [21, 22, 23]) 0 \<and>
     (\<forall>a. a \<notin> {21, 22, 71} \<longrightarrow> pkts s' a = pkts ex_store a \<and> rings s' a = rings ex_store a) \<and>
     (\<forall>t. times ex_store t \<noteq> None \<longrightarrow> times s' t \<noteq> None)"
proof -
  have z: "z_pmap (ex_zone 61 [21, 22, 23]) = [21, 22, 23]" by (simp add: ex_zone_def)
  have w: "window 3 0 2 = [0, 1]" by (simp add: window_def ridx_def numeral_2_eq_2)
  have rdy: "\<forall>p \<in> set [21, 22]. rx_ready ex_store p"
    by (simp add: rx_ready_def) (simp add: ex_defs)
  have "\<exists>pl' s'. dequeue_loop ex_nm 71 10 0 SIN_LIST_RESET ex_store = Some (0 + of_nat 2, pl', s') \<and>
    lst_repr (links s') pl' ([] @ [21, 22]) \<and>
    rings s' = (rings ex_store)(71 \<mapsto> ex_rx_ring\<lparr>r_cur := r_tail ex_rx_ring\<rparr>) \<and>
    pkts s' = rx_fill (r_slots ex_rx_ring) [21, 22, 23] (window 3 (unat (r_cur ex_rx_ring)) 2) (pkts ex_store) \<and>
    (\<forall>p \<in> set [21, 22]. times s' (p_ts (the (pkts ex_store p))) = Some (r_ts ex_rx_ring)) \<and>
    rx_frame ex_store s' \<and>
    (\<forall>t. times s' t = times ex_store t \<or> times ex_store t \<noteq> None \<and> times s' t = Some (r_ts ex_rx_ring)) \<and>
    (\<forall>a. a \<notin> set ([] @ [21, 22]) \<longrightarrow> links s' a = links ex_store a)"
    by (rule dequeue_loop_works [OF ex_nm_ok ex_rx_zone _ _ ex_rx_ring_facts(3,2,1) _ _ rdy, unfolded z])
      (simp_all add: ex_rx_ring_facts w rdist_def lst_repr_def
        SIN_LIST_RESET_def)
  then obtain pl s' where d: "dequeue_loop ex_nm 71 10 0 SIN_LIST_RESET ex_store = Some (0 + of_nat 2, pl, s')"
    "rings s' = (rings ex_store)(71 \<mapsto> ex_rx_ring\<lparr>r_cur := r_tail ex_rx_ring\<rparr>)"
    "pkts s' = rx_fill (r_slots ex_rx_ring) [21, 22, 23] (window 3 (unat (r_cur ex_rx_ring)) 2) (pkts ex_store)"
    "rx_frame ex_store s'"
    "\<forall>t. times s' t = times ex_store t \<or> times ex_store t \<noteq> None \<and> times s' t = Some (r_ts ex_rx_ring)"
    by (elim exE conjE)
  have p: "pkts s' = (pkts ex_store)(21 \<mapsto> rx_mark (ex_slot 1) (ex_pkt 10 71 0 41 1),
      22 \<mapsto> rx_mark (ex_slot 2) (ex_pkt 10 71 1 42 2))"
    by (simp add: d(3) ex_rx_ring_facts w ex_store_facts) (simp add: ex_rx_ring_def)
  then have "busy_at s' (ex_zone 61 [21, 22, 23]) 0" by (simp add: busy_at_def ex_zone_def)
  moreover have "\<forall>t. times ex_store t \<noteq> None \<longrightarrow> times s' t \<noteq> None"
    using d(5) by (metis option.distinct(1))
  ultimately show ?thesis using rx_frame_simps(1) [OF d(4)] d(1,2) p
    by (intro exI [of _ pl] exI [of _ s']) (simp add: dequeue_pkts_def ex_rx_ring_def)
qed

subsection \<open>Properties\<close>

text \<open>
  C4. The kernel is never handed a buffer in use. In every state that the receive thread,
  the kernel and the threads that hold and return packets can reach, in any interleaving,
  from a state that satisfies the invariant, the packet of each slot that belongs to the
  kernel is not busy and sits on no list.
\<close>

theorem rx_kernel_slots_free:
  assumes "netmap_ok nm" and "rx_inv nm ring zone s" and "rx_reach nm ring zone s s'"
    and "zones s' zone = Some z" and "rings s' ring = Some r" and "kernel_owns r j"
  shows "\<not> busy_at s' z j \<and> rx_ready s' (z_pmap z ! j)"
proof -
  have inv: "rx_inv nm ring zone s'" using assms(1,3,2) by (rule rx_reach_keeps)
  then have nb: "\<not> busy_at s' z j" using assms(4-6) by (rule rx_inv_kernel_slots)
  moreover have "slots_inv s' z r" using inv assms(4,5) by (simp add: rx_inv_def)
  ultimately show ?thesis using assms(6) by (simp add: slots_inv_def kernel_owns_def)
qed

theorem rx_kernel_slots_free_witness:
  "\<exists>pl s'. dequeue_pkts ex_nm 71 10 SIN_LIST_RESET ex_store = Some (2, pl, s') \<and>
     \<not> busy_at s' (ex_zone 61 [21, 22, 23]) 2"
proof -
  obtain pl s' where d: "dequeue_pkts ex_nm 71 10 SIN_LIST_RESET ex_store = Some (2, pl, s')"
    "rings s' 71 = Some (ex_rx_ring\<lparr>r_cur := 2\<rparr>)" "zones s' = zones ex_store"
    using ex_dequeue by blast
  have "rx_reach ex_nm 71 10 ex_store s'"
    by (rule rx_reach.more [OF rx_reach.start rx_step.deq [OF d(1)]])
  moreover have "zones s' 10 = Some (ex_zone 61 [21, 22, 23])" using d(3) ex_rx_zone by simp
  moreover have "kernel_owns (ex_rx_ring\<lparr>r_cur := 2\<rparr>) 2"
    by (simp add: kernel_owns_def ring_size_def ex_rx_ring_def rdist_def)
  ultimately show ?thesis
    using rx_kernel_slots_free [OF ex_nm_ok ex_rx_inv, of s'] d by blast
qed

text \<open>
  C5. No assertion met by \<open>dequeue_pkts\<close> ever fails: in every reachable state the debug build
  does exactly what the release build does. It checks in each iteration that the packet has the tag of
  a packet, is not busy, has its index, points to the buffer of its slot, and is on no list
  when it is appended to the list. The list must be empty, or end in a packet that is busy, as
  it does when it has been dequeued before.
\<close>

theorem rx_asserts_hold:
  assumes "netmap_ok nm" and "rx_inv nm ring zone s" and "rx_reach nm ring zone s s'"
    and "tail_busy s' pl"
  shows "dequeue_pkts_debug nm ring zone pl s' = dequeue_pkts nm ring zone pl s'"
  using assms(1) rx_reach_keeps [OF assms(1,3,2)] assms(4) by (rule rx_inv_debug_eq)

theorem rx_asserts_hold_witness:
  "\<exists>pl s'. dequeue_pkts_debug ex_nm 71 10 SIN_LIST_RESET ex_store = Some (2, pl, s')"
proof -
  have "tail_busy ex_store SIN_LIST_RESET" by (simp add: tail_busy_def SIN_LIST_RESET_def)
  from rx_asserts_hold [OF ex_nm_ok ex_rx_inv rx_reach.start this] ex_dequeue show ?thesis by auto
qed

end
