(* ===== verification/Sin_Zone_Inv.thy ===== *)
theory Sin_Zone_Inv
  imports Sin_Rx_Safety Sin_Pkt_Zone
begin

text \<open>
  The zones of two rings under the zero-copy move. Exchanging buffer indices in the slots and
  buffer pointers in the descriptors keeps the two in step, provided the two rings address
  the same netmap memory; so what the transmit thread does to the packets of a receive
  ring is one of the steps that theory \<open>Sin_Rx_Safety\<close> allows to other threads, and so is
  what a sorter does.
\<close>

text \<open>Rings whose indices name the same buffers: \<open>NETMAP_BUF\<close> does not depend on which.\<close>

definition same_memory :: "netmap_api \<Rightarrow> addr \<Rightarrow> addr \<Rightarrow> bool" where
  "same_memory nm a b \<longleftrightarrow> NETMAP_BUF nm a = NETMAP_BUF nm b"

lemma ring_hdr_eq:
  "ring_hdr r' = ring_hdr r \<longleftrightarrow> r' = r\<lparr>r_slots := r_slots r'\<rparr> \<and> length (r_slots r') = length (r_slots r)"
  by (cases r; cases r') (auto simp: ring_hdr_def)

lemma ring_hdr_keeps:
  assumes "r' = r\<lparr>r_slots := r_slots r'\<rparr>" "length (r_slots r') = length (r_slots r)"
  shows "ring_size r' = ring_size r" "ring_ok r' = ring_ok r"
proof -
  have e: "ring_size r' = ring_size r" "r_head r' = r_head r" "r_cur r' = r_cur r" "r_tail r' = r_tail r"
    by (subst assms(1), simp add: ring_size_def)+
  then show "ring_size r' = ring_size r" "ring_ok r' = ring_ok r"
    using assms(2) by (simp_all add: ring_ok_def)
qed

text \<open>One packet of a zone gets another buffer, and so does its slot.\<close>

lemma zone_ok_one:
  assumes ok: "zone_ok nm s zone ring" and z: "zones s zone = Some z" and i: "i < length (z_pmap z)"
    and fr: "zones s' = zones s" "times s' = times s"
      "map_option ring_hdr (rings s' ring) = map_option ring_hdr (rings s ring)"
    and others: "\<And>j. j < length (z_pmap z) \<Longrightarrow> j \<noteq> i \<Longrightarrow>
      pkts s' (z_pmap z ! j) = pkts s (z_pmap z ! j) \<and> slots s' (ring, j) = slots s (ring, j)"
    and at: "pkts s (z_pmap z ! i) = Some k" "pkts s' (z_pmap z ! i) = Some k'"
      "zone_idx k' = zone_idx k" "my_slot k' = my_slot k" "my_ring k' = my_ring k"
      "my_zone k' = my_zone k" "p_ts k' = p_ts k" "p_type k' = p_type k"
    and x: "slots s' (ring, i) = Some x" "p_buf k' = NETMAP_BUF nm ring (s_buf_idx x)"
  shows "zone_ok nm s' zone ring"
proof -
  from ok z obtain r where o: "rings s ring = Some r" "ring_ok r" "length (z_pmap z) = ring_size r"
    "distinct (z_pmap z)" "\<And>i. i < ring_size r \<Longrightarrow> slot_pkt_ok nm s zone ring r i (z_pmap z ! i)"
    by (auto elim: zone_okE)
  from fr(3) o(1) obtain r' where r': "rings s' ring = Some r'" "ring_hdr r' = ring_hdr r" by auto
  note h = r'(2) [unfolded ring_hdr_eq]
  note sz = ring_hdr_keeps [OF conjunct1 [OF h] conjunct2 [OF h]]
  have ln: "length (r_slots r) = ring_size r" "length (r_slots r') = ring_size r"
    using o(2) sz by (simp_all add: ring_ok_def)
  have "slot_pkt_ok nm s' zone ring r' j (z_pmap z ! j)" if j: "j < ring_size r" for j
  proof (cases "j = i")
    case True
    have "r_slots r' ! i = x" using x(1) r'(1) by (auto simp: slots_def get_slot_Some)
    then show ?thesis using o(5) [OF j] at x(2) fr(2) True by (auto simp: slot_pkt_ok_def)
  next
    case False
    have "r_slots r' ! j = r_slots r ! j"
      using others [of j] False j o(1,3) r'(1) ln by (auto simp: slots_def get_slot_def)
    then show ?thesis using others [of j] False j o(3) o(5) [OF j] fr(2)
      by (simp add: slot_pkt_ok_def split: option.splits)
  qed
  then show ?thesis using z fr(1) r'(1) sz o(2-4) by (intro zone_okI [of _ _ _ _ r']) simp_all
qed

lemma zone_ok_frame:
  assumes ok: "zone_ok nm s zone ring" and "zones s' zone = zones s zone" "rings s' ring = rings s ring"
    and p: "\<And>z p. zones s zone = Some z \<Longrightarrow> p \<in> set (z_pmap z) \<Longrightarrow> pkts s' p = pkts s p"
    and t: "\<And>t. times s t \<noteq> None \<Longrightarrow> times s' t \<noteq> None"
  shows "zone_ok nm s' zone ring"
proof -
  from ok obtain z r where z: "zones s zone = Some z" "rings s ring = Some r" "ring_ok r"
    "length (z_pmap z) = ring_size r" "distinct (z_pmap z)"
    "\<And>i. i < ring_size r \<Longrightarrow> slot_pkt_ok nm s zone ring r i (z_pmap z ! i)" by (rule zone_okE) blast
  have "slot_pkt_ok nm s' zone ring r i (z_pmap z ! i)" if i: "i < ring_size r" for i
  proof -
    have "pkts s' (z_pmap z ! i) = pkts s (z_pmap z ! i)" using p [OF z(1)] i z(4) by simp
    then show ?thesis using z(6) [OF i] t by (auto simp: slot_pkt_ok_def split: option.splits)
  qed
  with z(1-5) assms(2,3) show ?thesis by (intro zone_okI [of _ _ z _ r]) simp_all
qed

text \<open>The zero-copy move keeps both zones in order.\<close>

lemma swap_zones:
  assumes ok: "zone_ok nm s za ra" "zone_ok nm s zb rb" and ne: "ra \<noteq> rb" and sm: "same_memory nm ra rb"
    and z: "zones s za = Some a" "zones s zb = Some b"
    and i: "i < length (z_pmap a)" "p = z_pmap a ! i" and j: "j < length (z_pmap b)" "t = z_pmap b ! j"
  shows "\<exists>s' k k'. sin_pkt_zone_swap nm p t s = Some s' \<and> zone_ok nm s' za ra \<and> zone_ok nm s' zb rb \<and>
    pkts s p = Some k \<and> pkts s t = Some k' \<and>
    pkts s' = (pkts s)(p \<mapsto> k\<lparr>p_buf := p_buf k'\<rparr>, t \<mapsto> k'\<lparr>p_buf := p_buf k, p_len := slot_len (p_len k)\<rparr>) \<and>
    ring_frame (s\<lparr>pkts := pkts s'\<rparr>) s'"
proof -
  from ok(1) z(1) obtain r where r: "rings s ra = Some r" "ring_ok r" "length (z_pmap a) = ring_size r"
    "distinct (z_pmap a)" "\<And>i. i < ring_size r \<Longrightarrow> slot_pkt_ok nm s za ra r i (z_pmap a ! i)"
    by (auto elim: zone_okE)
  from ok(2) z(2) obtain r' where r': "rings s rb = Some r'" "ring_ok r'" "length (z_pmap b) = ring_size r'"
    "distinct (z_pmap b)" "\<And>i. i < ring_size r' \<Longrightarrow> slot_pkt_ok nm s zb rb r' i (z_pmap b ! i)"
    by (auto elim: zone_okE)
  from r(5) [of i] i r(3) obtain k where k: "pkts s p = Some k" "my_slot k = (ra, i)" "my_ring k = ra"
    "p_buf k = NETMAP_BUF nm ra (s_buf_idx (r_slots r ! i))" by (auto elim: slot_pkt_okE)
  from r'(5) [of j] j r'(3) obtain k' where k': "pkts s t = Some k'" "my_slot k' = (rb, j)" "my_ring k' = rb"
    "p_buf k' = NETMAP_BUF nm rb (s_buf_idx (r_slots r' ! j))" by (auto elim: slot_pkt_okE)
  have pt: "z_pmap a ! l \<noteq> t" "z_pmap b ! m \<noteq> p"
    if "l < ring_size r" "m < ring_size r'" for l m
    using r(5) [OF that(1)] r'(5) [OF that(2)] k(1,3) k'(1,3) ne by (auto simp: slot_pkt_ok_def)
  have pt': "p \<noteq> t" using k k' ne by auto
  let ?x = "r_slots r ! i" and ?y = "r_slots r' ! j"
  have sl: "get_slot (my_slot k) s = Some ?x" "get_slot (my_slot k') s = Some ?y"
    using k(2) k'(2) r(1-3) r'(1-3) i j by (simp_all add: get_slot_Some ring_ok_def)
  have "my_slot k \<noteq> my_slot k'" using k(2) k'(2) ne by simp
  from sin_pkt_zone_swap_works [OF k(1) k'(1) pt' sl this, of nm]
  obtain s' where s': "sin_pkt_zone_swap nm p t s = Some s'"
    "pkts s' = (pkts s)(p \<mapsto> k\<lparr>p_buf := p_buf k'\<rparr>, t \<mapsto> k'\<lparr>p_buf := p_buf k, p_len := slot_len (p_len k)\<rparr>)"
    "slots s' = (slots s)((ra, i) \<mapsto> swapped_src nm ?x ?y, (rb, j) \<mapsto> swapped_dst nm (p_len k) ?x ?y)"
    "ring_frame (s\<lparr>pkts := pkts s'\<rparr>) s'" using k(2) k'(2) by metis
  note f = ring_frame_simps [OF s'(4)]
  have hdr: "map_option ring_hdr (rings s' c) = map_option ring_hdr (rings s c)" for c
    using s'(4) by (simp add: ring_frame_def)
  have zt: "zones s' = zones s" "times s' = times s" using f by simp_all
  have "zone_ok nm s' za ra"
  proof (rule zone_ok_one [OF ok(1) z(1) i(1) zt hdr])
    fix l assume "l < length (z_pmap a)" "l \<noteq> i"
    then show "pkts s' (z_pmap a ! l) = pkts s (z_pmap a ! l) \<and> slots s' (ra, l) = slots s (ra, l)"
      using pt(1) [of l] r(3,4) r'(3) i j ne by (simp add: s'(2,3) nth_eq_iff_index_eq)
  next
    show "pkts s (z_pmap a ! i) = Some k" using k i by simp
    show "pkts s' (z_pmap a ! i) = Some (k\<lparr>p_buf := p_buf k'\<rparr>)" using pt' i by (simp add: s'(2))
    show "slots s' (ra, i) = Some (swapped_src nm ?x ?y)" using ne by (simp add: s'(3))
    show "p_buf (k\<lparr>p_buf := p_buf k'\<rparr>) = NETMAP_BUF nm ra (s_buf_idx (swapped_src nm ?x ?y))"
      using k'(4) sm by (simp add: swapped_src_def same_memory_def)
  qed simp_all
  moreover have "zone_ok nm s' zb rb"
  proof (rule zone_ok_one [OF ok(2) z(2) j(1) zt hdr])
    fix l assume "l < length (z_pmap b)" "l \<noteq> j"
    then show "pkts s' (z_pmap b ! l) = pkts s (z_pmap b ! l) \<and> slots s' (rb, l) = slots s (rb, l)"
      using pt(2) [of 0 l] r(2,3) r'(3,4) i j ne ring_okD(1) [OF r(2)]
      by (simp add: s'(2,3) nth_eq_iff_index_eq)
  next
    show "pkts s (z_pmap b ! j) = Some k'" using k' j by simp
    show "pkts s' (z_pmap b ! j) = Some (k'\<lparr>p_buf := p_buf k, p_len := slot_len (p_len k)\<rparr>)"
      using j by (simp add: s'(2))
    show "slots s' (rb, j) = Some (swapped_dst nm (p_len k) ?x ?y)" by (simp add: s'(3))
    show "p_buf (k'\<lparr>p_buf := p_buf k, p_len := slot_len (p_len k)\<rparr>)
        = NETMAP_BUF nm rb (s_buf_idx (swapped_dst nm (p_len k) ?x ?y))"
      using k(4) sm by (simp add: swapped_dst_def same_memory_def)
  qed simp_all
  ultimately show ?thesis using s'(1,2,4) k(1) k'(1) by blast
qed

text \<open>The move of a busy packet out of a receive ring is a step that other threads may take.\<close>

lemma swap_is_work:
  assumes ok: "zone_ok nm s za ra" "zone_ok nm s zb rb" and ne: "ra \<noteq> rb" and sm: "same_memory nm ra rb"
    and z: "zones s za = Some a" "zones s zb = Some b"
    and i: "i < length (z_pmap a)" "busy_at s a i" and j: "j < length (z_pmap b)"
    and inv: "\<forall>l < length (z_pmap a). \<not> busy_at s a l \<longrightarrow> rx_ready s (z_pmap a ! l)"
    and st: "sin_pkt_zone_swap nm (z_pmap a ! i) (z_pmap b ! j) s = Some s'"
  shows "work_step nm ra za s s'"
proof -
  from swap_zones [OF ok ne sm z i(1) refl j refl] st
  obtain k k' where e: "zone_ok nm s' za ra" "pkts s (z_pmap a ! i) = Some k" "pkts s (z_pmap b ! j) = Some k'"
    "pkts s' = (pkts s)(z_pmap a ! i \<mapsto> k\<lparr>p_buf := p_buf k'\<rparr>,
      z_pmap b ! j \<mapsto> k'\<lparr>p_buf := p_buf k, p_len := slot_len (p_len k)\<rparr>)"
    "ring_frame (s\<lparr>pkts := pkts s'\<rparr>) s'" by auto
  note f = ring_frame_simps [OF e(5)]
  from ok(1) z(1) obtain r where r: "rings s ra = Some r" "length (z_pmap a) = ring_size r"
    "\<And>i. i < ring_size r \<Longrightarrow> slot_pkt_ok nm s za ra r i (z_pmap a ! i)"
    by (auto elim: zone_okE)
  from ok(2) z(2) j have "\<exists>r'. slot_pkt_ok nm s zb rb r' j (z_pmap b ! j)"
    by (auto simp: zone_ok_def split: option.splits)
  then obtain r' where r': "slot_pkt_ok nm s zb rb r' j (z_pmap b ! j)" ..
  have hdr: "map_option ring_hdr (rings s' ra) = map_option ring_hdr (rings s ra)"
    using e(5) by (simp add: ring_frame_def)
  then obtain r1 where r1: "rings s' ra = Some r1" "r1 = r\<lparr>r_slots := r_slots r1\<rparr>"
    using r(1) by (auto simp: ring_hdr_eq)
  have other: "z_pmap a ! l \<noteq> z_pmap b ! j" if "l < ring_size r" for l
    using r(3) [OF that] r' ne by (auto simp: slot_pkt_ok_def split: option.splits)
  have busy: "busy_at s' a l = busy_at s a l" if "l < ring_size r" for l
    using other [OF that] e(2) by (auto simp: busy_at_def e(4) is_busy_def)
  have "rx_ready s' (z_pmap a ! l)" if "l < ring_size r" "\<not> busy_at s a l" for l
  proof -
    have "z_pmap a ! l \<noteq> z_pmap a ! i" using i(2) that(2) by (auto simp: busy_at_def)
    moreover have "rx_ready s (z_pmap a ! l)" using inv that r(2) by simp
    ultimately show ?thesis using other [OF that(1)] f
      by (simp add: rx_ready_def e(4) split: option.splits)
  qed
  then show ?thesis using e(1) z(1) r(1) r1 busy f by (simp add: work_step_def)
qed

text \<open>So is whatever rewrites buffers, queues and the links of busy packets.\<close>

lemma data_is_work:
  assumes ok: "zone_ok nm s zone ring" and z: "zones s zone = Some z"
    and fr: "data_frame s s'" and inv: "\<forall>l < length (z_pmap z). \<not> busy_at s z l \<longrightarrow>
      rx_ready s (z_pmap z ! l) \<and> links s' (z_pmap z ! l) = links s (z_pmap z ! l)"
  shows "work_step nm ring zone s s'"
proof -
  note f = data_frame_simps [OF fr]
  have t: "times s' = times s" using fr by (cases s; cases s') (simp add: data_frame_def)
  from ok z obtain r where r: "rings s ring = Some r" "length (z_pmap z) = ring_size r"
    by (auto elim: zone_okE)
  have "zone_ok nm s' zone ring" by (rule zone_ok_frame [OF ok]) (simp_all add: f t)
  moreover have "busy_at s' z l = busy_at s z l" for l using f by (simp add: busy_at_def)
  moreover have "rx_ready s' (z_pmap z ! l)" if "l < ring_size r" "\<not> busy_at s z l" for l
    using inv that r(2) f t by (auto simp: rx_ready_def split: option.splits)
  ultimately show ?thesis using z r f by (simp add: work_step_def)
qed

subsection \<open>Properties\<close>


lemma ex_tx_zone: "zone_ok ex_nm ex_store 11 72" "zones ex_store 11 = Some (ex_zone 63 [31, 32, 33])"
proof -
  show z: "zones ex_store 11 = Some (ex_zone 63 [31, 32, 33])" by (simp add: ex_store_def)
  have r: "rings ex_store 72 = Some ex_tx_ring" "ring_ok ex_tx_ring" "ring_size ex_tx_ring = 3"
    by (simp_all add: ex_store_def ring_ok_def ring_size_def ex_tx_ring_def)
  have "slot_pkt_ok ex_nm ex_store 11 72 ex_tx_ring i ([31, 32, 33] ! i)" if "i < 3" for i
  proof -
    from that have "i = 0 \<or> i = 1 \<or> i = 2" by auto
    then show ?thesis by (auto simp: slot_pkt_ok_def ex_defs)
  qed
  then show "zone_ok ex_nm ex_store 11 72"
    by (intro zone_okI [OF z r(1,2)]) (simp_all add: r, simp_all add: ex_zone_def)
qed



lemma ex_busy_inv:
  "\<exists>s' :: pstore. rx_inv ex_nm 71 10 s' \<and> zones s' = zones ex_store \<and> busy_at s' (ex_zone 61 [21, 22, 23]) 0 \<and>
     zone_ok ex_nm s' 11 72"
proof -
  obtain pl s' where d: "dequeue_pkts ex_nm 71 10 SIN_LIST_RESET ex_store = Some (2, pl, s')"
    "zones s' = zones ex_store" "busy_at s' (ex_zone 61 [21, 22, 23]) 0"
    "\<forall>a. a \<notin> {21, 22, 71} \<longrightarrow> pkts s' a = pkts ex_store a \<and> rings s' a = rings ex_store a"
    "\<forall>t. times ex_store t \<noteq> None \<longrightarrow> times s' t \<noteq> None"
    using ex_dequeue by blast
  have "zone_ok ex_nm s' 11 72"
    by (rule zone_ok_frame [OF ex_tx_zone(1)])
      (use d(2,4,5) ex_tx_zone(2) in \<open>auto simp: ex_zone_def\<close>)
  with d(2,3) deq_keeps [OF ex_nm_ok ex_rx_inv d(1)] show ?thesis by blast
qed


end
