(* ===== verification/Udpm_Sorter.thy ===== *)
theory Udpm_Sorter
  imports Sin_Pkt_Sorter
begin

text \<open>
  The UDP mirror, \<open>apps/udp_mirror/udpm_sorter.c\<close>: a taste function for UDP packets whose
  ports lie in a range, and a consumer that turns every packet into its own answer by
  exchanging the addresses and the ports. The code modelled is that of a build without
  \<open>SIN_DEBUG\<close>, which relies on those exchanges leaving both checksums as they are; the
  lemmas of the last part prove that they do.
\<close>

record udpm_params =
  port_min :: int
  port_max :: int

text \<open>Offsets of the members of \<open>struct ip4_udp_en10t\<close> in the packet buffer.\<close>

definition OFF_UDP_SRC_PORT :: nat where "OFF_UDP_SRC_PORT = 34"
definition OFF_UDP_DST_PORT :: nat where "OFF_UDP_DST_PORT = 36"
definition OFF_UDP_LENGTH :: nat where "OFF_UDP_LENGTH = 38"
definition SIZEOF_UDPHDR :: nat where "SIZEOF_UDPHDR = 8"

definition SIN_IP4_UDP_MINLEN :: u32 where
  "SIN_IP4_UDP_MINLEN = 14 + 20 + 8"

lemmas udp_off_defs = off_defs OFF_UDP_SRC_PORT_def OFF_UDP_DST_PORT_def OFF_UDP_LENGTH_def
  SIZEOF_UDPHDR_def

text \<open>
  The application's memory, where the \<open>struct udpm_params\<close> lives that \<open>ap->ap\<close> points to, is
  the map \<open>prm\<close>.
\<close>

definition udpm_args :: "(addr \<rightharpoonup> udpm_params) \<Rightarrow> cb_arg \<Rightarrow> udpm_params option" where
  "udpm_args prm ap = (case ap of Outq _ \<Rightarrow> None | Ps_arg _ a \<Rightarrow> prm a)"

definition udpm_taste ::
  "(addr \<rightharpoonup> udpm_params) \<Rightarrow> addr \<Rightarrow> cb_arg \<Rightarrow> 'a pstore_scheme \<Rightarrow> int option" where
  "udpm_taste prm pkt ap s = do {
     args \<leftarrow> udpm_args prm ap;
     pk \<leftarrow> pkts s pkt;
     if p_len pk < SIN_IP4_UDP_MINLEN then Some 0
     else do {
       p \<leftarrow> mem s (p_buf pk);
       ether_type \<leftarrow> ld16 p OFF_ETHER_TYPE;
       if ether_type \<noteq> htons 0x0800 then Some 0
       else do {
         vhl \<leftarrow> ld8 p OFF_IP;
         if drop_bit 4 vhl \<noteq> 0x4 then Some 0
         else do {
           ip_p \<leftarrow> ld8 p OFF_IP_P;
           if ip_p \<noteq> 0x11 then Some 0
           else do {
             len \<leftarrow> ld16 p OFF_UDP_LENGTH;
             if unat (htons len) < SIZEOF_UDPHDR then Some 0
             else do {
               dst_port \<leftarrow> map_option (\<lambda>w. uint (htons w)) (ld16 p OFF_UDP_DST_PORT);
               if dst_port > port_max args \<or> dst_port < port_min args then Some 0
               else do {
                 src_port \<leftarrow> map_option (\<lambda>w. uint (htons w)) (ld16 p OFF_UDP_SRC_PORT);
                 if src_port > port_max args \<or> src_port < port_min args then Some 0
                 else Some 1
               }
             }
           }
         }
       }
     }
   }"

definition mirror_buf :: "u8 list \<Rightarrow> u8 list option" where
  "mirror_buf p = do {
     p \<leftarrow> sin_memswp OFF_ETHER_SHOST OFF_ETHER_DHOST 6 p;
     p \<leftarrow> sin_memswp OFF_IP_SRC OFF_IP_DST 4 p;
     sin_memswp OFF_UDP_SRC_PORT OFF_UDP_DST_PORT 2 p
   }"

definition sin_ip4_udp_mirror :: "addr \<Rightarrow> 'a pstore_scheme \<Rightarrow> 'a pstore_scheme option" where
  "sin_ip4_udp_mirror pkt s = do {
     pk \<leftarrow> pkts s pkt;
     p \<leftarrow> mem s (p_buf pk);
     p \<leftarrow> mirror_buf p;
     Some (s\<lparr>mem := (mem s)(p_buf pk \<mapsto> p)\<rparr>)
   }"

partial_function (option) mirror_loop :: "ptr \<Rightarrow> 'a pstore_scheme \<Rightarrow> 'a pstore_scheme option" where
  "mirror_loop p s = (case p of None \<Rightarrow> Some s
     | Some pkt \<Rightarrow> do {
         s \<leftarrow> sin_ip4_udp_mirror pkt s;
         pkt_next \<leftarrow> SIN_ITER_NEXT pkt s;
         mirror_loop pkt_next s
       })"

definition udpm_proc :: "sin_list \<Rightarrow> cb_arg \<Rightarrow> 'a pstore_scheme \<Rightarrow> 'a pstore_scheme option" where
  "udpm_proc pl arg s = do {
     s \<leftarrow> mirror_loop (lst_head pl) s;
     outq \<leftarrow> (case arg of Outq _ \<Rightarrow> None | Ps_arg q _ \<Rightarrow> Some q);
     sin_wi_queue_put_items pl outq s
   }"

subsection \<open>The taste function\<close>

definition be16 :: "u8 \<Rightarrow> u8 \<Rightarrow> nat" where
  "be16 hi lo = 256 * unat hi + unat lo"

lemma unat_htons_le16: "unat (htons (le16 a b)) = be16 a b"
proof -
  have "ucast (le16 a b) = a \<and> ucast (drop_bit 8 (le16 a b)) = b"
    using le16_split [of "le16 a b"] by (simp only: le16_eq_iff)
  then show ?thesis by (simp add: htons_def unat_le16 be16_def)
qed

lemma uint_htons_le16: "uint (htons (le16 a b)) = int (be16 a b)"
  by (simp only: uint_nat unat_htons_le16)

definition udp_frame :: "udpm_params \<Rightarrow> u8 list \<Rightarrow> bool" where
  "udp_frame args p \<longleftrightarrow> p ! 12 = 0x08 \<and> p ! 13 = 0x00 \<and> drop_bit 4 (p ! 14) = 4 \<and>
     p ! 23 = 17 \<and> 8 \<le> be16 (p ! 38) (p ! 39) \<and>
     int (be16 (p ! 34) (p ! 35)) \<in> {port_min args .. port_max args} \<and>
     int (be16 (p ! 36) (p ! 37)) \<in> {port_min args .. port_max args}"

lemma udpm_taste_spec:
  assumes "prm a = Some args" and "pkts s pkt = Some pk" and "mem s (p_buf pk) = Some p"
    and "unat (p_len pk) \<le> length p"
  shows "udpm_taste prm pkt (Ps_arg q a) s
    = Some (of_bool (42 \<le> unat (p_len pk) \<and> udp_frame args p))"
proof -
  have l: "p_len pk < SIN_IP4_UDP_MINLEN \<longleftrightarrow> unat (p_len pk) < 42"
    by (simp add: SIN_IP4_UDP_MINLEN_def word_less_nat_alt)
  show ?thesis
  proof (cases "unat (p_len pk) < 42")
    case True
    with assms(1,2) l show ?thesis by (simp add: udpm_taste_def udpm_args_def)
  next
    case False
    with assms have len: "42 \<le> length p" by simp
    then have "ld16 p 12 = Some (le16 (p ! 12) (p ! 13))" "ld8 p 14 = Some (p ! 14)"
      "ld8 p 23 = Some (p ! 23)" "ld16 p 38 = Some (le16 (p ! 38) (p ! 39))"
      "ld16 p 36 = Some (le16 (p ! 36) (p ! 37))" "ld16 p 34 = Some (le16 (p ! 34) (p ! 35))"
      by (simp_all add: ld16_def ld8_def)
    with False assms l show ?thesis
      by (auto simp: udpm_taste_def udpm_args_def udp_frame_def udp_off_defs ether_type_iff
          unat_htons_le16 uint_htons_le16)
  qed
qed

subsection \<open>The mirrored packet\<close>

definition mirrored :: "u8 list \<Rightarrow> u8 list" where
  "mirrored p = swapped 34 36 2 (swap_addrs p)"

lemma length_mirrored [simp]: "length (mirrored p) = length p"
  by (simp add: mirrored_def)

lemma nth_mirrored:
  assumes "42 \<le> length p" and "i < length p"
  shows "mirrored p ! i = (if i = 34 \<or> i = 35 then p ! (i + 2)
    else if i = 36 \<or> i = 37 then p ! (i - 2) else swap_addrs p ! i)"
  using assms by (auto simp: mirrored_def nth_swapped nth_swap_addrs add.commute)

lemma mirror_buf_spec:
  assumes "42 \<le> length p"
  shows "mirror_buf p = Some (mirrored p)"
proof -
  have "sin_memswp OFF_ETHER_SHOST OFF_ETHER_DHOST 6 p = Some (swapped 6 0 6 p)"
    using memswp_loop_swaps [of 6 6 0 p] assms by (simp add: sin_memswp_def off_defs)
  moreover have "sin_memswp OFF_IP_SRC OFF_IP_DST 4 (swapped 6 0 6 p) = Some (swap_addrs p)"
    using memswp_loop_swaps [of 26 4 30 "swapped 6 0 6 p"] assms
    by (simp add: sin_memswp_def off_defs swap_addrs_def)
  moreover have "sin_memswp OFF_UDP_SRC_PORT OFF_UDP_DST_PORT 2 (swap_addrs p) = Some (mirrored p)"
    using memswp_loop_swaps [of 34 2 36 "swap_addrs p"] assms
    by (simp add: sin_memswp_def udp_off_defs mirrored_def)
  ultimately show ?thesis by (simp add: mirror_buf_def)
qed

text \<open>Mirroring twice gives the packet back, and the answer passes the same filter.\<close>

lemma mirrored_mirrored:
  assumes "42 \<le> length p"
  shows "mirrored (mirrored p) = p"
proof (rule nth_equalityI)
  fix i assume "i < length (mirrored (mirrored p))"
  then have i: "i < length p" by simp
  consider "i < 6" | "6 \<le> i" "i < 12" | "12 \<le> i" "i < 26" | "26 \<le> i" "i < 30"
    | "30 \<le> i" "i < 34" | "i = 34" | "i = 35" | "i = 36" | "i = 37" | "38 \<le> i" by linarith
  then show "mirrored (mirrored p) ! i = p ! i"
    by cases (insert assms i, simp_all add: nth_mirrored nth_swap_addrs,
      (intro conjI impI; linarith)+)
qed simp

lemma udp_frame_mirrored: "42 \<le> length p \<Longrightarrow> udp_frame args (mirrored p) = udp_frame args p"
  by (auto simp: udp_frame_def nth_mirrored nth_swap_addrs)

subsection \<open>Neither checksum changes\<close>

lemma ip_hdr_sum_mirrored:
  assumes "42 \<le> length p"
  shows "ip_hdr_sum (mirrored p) = ip_hdr_sum p"
proof -
  have "ip_hdr_sum (mirrored p) = ip_hdr_sum (swap_addrs p)"
    using assms by (simp add: ip_hdr_sum_eq lessThan_10 nth_mirrored)
  then show ?thesis using assms by (simp add: ip_hdr_sum_swap)
qed

text \<open>
  What the UDP checksum covers of the frame, for a datagram of \<open>n\<close> bytes: the two addresses,
  which stand right before the datagram, and the datagram; the rest of the pseudo header
  (protocol and length) does not change.
\<close>

definition udp_sum :: "nat \<Rightarrow> u8 list \<Rightarrow> nat" where
  "udp_sum n p = word_sum (take (8 + n) (drop 26 p))"

lemma udp_sum_parts:
  assumes "8 \<le> n" and "34 + n \<le> length p"
  shows "udp_sum n p = word_sum (take 14 (drop 26 p)) + word_sum (take (n - 6) (drop 40 p))"
proof -
  have "take (8 + n) (drop 26 p) = p ! 26 # p ! 27 # p ! 28 # p ! 29 # p ! 30 # p ! 31 #
      p ! 32 # p ! 33 # p ! 34 # p ! 35 # p ! 36 # p ! 37 # p ! 38 # p ! 39 #
      take (n - 6) (drop 40 p)"
    using take2 [of "8 + n" 26 p] take2 [of "6 + n" 28 p] take2 [of "4 + n" 30 p]
      take2 [of "2 + n" 32 p] take2 [of n 34 p] take2 [of "n - 2" 36 p] take2 [of "n - 4" 38 p]
      assms by simp
  moreover have "take 14 (drop 26 p) = p ! 26 # p ! 27 # p ! 28 # p ! 29 # p ! 30 # p ! 31 #
      p ! 32 # p ! 33 # p ! 34 # p ! 35 # p ! 36 # p ! 37 # p ! 38 # p ! 39 # []"
    using take2 [of 14 26 p] take2 [of 12 28 p] take2 [of 10 30 p] take2 [of 8 32 p]
      take2 [of 6 34 p] take2 [of 4 36 p] take2 [of 2 38 p] assms by simp
  ultimately show ?thesis by (simp add: udp_sum_def)
qed

lemma udp_sum_mirrored:
  assumes n: "8 \<le> n" "34 + n \<le> length p"
  shows "udp_sum n (mirrored p) = udp_sum n p"
proof -
  from n have len: "42 \<le> length p" by simp
  have "drop 40 (mirrored p) = drop 40 p"
    by (rule nth_equalityI) (simp_all add: nth_mirrored nth_swap_addrs len)
  moreover have "word_sum (take 14 (drop 26 (mirrored p))) = word_sum (take 14 (drop 26 p))"
  proof -
    have "{..<7 :: nat} = {0, 1, 2, 3, 4, 5, 6}" by auto
    then show ?thesis
      using word_sum_range [of 26 7 p] word_sum_range [of 26 7 "mirrored p"] len
      by (simp add: nth_mirrored nth_swap_addrs)
  qed
  ultimately show ?thesis
    using udp_sum_parts [OF n] udp_sum_parts [of n "mirrored p"] n by simp
qed

subsection \<open>Processing a list\<close>

lemma sin_ip4_udp_mirror_works:
  assumes "frame_ok s x"
  shows "sin_ip4_udp_mirror x s = Some (s\<lparr>mem := rewrite_mem mirror_buf (pkts s) x (mem s)\<rparr>)"
proof -
  from assms obtain k b where "pkts s x = Some k" "mem s (p_buf k) = Some b" "42 \<le> length b"
    by (rule frame_okE)
  then show ?thesis
    using mirror_buf_spec [of b] by (auto simp: sin_ip4_udp_mirror_def rewrite_mem_def)
qed

interpretation mirror: packet_rewriter mirror_buf mirror_loop
proof unfold_locales
  show "42 \<le> length b \<Longrightarrow> \<exists>b'. mirror_buf b = Some b' \<and> length b' = length b" for b
    using mirror_buf_spec by auto
  show "mirror_loop NULL s = Some s" for s :: "'a pstore_scheme"
    by (simp add: mirror_loop.simps)
  show "mirror_loop (Some x) s
      = mirror_loop n (s\<lparr>mem := rewrite_mem mirror_buf (pkts s) x (mem s)\<rparr>)"
    if "frame_ok s x" "links s x = Some n" for s :: "'a pstore_scheme" and x n
    using that sin_ip4_udp_mirror_works [of s x]
    by (simp add: mirror_loop.simps [of "Some x"] SIN_ITER_NEXT_def)
qed

lemma udpm_proc_consumer:
  "consumer q (\<lambda>P. fold (rewrite_mem mirror_buf P)) (\<lambda>l. udpm_proc l (Ps_arg q a))"
  using mirror.dlv.consumer_axioms [of q] by (simp add: udpm_proc_def [abs_def])

end
