(* ===== verification/Sin_Echo.thy ===== *)
theory Sin_Echo
  imports Sin_Zone_Inv Udpm_Sorter
begin

text \<open>
  The sorter of a hardware ring as \<open>sin_init\<close> sets it up, one entry for ICMP echo requests
  and the host's queue as default, and the same sorter after the UDP mirror application has
  registered itself: what becomes of a list of packets, and of the packets that one turn of
  the receive thread finds on its ring.
\<close>

subsection \<open>The call-backs\<close>

text \<open>
  \<open>sin_ip4_icmp_proc\<close> and \<open>sin_wi_queue_put_items\<close> take their \<open>void *\<close> argument for a queue;
  given the address of a \<open>struct ps_arg\<close> instead they would misread memory.
\<close>

definition as_queue :: "cb_arg \<Rightarrow> addr option" where
  "as_queue a = (case a of Outq q \<Rightarrow> Some q | Ps_arg _ _ \<Rightarrow> None)"

definition icmp_taste_cb :: "addr \<Rightarrow> cb_arg \<Rightarrow> 'a pstore_scheme \<Rightarrow> int option" where
  "icmp_taste_cb pkt ap s = sin_ip4_icmp_taste pkt s"

definition icmp_proc_cb :: "sin_list \<Rightarrow> cb_arg \<Rightarrow> 'a pstore_scheme \<Rightarrow> 'a pstore_scheme option" where
  "icmp_proc_cb pl arg s = do { outq \<leftarrow> as_queue arg; sin_ip4_icmp_proc pl outq s }"

definition put_items_cb :: "sin_list \<Rightarrow> cb_arg \<Rightarrow> 'a pstore_scheme \<Rightarrow> 'a pstore_scheme option" where
  "put_items_cb pl arg s = do { outq \<leftarrow> as_queue arg; sin_wi_queue_put_items pl outq s }"

text \<open>The sorter of a hardware ring, with blocks at \<open>a\<close> and \<open>b\<close>, idle.\<close>

definition icmp_entry :: "addr \<Rightarrow> addr \<Rightarrow> ('a pstore_scheme) ps_entry" where
  "icmp_entry b tx_phy_queue = \<lparr>e_addr = b, e_type = 0, pkt_taste = icmp_taste_cb,
     pkt_consume = icmp_proc_cb, e_outq = tx_phy_queue, e_ap = NULL, e_wrklist = SIN_LIST_RESET\<rparr>"

definition phy_sorter :: "addr \<Rightarrow> addr \<Rightarrow> addr \<Rightarrow> addr \<Rightarrow> ('a pstore_scheme) sin_pkt_sorter" where
  "phy_sorter a b tx_hst_queue tx_phy_queue = \<lparr>so_addr = a, so_type = SIN_TYPE_ITERABLE,
     so_first = [icmp_entry b tx_phy_queue], pkt_consume_default = put_items_cb,
     so_outq = tx_hst_queue, so_ap = NULL, so_wrklist = SIN_LIST_RESET\<rparr>"

text \<open>The same after \<open>sin_sorter_reg\<close> with the mirror's functions and parameters at \<open>ap\<close>.\<close>

definition udpm_entry :: "(addr \<rightharpoonup> udpm_params) \<Rightarrow> addr \<Rightarrow> addr \<Rightarrow> addr \<Rightarrow> ('a pstore_scheme) ps_entry" where
  "udpm_entry prm c tx_phy_queue ap = \<lparr>e_addr = c, e_type = 0, pkt_taste = udpm_taste prm,
     pkt_consume = udpm_proc, e_outq = tx_phy_queue, e_ap = Some ap, e_wrklist = SIN_LIST_RESET\<rparr>"

definition mirror_sorter :: "(addr \<rightharpoonup> udpm_params) \<Rightarrow> addr \<Rightarrow> addr \<Rightarrow> addr \<Rightarrow> addr \<Rightarrow> addr \<Rightarrow> addr \<Rightarrow>
    ('a pstore_scheme) sin_pkt_sorter" where
  "mirror_sorter prm a b c tx_hst_queue tx_phy_queue ap =
     (phy_sorter a b tx_hst_queue tx_phy_queue)\<lparr>so_first :=
       [udpm_entry prm c tx_phy_queue ap, icmp_entry b tx_phy_queue]\<rparr>"

subsection \<open>Classes of packets\<close>

text \<open>A packet whose length does not exceed its buffer, which holds the headers.\<close>

definition pkt_in_buf :: "'a pstore_scheme \<Rightarrow> addr \<Rightarrow> bool" where
  "pkt_in_buf s y \<longleftrightarrow> (\<exists>k b. pkts s y = Some k \<and> mem s (p_buf k) = Some b \<and> 42 \<le> length b \<and>
     unat (p_len k) \<le> length b)"

definition is_request :: "'a pstore_scheme \<Rightarrow> addr \<Rightarrow> bool" where
  "is_request s y \<longleftrightarrow> (case pkts s y of None \<Rightarrow> False | Some k \<Rightarrow> (case mem s (p_buf k) of None \<Rightarrow> False
     | Some b \<Rightarrow> 50 \<le> unat (p_len k) \<and> icmp_frame 8 b))"

definition is_udp :: "udpm_params \<Rightarrow> 'a pstore_scheme \<Rightarrow> addr \<Rightarrow> bool" where
  "is_udp args s y \<longleftrightarrow> (case pkts s y of None \<Rightarrow> False | Some k \<Rightarrow> (case mem s (p_buf k) of None \<Rightarrow> False
     | Some b \<Rightarrow> 42 \<le> unat (p_len k) \<and> udp_frame args b))"

lemma pkt_in_buf_frame: "pkt_in_buf s y \<Longrightarrow> frame_ok s y"
  by (auto simp: pkt_in_buf_def frame_ok_def)

lemma icmp_taste_class:
  "pkt_in_buf s y \<Longrightarrow> icmp_taste_cb y a s = Some (of_bool (is_request s y))"
  by (auto simp: pkt_in_buf_def icmp_taste_cb_def is_request_def icmp_taste_spec)

lemma udpm_taste_class:
  "pkt_in_buf s y \<Longrightarrow> prm a = Some args \<Longrightarrow>
    udpm_taste prm y (Ps_arg q a) s = Some (of_bool (is_udp args s y))"
  by (auto simp: pkt_in_buf_def is_udp_def udpm_taste_spec)

lemma udp_not_icmp: "udp_frame args b \<Longrightarrow> \<not> icmp_frame 8 b"
  by (auto simp: udp_frame_def icmp_frame_def)

lemma is_udp_not_request: "is_udp args s y \<Longrightarrow> \<not> is_request s y"
  by (auto simp: is_udp_def is_request_def udp_not_icmp split: option.splits)

subsection \<open>The two sorters are fit for work\<close>

lemma put_items_cb_eq: "(\<lambda>l. put_items_cb l (Outq q)) = (\<lambda>l. sin_wi_queue_put_items l q)"
  by (simp add: put_items_cb_def as_queue_def fun_eq_iff)

lemma icmp_proc_cb_eq: "(\<lambda>l. icmp_proc_cb l (Outq q)) = (\<lambda>l. sin_ip4_icmp_proc l q)"
  by (simp add: icmp_proc_cb_def as_queue_def fun_eq_iff)

lemma rewrite_Some_eq: "(\<lambda>P. fold (rewrite_mem Some P)) = (\<lambda>P ys m. m)"
  by (intro ext) simp

lemma put_items_cb_consumer: "consumer q (\<lambda>P. fold (rewrite_mem Some P)) (\<lambda>l. put_items_cb l (Outq q))"
  unfolding put_items_cb_eq rewrite_Some_eq by (rule put_cons.consumer_axioms)

lemma icmp_proc_cb_consumer: "consumer q (\<lambda>P. fold (rewrite_mem req2rpl_buf P)) (\<lambda>l. icmp_proc_cb l (Outq q))"
  unfolding icmp_proc_cb_eq by (rule icmp_proc_consumer)

lemma icmp_entry_blind: "link_blind (icmp_entry b q)"
  by (simp add: link_blind_def icmp_entry_def icmp_taste_cb_def sin_ip4_icmp_taste_def cong: if_cong)

lemma udpm_entry_blind: "link_blind (udpm_entry prm c q ap)"
  by (simp add: link_blind_def udpm_entry_def udpm_taste_def cong: if_cong)

lemmas phy_defs = phy_sorter_def icmp_entry_def e_arg_def so_arg_def arg_of_def
lemmas mirror_defs = mirror_sorter_def udpm_entry_def phy_defs

definition phy_fun :: "nat \<Rightarrow> u8 list \<Rightarrow> u8 list option" where
  "phy_fun i = (if i = 0 then req2rpl_buf else Some)"

definition phy_out :: "addr \<Rightarrow> addr \<Rightarrow> nat \<Rightarrow> addr" where
  "phy_out qh qp i = (if i = 0 then qp else qh)"

lemma phy_consumers:
  "\<forall>i \<le> length (so_first (phy_sorter a b qh qp)).
     consumer (phy_out qh qp i) (\<lambda>P. fold (rewrite_mem (phy_fun i) P)) (consume_of (phy_sorter a b qh qp) i)"
  using icmp_proc_cb_consumer [of qp] put_items_cb_consumer [of qh]
  by (auto simp: consume_of_def [abs_def] phy_defs phy_out_def phy_fun_def)

lemma phy_cls:
  "pkt_in_buf s y \<Longrightarrow> cls (phy_sorter a b qh qp) s y = (if is_request s y then 0 else 1)"
  by (simp add: cls_def phy_defs icmp_taste_class)

lemma phy_sort_pre:
  assumes "q_repr s qp xp" "q_repr s qh xh" "qh \<noteq> qp" "set xp \<inter> set xh = {}"
    and "set xs \<inter> (set xp \<union> set xh) = {}" "length xp + length xs < 2 ^ 32" "length xh + length xs < 2 ^ 32"
    and ok: "\<forall>y \<in> set xs. pkt_in_buf s y"
  shows "sort_pre s (phy_sorter a b qh qp) {qp, qh} ((\<lambda>_. xh)(qp := xp)) (phy_out qh qp) xs"
proof -
  have "\<forall>y \<in> set xs. taste_loop (so_first (phy_sorter a b qh qp)) y s \<noteq> None \<and> frame_ok s y"
    using ok pkt_in_buf_frame by (auto simp: phy_defs icmp_taste_class)
  moreover have "idle (phy_sorter a b qh qp)"
    by (simp add: idle_def strip_def no_work_def phy_defs)
  moreover have "\<forall>x \<in> set (so_first (phy_sorter a b qh qp)). link_blind x"
    using icmp_entry_blind by (simp add: phy_sorter_def)
  moreover have "qs_repr s {qp, qh} ((\<lambda>_. xh)(qp := xp))"
    using assms(1-4) by (auto simp: qs_repr_def)
  moreover have "\<forall>q \<in> {qp, qh}. set (((\<lambda>_. xh)(qp := xp)) q) \<inter> set xs = {} \<and>
      length (((\<lambda>_. xh)(qp := xp)) q) + length xs < 2 ^ 32"
    using assms(3,5-7) by auto
  ultimately show ?thesis by (simp add: sort_pre_def phy_out_def)
qed

lemma phy_sorted:
  assumes "\<forall>y \<in> set xs. pkt_in_buf s y"
  shows "sorted_to (phy_sorter a b qh qp) s xs 0 = filter (is_request s) xs"
    "sorted_to (phy_sorter a b qh qp) s xs 1 = filter (\<lambda>y. \<not> is_request s y) xs"
  using assms by (auto simp: sorted_to_def phy_cls intro!: filter_cong split: if_splits)

lemma phy_sorter_works:
  fixes s :: "'a pstore_scheme"
  assumes q: "q_repr s qp xp" "q_repr s qh xh" "qh \<noteq> qp" "set xp \<inter> set xh = {}"
    and l: "lst_repr (links s) pl xs" "set xs \<inter> (set xp \<union> set xh) = {}"
      "length xp + length xs < 2 ^ 32" "length xh + length xs < 2 ^ 32"
    and ok: "\<forall>y \<in> set xs. pkt_in_buf s y"
    and bufs: "\<forall>x \<in> set xs. \<forall>y \<in> set xs. x \<noteq> y \<longrightarrow> map_option p_buf (pkts s x) \<noteq> map_option p_buf (pkts s y)"
  shows "\<exists>s'. sin_pkt_sorter_proc (phy_sorter a b qh qp) pl s = Some (phy_sorter a b qh qp, s') \<and>
    q_repr s' qp (xp @ filter (is_request s) xs) \<and>
    q_repr s' qh (xh @ filter (\<lambda>y. \<not> is_request s y) xs) \<and> data_frame s s' \<and>
    (\<forall>y k b. y \<in> set xs \<longrightarrow> pkts s y = Some k \<longrightarrow> mem s (p_buf k) = Some b \<longrightarrow>
      mem s' (p_buf k) = (if is_request s y then req2rpl_buf b else Some b)) \<and>
    (\<forall>c. (\<forall>y k. y \<in> set xs \<longrightarrow> pkts s y = Some k \<longrightarrow> p_buf k \<noteq> c) \<longrightarrow> mem s' c = mem s c) \<and>
    (\<forall>c. c \<notin> set xs \<union> set xp \<union> set xh \<longrightarrow> links s' c = links s c)"
proof -
  let ?so = "phy_sorter a b qh qp :: ('a pstore_scheme) sin_pkt_sorter" and ?C = "(\<lambda>_. xh)(qp := xp)"
  from sorter_delivers_rewritten [OF l(1) phy_sort_pre [OF q l(2-4) ok, where a = a and b = b] phy_consumers bufs]
  obtain s' where s': "sin_pkt_sorter_proc ?so pl s = Some (?so, s')"
    "qs_repr s' {qp, qh} (deliver_all (phy_out qh qp) (sorted_to ?so s xs) [0..<Suc (length (so_first ?so))] ?C)"
    "data_frame s s'"
    "\<forall>y k c. y \<in> set xs \<longrightarrow> pkts s y = Some k \<longrightarrow> mem s (p_buf k) = Some c \<longrightarrow>
      mem s' (p_buf k) = phy_fun (cls ?so s y) c"
    "\<forall>c. (\<forall>y k. y \<in> set xs \<longrightarrow> pkts s y = Some k \<longrightarrow> p_buf k \<noteq> c) \<longrightarrow> mem s' c = mem s c"
    "\<forall>c. c \<notin> set xs \<longrightarrow> (\<forall>q \<in> {qp, qh}. c \<notin> set (?C q)) \<longrightarrow> links s' c = links s c"
    by (elim exE conjE)
  have u: "[0..<Suc (length (so_first ?so))] = [0, 1]" by (simp add: phy_sorter_def upt_rec)
  have at: "q_repr s' q (?C q @ concat (map (sorted_to ?so s xs) (filter (\<lambda>i. phy_out qh qp i = q) [0, 1])))"
    if "q \<in> {qp, qh}" for q
    using qs_reprD [OF s'(2) that] unfolding u deliver_all_at .
  have "q_repr s' qp (xp @ filter (is_request s) xs)" "q_repr s' qh (xh @ filter (\<lambda>y. \<not> is_request s y) xs)"
    using at [of qp] at [of qh] q(3) phy_sorted [OF ok] by (simp_all add: phy_out_def)
  moreover have "mem s' (p_buf k) = (if is_request s y then req2rpl_buf b else Some b)"
    if "y \<in> set xs" "pkts s y = Some k" "mem s (p_buf k) = Some b" for y k b
    using s'(4) that ok by (auto simp: phy_cls phy_fun_def)
  moreover have "links s' c = links s c" if "c \<notin> set xs \<union> set xp \<union> set xh" for c
    using s'(6) that by simp
  ultimately show ?thesis using s'(1,3,5) by (intro exI [of _ s']) blast
qed

subsection \<open>A turn of the receive thread\<close>

text \<open>The slots that wait between \<open>cur\<close> and \<open>tail\<close>, in order, and their buffers.\<close>

definition rx_window :: "netmap_ring \<Rightarrow> nat list" where
  "rx_window r = window (ring_size r) (unat (r_cur r))
     (rdist (ring_size r) (unat (r_cur r)) (unat (r_tail r)))"

definition slot_buf :: "netmap_api \<Rightarrow> addr \<Rightarrow> netmap_ring \<Rightarrow> nat \<Rightarrow> u64" where
  "slot_buf nm ring r j = NETMAP_BUF nm ring (s_buf_idx (r_slots r ! j))"

definition arrived_ok :: "netmap_api \<Rightarrow> 'a pstore_scheme \<Rightarrow> addr \<Rightarrow> netmap_ring \<Rightarrow> bool" where
  "arrived_ok nm s ring r \<longleftrightarrow> distinct (map (slot_buf nm ring r) (rx_window r)) \<and>
     (\<forall>j \<in> set (rx_window r). \<exists>b. mem s (slot_buf nm ring r j) = Some b \<and> 42 \<le> length b \<and>
        unat (s_len (r_slots r ! j)) \<le> length b)"

definition slot_request :: "netmap_api \<Rightarrow> 'a pstore_scheme \<Rightarrow> addr \<Rightarrow> netmap_ring \<Rightarrow> nat \<Rightarrow> bool" where
  "slot_request nm s ring r j \<longleftrightarrow> (case mem s (slot_buf nm ring r j) of None \<Rightarrow> False
     | Some b \<Rightarrow> 50 \<le> unat (s_len (r_slots r ! j)) \<and> icmp_frame 8 b)"

lemma q_repr_cong:
  "queues s' = queues s \<Longrightarrow> (\<And>a. a \<in> set xs \<Longrightarrow> links s' a = links s a) \<Longrightarrow> q_repr s q xs \<Longrightarrow> q_repr s' q xs"
  using lst_repr_cong [of xs "links s'" "links s"] by (simp add: q_repr_def cong: option.case_cong)

lemma unat_slot_len: "unat (ucast (n :: u16) :: u32) = unat n"
proof -
  have "unat n < 65536" using unsigned_less [of n, where ?'a = nat] by simp
  then show ?thesis by (simp add: unsigned_ucast_eq take_bit_nat_eq_self_iff)
qed

text \<open>The dequeueing part of a turn, on a state that satisfies the invariant.\<close>

lemma rx_dequeues:
  fixes s :: "'a pstore_scheme"
  assumes nm: "netmap_ok nm" and inv: "rx_inv nm ring zone s"
    and r: "rings s ring = Some r" and z: "zones s zone = Some z"
  defines "new \<equiv> map ((!) (z_pmap z)) (rx_window r)"
  shows "\<exists>pl s'. dequeue_pkts nm ring zone SIN_LIST_RESET s = Some (of_nat (length new), pl, s') \<and>
    rx_inv nm ring zone s' \<and> lst_repr (links s') pl new \<and> rx_frame s s' \<and>
    rings s' = (rings s)(ring \<mapsto> r\<lparr>r_cur := r_tail r\<rparr>) \<and>
    (\<forall>j \<in> set (rx_window r). \<exists>k. pkts s (z_pmap z ! j) = Some k \<and> \<not> is_busy k \<and>
      p_buf k = slot_buf nm ring r j \<and> pkts s' (z_pmap z ! j) = Some (rx_mark (r_slots r ! j) k)) \<and>
    (\<forall>a. a \<notin> set new \<longrightarrow> links s' a = links s a \<and> pkts s' a = pkts s a)"
proof -
  let ?n = "ring_size r" and ?c = "unat (r_cur r)" and ?k = "rdist (ring_size r) (unat (r_cur r)) (unat (r_tail r))"
  from inv r z have i: "ring_ok r" "length (z_pmap z) = ?n" "distinct (z_pmap z)" "ring_order r" "slots_inv s z r"
    "\<And>i. i < ?n \<Longrightarrow> slot_pkt_ok nm s zone ring r i (z_pmap z ! i)"
    by (auto elim!: rx_invE)
  note o = ring_okD [OF i(1)]
  note w = window_between [OF o(3,4,5) i(4) [unfolded ring_order_def]]
  have kn: "?k < ?n" using rdist_less [OF o(4,5)] .
  have free: "j < ?n \<and> \<not> busy_at s z j" if "j \<in> set (rx_window r)" for j
    using that i(5) unfolding rx_window_def w slots_inv_def by fastforce
  then have rdy: "\<forall>p \<in> set new. rx_ready s p" using i(5) by (auto simp: new_def slots_inv_def)
  have new: "new = map ((!) (z_pmap z)) (window ?n ?c ?k)" and len: "length new = ?k"
    by (simp_all add: new_def rx_window_def)
  have "length [] + ?k < 2 ^ 32"
    using kn unat_u32_bound [of "num_slots r"] by (simp add: ring_size_def)
  then obtain pl s' where d: "dequeue_loop nm ring zone 0 SIN_LIST_RESET s = Some (0 + of_nat ?k, pl, s')"
    "lst_repr (links s') pl ([] @ new)" "rings s' = (rings s)(ring \<mapsto> r\<lparr>r_cur := r_tail r\<rparr>)"
    "pkts s' = rx_fill (r_slots r) (z_pmap z) (window ?n ?c ?k) (pkts s)" "rx_frame s s'"
    "\<forall>a. a \<notin> set ([] @ new) \<longrightarrow> links s' a = links s a"
    using dequeue_loop_works [OF nm z i(2,3) r i(1) refl refl new rdy, of SIN_LIST_RESET "[]" 0]
    by (auto simp: lst_repr_def SIN_LIST_RESET_def)
  have dq: "dequeue_pkts nm ring zone SIN_LIST_RESET s = Some (of_nat (length new), pl, s')"
    using d(1) by (simp add: dequeue_pkts_def len)
  have wd: "distinct (window ?n ?c ?k)" using distinct_window [OF o(4)] kn by simp
  have "\<exists>k. pkts s (z_pmap z ! j) = Some k \<and> \<not> is_busy k \<and> p_buf k = slot_buf nm ring r j \<and>
      pkts s' (z_pmap z ! j) = Some (rx_mark (r_slots r ! j) k)" if j: "j \<in> set (rx_window r)" for j
  proof -
    from i(6) [of j] free [OF j] obtain k where k: "pkts s (z_pmap z ! j) = Some k"
      "p_buf k = slot_buf nm ring r j" by (auto simp: slot_buf_def elim: slot_pkt_okE)
    have "pkts s' (z_pmap z ! j) = Some (rx_mark (r_slots r ! j) k)"
      using rx_fill_at [OF i(3) wd, of j] w i(2) k(1) j free [OF j] by (simp add: d(4) rx_window_def)
    with k free [OF j] show ?thesis by (simp add: busy_at_def)
  qed
  moreover have "pkts s' a = pkts s a" if "a \<notin> set new" for a
    unfolding d(4) using that by (intro rx_fill_other) (simp add: new_def rx_window_def)
  ultimately show ?thesis using dq d(2,3,5,6) deq_keeps [OF nm inv dq]
    by (intro exI [of _ pl] exI [of _ s']) simp
qed

text \<open>What the caller of a turn provides: two queues, apart, whose packets are all busy.\<close>

definition turn_queues :: "'a pstore_scheme \<Rightarrow> nat \<Rightarrow> addr \<Rightarrow> addr list \<Rightarrow> addr \<Rightarrow> addr list \<Rightarrow> bool" where
  "turn_queues s n qp xp qh xh \<longleftrightarrow> q_repr s qp xp \<and> q_repr s qh xh \<and> qh \<noteq> qp \<and> set xp \<inter> set xh = {} \<and>
     (\<forall>y \<in> set xp \<union> set xh. \<forall>k. pkts s y = Some k \<longrightarrow> is_busy k) \<and>
     length xp + n < 2 ^ 32 \<and> length xh + n < 2 ^ 32"

lemma rx_window_length: "ring_ok r \<Longrightarrow> length (rx_window r) < ring_size r"
  using ring_okD [of r] rdist_less by (simp add: rx_window_def)

lemma filter_slots:
  assumes "\<And>j. j \<in> set w \<Longrightarrow> P (f j) = R j"
  shows "filter P (map f w) = map f (filter R w)"
  using assms by (induction w) auto

text \<open>Whoever touches only buffers, queues and the links of busy packets keeps the invariant.\<close>

lemma links_keep_rx_inv:
  assumes inv: "rx_inv nm ring zone s" and fr: "data_frame s s'"
    and A: "\<forall>y \<in> A. \<forall>k. pkts s y = Some k \<longrightarrow> is_busy k" "\<forall>c. c \<notin> A \<longrightarrow> links s' c = links s c"
  shows "rx_inv nm ring zone s'"
proof -
  from inv obtain z r where i: "zone_ok nm s zone ring" "zones s zone = Some z" "slots_inv s z r"
    "length (z_pmap z) = ring_size r" by (auto elim: rx_invE)
  have "rx_ready s (z_pmap z ! l) \<and> links s' (z_pmap z ! l) = links s (z_pmap z ! l)"
    if l: "l < length (z_pmap z)" "\<not> busy_at s z l" for l
  proof -
    have rd: "rx_ready s (z_pmap z ! l)" using l i(3,4) by (simp add: slots_inv_def)
    then have "z_pmap z ! l \<notin> A" using l(2) A(1) by (auto simp: busy_at_def rx_ready_def split: option.splits)
    with rd A(2) show ?thesis by blast
  qed
  then show ?thesis by (intro work_keeps [OF inv data_is_work [OF i(1,2) fr]]) blast
qed

text \<open>
  What a turn leaves alone: all but the descriptors of the packets that arrived, their
  buffers, and the links of these packets and of those in the queues.
\<close>

definition turned :: "netmap_api \<Rightarrow> 'a pstore_scheme \<Rightarrow> addr \<Rightarrow> netmap_ring \<Rightarrow> sin_pkt_zone \<Rightarrow> addr set \<Rightarrow>
    'a pstore_scheme \<Rightarrow> bool" where
  "turned nm s ring r z A s' \<longleftrightarrow> zones s' = zones s \<and> (\<forall>a. a \<noteq> ring \<longrightarrow> rings s' a = rings s a) \<and>
     map_option r_slots (rings s' ring) = Some (r_slots r) \<and>
     (\<forall>j \<in> set (rx_window r). \<exists>k. pkts s (z_pmap z ! j) = Some k \<and> p_buf k = slot_buf nm ring r j \<and>
        pkts s' (z_pmap z ! j) = Some (rx_mark (r_slots r ! j) k)) \<and>
     (\<forall>a. a \<notin> (!) (z_pmap z) ` set (rx_window r) \<longrightarrow> pkts s' a = pkts s a \<and> (a \<notin> A \<longrightarrow> links s' a = links s a)) \<and>
     (\<forall>c. c \<notin> slot_buf nm ring r ` set (rx_window r) \<longrightarrow> mem s' c = mem s c)"

lemma turned_rings:
  assumes "turned nm s ring r z A s'" and "\<forall>a. a \<noteq> ring \<longrightarrow> R a = rings s' a"
    and "map_option r_slots (R ring) = map_option r_slots (rings s' ring)"
  shows "turned nm s ring r z A (s'\<lparr>rings := R\<rparr>)"
  using assms by (simp add: turned_def)

lemma rx_sorts:
  fixes s :: "'a pstore_scheme"
  assumes nm: "netmap_ok nm" and inv: "rx_inv nm ring zone s"
    and r: "rings s ring = Some r" and z: "zones s zone = Some z"
    and Q: "turn_queues s (ring_size r) qp xp qh xh" and ok: "arrived_ok nm s ring r"
  shows "\<exists>pl s1 s2. dequeue_pkts nm ring zone SIN_LIST_RESET s = Some (of_nat (length (rx_window r)), pl, s1) \<and>
    lst_repr (links s1) pl (map ((!) (z_pmap z)) (rx_window r)) \<and>
    sin_pkt_sorter_proc (phy_sorter a b qh qp) pl s1 = Some (phy_sorter a b qh qp, s2) \<and>
    rx_inv nm ring zone s2 \<and> rings s2 = (rings s)(ring \<mapsto> r\<lparr>r_cur := r_tail r\<rparr>) \<and>
    q_repr s2 qp (xp @ map ((!) (z_pmap z)) (filter (slot_request nm s ring r) (rx_window r))) \<and>
    q_repr s2 qh (xh @ map ((!) (z_pmap z)) (filter (\<lambda>j. \<not> slot_request nm s ring r j) (rx_window r))) \<and>
    (\<forall>j \<in> set (rx_window r). busy_at s2 z j) \<and>
    (\<forall>j \<in> set (rx_window r). mem s2 (slot_buf nm ring r j) =
      (if slot_request nm s ring r j then req2rpl_buf (the (mem s (slot_buf nm ring r j)))
       else mem s (slot_buf nm ring r j))) \<and>
    turned nm s ring r z (set xp \<union> set xh) s2"
proof -
  let ?new = "map ((!) (z_pmap z)) (rx_window r)" and ?so = "phy_sorter a b qh qp :: ('a pstore_scheme) sin_pkt_sorter"
  from rx_dequeues [OF nm inv r z] obtain pl s1 where d:
    "dequeue_pkts nm ring zone SIN_LIST_RESET s = Some (of_nat (length (rx_window r)), pl, s1)"
    "rx_inv nm ring zone s1" "lst_repr (links s1) pl ?new" "rx_frame s s1"
    "rings s1 = (rings s)(ring \<mapsto> r\<lparr>r_cur := r_tail r\<rparr>)"
    "\<forall>j \<in> set (rx_window r). \<exists>k. pkts s (z_pmap z ! j) = Some k \<and> \<not> is_busy k \<and>
      p_buf k = slot_buf nm ring r j \<and> pkts s1 (z_pmap z ! j) = Some (rx_mark (r_slots r ! j) k)"
    "\<forall>a. a \<notin> set ?new \<longrightarrow> links s1 a = links s a \<and> pkts s1 a = pkts s a" by auto
  note f = rx_frame_simps [OF d(4)]
  have q: "q_repr s qp xp" "q_repr s qh xh" "qh \<noteq> qp" "set xp \<inter> set xh = {}"
    "\<forall>y \<in> set xp \<union> set xh. \<forall>k. pkts s y = Some k \<longrightarrow> is_busy k"
    using Q by (simp_all add: turn_queues_def)
  have apart: "set ?new \<inter> (set xp \<union> set xh) = {}" using d(6) q(5) by fastforce
  then have lk: "links s1 c = links s c" "pkts s1 c = pkts s c" if "c \<in> set xp \<union> set xh" for c
    using d(7) that by blast+
  have q1: "q_repr s1 qp xp" "q_repr s1 qh xh"
    using q_repr_cong [OF f(3) _ q(1)] q_repr_cong [OF f(3) _ q(2)] lk by blast+
  have pk: "pkt_in_buf s1 (z_pmap z ! j)" "is_request s1 (z_pmap z ! j) = slot_request nm s ring r j"
    if j: "j \<in> set (rx_window r)" for j
  proof -
    from d(6) j obtain k where k: "p_buf k = slot_buf nm ring r j"
      "pkts s1 (z_pmap z ! j) = Some (rx_mark (r_slots r ! j) k)" by blast
    from ok j obtain b where b: "mem s (slot_buf nm ring r j) = Some b" "42 \<le> length b"
      "unat (s_len (r_slots r ! j)) \<le> length b" by (auto simp: arrived_ok_def)
    show "pkt_in_buf s1 (z_pmap z ! j)" using k b f(2) by (simp add: pkt_in_buf_def unat_slot_len)
    show "is_request s1 (z_pmap z ! j) = slot_request nm s ring r j"
      using k b f(2) by (simp add: is_request_def slot_request_def unat_slot_len)
  qed
  have pb: "map_option p_buf (pkts s1 (z_pmap z ! j)) = Some (slot_buf nm ring r j)"
    if "j \<in> set (rx_window r)" for j using d(6) that by fastforce
  have "\<forall>x \<in> set ?new. \<forall>y \<in> set ?new. x \<noteq> y \<longrightarrow>
      map_option p_buf (pkts s1 x) \<noteq> map_option p_buf (pkts s1 y)"
  proof (clarsimp)
    fix i j assume ij: "i \<in> set (rx_window r)" "j \<in> set (rx_window r)" "z_pmap z ! i \<noteq> z_pmap z ! j"
      "map_option p_buf (pkts s1 (z_pmap z ! i)) = map_option p_buf (pkts s1 (z_pmap z ! j))"
    then have "slot_buf nm ring r i = slot_buf nm ring r j" using pb [of i] pb [of j] by simp
    then show False using ij(1-3) ok by (auto simp: arrived_ok_def distinct_map dest: inj_onD)
  qed
  moreover have "length xp + length ?new < 2 ^ 32" "length xh + length ?new < 2 ^ 32"
    using Q rx_window_length [of r] inv r by (auto simp: turn_queues_def elim!: rx_invE)
  moreover have "\<forall>y \<in> set ?new. pkt_in_buf s1 y" using pk(1) by auto
  ultimately obtain s2 where s2: "sin_pkt_sorter_proc ?so pl s1 = Some (?so, s2)"
    "q_repr s2 qp (xp @ filter (is_request s1) ?new)"
    "q_repr s2 qh (xh @ filter (\<lambda>y. \<not> is_request s1 y) ?new)" "data_frame s1 s2"
    "\<forall>y k c. y \<in> set ?new \<longrightarrow> pkts s1 y = Some k \<longrightarrow> mem s1 (p_buf k) = Some c \<longrightarrow>
      mem s2 (p_buf k) = (if is_request s1 y then req2rpl_buf c else Some c)"
    "\<forall>c. (\<forall>y k. y \<in> set ?new \<longrightarrow> pkts s1 y = Some k \<longrightarrow> p_buf k \<noteq> c) \<longrightarrow> mem s2 c = mem s1 c"
    "\<forall>c. c \<notin> set ?new \<union> set xp \<union> set xh \<longrightarrow> links s2 c = links s1 c"
    using phy_sorter_works [OF q1 q(3,4) d(3) apart, where a = a and b = b] by auto
  have busy1: "busy_at s1 z j" if "j \<in> set (rx_window r)" for j
    using d(6) that by (auto simp: busy_at_def)
  have "\<forall>y \<in> set ?new \<union> set xp \<union> set xh. \<forall>k. pkts s1 y = Some k \<longrightarrow> is_busy k"
    using d(6) q(5) lk(2) by fastforce
  then have inv2: "rx_inv nm ring zone s2" using s2(7) by (rule links_keep_rx_inv [OF d(2) s2(4)])
  have "filter (is_request s1) ?new = map ((!) (z_pmap z)) (filter (slot_request nm s ring r) (rx_window r))"
    "filter (\<lambda>y. \<not> is_request s1 y) ?new
      = map ((!) (z_pmap z)) (filter (\<lambda>j. \<not> slot_request nm s ring r j) (rx_window r))"
    using pk(2) by (auto intro!: filter_slots)
  moreover have "mem s2 (slot_buf nm ring r j) =
      (if slot_request nm s ring r j then req2rpl_buf (the (mem s (slot_buf nm ring r j)))
       else mem s (slot_buf nm ring r j))" if j: "j \<in> set (rx_window r)" for j
  proof -
    from d(6) j obtain k where "p_buf (rx_mark (r_slots r ! j) k) = slot_buf nm ring r j"
      "pkts s1 (z_pmap z ! j) = Some (rx_mark (r_slots r ! j) k)" by auto
    moreover from ok j obtain b where "mem s (slot_buf nm ring r j) = Some b" by (auto simp: arrived_ok_def)
    ultimately show ?thesis using s2(5) pk(2) [OF j] j f(2) by force
  qed
  moreover have "turned nm s ring r z (set xp \<union> set xh) s2"
  proof -
    note g = data_frame_simps [OF s2(4)]
    have "mem s2 c = mem s c" if c: "c \<notin> slot_buf nm ring r ` set (rx_window r)" for c
    proof -
      have "p_buf k \<noteq> c" if "y \<in> set ?new" "pkts s1 y = Some k" for y k
        using d(6) c that by fastforce
      then show ?thesis using s2(6) f(2) by auto
    qed
    moreover have "\<exists>k. pkts s (z_pmap z ! j) = Some k \<and> p_buf k = slot_buf nm ring r j \<and>
        pkts s2 (z_pmap z ! j) = Some (rx_mark (r_slots r ! j) k)" if "j \<in> set (rx_window r)" for j
      using d(6) that g by fastforce
    ultimately show ?thesis
      using f(1) g d(5,7) s2(7) by (auto simp: turned_def)
  qed
  ultimately show ?thesis
    using d(1,3,5) s2(1-4) inv2 busy1 data_frame_simps [OF s2(4)]
    by (intro exI [of _ pl] exI [of _ s1] exI [of _ s2]) (simp add: busy_at_def)
qed

text \<open>After an empty poll nothing is taken; otherwise the turn ends with giving slots back.\<close>

lemma rx_window_empty: "netmap_ok nm \<Longrightarrow> ring_ok r \<Longrightarrow> nm_ring_empty nm r \<longleftrightarrow> rx_window r = []"
proof -
  assume nm: "netmap_ok nm" and ok: "ring_ok r"
  note o = ring_okD [OF ok]
  have "rx_window r = [] \<longleftrightarrow> unat (r_cur r) = unat (r_tail r)"
    using rdist_zero [OF o(4,5)] by (simp add: rx_window_def window_def)
  also have "\<dots> \<longleftrightarrow> r_cur r = r_tail r" using unsigned_word_eqI [where ?'a = nat] by metis
  finally show "nm_ring_empty nm r \<longleftrightarrow> rx_window r = []" using nm by (simp add: netmap_ok_def)
qed

lemma rx_spins:
  assumes nm: "netmap_ok nm" and inv: "rx_inv nm ring zone s"
  shows "\<exists>R. spin_ring nm ring zone s = Some (s\<lparr>rings := R\<rparr>) \<and> rx_inv nm ring zone (s\<lparr>rings := R\<rparr>) \<and>
    map_option r_cur (R ring) = map_option r_cur (rings s ring) \<and> (\<forall>a. a \<noteq> ring \<longrightarrow> R a = rings s a) \<and>
    map_option r_slots (R ring) = map_option r_slots (rings s ring)"
proof -
  from inv obtain z r where i: "zones s zone = Some z" "rings s ring = Some r" "ring_ok r"
    "length (z_pmap z) = ring_size r"
    "\<And>i. i < ring_size r \<Longrightarrow> slot_pkt_ok nm s zone ring r i (z_pmap z ! i)" by (rule rx_invE) blast
  then have "\<forall>j < ring_size r. pkts s (z_pmap z ! j) \<noteq> None" using slot_pkt_ok_pkt by blast
  from spin_ring_works [OF nm i(1,4,2,3) refl this]
  obtain h where h: "spin_ring nm ring zone s = Some (s\<lparr>rings := (rings s)(ring \<mapsto> r\<lparr>r_head := h\<rparr>)\<rparr>)"
    by blast
  with spin_keeps [OF nm inv h] i(2) show ?thesis by auto
qed

lemma q_repr_rings [simp]: "q_repr (s\<lparr>rings := R\<rparr>) q xs = q_repr s q xs"
  by (simp add: q_repr_def cong: option.case_cong)

subsection \<open>Properties\<close>

text \<open>
  A hardware ring's sorter. Given a list of packets, the sorter that \<open>sin_init\<close> builds
  turns every ICMP echo request into its reply, in place, and appends it to the ring's own
  transmit queue, and appends everything else, unchanged, to the host's transmit queue,
  both in arrival order; the sorter is idle again and no other buffer changes.
\<close>

theorem phy_sorter_correct:
  assumes "q_repr s qp xp" and "q_repr s qh xh" and "qh \<noteq> qp" and "set xp \<inter> set xh = {}"
    and "lst_repr (links s) pl xs" and "set xs \<inter> (set xp \<union> set xh) = {}"
    and "length xp + length xs < 2 ^ 32" and "length xh + length xs < 2 ^ 32"
    and "\<forall>y \<in> set xs. pkt_in_buf s y"
    and "\<forall>x \<in> set xs. \<forall>y \<in> set xs. x \<noteq> y \<longrightarrow> map_option p_buf (pkts s x) \<noteq> map_option p_buf (pkts s y)"
  shows "\<exists>s'. sin_pkt_sorter_proc (phy_sorter a b qh qp) pl s = Some (phy_sorter a b qh qp, s') \<and>
    q_repr s' qp (xp @ filter (is_request s) xs) \<and>
    q_repr s' qh (xh @ filter (\<lambda>y. \<not> is_request s y) xs) \<and> pkts s' = pkts s \<and>
    (\<forall>y \<in> set xs. \<exists>k d c. pkts s y = Some k \<and> mem s (p_buf k) = Some d \<and>
      mem s' (p_buf k) = Some (if is_request s y then icmp_reply c d else d)) \<and>
    (\<forall>e. (\<forall>y k. y \<in> set xs \<longrightarrow> pkts s y = Some k \<longrightarrow> p_buf k \<noteq> e) \<longrightarrow> mem s' e = mem s e)"
proof -
  from phy_sorter_works [OF assms, where a = a and b = b] obtain s' where s':
    "sin_pkt_sorter_proc (phy_sorter a b qh qp) pl s = Some (phy_sorter a b qh qp, s')"
    "q_repr s' qp (xp @ filter (is_request s) xs)" "q_repr s' qh (xh @ filter (\<lambda>y. \<not> is_request s y) xs)"
    "data_frame s s'"
    "\<forall>y k b. y \<in> set xs \<longrightarrow> pkts s y = Some k \<longrightarrow> mem s (p_buf k) = Some b \<longrightarrow>
      mem s' (p_buf k) = (if is_request s y then req2rpl_buf b else Some b)"
    "\<forall>c. (\<forall>y k. y \<in> set xs \<longrightarrow> pkts s y = Some k \<longrightarrow> p_buf k \<noteq> c) \<longrightarrow> mem s' c = mem s c"
    by (elim exE conjE)
  have "\<exists>k d c. pkts s y = Some k \<and> mem s (p_buf k) = Some d \<and>
      mem s' (p_buf k) = Some (if is_request s y then icmp_reply c d else d)" if y: "y \<in> set xs" for y
  proof -
    from assms(9) y obtain k d where k: "pkts s y = Some k" "mem s (p_buf k) = Some d" "42 \<le> length d"
      by (auto simp: pkt_in_buf_def)
    obtain c where "req2rpl_buf d = Some (icmp_reply c d)" using req2rpl_buf_spec [of d] k(3) by auto
    with s'(5) y k show ?thesis by (intro exI [of _ k] exI [of _ d] exI [of _ c]) simp
  qed
  with s' data_frame_simps(1) [OF s'(4)] show ?thesis by blast
qed

lemma ex_linked_bufs:
  "\<forall>y \<in> set [21, 22, 23]. pkt_in_buf ex_linked y"
  "\<forall>x \<in> set [21, 22, 23]. \<forall>y \<in> set [21, 22, 23]. x \<noteq> y \<longrightarrow>
     map_option p_buf (pkts ex_linked x) \<noteq> map_option p_buf (pkts ex_linked y)"
  "is_request ex_linked 21" "\<not> is_request ex_linked 22" "\<not> is_request ex_linked 23"
proof -
  have n: "\<not> icmp_frame 8 (replicate 2048 0)" by (simp add: icmp_frame_def)
  show "\<forall>y \<in> set [21, 22, 23]. pkt_in_buf ex_linked y"
    "\<forall>x \<in> set [21, 22, 23]. \<forall>y \<in> set [21, 22, 23]. x \<noteq> y \<longrightarrow>
       map_option p_buf (pkts ex_linked x) \<noteq> map_option p_buf (pkts ex_linked y)"
    "is_request ex_linked 21" "\<not> is_request ex_linked 22" "\<not> is_request ex_linked 23"
    by (simp_all add: pkt_in_buf_def is_request_def ex_linked_def ex_store_def ex_frame_request n)
qed

theorem phy_sorter_correct_witness:
  "\<exists>s'. sin_pkt_sorter_proc (phy_sorter 5 6 52 51) ex_list ex_linked = Some (phy_sorter 5 6 52 51, s') \<and>
     q_repr s' 51 [21] \<and> q_repr s' 52 [22, 23] \<and> mem s' 2 = mem ex_linked 2"
proof -
  have q: "q_repr ex_linked 51 []" "q_repr ex_linked 52 []"
    using ex_linked_queues by (simp_all add: qs_repr_def)
  have p: "pkts ex_linked 22 = Some (ex_pkt 10 71 1 42 2)" by (simp add: ex_linked_def ex_store_facts)
  from phy_sorter_correct [OF q _ _ ex_linked_repr _ _ _ ex_linked_bufs(1,2), of 5 6]
  obtain s' where s': "sin_pkt_sorter_proc (phy_sorter 5 6 52 51) ex_list ex_linked = Some (phy_sorter 5 6 52 51, s')"
    "q_repr s' 51 ([] @ filter (is_request ex_linked) [21, 22, 23])"
    "q_repr s' 52 ([] @ filter (\<lambda>y. \<not> is_request ex_linked y) [21, 22, 23])"
    "\<forall>y \<in> set [21, 22, 23]. \<exists>k d c. pkts ex_linked y = Some k \<and> mem ex_linked (p_buf k) = Some d \<and>
      mem s' (p_buf k) = Some (if is_request ex_linked y then icmp_reply c d else d)"
    by auto
  have "mem s' 2 = mem ex_linked 2" using bspec [OF s'(4), of 22] p ex_linked_bufs(4) by auto
  with s'(1-3) ex_linked_bufs(3-5) show ?thesis by auto
qed

lemma rx_turn_works:
  assumes nm: "netmap_ok nm" and inv: "rx_inv nm ring zone s"
    and r0: "rings s ring = Some r0" and z: "zones s zone = Some z"
    and poll: "kernel_step r0 r" "in_poll inp r0 = r" "in_ready inp"
    and Q: "turn_queues s (ring_size r0) qp xp qh xh" and ok: "arrived_ok nm s ring r"
    and t: "t = \<lparr>srt_rx_ring = ring, srt_rx_zone = zone, srt_rx_sort = phy_sorter a b qh qp, srt_queue_fd = fd\<rparr>"
  shows "\<exists>s' r'. sin_rx_thread_turn nm inp t SIN_LIST_RESET s = Some (in_ctrl inp = SIGTERM, t, SIN_LIST_RESET, s') \<and>
    rx_inv nm ring zone s' \<and> rings s' ring = Some r' \<and> r_cur r' = r_tail r \<and>
    q_repr s' qp (xp @ map ((!) (z_pmap z)) (filter (slot_request nm s ring r) (rx_window r))) \<and>
    q_repr s' qh (xh @ map ((!) (z_pmap z)) (filter (\<lambda>j. \<not> slot_request nm s ring r j) (rx_window r))) \<and>
    (\<forall>j \<in> set (rx_window r). busy_at s' z j \<and> mem s' (slot_buf nm ring r j) =
      (if slot_request nm s ring r j then req2rpl_buf (the (mem s (slot_buf nm ring r j)))
       else mem s (slot_buf nm ring r j))) \<and>
    turned nm s ring r z (set xp \<union> set xh) s'"
proof -
  define s0 where "s0 = s\<lparr>rings := (rings s)(ring \<mapsto> r)\<rparr>"
  have inv0: "rx_inv nm ring zone s0" using poll_keeps [OF inv r0 poll(1)] by (simp add: s0_def)
  have r: "rings s0 ring = Some r" and z0: "zones s0 zone = Some z" and rok: "ring_ok r"
    using z inv0 by (auto simp: s0_def elim!: rx_invE)
  have "ring_size r = ring_size r0" using poll(1) by (simp add: kernel_step_def ring_size_def)
  then have Q0: "turn_queues s0 (ring_size r) qp xp qh xh" using Q by (simp add: turn_queues_def s0_def)
  have ok0: "arrived_ok nm s0 ring r" using ok by (simp add: arrived_ok_def s0_def)
  have req: "slot_request nm s0 ring r = slot_request nm s ring r"
    by (simp add: slot_request_def s0_def fun_eq_iff)
  from rx_sorts [OF nm inv0 r z0 Q0 ok0, where a = a and b = b, unfolded req]
  obtain pl s1 s2 where d: "dequeue_pkts nm ring zone SIN_LIST_RESET s0 = Some (of_nat (length (rx_window r)), pl, s1)"
    "lst_repr (links s1) pl (map ((!) (z_pmap z)) (rx_window r))"
    "sin_pkt_sorter_proc (phy_sorter a b qh qp) pl s1 = Some (phy_sorter a b qh qp, s2)"
    "rx_inv nm ring zone s2" "rings s2 = (rings s0)(ring \<mapsto> r\<lparr>r_cur := r_tail r\<rparr>)"
    "q_repr s2 qp (xp @ map ((!) (z_pmap z)) (filter (slot_request nm s ring r) (rx_window r)))"
    "q_repr s2 qh (xh @ map ((!) (z_pmap z)) (filter (\<lambda>j. \<not> slot_request nm s ring r j) (rx_window r)))"
    "\<forall>j \<in> set (rx_window r). busy_at s2 z j"
    "\<forall>j \<in> set (rx_window r). mem s2 (slot_buf nm ring r j) =
      (if slot_request nm s ring r j then req2rpl_buf (the (mem s0 (slot_buf nm ring r j)))
       else mem s0 (slot_buf nm ring r j))"
    "turned nm s0 ring r z (set xp \<union> set xh) s2"
    by (elim exE conjE)
  define s3 where "s3 = (if nm_ring_empty nm r then s0 else s2)"
  have e: "nm_ring_empty nm r \<longleftrightarrow> rx_window r = []" using nm rok by (rule rx_window_empty)
  have tail: "nm_ring_empty nm r \<Longrightarrow> r_cur r = r_tail r" using nm by (simp add: netmap_ok_def)
  have s3: "rx_inv nm ring zone s3" "map_option r_cur (rings s3 ring) = Some (r_tail r)"
    "q_repr s3 qp (xp @ map ((!) (z_pmap z)) (filter (slot_request nm s ring r) (rx_window r)))"
    "q_repr s3 qh (xh @ map ((!) (z_pmap z)) (filter (\<lambda>j. \<not> slot_request nm s ring r j) (rx_window r)))"
    "\<forall>j \<in> set (rx_window r). busy_at s3 z j \<and> mem s3 (slot_buf nm ring r j) =
      (if slot_request nm s ring r j then req2rpl_buf (the (mem s (slot_buf nm ring r j)))
       else mem s (slot_buf nm ring r j))"
    using d(4-9) inv0 r e tail Q0 by (auto simp: s3_def s0_def turn_queues_def)
  have t3: "turned nm s ring r z (set xp \<union> set xh) s3"
    using d(10) e by (simp add: s3_def turned_def s0_def)
  obtain R where R: "spin_ring nm ring zone s3 = Some (s3\<lparr>rings := R\<rparr>)" "rx_inv nm ring zone (s3\<lparr>rings := R\<rparr>)"
    "map_option r_cur (R ring) = map_option r_cur (rings s3 ring)" "\<forall>a. a \<noteq> ring \<longrightarrow> R a = rings s3 a"
    "map_option r_slots (R ring) = map_option r_slots (rings s3 ring)" using rx_spins [OF nm s3(1)] by blast
  define s4 where "s4 = (if in_ctrl inp = SIGTERM then s3 else s3\<lparr>rings := R\<rparr>)"
  have "\<not> nm_ring_empty nm r \<Longrightarrow> \<not> SIN_LIST_IS_EMPTY pl" using lst_repr_empty [OF d(2)] e by simp
  then have "sin_rx_thread_turn nm inp t SIN_LIST_RESET s = Some (in_ctrl inp = SIGTERM, t, SIN_LIST_RESET, s4)"
    using poll(2,3) d(1,3) R(1) r r0
    by (cases "nm_ring_empty nm r")
      (simp_all add: sin_rx_thread_turn_def set_ring_def s4_def s3_def t s0_def)
  moreover have "map_option r_cur (rings s4 ring) = Some (r_tail r)" 
    unfolding s4_def using s3(2) trans [OF R(3) s3(2)] by simp
  then obtain r' where "rings s4 ring = Some r'" "r_cur r' = r_tail r" by auto
  moreover have "rx_inv nm ring zone s4" using s3(1) R(2) by (simp add: s4_def)
  moreover have "turned nm s ring r z (set xp \<union> set xh) s4"
    using t3 turned_rings [OF t3 R(4,5)] by (simp add: s4_def)
  ultimately show ?thesis using s3(3-5) by (intro exI [of _ s4] exI [of _ r']) (auto simp: s4_def)
qed

text \<open>
  C2. A turn of the receive thread, from the wire to the queues. When \<open>poll\<close> has moved the
  tail of a hardware ring and reports input, the turn takes the packets of all slots between
  \<open>cur\<close> and \<open>tail\<close>, marks them busy, answers the echo requests among them into the ring's
  transmit queue and passes the others, unchanged, to the host's, both in ring order; \<open>cur\<close>
  arrives at the tail, the local list and the sorter are empty again, the invariant of the
  ring still holds, and the loop ends exactly on \<open>SIGTERM\<close>.
\<close>

theorem rx_turn_correct:
  assumes nm: "netmap_ok nm" and inv: "rx_inv nm ring zone s"
    and r0: "rings s ring = Some r0" and z: "zones s zone = Some z"
    and poll: "kernel_step r0 r" "in_poll inp r0 = r" "in_ready inp"
    and Q: "turn_queues s (ring_size r0) qp xp qh xh" and ok: "arrived_ok nm s ring r"
    and t: "t = \<lparr>srt_rx_ring = ring, srt_rx_zone = zone, srt_rx_sort = phy_sorter a b qh qp, srt_queue_fd = fd\<rparr>"
  shows "\<exists>s' r'. sin_rx_thread_turn nm inp t SIN_LIST_RESET s = Some (in_ctrl inp = SIGTERM, t, SIN_LIST_RESET, s') \<and>
    rx_inv nm ring zone s' \<and> rings s' ring = Some r' \<and> r_cur r' = r_tail r \<and>
    q_repr s' qp (xp @ map ((!) (z_pmap z)) (filter (slot_request nm s ring r) (rx_window r))) \<and>
    q_repr s' qh (xh @ map ((!) (z_pmap z)) (filter (\<lambda>j. \<not> slot_request nm s ring r j) (rx_window r))) \<and>
    (\<forall>j \<in> set (rx_window r). busy_at s' z j \<and> mem s' (slot_buf nm ring r j) =
      (if slot_request nm s ring r j then req2rpl_buf (the (mem s (slot_buf nm ring r j)))
       else mem s (slot_buf nm ring r j)))"
  using rx_turn_works [OF assms] by blast

lemma ex_rx_window: "rx_window ex_rx_ring = [0, 1]"
  by (simp add: rx_window_def ex_rx_ring_facts rdist_def window_def ridx_def numeral_2_eq_2)

lemma ex_slot_buf: "slot_buf ex_nm 71 ex_rx_ring 0 = 1" "slot_buf ex_nm 71 ex_rx_ring 1 = 2"
  by (simp_all add: slot_buf_def ex_nm_def ex_rx_ring_def ex_slot_def)

lemma ex_slot_len: "s_len (r_slots ex_rx_ring ! 0) = 64" "s_len (r_slots ex_rx_ring ! 1) = 64"
  by (simp_all add: ex_rx_ring_def ex_slot_def)

lemma ex_turn_facts:
  "turn_queues ex_store 3 51 [] 52 []" "arrived_ok ex_nm ex_store 71 ex_rx_ring"
  "slot_request ex_nm ex_store 71 ex_rx_ring 0" "\<not> slot_request ex_nm ex_store 71 ex_rx_ring 1"
  "kernel_step ex_rx_ring ex_rx_ring"
proof -
  have n: "\<not> icmp_frame 8 (replicate 2048 0)" by (simp add: icmp_frame_def)
  show "turn_queues ex_store 3 51 [] 52 []"
    by (simp add: turn_queues_def q_repr_def ex_store_def ex_queue_def sin_wi_queue_zero_def lst_repr_def)
  show "arrived_ok ex_nm ex_store 71 ex_rx_ring"
    by (simp add: arrived_ok_def ex_rx_window ex_slot_buf ex_slot_len ex_store_facts
        ex_slot_buf(2) [simplified] ex_slot_len(2) [simplified])
  show "slot_request ex_nm ex_store 71 ex_rx_ring 0"
    by (simp add: slot_request_def ex_slot_buf ex_slot_len ex_store_facts ex_frame_request)
  show "\<not> slot_request ex_nm ex_store 71 ex_rx_ring 1"
    unfolding slot_request_def ex_slot_buf ex_slot_len by (simp add: ex_store_facts n)
  show "kernel_step ex_rx_ring ex_rx_ring" by (simp add: kernel_step_def ex_rx_ring_facts)
qed

theorem rx_turn_correct_witness:
  "\<exists>t s'. sin_rx_thread_turn ex_nm \<lparr>in_poll = id, in_ready = True, in_ctrl = -1\<rparr> t SIN_LIST_RESET ex_store
      = Some (False, t, SIN_LIST_RESET, s') \<and> q_repr s' 51 [21] \<and> q_repr s' 52 [22]"
proof -
  let ?inp = "\<lparr>in_poll = id, in_ready = True, in_ctrl = -1\<rparr>"
  let ?t = "\<lparr>srt_rx_ring = 71, srt_rx_zone = 10, srt_rx_sort = phy_sorter 5 6 52 51, srt_queue_fd = 9\<rparr>
    :: pstore sin_rx_thread"
  have i: "in_poll ?inp ex_rx_ring = ex_rx_ring" "in_ready ?inp" by simp_all
  have Q: "turn_queues ex_store (ring_size ex_rx_ring) 51 [] 52 []"
    using ex_turn_facts(1) by (simp add: ex_rx_ring_facts)
  from rx_turn_correct [OF ex_nm_ok ex_rx_inv ex_rx_ring_facts(3) ex_rx_zone ex_turn_facts(5) i Q ex_turn_facts(2) refl, of 5 6 9]
  obtain s' where s': "sin_rx_thread_turn ex_nm ?inp ?t SIN_LIST_RESET ex_store
      = Some (in_ctrl ?inp = SIGTERM, ?t, SIN_LIST_RESET, s')"
    "q_repr s' 51 ([] @ map ((!) (z_pmap (ex_zone 61 [21, 22, 23])))
       (filter (slot_request ex_nm ex_store 71 ex_rx_ring) (rx_window ex_rx_ring)))"
    "q_repr s' 52 ([] @ map ((!) (z_pmap (ex_zone 61 [21, 22, 23])))
       (filter (\<lambda>j. \<not> slot_request ex_nm ex_store 71 ex_rx_ring j) (rx_window ex_rx_ring)))"
    by (elim exE conjE)
  have "q_repr s' 51 [21]" "q_repr s' 52 [22]"
    using s'(2,3) ex_turn_facts(3,4) unfolding ex_rx_window by (simp_all add: ex_zone_def)
  with s'(1) show ?thesis by (intro exI [of _ ?t] exI [of _ s']) (simp add: SIGTERM_def)
qed

subsection \<open>With the UDP mirror registered\<close>

definition mirror_fun :: "nat \<Rightarrow> u8 list \<Rightarrow> u8 list option" where
  "mirror_fun i = (if i = 0 then mirror_buf else if i = 1 then req2rpl_buf else Some)"

definition mirror_out :: "addr \<Rightarrow> addr \<Rightarrow> nat \<Rightarrow> addr" where
  "mirror_out qh qp i = (if i = 0 \<or> i = 1 then qp else qh)"

lemma mirror_consumers:
  "\<forall>i \<le> length (so_first (mirror_sorter prm a b c qh qp ap)).
     consumer (mirror_out qh qp i) (\<lambda>P. fold (rewrite_mem (mirror_fun i) P))
       (consume_of (mirror_sorter prm a b c qh qp ap) i)"
proof (intro allI impI)
  fix i assume "i \<le> length (so_first (mirror_sorter prm a b c qh qp ap))"
  then consider "i = 0" | "i = 1" | "i = 2" by (fastforce simp: mirror_sorter_def)
  then show "consumer (mirror_out qh qp i) (\<lambda>P. fold (rewrite_mem (mirror_fun i) P))
      (consume_of (mirror_sorter prm a b c qh qp ap) i)"
    using udpm_proc_consumer [of qp ap] icmp_proc_cb_consumer [of qp] put_items_cb_consumer [of qh]
    by cases (simp_all add: consume_of_def [abs_def] mirror_defs mirror_out_def mirror_fun_def)
qed

lemma mirror_cls:
  "pkt_in_buf s y \<Longrightarrow> prm ap = Some args \<Longrightarrow> cls (mirror_sorter prm a b c qh qp ap) s y =
    (if is_udp args s y then 0 else if is_request s y then 1 else 2)"
  by (simp add: cls_def mirror_defs icmp_taste_class udpm_taste_class)

lemma mirror_sort_pre:
  fixes s :: "'a pstore_scheme"
  assumes "q_repr s qp xp" "q_repr s qh xh" "qh \<noteq> qp" "set xp \<inter> set xh = {}"
    and "set xs \<inter> (set xp \<union> set xh) = {}" "length xp + length xs < 2 ^ 32" "length xh + length xs < 2 ^ 32"
    and ok: "\<forall>y \<in> set xs. pkt_in_buf s y" and prm: "prm ap = Some args"
  shows "sort_pre s (mirror_sorter prm a b c qh qp ap) {qp, qh} ((\<lambda>_. xh)(qp := xp)) (mirror_out qh qp) xs"
proof -
  let ?so = "mirror_sorter prm a b c qh qp ap :: ('a pstore_scheme) sin_pkt_sorter"
  have "\<forall>y \<in> set xs. taste_loop (so_first ?so) y s \<noteq> None \<and> frame_ok s y"
    using ok prm pkt_in_buf_frame by (auto simp: mirror_defs icmp_taste_class udpm_taste_class)
  moreover have "idle ?so" by (simp add: idle_def strip_def no_work_def mirror_defs)
  moreover have "\<forall>x \<in> set (so_first ?so). link_blind x"
    by (simp add: mirror_sorter_def icmp_entry_blind udpm_entry_blind)
  moreover have "qs_repr s {qp, qh} ((\<lambda>_. xh)(qp := xp))" using assms(1-4) by (auto simp: qs_repr_def)
  moreover have "\<forall>q \<in> {qp, qh}. set (((\<lambda>_. xh)(qp := xp)) q) \<inter> set xs = {} \<and>
      length (((\<lambda>_. xh)(qp := xp)) q) + length xs < 2 ^ 32"
    using assms(3,5-7) by auto
  ultimately show ?thesis by (simp add: sort_pre_def mirror_out_def)
qed

text \<open>
  C22. The UDP mirror application. Once it is registered, each list of packets is handled so:
  the UDP packets in the port range go to the ring's own transmit queue with addresses and
  ports exchanged, after them the replies to the echo requests, and everything else goes
  unchanged to the host's transmit queue, each group in arrival order.
\<close>

theorem mirror_sorter_correct:
  fixes s :: "'a pstore_scheme"
  assumes q: "q_repr s qp xp" "q_repr s qh xh" "qh \<noteq> qp" "set xp \<inter> set xh = {}"
    and l: "lst_repr (links s) pl xs" "set xs \<inter> (set xp \<union> set xh) = {}"
      "length xp + length xs < 2 ^ 32" "length xh + length xs < 2 ^ 32"
    and ok: "\<forall>y \<in> set xs. pkt_in_buf s y" and prm: "prm ap = Some args"
    and bufs: "\<forall>x \<in> set xs. \<forall>y \<in> set xs. x \<noteq> y \<longrightarrow> map_option p_buf (pkts s x) \<noteq> map_option p_buf (pkts s y)"
    and so: "so = mirror_sorter prm a b c qh qp ap"
  shows "\<exists>s'. sin_pkt_sorter_proc so pl s = Some (so, s') \<and>
    q_repr s' qp (xp @ filter (is_udp args s) xs @ filter (is_request s) xs) \<and>
    q_repr s' qh (xh @ filter (\<lambda>y. \<not> is_udp args s y \<and> \<not> is_request s y) xs) \<and>
    (\<forall>y \<in> set xs. \<exists>k d e. pkts s y = Some k \<and> mem s (p_buf k) = Some d \<and>
      mem s' (p_buf k) = Some (if is_udp args s y then mirrored d
        else if is_request s y then icmp_reply e d else d))"
proof -
  let ?C = "(\<lambda>_. xh)(qp := xp)"
  from sorter_delivers_rewritten [OF l(1) mirror_sort_pre [where prm = prm and ap = ap and a = a and b = b and c = c, OF q l(2-4) ok prm]
      mirror_consumers bufs, folded so]
  obtain s' where s': "sin_pkt_sorter_proc so pl s = Some (so, s')"
    "qs_repr s' {qp, qh} (deliver_all (mirror_out qh qp) (sorted_to so s xs) [0..<Suc (length (so_first so))] ?C)"
    "\<forall>y k d. y \<in> set xs \<longrightarrow> pkts s y = Some k \<longrightarrow> mem s (p_buf k) = Some d \<longrightarrow>
      mem s' (p_buf k) = mirror_fun (cls so s y) d"
    by (elim exE conjE) blast
  have u: "[0..<Suc (length (so_first so))] = [0, 1, 2]" by (simp add: so mirror_sorter_def upt_rec)
  have cl: "cls so s y = (if is_udp args s y then 0 else if is_request s y then 1 else 2)" if "y \<in> set xs" for y
    using ok that mirror_cls [of s y prm ap args] prm by (simp add: so)
  have srt: "sorted_to so s xs 0 = filter (is_udp args s) xs" "sorted_to so s xs 1 = filter (is_request s) xs"
    "sorted_to so s xs 2 = filter (\<lambda>y. \<not> is_udp args s y \<and> \<not> is_request s y) xs"
    using cl by (auto simp: sorted_to_def intro!: filter_cong split: if_splits dest: is_udp_not_request)
  have at: "q_repr s' q (?C q @ concat (map (sorted_to so s xs) (filter (\<lambda>i. mirror_out qh qp i = q) [0, 1, 2])))"
    if "q \<in> {qp, qh}" for q using qs_reprD [OF s'(2) that] unfolding u deliver_all_at .
  have "\<exists>k d e. pkts s y = Some k \<and> mem s (p_buf k) = Some d \<and> mem s' (p_buf k) =
      Some (if is_udp args s y then mirrored d else if is_request s y then icmp_reply e d else d)"
    if y: "y \<in> set xs" for y
  proof -
    from ok y obtain k d where k: "pkts s y = Some k" "mem s (p_buf k) = Some d" "42 \<le> length d"
      by (auto simp: pkt_in_buf_def)
    obtain e where "req2rpl_buf d = Some (icmp_reply e d)" using req2rpl_buf_spec [of d] k(3) by auto
    with s'(3) y k cl [OF y] mirror_buf_spec [OF k(3)] show ?thesis
      by (intro exI [of _ k] exI [of _ d] exI [of _ e]) (simp add: mirror_fun_def)
  qed
  with s'(1) at [of qp] at [of qh] q(3) srt show ?thesis
    by (intro exI [of _ s']) (simp add: mirror_out_def)
qed

definition ex_udp_frame :: "u8 list" where
  "ex_udp_frame = (replicate 2048 0)[12 := 0x08, 14 := 0x45, 23 := 17, 34 := 4, 36 := 5, 39 := 8]"

definition ex_udp_store :: pstore where
  "ex_udp_store = ex_linked\<lparr>mem := (mem ex_linked)(2 \<mapsto> ex_udp_frame)\<rparr>"

definition ex_params :: udpm_params where
  "ex_params = \<lparr>port_min = 1000, port_max = 65535\<rparr>"

lemma ex_udp_facts:
  "udp_frame ex_params ex_udp_frame" "\<not> icmp_frame 8 ex_udp_frame" "\<not> udp_frame ex_params ex_frame"
  "\<not> udp_frame ex_params (replicate 2048 0)" "\<not> icmp_frame 8 (replicate 2048 0)" "length ex_udp_frame = 2048"
  by (simp_all add: udp_frame_def icmp_frame_def ex_udp_frame_def ex_frame_def ex_params_def nth_list_update
      be16_def drop_bit_eq_div)

theorem mirror_sorter_correct_witness:
  "\<exists>s'. sin_pkt_sorter_proc (mirror_sorter [80 \<mapsto> ex_params] 5 6 7 52 51 80) ex_list ex_udp_store
      = Some (mirror_sorter [80 \<mapsto> ex_params] 5 6 7 52 51 80, s') \<and>
     q_repr s' 51 [22, 21] \<and> q_repr s' 52 [23] \<and> mem s' 2 = Some (mirrored ex_udp_frame)"
proof -
  have q: "q_repr ex_udp_store 51 []" "q_repr ex_udp_store 52 []"
    using ex_linked_queues by (simp_all add: qs_repr_def q_repr_def ex_udp_store_def cong: option.case_cong)
  have l: "lst_repr (links ex_udp_store) ex_list [21, 22, 23]"
    using ex_linked_repr by (simp add: ex_udp_store_def)
  have p: "pkts ex_udp_store 22 = Some (ex_pkt 10 71 1 42 2)"
    by (simp add: ex_udp_store_def ex_linked_def ex_store_facts)
  have c: "is_udp ex_params ex_udp_store 22" "\<not> is_udp ex_params ex_udp_store 21" "\<not> is_udp ex_params ex_udp_store 23"
    "is_request ex_udp_store 21" "\<not> is_request ex_udp_store 22" "\<not> is_request ex_udp_store 23"
    by (simp_all add: is_udp_def is_request_def ex_udp_store_def ex_linked_def ex_store_def ex_udp_facts
        ex_frame_request)
  have ok: "\<forall>y \<in> set [21, 22, 23]. pkt_in_buf ex_udp_store y"
    by (simp add: pkt_in_buf_def ex_udp_store_def ex_linked_def ex_store_def ex_udp_facts)
  have b: "\<forall>x \<in> set [21, 22, 23]. \<forall>y \<in> set [21, 22, 23]. x \<noteq> y \<longrightarrow>
      map_option p_buf (pkts ex_udp_store x) \<noteq> map_option p_buf (pkts ex_udp_store y)"
    using ex_linked_bufs(2) by (simp add: ex_udp_store_def)
  have prm: "[80 \<mapsto> ex_params] 80 = Some ex_params" by simp
  from mirror_sorter_correct [where prm = "[80 \<mapsto> ex_params]" and ap = 80, OF q _ _ l _ _ _ ok prm b refl, of 5 6 7] obtain s' where s':
    "sin_pkt_sorter_proc (mirror_sorter [80 \<mapsto> ex_params] 5 6 7 52 51 80) ex_list ex_udp_store
      = Some (mirror_sorter [80 \<mapsto> ex_params] 5 6 7 52 51 80, s')"
    "q_repr s' 51 ([] @ filter (is_udp ex_params ex_udp_store) [21, 22, 23] @ filter (is_request ex_udp_store) [21, 22, 23])"
    "q_repr s' 52 ([] @ filter (\<lambda>y. \<not> is_udp ex_params ex_udp_store y \<and> \<not> is_request ex_udp_store y) [21, 22, 23])"
    "\<forall>y \<in> set [21, 22, 23]. \<exists>k d e. pkts ex_udp_store y = Some k \<and> mem ex_udp_store (p_buf k) = Some d \<and>
      mem s' (p_buf k) = Some (if is_udp ex_params ex_udp_store y then mirrored d
        else if is_request ex_udp_store y then icmp_reply e d else d)"
    by auto
  have "mem s' 2 = Some (mirrored ex_udp_frame)"
    using bspec [OF s'(4), of 22] p c(1) by (auto simp: ex_udp_store_def)
  with s'(1-3) c show ?thesis by auto
qed

end
