(* ===== verification/Sin_Stance.thy ===== *)
theory Sin_Stance
  imports Sin_Threads Sin_Echo
begin

text \<open>
  The instance of the library (\<open>struct sin_stance\<close>) and the store with every kind of object
  it is made of. An instance owns one working set per hardware ring, in a block of their
  own, and the working set of the host ring.
\<close>

record sin_stance =
  sip_addr :: addr
  sip_type :: u32
  sin_nref :: u32
  netmap_fd :: int
  nrings :: int
  sip_mem :: ptr
  phy_blk :: addr
  phy :: "wrk_set list"
  hst :: wrk_set

text \<open>The objects of the socket interface (\<open>libsinet_internal.h\<close>).\<close>

record sin_addr =
  sa_type :: u32
  sa_addr :: addr
  sa_addrlen :: u32
  sa_data :: "u8 list"

record sin_sock =
  ss_type :: u32
  ss_nref :: u32
  ss_dst :: ptr
  ss_src :: ptr
  ss_sip :: addr

record istore = tstore +
  sorters :: "addr \<rightharpoonup> pstore sin_pkt_sorter"
  stances :: "addr \<rightharpoonup> sin_stance"
  socks :: "addr \<rightharpoonup> sin_sock"
  saddrs :: "addr \<rightharpoonup> sin_addr"
  squeues :: "addr \<rightharpoonup> u32"

definition wrk_set_zero :: wrk_set where
  "wrk_set_zero = \<lparr>ws_tx_ring = 0, ws_rx_ring = 0, ws_rx_zone = NULL, ws_tx_zone = NULL,
     ws_tx_thread = NULL, ws_rx_thread = NULL, ws_rx_sort = NULL, ws_queue_fd = 0\<rparr>"

definition sin_stance_zero :: "addr \<Rightarrow> sin_stance" where
  "sin_stance_zero a = \<lparr>sip_addr = a, sip_type = SIN_TYPE_SINSTANCE, sin_nref = 0,
     netmap_fd = 0, nrings = 0, sip_mem = NULL, phy_blk = 0, phy = [], hst = wrk_set_zero\<rparr>"

definition SIN_INCREF :: "u32 \<Rightarrow> u32" where
  "SIN_INCREF n = n + 1"

definition SIN_DECREF :: "u32 \<Rightarrow> u32" where
  "SIN_DECREF n = n - 1"

end
