(* ===== verification/Sin_Sockets.thy ===== *)
theory Sin_Sockets
  imports Sin_Stance
begin

text \<open>
  The socket interface (\<open>sin_socket.c\<close>, \<open>sin_bind.c\<close>, \<open>sin_connect.c\<close>, \<open>sin_close.c\<close>,
  \<open>sin_queue.c\<close>). A socket counts as a reference to its instance. The addresses it is bound
  and connected to sit in blocks of their own: \<open>struct sin_addr\<close> followed by the bytes of the
  \<open>sockaddr\<close>, with a pointer \<open>addr\<close> from the first to the second; \<open>sa_addr\<close> is the block this
  pointer points into, \<open>sa_data\<close> the space behind the structure.
\<close>

subsection \<open>Sockets\<close>

definition upd_stance :: "addr \<Rightarrow> (sin_stance \<Rightarrow> sin_stance) \<Rightarrow> istore \<Rightarrow> istore option" where
  "upd_stance p f s = map_option (\<lambda>sip. s\<lparr>stances := (stances s)(p \<mapsto> f sip)\<rparr>) (stances s p)"

text \<open>A reference is only handed out while somebody holds one.\<close>

definition sip_incref :: "addr \<Rightarrow> istore \<Rightarrow> (ptr \<times> istore) option" where
  "sip_incref p s = do {
     s \<leftarrow> upd_stance p (\<lambda>sip. sip\<lparr>sin_nref := SIN_INCREF (sin_nref sip)\<rparr>) s;
     sip \<leftarrow> stances s p;
     if sin_nref sip = 1 then do {
       s \<leftarrow> upd_stance p (\<lambda>sip. sip\<lparr>sin_nref := SIN_DECREF (sin_nref sip)\<rparr>) s;
       Some (NULL, s)
     } else Some (Some p, s)
   }"

text \<open>The only kind of socket: \<open>PF_INET\<close>, \<open>SOCK_DGRAM\<close>, protocol 0.\<close>

definition PF_INET :: int where "PF_INET = 2"
definition SOCK_DGRAM :: int where "SOCK_DGRAM = 2"

definition sin_socket :: "addr \<Rightarrow> int \<Rightarrow> int \<Rightarrow> int \<Rightarrow> errno option \<Rightarrow> istore \<Rightarrow>
    (ptr \<times> errno option \<times> istore) option" where
  "sin_socket sip domain type protocol e s = do {
     (r, s) \<leftarrow> sip_incref sip s;
     if r = NULL then Some (NULL, SET_ERR e EINVAL, s)
     else if domain \<noteq> PF_INET \<or> type \<noteq> SOCK_DGRAM \<or> protocol \<noteq> 0 then do {
       s \<leftarrow> upd_stance sip (\<lambda>x. x\<lparr>sin_nref := SIN_DECREF (sin_nref x)\<rparr>) s;
       Some (NULL, SET_ERR e EPROTONOSUPPORT, s)
     } else (case malloc s of
         (None, s) \<Rightarrow> do {
           s \<leftarrow> upd_stance sip (\<lambda>x. x\<lparr>sin_nref := SIN_DECREF (sin_nref x)\<rparr>) s;
           Some (NULL, SET_ERR e ENOMEM, s)
         }
       | (Some ssp, s) \<Rightarrow> Some (Some ssp, e, s\<lparr>socks := (socks s)(ssp \<mapsto>
           \<lparr>ss_type = SIN_TYPE_SOCKET, ss_nref = SIN_INCREF 0, ss_dst = NULL, ss_src = NULL,
            ss_sip = sip\<rparr>)\<rparr>))
   }"

subsection \<open>Addresses\<close>

text \<open>
  \<open>realloc\<close> of an address block to \<open>n\<close> bytes behind the structure. The bytes move with it,
  and so does the pointer \<open>addr\<close>, unchanged. What the new bytes hold is indeterminate; the
  caller overwrites all of them.
\<close>

definition realloc_addr :: "addr \<Rightarrow> nat \<Rightarrow> istore \<Rightarrow> (ptr \<times> istore) option" where
  "realloc_addr b n s = do {
     sa \<leftarrow> saddrs s b;
     (r, s) \<leftarrow> realloc b s;
     (case r of
        None \<Rightarrow> Some (NULL, s)
      | Some b' \<Rightarrow> Some (Some b', s\<lparr>saddrs := (saddrs s)(b := None, b' \<mapsto>
          sa\<lparr>sa_data := take n (sa_data sa) @ replicate (n - length (sa_data sa)) 0\<rparr>)\<rparr>))
   }"

text \<open>\<open>memcpy(a->addr, name, len)\<close> and \<open>a->addrlen = len\<close>.\<close>

definition put_name :: "addr \<Rightarrow> u8 list \<Rightarrow> u32 \<Rightarrow> istore \<Rightarrow> istore option" where
  "put_name b name len s = do {
     sa \<leftarrow> saddrs s b;
     dst \<leftarrow> saddrs s (sa_addr sa);
     if unat len \<le> length name \<and> unat len \<le> length (sa_data dst) then do {
       let s = s\<lparr>saddrs := (saddrs s)(sa_addr sa \<mapsto>
         dst\<lparr>sa_data := take (unat len) name @ drop (unat len) (sa_data dst)\<rparr>)\<rparr>;
       sa \<leftarrow> saddrs s b;
       Some (s\<lparr>saddrs := (saddrs s)(b \<mapsto> sa\<lparr>sa_addrlen := len\<rparr>)\<rparr>)
     } else None
   }"

text \<open>
  The common text of \<open>sin_bind\<close> and \<open>sin_connect\<close>, which differ in the member they work on.
  The members of a fresh block other than the tag and the pointer are indeterminate until
  \<open>put_name\<close> sets them.
\<close>

definition name_end :: "(sin_sock \<Rightarrow> ptr) \<Rightarrow> (ptr \<Rightarrow> sin_sock \<Rightarrow> sin_sock) \<Rightarrow> addr \<Rightarrow>
    u8 list \<Rightarrow> u32 \<Rightarrow> errno option \<Rightarrow> istore \<Rightarrow> (int \<times> errno option \<times> istore) option" where
  "name_end get put ssp name len e s = do {
     so \<leftarrow> socks s ssp;
     (case get so of
        None \<Rightarrow> (case malloc s of
            (None, s) \<Rightarrow> Some (-1, SET_ERR e ENOMEM, s)
          | (Some b, s) \<Rightarrow> do {
              let s = s\<lparr>socks := (socks s)(ssp \<mapsto> put (Some b) so),
                saddrs := (saddrs s)(b \<mapsto> \<lparr>sa_type = SIN_TYPE_ADDR, sa_addr = b, sa_addrlen = 0,
                  sa_data = replicate (unat len) 0\<rparr>)\<rparr>;
              s \<leftarrow> put_name b name len s;
              Some (0, e, s)
            })
      | Some b \<Rightarrow> do {
          sa \<leftarrow> saddrs s b;
          if len > sa_addrlen sa then do {
            (r, s) \<leftarrow> realloc_addr b (unat len) s;
            (case r of
               None \<Rightarrow> Some (-1, SET_ERR e ENOMEM, s)
             | Some b' \<Rightarrow> do {
                 s \<leftarrow> put_name b' name len (s\<lparr>socks := (socks s)(ssp \<mapsto> put (Some b') so)\<rparr>);
                 Some (0, e, s)
               })
          } else do { s \<leftarrow> put_name b name len s; Some (0, e, s) }
        })
   }"

definition sin_bind :: "addr \<Rightarrow> u8 list \<Rightarrow> u32 \<Rightarrow> errno option \<Rightarrow> istore \<Rightarrow>
    (int \<times> errno option \<times> istore) option" where
  "sin_bind = name_end ss_src (\<lambda>p so. so\<lparr>ss_src := p\<rparr>)"

definition sin_connect :: "addr \<Rightarrow> u8 list \<Rightarrow> u32 \<Rightarrow> errno option \<Rightarrow> istore \<Rightarrow>
    (int \<times> errno option \<times> istore) option" where
  "sin_connect = name_end ss_dst (\<lambda>p so. so\<lparr>ss_dst := p\<rparr>)"

subsection \<open>Closing, and queues\<close>

text \<open>The tag of what is freed is complemented first.\<close>

definition close_addr :: "ptr \<Rightarrow> istore \<Rightarrow> istore option" where
  "close_addr p s = (case p of None \<Rightarrow> Some s
     | Some b \<Rightarrow> do {
         sa \<leftarrow> saddrs s b;
         let s = s\<lparr>saddrs := (saddrs s)(b \<mapsto> sa\<lparr>sa_type := NOT (sa_type sa)\<rparr>)\<rparr>;
         s \<leftarrow> free b s;
         Some (s\<lparr>saddrs := (saddrs s)(b := None)\<rparr>)
       })"

definition sin_close :: "addr \<Rightarrow> istore \<Rightarrow> (int \<times> istore) option" where
  "sin_close ssp s = do {
     so \<leftarrow> socks s ssp;
     s \<leftarrow> close_addr (ss_src so) s;
     s \<leftarrow> close_addr (ss_dst so) s;
     let s = s\<lparr>socks := (socks s)(ssp \<mapsto> so\<lparr>ss_type := NOT (ss_type so)\<rparr>)\<rparr>;
     s \<leftarrow> free ssp s;
     Some (0, s\<lparr>socks := (socks s)(ssp := None)\<rparr>)
   }"

definition sin_queue :: "errno option \<Rightarrow> istore \<Rightarrow> ptr \<times> errno option \<times> istore" where
  "sin_queue e s = (case malloc s of
     (None, s) \<Rightarrow> (NULL, SET_ERR e ENOMEM, s)
   | (Some sqp, s) \<Rightarrow> (Some sqp, e, s\<lparr>squeues := (squeues s)(sqp \<mapsto> SIN_TYPE_QUEUE)\<rparr>))"

subsection \<open>What a socket owns\<close>

definition blk :: "ptr \<Rightarrow> resource set" where
  "blk p = (case p of None \<Rightarrow> {} | Some b \<Rightarrow> {Block b})"

lemma blk_simps [simp]: "blk NULL = {}" "blk (Some b) = {Block b}"
  by (simp_all add: blk_def)

text \<open>The address at \<open>p\<close>: its pointer leads into its own block, which has room for it.\<close>

definition end_at :: "resource set \<Rightarrow> addr \<Rightarrow> ptr \<Rightarrow> istore \<Rightarrow> bool" where
  "end_at L a p s \<longleftrightarrow> (case p of None \<Rightarrow> True
     | Some b \<Rightarrow> b \<noteq> a \<and> Block b \<notin> L \<and> (case saddrs s b of None \<Rightarrow> False
         | Some sa \<Rightarrow> sa_addr sa = b \<and> unat (sa_addrlen sa) \<le> length (sa_data sa)))"

definition owns :: "resource set \<Rightarrow> addr \<Rightarrow> ptr \<Rightarrow> ptr \<Rightarrow> istore \<Rightarrow> bool" where
  "owns L a p q s \<longleftrightarrow> os_live s = insert (Block a) (L \<union> blk p \<union> blk q) \<and> end_at L a p s \<and> end_at L a q s \<and>
     (p \<noteq> NULL \<longrightarrow> p \<noteq> q)"

text \<open>A socket in good order at \<open>a\<close>, with \<open>L\<close> live besides it.\<close>

definition sock_at :: "resource set \<Rightarrow> addr \<Rightarrow> istore \<Rightarrow> bool" where
  "sock_at L a s \<longleftrightarrow> os_ok s \<and> Block a \<notin> L \<and> (case socks s a of None \<Rightarrow> False
     | Some so \<Rightarrow> owns L a (ss_src so) (ss_dst so) s)"

definition name_of :: "ptr \<Rightarrow> istore \<Rightarrow> u8 list option" where
  "name_of p s = do { b \<leftarrow> p; sa \<leftarrow> saddrs s b; Some (take (unat (sa_addrlen sa)) (sa_data sa)) }"

definition bound_to :: "addr \<Rightarrow> istore \<Rightarrow> u8 list option" where
  "bound_to a s = do { so \<leftarrow> socks s a; name_of (ss_src so) s }"

definition connected_to :: "addr \<Rightarrow> istore \<Rightarrow> u8 list option" where
  "connected_to a s = do { so \<leftarrow> socks s a; name_of (ss_dst so) s }"

lemma put_name_works:
  assumes "saddrs s b = Some sa" and "sa_addr sa = b" and "length name = unat len" and "unat len \<le> length (sa_data sa)"
  shows "put_name b name len s = Some (s\<lparr>saddrs := (saddrs s)(b \<mapsto>
    sa\<lparr>sa_data := name @ drop (unat len) (sa_data sa), sa_addrlen := len\<rparr>)\<rparr>)"
  using assms by (simp add: put_name_def)

lemma clock_irrelevant [simp]:
  "sock_at L a (s\<lparr>os_clock := n\<rparr>) = sock_at L a s" "name_of p (s\<lparr>os_clock := n\<rparr>) = name_of p s"
  by (simp_all add: sock_at_def os_ok_def owns_def end_at_def name_of_def cong: option.case_cong)

lemma end_at_cong: "(\<And>b. p = Some b \<Longrightarrow> saddrs s' b = saddrs s b) \<Longrightarrow> end_at L a p s' = end_at L a p s"
  by (cases p) (simp_all add: end_at_def)

lemma name_of_cong: "(\<And>b. p = Some b \<Longrightarrow> saddrs s' b = saddrs s b) \<Longrightarrow> name_of p s' = name_of p s"
  by (cases p) (simp_all add: name_of_def)

text \<open>The two members of a socket that hold an address, one at a time.\<close>

locale endpoint =
  fixes get :: "sin_sock \<Rightarrow> ptr" and put :: "ptr \<Rightarrow> sin_sock \<Rightarrow> sin_sock" and other :: "sin_sock \<Rightarrow> ptr"
  assumes get_put: "get (put p so) = p" and other_put: "other (put p so) = other so"
    and ends: "owns L a (get so) (other so) s = owns L a (ss_src so) (ss_dst so) s"
begin

lemma sock_atI:
  assumes "os_ok s" "Block a \<notin> L" "socks s a = Some so" "owns L a (get so) (other so) s"
  shows "sock_at L a s"
  using assms by (simp add: sock_at_def ends)

lemma name_end_works:
  assumes at: "sock_at L a s" and so: "socks s a = Some so" and n: "length name = unat len"
  shows "case name_end get put a name len e s of
     None \<Rightarrow> \<exists>b sa. get so = Some b \<and> saddrs s b = Some sa \<and> sa_addrlen sa < len \<and> os_script s (os_clock s) = 1
   | Some (r, e', s') \<Rightarrow> sock_at L a s' \<and> stances s' = stances s \<and> os_script s' = os_script s \<and>
       (\<exists>so'. socks s' a = Some so' \<and> name_of (other so') s' = name_of (other so) s \<and>
         (if r = 0 then e' = e \<and> name_of (get so') s' = Some name
          else r = -1 \<and> e' = SET_ERR e ENOMEM \<and> os_script s (os_clock s) \<noteq> 0 \<and>
            name_of (get so') s' = name_of (get so) s))"
proof -
  have ok: "os_ok s" "Block a \<notin> L" and ow: "owns L a (get so) (other so) s"
    using at so by (simp_all add: sock_at_def ends)
  let ?f = "os_fresh s" and ?r = "os_script s (os_clock s)"
  have fresh: "Block ?f \<notin> os_live s" by (rule fresh_not_live [OF ok(1)]) simp
  then have nf: "?f \<noteq> a" "Block ?f \<notin> L" "other so \<noteq> Some ?f" "get so \<noteq> Some ?f"
    using ow by (auto simp: owns_def)
  show ?thesis
  proof (cases "get so")
    case None
    show ?thesis
    proof (cases "?r = 0")
      case False
      with None so at ow show ?thesis
        by (simp add: name_end_def malloc_def os_result_def)
    next
      case True
      let ?sa = "\<lparr>sa_type = SIN_TYPE_ADDR, sa_addr = ?f, sa_addrlen = len, sa_data = name\<rparr>"
      let ?s = "s\<lparr>os_clock := Suc (os_clock s), os_fresh := Suc ?f, os_live := insert (Block ?f) (os_live s),
        socks := (socks s)(a \<mapsto> put (Some ?f) so), saddrs := (saddrs s)(?f \<mapsto> ?sa)\<rparr>"
      have "name_end get put a name len e s = Some (0, e, ?s)"
        using None so True n by (simp add: name_end_def malloc_def os_result_def put_name_def)
      moreover have "sock_at L a ?s"
      proof (rule sock_atI [OF _ ok(2)])
        show "os_ok ?s" using os_okD [OF ok(1)] by (auto simp: os_ok_def intro: less_SucI)
        show "socks ?s a = Some (put (Some ?f) so)" by simp
        have "end_at L a (other so) ?s = end_at L a (other so) s" by (rule end_at_cong) (use nf in auto)
        moreover have "end_at L a (Some ?f) ?s" using nf n by (simp add: end_at_def)
        moreover have "os_live ?s = insert (Block a) (L \<union> blk (Some ?f) \<union> blk (other so))"
          using ow None by (auto simp: owns_def)
        ultimately show "owns L a (get (put (Some ?f) so)) (other (put (Some ?f) so)) ?s"
          using ow nf by (simp add: get_put other_put owns_def)
      qed
      moreover have "name_of (other so) ?s = name_of (other so) s" using nf by (intro name_of_cong) auto
      moreover have "name_of (Some ?f) ?s = Some name" using n by (simp add: name_of_def)
      ultimately show ?thesis by (simp add: get_put other_put)
    qed
  next
    case (Some b)
    with ow obtain sa where sa: "saddrs s b = Some sa" "sa_addr sa = b" "unat (sa_addrlen sa) \<le> length (sa_data sa)"
      "b \<noteq> a" "Block b \<notin> L" "other so \<noteq> Some b" "Block b \<in> os_live s"
      by (auto simp: owns_def end_at_def split: option.splits)
    show ?thesis
    proof (cases "len > sa_addrlen sa")
      case False
      let ?sa = "sa\<lparr>sa_data := name @ drop (unat len) (sa_data sa), sa_addrlen := len\<rparr>"
      let ?s = "s\<lparr>saddrs := (saddrs s)(b \<mapsto> ?sa)\<rparr>"
      have le: "unat len \<le> length (sa_data sa)" using False sa(3) by (simp add: word_less_nat_alt)
      have "name_end get put a name len e s = Some (0, e, ?s)"
        using Some so False sa(1) put_name_works [OF sa(1,2) n le] by (simp add: name_end_def)
      moreover have "sock_at L a ?s"
      proof (rule sock_atI [OF _ ok(2)])
        show "os_ok ?s" using ok(1) by (simp add: os_ok_def)
        show "socks ?s a = Some so" using so by simp
        have "end_at L a (other so) ?s = end_at L a (other so) s" by (rule end_at_cong) (use sa(6) in auto)
        moreover have "end_at L a (Some b) ?s" using sa n by (simp add: end_at_def)
        ultimately show "owns L a (get so) (other so) ?s" using ow Some by (simp add: owns_def)
      qed
      moreover have "name_of (other so) ?s = name_of (other so) s" using sa(6) by (intro name_of_cong) auto
      moreover have "name_of (Some b) ?s = Some name" using n by (simp add: name_of_def)
      ultimately show ?thesis using so Some by simp
    next
      case True
      let ?d = "take (unat len) (sa_data sa) @ replicate (unat len - length (sa_data sa)) 0"
      consider "?r = 0" | "?r = 1" | "?r \<noteq> 0" "?r \<noteq> 1" by blast
      then show ?thesis
      proof cases
        case 1
        let ?sa = "sa\<lparr>sa_data := name, sa_addrlen := len\<rparr>"
        let ?s = "s\<lparr>os_clock := Suc (os_clock s), socks := (socks s)(a \<mapsto> put (Some b) so), saddrs := (saddrs s)(b \<mapsto> ?sa)\<rparr>"
        have "name_end get put a name len e s = Some (0, e, ?s)"
          using Some so True sa 1 n by (simp add: name_end_def realloc_addr_def realloc_def os_result_def put_name_def)
        moreover have "sock_at L a ?s"
        proof (rule sock_atI [OF _ ok(2)])
          show "os_ok ?s" using ok(1) by (simp add: os_ok_def)
          show "socks ?s a = Some (put (Some b) so)" by simp
          have "end_at L a (other so) ?s = end_at L a (other so) s" by (rule end_at_cong) (use sa(6) in auto)
          moreover have "end_at L a (Some b) ?s" using sa n by (simp add: end_at_def)
          ultimately show "owns L a (get (put (Some b) so)) (other (put (Some b) so)) ?s"
            using ow Some by (simp add: get_put other_put owns_def)
        qed
        moreover have "name_of (other so) ?s = name_of (other so) s" using sa(6) by (intro name_of_cong) auto
        moreover have "name_of (Some b) ?s = Some name" using n by (simp add: name_of_def)
        ultimately show ?thesis by (simp add: get_put other_put)
      next
        case 2
        have "b \<noteq> ?f" using nf(4) Some by simp
        then have "name_end get put a name len e s = None"
          using Some so True sa 2 by (simp add: name_end_def realloc_addr_def realloc_def os_result_def put_name_def)
        with Some sa(1) True 2 show ?thesis by simp
      next
        case 3
        let ?s = "s\<lparr>os_clock := Suc (os_clock s)\<rparr>"
        have "name_end get put a name len e s = Some (-1, SET_ERR e ENOMEM, ?s)"
          using Some so True sa 3 by (simp add: name_end_def realloc_addr_def realloc_def os_result_def)
        moreover have "sock_at L a ?s"
          using at by simp
        ultimately show ?thesis using so 3 by simp
      qed
    qed
  qed
qed

end

lemma owns_swap: "owns L a p q s = owns L a q p s"
  by (auto simp: owns_def)

interpretation src_end: endpoint ss_src "\<lambda>p so. so\<lparr>ss_src := p\<rparr>" ss_dst
  by unfold_locales simp_all

interpretation dst_end: endpoint ss_dst "\<lambda>p so. so\<lparr>ss_dst := p\<rparr>" ss_src
  by unfold_locales (simp_all add: owns_swap)

end
