(* ===== verification/Sin_Init.thy ===== *)
theory Sin_Init
  imports Sin_Stance
begin

text \<open>
  Construction and destruction of an instance (\<open>sin_init.c\<close>, \<open>sin_destroy.c\<close>). The
  constructor works on its own copy of the structure until it returns it; each undo label
  is a function that falls through to the next. \<open>goto\<close> an undo label followed by
  \<open>return (NULL)\<close> is the left side of a sum, going on the right side.

  From netmap come the number of rings the device reports and the addresses of the rings in
  the mapped memory. \<open>run\<close> is what a thread does from the request to end until it is joined.
\<close>

record netmap_dev =
  nr_rx_rings :: u16
  NETMAP_RXRING :: "nat \<Rightarrow> addr"
  NETMAP_TXRING :: "nat \<Rightarrow> addr"

type_synonym runner = "addr \<Rightarrow> istore \<Rightarrow> istore option"

text \<open>\<open>ioctl\<close>: 0, or -1 with the value of \<open>errno\<close>.\<close>

definition sys_ioctl :: "'a os_scheme \<Rightarrow> int \<times> int \<times> 'a os_scheme" where
  "sys_ioctl s = (let (r, s) = os_result s in (if r = 0 then 0 else -1, r, s))"

subsection \<open>The loops over the hardware rings\<close>

text \<open>
  \<open>for_rings\<close>: the body of iteration \<open>i\<close> changes the working set and says whether to go on.
  \<open>undo_rings\<close>: a destructor for every pointer of a column that is not \<open>NULL\<close>.
\<close>

primrec for_rings :: "(nat \<Rightarrow> wrk_set \<Rightarrow> errno option \<Rightarrow> istore \<Rightarrow>
      (bool \<times> wrk_set \<times> errno option \<times> istore) option) \<Rightarrow>
    nat \<Rightarrow> wrk_set list \<Rightarrow> errno option \<Rightarrow> istore \<Rightarrow>
    (bool \<times> wrk_set list \<times> errno option \<times> istore) option" where
  "for_rings body i [] e s = Some (True, [], e, s)"
| "for_rings body i (w # ws) e s = do {
     (ok, w, e, s) \<leftarrow> body i w e s;
     if ok then do {
       (ok, ws, e, s) \<leftarrow> for_rings body (Suc i) ws e s;
       Some (ok, w # ws, e, s)
     } else Some (False, w # ws, e, s)
   }"

primrec undo_rings :: "(wrk_set \<Rightarrow> ptr) \<Rightarrow> (addr \<Rightarrow> istore \<Rightarrow> istore option) \<Rightarrow> wrk_set list \<Rightarrow>
    istore \<Rightarrow> istore option" where
  "undo_rings col rm [] s = Some s"
| "undo_rings col rm (w # ws) s = do {
     s \<leftarrow> (case col w of None \<Rightarrow> Some s | Some a \<Rightarrow> rm a s);
     undo_rings col rm ws s
   }"

definition undo_one :: "ptr \<Rightarrow> (addr \<Rightarrow> istore \<Rightarrow> istore option) \<Rightarrow> istore \<Rightarrow> istore option" where
  "undo_one p rm s = do { a \<leftarrow> p; rm a s }"

text \<open>The destructor of the sorter an instance points to.\<close>

definition rm_sorter :: "addr \<Rightarrow> istore \<Rightarrow> istore option" where
  "rm_sorter a s = do {
     so \<leftarrow> sorters s a;
     s \<leftarrow> sin_pkt_sorter_dtor so s;
     Some (s\<lparr>sorters := (sorters s)(a := None)\<rparr>)
   }"

subsection \<open>The undo labels\<close>

definition init_undo_0 :: "sin_stance \<Rightarrow> istore \<Rightarrow> istore option" where
  "init_undo_0 sip s = free (sip_addr sip) s"

definition init_undo_1 :: "sin_stance \<Rightarrow> istore \<Rightarrow> istore option" where
  "init_undo_1 sip s = init_undo_0 sip (sys_close (netmap_fd sip) s)"

primrec close_rings :: "wrk_set list \<Rightarrow> istore \<Rightarrow> istore" where
  "close_rings [] s = s"
| "close_rings (w # ws) s = close_rings ws
     (if ws_queue_fd w \<noteq> -1 then sys_close (ws_queue_fd w) s else s)"

definition init_undo_2 :: "sin_stance \<Rightarrow> istore \<Rightarrow> istore option" where
  "init_undo_2 sip s = do {
     let s = close_rings (phy sip) s;
     let s = (if ws_queue_fd (hst sip) \<noteq> -1 then sys_close (ws_queue_fd (hst sip)) s else s);
     s \<leftarrow> free (phy_blk sip) s;
     init_undo_1 sip s
   }"

definition init_undo_3 :: "sin_stance \<Rightarrow> istore \<Rightarrow> istore option" where
  "init_undo_3 sip s = do {
     s \<leftarrow> undo_rings ws_tx_zone sin_pkt_zone_dtor (phy sip) s;
     init_undo_2 sip s
   }"

definition init_undo_4 :: "sin_stance \<Rightarrow> istore \<Rightarrow> istore option" where
  "init_undo_4 sip s = do {
     s \<leftarrow> undo_rings ws_rx_zone sin_pkt_zone_dtor (phy sip) s;
     init_undo_3 sip s
   }"

definition init_undo_5 :: "sin_stance \<Rightarrow> istore \<Rightarrow> istore option" where
  "init_undo_5 sip s = do {
     s \<leftarrow> undo_one (ws_tx_zone (hst sip)) sin_pkt_zone_dtor s;
     init_undo_4 sip s
   }"

definition init_undo_7 :: "runner \<Rightarrow> sin_stance \<Rightarrow> istore \<Rightarrow> istore option" where
  "init_undo_7 run sip s = do {
     s \<leftarrow> undo_rings ws_tx_thread (sin_tx_thread_dtor run) (phy sip) s;
     s \<leftarrow> undo_one (ws_rx_zone (hst sip)) sin_pkt_zone_dtor s;
     init_undo_5 sip s
   }"

definition init_undo_9 :: "runner \<Rightarrow> sin_stance \<Rightarrow> istore \<Rightarrow> istore option" where
  "init_undo_9 run sip s = do {
     s \<leftarrow> undo_rings ws_rx_sort rm_sorter (phy sip) s;
     s \<leftarrow> undo_one (ws_tx_thread (hst sip)) (sin_tx_thread_dtor run) s;
     init_undo_7 run sip s
   }"

definition init_undo_10 :: "runner \<Rightarrow> sin_stance \<Rightarrow> istore \<Rightarrow> istore option" where
  "init_undo_10 run sip s = do {
     s \<leftarrow> undo_rings ws_rx_thread (sin_rx_thread_dtor run) (phy sip) s;
     init_undo_9 run sip s
   }"

definition init_undo_11 :: "runner \<Rightarrow> sin_stance \<Rightarrow> istore \<Rightarrow> istore option" where
  "init_undo_11 run sip s = do {
     s \<leftarrow> undo_one (ws_rx_sort (hst sip)) rm_sorter s;
     init_undo_10 run sip s
   }"

text \<open>\<open>goto er_undo_k\<close>, up to \<open>return (NULL)\<close>.\<close>

definition give_up :: "(istore \<Rightarrow> istore option) \<Rightarrow> errno option \<Rightarrow> istore \<Rightarrow>
    (errno option \<times> istore + 'r) option" where
  "give_up undo e s = do { s \<leftarrow> undo s; Some (Inl (e, s)) }"

subsection \<open>The constructor\<close>

text \<open>The macro \<open>SET_IFNOT_ERR_ELSE_RST\<close> on an \<open>open\<close>, with -1 as the reset value.\<close>

definition set_ifnot_err :: "int \<Rightarrow> errno option \<Rightarrow> istore \<Rightarrow> int \<times> int \<times> errno option \<times> istore" where
  "set_ifnot_err grr e s = (if grr = 0 then
     (let (fd, err, s) = sys_open s in
      if fd < 0 then (fd, 1, SET_ERR e (Errno err), s) else (fd, 0, e, s))
     else (-1, grr, e, s))"

primrec open_rings :: "wrk_set list \<Rightarrow> int \<Rightarrow> errno option \<Rightarrow> istore \<Rightarrow>
    wrk_set list \<times> int \<times> errno option \<times> istore" where
  "open_rings [] grr e s = ([], grr, e, s)"
| "open_rings (w # ws) grr e s =
     (let (fd, grr, e, s) = set_ifnot_err grr e s;
          (ws, grr, e, s) = open_rings ws grr e s
      in (w\<lparr>ws_queue_fd := fd\<rparr> # ws, grr, e, s))"

text \<open>Lines 70 to 121: the structure, the device, the working sets and their descriptors.\<close>

definition init_open :: "netmap_dev \<Rightarrow> errno option \<Rightarrow> istore \<Rightarrow>
    (errno option \<times> istore + sin_stance \<times> errno option \<times> istore) option" where
  "init_open dev e s = (case malloc s of
     (None, s) \<Rightarrow> Some (Inl (SET_ERR e ENOMEM, s))
   | (Some a, s) \<Rightarrow>
     (let sip = sin_stance_zero a;
          (fd, err, s) = sys_open s;
          sip = sip\<lparr>netmap_fd := fd\<rparr> in
      if fd < 0 then give_up (init_undo_0 sip) (SET_ERR e (Errno err)) s
      else
     (let (r, err, s) = sys_ioctl s in
      if r < 0 then give_up (init_undo_1 sip) (SET_ERR e (Errno err)) s
      else
     (let (m, err, s) = sys_mmap s;
          sip = sip\<lparr>sip_mem := m\<rparr> in
      if m = NULL then give_up (init_undo_1 sip) (SET_ERR e (Errno err)) s
      else
     (let sip = sip\<lparr>nrings := uint (nr_rx_rings dev)\<rparr> in
      (case malloc s of
         (None, s) \<Rightarrow> give_up (init_undo_1 sip) (SET_ERR e ENOMEM) s
       | (Some b, s) \<Rightarrow>
         (let (ws, grr, e, s) = open_rings (replicate (nat (nrings sip)) wrk_set_zero) 0 e s;
              (fd, grr, e, s) = set_ifnot_err grr e s;
              sip = sip\<lparr>phy_blk := b, phy := ws, hst := (hst sip)\<lparr>ws_queue_fd := fd\<rparr>\<rparr> in
          if grr \<noteq> 0 then give_up (init_undo_2 sip) e s
          else Some (Inr (sip, e, s)))))))))"

text \<open>Lines 123 to 148: binding each descriptor to its ring.\<close>

definition init_register :: "netmap_dev \<Rightarrow> sin_stance \<Rightarrow> errno option \<Rightarrow> istore \<Rightarrow>
    (errno option \<times> istore + sin_stance \<times> errno option \<times> istore) option" where
  "init_register dev sip e s = do {
     (ok, ws, e, s) \<leftarrow> for_rings (\<lambda>i w e s.
        let (r, err, s) = sys_ioctl s in
        if r < 0 then Some (False, w, SET_ERR e (Errno err), s)
        else Some (True, w\<lparr>ws_rx_ring := NETMAP_RXRING dev i, ws_tx_ring := NETMAP_TXRING dev i\<rparr>, e, s))
       0 (phy sip) e s;
     let sip = sip\<lparr>phy := ws\<rparr>;
     if \<not> ok then give_up (init_undo_2 sip) e s
     else do {
       let (r, err, s) = sys_ioctl s;
       if r < 0 then give_up (init_undo_2 sip) (SET_ERR e (Errno err)) s
       else do {
         let i = nat (nrings sip);
         Some (Inr (sip\<lparr>hst := (hst sip)\<lparr>ws_rx_ring := NETMAP_RXRING dev i,
           ws_tx_ring := NETMAP_TXRING dev i\<rparr>\<rparr>, e, s))
       }
     }
   }"

text \<open>Lines 168 to 189: the packet zones.\<close>

definition init_zones :: "netmap_api \<Rightarrow> sin_stance \<Rightarrow> errno option \<Rightarrow> istore \<Rightarrow>
    (errno option \<times> istore + sin_stance \<times> errno option \<times> istore) option" where
  "init_zones nm sip e s = do {
     (ok, ws, e, s) \<leftarrow> for_rings (\<lambda>i w e s. do {
         (z, e, s) \<leftarrow> sin_pkt_zone_ctor nm (ws_tx_ring w) (netmap_fd sip) e s;
         Some (z \<noteq> NULL, w\<lparr>ws_tx_zone := z\<rparr>, e, s) }) 0 (phy sip) e s;
     let sip = sip\<lparr>phy := ws\<rparr>;
     if \<not> ok then give_up (init_undo_3 sip) e s
     else do {
       (ok, ws, e, s) \<leftarrow> for_rings (\<lambda>i w e s. do {
           (z, e, s) \<leftarrow> sin_pkt_zone_ctor nm (ws_rx_ring w) (netmap_fd sip) e s;
           Some (z \<noteq> NULL, w\<lparr>ws_rx_zone := z\<rparr>, e, s) }) 0 (phy sip) e s;
       let sip = sip\<lparr>phy := ws\<rparr>;
       if \<not> ok then give_up (init_undo_4 sip) e s
       else do {
         (z, e, s) \<leftarrow> sin_pkt_zone_ctor nm (ws_tx_ring (hst sip)) (netmap_fd sip) e s;
         let sip = sip\<lparr>hst := (hst sip)\<lparr>ws_tx_zone := z\<rparr>\<rparr>;
         if z = NULL then give_up (init_undo_4 sip) e s
         else do {
           (z, e, s) \<leftarrow> sin_pkt_zone_ctor nm (ws_rx_ring (hst sip)) (netmap_fd sip) e s;
           let sip = sip\<lparr>hst := (hst sip)\<lparr>ws_rx_zone := z\<rparr>\<rparr>;
           if z = NULL then give_up (init_undo_5 sip) e s
           else Some (Inr (sip, e, s))
         }
       }
     }
   }"

text \<open>Lines 191 to 203: the transmit threads.\<close>

definition init_tx :: "runner \<Rightarrow> sin_stance \<Rightarrow> errno option \<Rightarrow> istore \<Rightarrow>
    (errno option \<times> istore + sin_stance \<times> errno option \<times> istore) option" where
  "init_tx run sip e s = do {
     (ok, ws, e, s) \<leftarrow> for_rings (\<lambda>i w e s. do {
         (t, e, s) \<leftarrow> sin_tx_thread_ctor w e s;
         Some (t \<noteq> NULL, w\<lparr>ws_tx_thread := t\<rparr>, e, s) }) 0 (phy sip) e s;
     let sip = sip\<lparr>phy := ws\<rparr>;
     if \<not> ok then give_up (init_undo_7 run sip) e s
     else do {
       (t, e, s) \<leftarrow> sin_tx_thread_ctor (hst sip) e s;
       let sip = sip\<lparr>hst := (hst sip)\<lparr>ws_tx_thread := t\<rparr>\<rparr>;
       if t = NULL then give_up (init_undo_7 run sip) e s
       else Some (Inr (sip, e, s))
     }
   }"

text \<open>
  Lines 205 to 217: the sorters of the hardware rings. The constructor and the registration
  work on the sorter at the address the working set holds.
\<close>

definition ctor_sorter :: "addr \<Rightarrow> errno option \<Rightarrow> istore \<Rightarrow> ptr \<times> errno option \<times> istore" where
  "ctor_sorter outq e s = (case sin_pkt_sorter_ctor outq put_items_cb NULL e s of
     (None, e, s) \<Rightarrow> (NULL, e, s)
   | (Some so, e, s) \<Rightarrow> (Some (so_addr so), e, s\<lparr>sorters := (sorters s)(so_addr so \<mapsto> so)\<rparr>))"

definition reg_sorter :: "addr \<Rightarrow> addr \<Rightarrow> (addr \<Rightarrow> cb_arg \<Rightarrow> pstore \<Rightarrow> int option) \<Rightarrow>
    (sin_list \<Rightarrow> cb_arg \<Rightarrow> pstore \<Rightarrow> pstore option) \<Rightarrow> ptr \<Rightarrow> errno option \<Rightarrow> istore \<Rightarrow>
    (int \<times> errno option \<times> istore) option" where
  "reg_sorter a outq taste consume ap e s = do {
     so \<leftarrow> sorters s a;
     let (r, so, e, s) = sin_pkt_sorter_reg so outq taste consume ap e s;
     Some (r, e, s\<lparr>sorters := (sorters s)(a \<mapsto> so)\<rparr>)
   }"

definition ring_sorter :: "addr \<Rightarrow> wrk_set \<Rightarrow> errno option \<Rightarrow> istore \<Rightarrow>
    (bool \<times> wrk_set \<times> errno option \<times> istore) option" where
  "ring_sorter tx_hst_queue w e s = do {
     let (so, e, s) = ctor_sorter tx_hst_queue e s;
     let w = w\<lparr>ws_rx_sort := so\<rparr>;
     (case so of
        None \<Rightarrow> Some (False, w, e, s)
      | Some a \<Rightarrow> do {
          t \<leftarrow> ws_tx_thread w;
          tx_phy_queue \<leftarrow> sin_tx_thread_get_out_queue t s;
          (r, e, s) \<leftarrow> reg_sorter a tx_phy_queue icmp_taste_cb icmp_proc_cb NULL e s;
          Some (r = 0, w, e, s)
        })
   }"

definition init_sorters :: "runner \<Rightarrow> sin_stance \<Rightarrow> errno option \<Rightarrow> istore \<Rightarrow>
    (errno option \<times> istore + sin_stance \<times> errno option \<times> istore) option" where
  "init_sorters run sip e s = do {
     t \<leftarrow> ws_tx_thread (hst sip);
     tx_hst_queue \<leftarrow> sin_tx_thread_get_out_queue t s;
     (ok, ws, e, s) \<leftarrow> for_rings (\<lambda>i. ring_sorter tx_hst_queue) 0 (phy sip) e s;
     let sip = sip\<lparr>phy := ws\<rparr>;
     if \<not> ok then give_up (init_undo_9 run sip) e s
     else Some (Inr (sip, e, s))
   }"

text \<open>Lines 219 to 238: the receive threads and the sorter of the host ring.\<close>

definition init_rx :: "runner \<Rightarrow> sin_stance \<Rightarrow> errno option \<Rightarrow> istore \<Rightarrow>
    (errno option \<times> istore + sin_stance \<times> errno option \<times> istore) option" where
  "init_rx run sip e s = do {
     (ok, ws, e, s) \<leftarrow> for_rings (\<lambda>i w e s. do {
         (t, e, s) \<leftarrow> sin_rx_thread_ctor w e s;
         Some (t \<noteq> NULL, w\<lparr>ws_rx_thread := t\<rparr>, e, s) }) 0 (phy sip) e s;
     let sip = sip\<lparr>phy := ws\<rparr>;
     if \<not> ok then give_up (init_undo_10 run sip) e s
     else do {
       t \<leftarrow> (case phy sip of [] \<Rightarrow> None | w # _ \<Rightarrow> ws_tx_thread w);
       tx_phy_queue \<leftarrow> sin_tx_thread_get_out_queue t s;
       let (so, e, s) = ctor_sorter tx_phy_queue e s;
       let sip = sip\<lparr>hst := (hst sip)\<lparr>ws_rx_sort := so\<rparr>\<rparr>;
       if so = NULL then give_up (init_undo_10 run sip) e s
       else do {
         (t, e, s) \<leftarrow> sin_rx_thread_ctor (hst sip) e s;
         let sip = sip\<lparr>hst := (hst sip)\<lparr>ws_rx_thread := t\<rparr>\<rparr>;
         if t = NULL then give_up (init_undo_11 run sip) e s
         else Some (Inr (sip, e, s))
       }
     }
   }"

text \<open>A stage that follows: skipped once the constructor has given up.\<close>

definition and_then :: "(errno option \<times> istore + sin_stance \<times> errno option \<times> istore) option \<Rightarrow>
    (sin_stance \<Rightarrow> errno option \<Rightarrow> istore \<Rightarrow>
      (errno option \<times> istore + sin_stance \<times> errno option \<times> istore) option) \<Rightarrow>
    (errno option \<times> istore + sin_stance \<times> errno option \<times> istore) option" where
  "and_then m f = do {
     r \<leftarrow> m;
     (case r of Inl g \<Rightarrow> Some (Inl g) | Inr (sip, e, s) \<Rightarrow> f sip e s)
   }"

definition sin_init :: "netmap_api \<Rightarrow> netmap_dev \<Rightarrow> runner \<Rightarrow> errno option \<Rightarrow> istore \<Rightarrow>
    (ptr \<times> errno option \<times> istore) option" where
  "sin_init nm dev run e s = do {
     r \<leftarrow> and_then (and_then (and_then (and_then (and_then
       (init_open dev e s) (init_register dev)) (init_zones nm)) (init_tx run))
       (init_sorters run)) (init_rx run);
     (case r of
        Inl (e, s) \<Rightarrow> Some (NULL, e, s)
      | Inr (sip, e, s) \<Rightarrow> (let sip = sip\<lparr>sin_nref := SIN_INCREF (sin_nref sip)\<rparr> in
          Some (Some (sip_addr sip), e, s\<lparr>stances := (stances s)(sip_addr sip \<mapsto> sip)\<rparr>)))
   }"

subsection \<open>The destructor\<close>

text \<open>The four loops of \<open>sin_destroy\<close>; unlike the undo labels they do not test for \<open>NULL\<close>.\<close>

primrec destroy_rx :: "runner \<Rightarrow> wrk_set list \<Rightarrow> istore \<Rightarrow> istore option" where
  "destroy_rx run [] s = Some s"
| "destroy_rx run (w # ws) s = do {
     s \<leftarrow> undo_one (ws_rx_thread w) (sin_rx_thread_dtor run) s;
     s \<leftarrow> undo_one (ws_rx_sort w) rm_sorter s;
     destroy_rx run ws s
   }"

primrec destroy_tx :: "runner \<Rightarrow> wrk_set list \<Rightarrow> istore \<Rightarrow> istore option" where
  "destroy_tx run [] s = Some s"
| "destroy_tx run (w # ws) s = do {
     s \<leftarrow> undo_one (ws_tx_thread w) (sin_tx_thread_dtor run) s;
     destroy_tx run ws s
   }"

primrec destroy_zones :: "wrk_set list \<Rightarrow> istore \<Rightarrow> istore option" where
  "destroy_zones [] s = Some s"
| "destroy_zones (w # ws) s = do {
     s \<leftarrow> undo_one (ws_rx_zone w) sin_pkt_zone_dtor s;
     s \<leftarrow> undo_one (ws_tx_zone w) sin_pkt_zone_dtor s;
     destroy_zones ws (sys_close (ws_queue_fd w) s)
   }"

definition sin_destroy :: "runner \<Rightarrow> addr \<Rightarrow> istore \<Rightarrow> istore option" where
  "sin_destroy run p s = do {
     sip \<leftarrow> stances s p;
     s \<leftarrow> undo_one (ws_rx_thread (hst sip)) (sin_rx_thread_dtor run) s;
     s \<leftarrow> undo_one (ws_rx_sort (hst sip)) rm_sorter s;
     s \<leftarrow> destroy_rx run (phy sip) s;
     s \<leftarrow> undo_one (ws_tx_thread (hst sip)) (sin_tx_thread_dtor run) s;
     s \<leftarrow> destroy_tx run (phy sip) s;
     s \<leftarrow> undo_one (ws_rx_zone (hst sip)) sin_pkt_zone_dtor s;
     s \<leftarrow> undo_one (ws_tx_zone (hst sip)) sin_pkt_zone_dtor s;
     s \<leftarrow> destroy_zones (phy sip) (sys_close (ws_queue_fd (hst sip)) s);
     s \<leftarrow> free (phy_blk sip) s;
     s \<leftarrow> free (sip_addr sip) (sys_close (netmap_fd sip) s);
     Some (s\<lparr>stances := (stances s)(p := None)\<rparr>)
   }"

subsection \<open>Registration on every hardware ring\<close>

text \<open>\<open>sin_sorter_reg\<close> (\<open>sin_sorter.c\<close>).\<close>

primrec reg_rings :: "wrk_set list \<Rightarrow> (addr \<Rightarrow> cb_arg \<Rightarrow> pstore \<Rightarrow> int option) \<Rightarrow>
    (sin_list \<Rightarrow> cb_arg \<Rightarrow> pstore \<Rightarrow> pstore option) \<Rightarrow> ptr \<Rightarrow> errno option \<Rightarrow> istore \<Rightarrow>
    (int \<times> errno option \<times> istore) option" where
  "reg_rings [] taste consume ap e s = Some (0, e, s)"
| "reg_rings (w # ws) taste consume ap e s = do {
     t \<leftarrow> ws_tx_thread w;
     tx_phy_queue \<leftarrow> sin_tx_thread_get_out_queue t s;
     a \<leftarrow> ws_rx_sort w;
     (r, e, s) \<leftarrow> reg_sorter a tx_phy_queue taste consume ap e s;
     if r \<noteq> 0 then Some (-1, e, s) else reg_rings ws taste consume ap e s
   }"

definition sin_sorter_reg :: "addr \<Rightarrow> (addr \<Rightarrow> cb_arg \<Rightarrow> pstore \<Rightarrow> int option) \<Rightarrow>
    (sin_list \<Rightarrow> cb_arg \<Rightarrow> pstore \<Rightarrow> pstore option) \<Rightarrow> ptr \<Rightarrow> errno option \<Rightarrow> istore \<Rightarrow>
    (int \<times> errno option \<times> istore) option" where
  "sin_sorter_reg p taste consume ap e s = do {
     sip \<leftarrow> stances s p;
     reg_rings (phy sip) taste consume ap e s
   }"

end
