(* ===== verification/Sin_Parts.thy ===== *)
theory Sin_Parts
  imports Sin_Init
begin

text \<open>
  What instances are made of: the parts (zones, threads, sorters, blocks, descriptors, and
  the block of an instance together with what it holds),
  the resources each must release, and the bookkeeping of a set of parts while they are
  created and destroyed. Everything a part depends on sits at the addresses of its own
  resources, so work elsewhere does not disturb it.
\<close>

datatype part = Zone addr | TxT addr | RxT addr | Sorter addr | Blk addr | Descr int | Stance addr sin_stance

subsection \<open>What a part is\<close>

definition queue_ok :: "istore \<Rightarrow> addr \<Rightarrow> bool" where
  "queue_ok s q \<longleftrightarrow> (case queues s q of None \<Rightarrow> False
     | Some qr \<Rightarrow> q_type qr = SIN_TYPE_WI_QUEUE \<and> (case q_name qr of None \<Rightarrow> False | Some n \<Rightarrow> n \<noteq> q))"

definition queue_name :: "istore \<Rightarrow> addr \<Rightarrow> addr" where
  "queue_name s q = (case queues s q of None \<Rightarrow> 0 | Some qr \<Rightarrow> the (q_name qr))"

definition queue_need :: "istore \<Rightarrow> addr \<Rightarrow> resource set" where
  "queue_need s q = {Block q, Cond q, Mutex q, Block (queue_name s q)}"

text \<open>A worker: its private part, its signal, its empty control queue, its name, its thread.\<close>

definition wrk_pvt :: "istore \<Rightarrow> addr \<Rightarrow> addr" where
  "wrk_pvt s a = (case wrks s a of None \<Rightarrow> 0 | Some w \<Rightarrow> the (w_pvt w))"

definition wrk_priv :: "istore \<Rightarrow> addr \<Rightarrow> sin_wrk_thread_private" where
  "wrk_priv s a = (case pvts s (wrk_pvt s a) of None \<Rightarrow> pvt_zero | Some p \<Rightarrow> p)"

definition wrk_addrs :: "istore \<Rightarrow> addr \<Rightarrow> addr list" where
  "wrk_addrs s a = (let p = wrk_priv s a in
     [wrk_pvt s a, the (wp_tname p), the (wp_ctrl_queue p),
      queue_name s (the (wp_ctrl_queue p)), the (wp_sigterm p), wp_tid p])"

definition wrk_need :: "istore \<Rightarrow> addr \<Rightarrow> resource set" where
  "wrk_need s a = (let p = wrk_priv s a in
     {Block (wrk_pvt s a), Block (the (wp_tname p)), Block (the (wp_sigterm p)),
      Thread (wp_tid p)} \<union> queue_need s (the (wp_ctrl_queue p)))"

definition wrk_ok :: "istore \<Rightarrow> addr \<Rightarrow> bool" where
  "wrk_ok s a \<longleftrightarrow> (\<exists>w pp p n c g cr.
     wrks s a = Some w \<and> w_type w = SIN_TYPE_WRK_THREAD \<and> w_dtor w \<noteq> None \<and> w_get_tname w \<noteq> None \<and> w_notify_on_ctrl w \<noteq> None \<and>
     w_pvt w = Some pp \<and> pvts s pp = Some p \<and>
     wp_tname p = Some n \<and> wp_ctrl_queue p = Some c \<and> wp_sigterm p = Some g \<and>
     signals s g = Some \<lparr>sg_type = SIN_TYPE_SIGNAL, sg_signum = SIGTERM\<rparr> \<and> links s g \<noteq> None \<and>
     queues s c = Some cr \<and> q_list cr = SIN_LIST_RESET) \<and>
     queue_ok s (the (wp_ctrl_queue (wrk_priv s a))) \<and> distinct (a # wrk_addrs s a)"

definition zone_need :: "istore \<Rightarrow> addr \<Rightarrow> resource set" where
  "zone_need s a = (case zones s a of None \<Rightarrow> {}
     | Some z \<Rightarrow> {Block a, Block (z_pvt z), Mutex (z_pvt z), Block (z_pmap_blk z)} \<union> Block ` set (z_pmap z))"

definition zone_ok :: "istore \<Rightarrow> addr \<Rightarrow> bool" where
  "zone_ok s a \<longleftrightarrow> (case zones s a of None \<Rightarrow> False
     | Some z \<Rightarrow> z_type z = SIN_TYPE_PKT_ZONE \<and> nat (z_num_slots z) = length (z_pmap z) \<and>
         distinct (a # z_pvt z # z_pmap_blk z # z_pmap z))"

definition tx_queue :: "istore \<Rightarrow> addr \<Rightarrow> addr" where
  "tx_queue s a = (case txts s a of None \<Rightarrow> 0 | Some t \<Rightarrow> the (txo_outpkt_queue t))"

fun part_need :: "istore \<Rightarrow> part \<Rightarrow> resource set" where
  "part_need s (Zone a) = zone_need s a"
| "part_need s (TxT a) = {Block a} \<union> queue_need s (tx_queue s a) \<union> wrk_need s a"
| "part_need s (RxT a) = {Block a} \<union> wrk_need s a"
| "part_need s (Sorter a) = (case sorters s a of None \<Rightarrow> {}
     | Some so \<Rightarrow> {Block a} \<union> Block ` e_addr ` set (so_first so))"
| "part_need s (Blk a) = {Block a}"
| "part_need s (Descr fd) = {Fd (nat fd)}"
| "part_need s (Stance a sip) = {Block a}"

fun part_ok :: "istore \<Rightarrow> part \<Rightarrow> bool" where
  "part_ok s (Zone a) = zone_ok s a"
| "part_ok s (TxT a) = (wrk_ok s a \<and> queue_ok s (tx_queue s a) \<and>
     (\<exists>t q. txts s a = Some t \<and> txo_outpkt_queue t = Some q \<and>
        wp_ctrl_notify_queue (wrk_priv s a) = Some q) \<and>
     distinct (a # tx_queue s a # queue_name s (tx_queue s a) # wrk_addrs s a))"
| "part_ok s (RxT a) = (wrk_ok s a \<and> wp_ctrl_notify_queue (wrk_priv s a) = NULL)"
| "part_ok s (Sorter a) = (case sorters s a of None \<Rightarrow> False
     | Some so \<Rightarrow> so_addr so = a \<and> distinct (a # map e_addr (so_first so)))"
| "part_ok s (Blk a) = True"
| "part_ok s (Descr fd) = (0 \<le> fd)"
| "part_ok s (Stance a sip) = (stances s a = Some sip)"

definition fp :: "istore \<Rightarrow> part \<Rightarrow> addr set" where
  "fp s x = res_addr ` part_need s x"

subsection \<open>Work elsewhere\<close>

definition same_at :: "addr set \<Rightarrow> istore \<Rightarrow> istore \<Rightarrow> bool" where
  "same_at A s s' \<longleftrightarrow> (\<forall>a \<in> A. queues s' a = queues s a \<and> links s' a = links s a \<and>
     signals s' a = signals s a \<and> wrks s' a = wrks s a \<and> pvts s' a = pvts s a \<and>
     rxts s' a = rxts s a \<and> txts s' a = txts s a \<and> zones s' a = zones s a \<and>
     sorters s' a = sorters s a \<and> stances s' a = stances s a)"

lemma same_atI:
  assumes "\<And>a. a \<in> A \<Longrightarrow> queues s' a = queues s a" "\<And>a. a \<in> A \<Longrightarrow> links s' a = links s a"
    "\<And>a. a \<in> A \<Longrightarrow> signals s' a = signals s a" "\<And>a. a \<in> A \<Longrightarrow> wrks s' a = wrks s a"
    "\<And>a. a \<in> A \<Longrightarrow> pvts s' a = pvts s a" "\<And>a. a \<in> A \<Longrightarrow> rxts s' a = rxts s a"
    "\<And>a. a \<in> A \<Longrightarrow> txts s' a = txts s a" "\<And>a. a \<in> A \<Longrightarrow> zones s' a = zones s a"
    "\<And>a. a \<in> A \<Longrightarrow> sorters s' a = sorters s a" "\<And>a. a \<in> A \<Longrightarrow> stances s' a = stances s a"
  shows "same_at A s s'"
  using assms by (simp add: same_at_def)

lemma same_atD:
  assumes "same_at A s s'" and "a \<in> A"
  shows "queues s' a = queues s a" "links s' a = links s a" "signals s' a = signals s a"
    "wrks s' a = wrks s a" "pvts s' a = pvts s a" "rxts s' a = rxts s a"
    "txts s' a = txts s a" "zones s' a = zones s a" "sorters s' a = sorters s a" "stances s' a = stances s a"
  using assms by (simp_all add: same_at_def)

lemma same_at_refl [simp]: "same_at A s s"
  by (simp add: same_at_def)

lemma same_at_trans: "same_at A s s' \<Longrightarrow> same_at A s' s'' \<Longrightarrow> same_at A s s''"
  by (simp add: same_at_def)

lemma same_at_mono: "same_at A s s' \<Longrightarrow> B \<subseteq> A \<Longrightarrow> same_at B s s'"
  by (auto simp: same_at_def)

lemma queue_frame:
  assumes "same_at A s s'" and "q \<in> A"
  shows "queue_name s' q = queue_name s q" "queue_need s' q = queue_need s q"
    "queue_ok s' q = queue_ok s q"
  using same_atD [OF assms] by (simp_all add: queue_name_def queue_need_def queue_ok_def)

lemma wrk_need_addrs:
  "res_addr ` wrk_need s a = set (wrk_addrs s a)"
  by (auto simp: wrk_need_def wrk_addrs_def queue_need_def Let_def)

lemma wrk_frame:
  assumes "same_at A s s'" and "wrk_ok s a" and "insert a (res_addr ` wrk_need s a) \<subseteq> A"
  shows "wrk_ok s' a" "wrk_need s' a = wrk_need s a" "wrk_addrs s' a = wrk_addrs s a"
    "wrk_priv s' a = wrk_priv s a"
proof -
  have A: "insert a (set (wrk_addrs s a)) \<subseteq> A" using assms(3) by (simp add: wrk_need_addrs)
  have w: "wrks s' a = wrks s a" using same_atD(4) [OF assms(1)] A by simp
  then have pv: "wrk_pvt s' a = wrk_pvt s a" by (simp add: wrk_pvt_def)
  have "pvts s' (wrk_pvt s a) = pvts s (wrk_pvt s a)"
    using same_atD(5) [OF assms(1)] A by (simp add: wrk_addrs_def Let_def)
  then show p: "wrk_priv s' a = wrk_priv s a" by (simp add: wrk_priv_def pv)
  have c: "the (wp_ctrl_queue (wrk_priv s a)) \<in> A" "the (wp_sigterm (wrk_priv s a)) \<in> A"
    "wrk_pvt s a \<in> A"
    using A by (simp_all add: wrk_addrs_def Let_def)
  note q = queue_frame [OF assms(1) c(1)]
  show n: "wrk_need s' a = wrk_need s a" "wrk_addrs s' a = wrk_addrs s a"
    by (simp_all add: wrk_need_def wrk_addrs_def p pv q Let_def)
  from assms(2) obtain w pp pr n c' g cr where W: "wrks s a = Some w" "w_type w = SIN_TYPE_WRK_THREAD" "w_dtor w \<noteq> None"
     "w_get_tname w \<noteq> None" "w_notify_on_ctrl w \<noteq> None" "w_pvt w = Some pp" "pvts s pp = Some pr"
     "wp_tname pr = Some n" "wp_ctrl_queue pr = Some c'" "wp_sigterm pr = Some g"
     "signals s g = Some \<lparr>sg_type = SIN_TYPE_SIGNAL, sg_signum = SIGTERM\<rparr>" "links s g \<noteq> None"
     "queues s c' = Some cr" "q_list cr = SIN_LIST_RESET"
    by (auto simp: wrk_ok_def)
  have pr: "wrk_pvt s a = pp" "wrk_priv s a = pr" using W by (simp_all add: wrk_pvt_def wrk_priv_def)
  have "wrks s' a = Some w" "pvts s' pp = Some pr" "signals s' g = signals s g"
    "links s' g = links s g" "queues s' c' = queues s c'"
    using w W c pr same_atD [OF assms(1)] by auto
  then show "wrk_ok s' a" using W assms(2) n q p by (auto simp: wrk_ok_def)
qed

lemma part_frame:
  assumes f: "same_at (fp s x) s s'" and ok: "part_ok s x"
  shows "part_ok s' x" "part_need s' x = part_need s x"
proof -
  have "part_ok s' x \<and> part_need s' x = part_need s x"
  proof (cases x)
    case (Zone a)
    then obtain z where z: "zones s a = Some z" using ok by (auto simp: zone_ok_def split: option.splits)
    then have "a \<in> fp s x" by (auto simp: Zone fp_def zone_need_def)
    from same_atD(8) [OF f this] show ?thesis using ok Zone by (simp add: zone_ok_def zone_need_def)
  next
    case (TxT a)
    have A: "insert a (res_addr ` wrk_need s a) \<subseteq> fp s x" "a \<in> fp s x" "tx_queue s a \<in> fp s x"
      by (auto simp: TxT fp_def queue_need_def)
    have t: "txts s' a = txts s a" by (rule same_atD(7) [OF f A(2)])
    then have q: "tx_queue s' a = tx_queue s a" by (simp add: tx_queue_def)
    have w: "wrk_ok s a" using ok by (simp add: TxT)
    note wf = wrk_frame [OF f w A(1)] and qf = queue_frame [OF f A(3)]
    have "part_need s' x = part_need s x" by (simp add: TxT wf qf q)
    moreover have "part_ok s' x = part_ok s x" using wf(1) w by (simp add: TxT wf(3,4) qf q t)
    ultimately show ?thesis using ok by simp
  next
    case (RxT a)
    have A: "insert a (res_addr ` wrk_need s a) \<subseteq> fp s x" by (auto simp: RxT fp_def)
    show ?thesis using wrk_frame [OF f _ A] ok RxT by simp
  next
    case (Sorter a)
    then obtain z where z: "sorters s a = Some z" using ok by (auto split: option.splits)
    then have "a \<in> fp s x" by (auto simp: Sorter fp_def)
    from same_atD(9) [OF f this] show ?thesis using ok Sorter by simp
  next
    case (Stance a sip)
    then have "a \<in> fp s x" by (simp add: fp_def)
    from same_atD(10) [OF f this] show ?thesis using ok Stance by simp
  qed (use ok in simp_all)
  then show "part_ok s' x" "part_need s' x = part_need s x" by simp_all
qed

lemma fp_frame:
  assumes "same_at (fp s x) s s'" and "part_ok s x"
  shows "fp s' x = fp s x"
  using part_frame(2) [OF assms] by (simp add: fp_def)

subsection \<open>Keeping the books\<close>

text \<open>
  What may be left behind: the time stamp and the mutex of a packet descriptor, which the
  destructor of a zone does not release. Packet and time stamp are allocated one after the
  other, so the mutex at \<open>a\<close> belongs to the packet whose time stamp is at \<open>a + 1\<close>.
\<close>

definition left_over :: "istore \<Rightarrow> resource \<Rightarrow> bool" where
  "left_over s r \<longleftrightarrow> (case r of
     Block a \<Rightarrow> a < os_fresh s \<and> times s a \<noteq> None
   | Mutex a \<Rightarrow> Suc a < os_fresh s \<and> times s (Suc a) \<noteq> None
   | _ \<Rightarrow> False)"

text \<open>
  \<open>hold f L X Q s\<close>: since the supply of addresses stood at \<open>f\<close> and \<open>L\<close> was live, exactly
  the parts \<open>Q\<close> have come to be, none sharing an address with another; whatever else is
  live now is in \<open>X\<close> or left over.
\<close>

definition hold :: "nat \<Rightarrow> resource set \<Rightarrow> resource set \<Rightarrow> part set \<Rightarrow> istore \<Rightarrow> bool" where
  "hold f L X Q s \<longleftrightarrow> os_ok s \<and> f \<le> os_fresh s \<and> L \<subseteq> os_live s \<and> (\<forall>r \<in> L. res_addr r < f) \<and>
     (\<forall>x \<in> Q. part_ok s x \<and> part_need s x \<subseteq> os_live s \<and> fp s x \<subseteq> {f..<os_fresh s}) \<and>
     (\<forall>x \<in> Q. \<forall>y \<in> Q. x \<noteq> y \<longrightarrow> fp s x \<inter> fp s y = {}) \<and>
     (\<forall>r \<in> os_live s - L. left_over s r \<or> r \<in> X \<or> (\<exists>x \<in> Q. r \<in> part_need s x))"

text \<open>What creating a part does to the rest, and what destroying one does.\<close>

definition made :: "istore \<Rightarrow> istore \<Rightarrow> resource set \<Rightarrow> part set \<Rightarrow> bool" where
  "made s s' X Q \<longleftrightarrow> os_ok s' \<and> os_fresh s \<le> os_fresh s' \<and> os_live s \<subseteq> os_live s' \<and>
     same_at {..<os_fresh s} s s' \<and> (\<forall>a < os_fresh s. times s' a = times s a) \<and>
     rings s' = rings s \<and> os_script s' = os_script s \<and>
     (\<forall>x \<in> Q. part_ok s' x \<and> part_need s' x \<subseteq> os_live s' \<and> fp s' x \<subseteq> {os_fresh s..<os_fresh s'}) \<and>
     (\<forall>x \<in> Q. \<forall>y \<in> Q. x \<noteq> y \<longrightarrow> fp s' x \<inter> fp s' y = {}) \<and>
     (\<forall>r \<in> os_live s' - os_live s. left_over s' r \<or> r \<in> X \<or> (\<exists>x \<in> Q. r \<in> part_need s' x))"

definition removed :: "istore \<Rightarrow> istore \<Rightarrow> part \<Rightarrow> bool" where
  "removed s s' x \<longleftrightarrow> os_fresh s' = os_fresh s \<and> os_live s' = os_live s - part_need s x \<and>
     same_at (- fp s x) s s' \<and> times s' = times s"

lemma left_over_mono:
  assumes "left_over s r" and "\<forall>a < os_fresh s. times s' a = times s a" and "os_fresh s \<le> os_fresh s'"
  shows "left_over s' r"
  using assms by (auto simp: left_over_def split: resource.splits)

lemma holdD:
  assumes "hold f L X Q s"
  shows "os_ok s" "f \<le> os_fresh s" "L \<subseteq> os_live s" "r \<in> L \<Longrightarrow> res_addr r < f"
    "x \<in> Q \<Longrightarrow> part_ok s x" "x \<in> Q \<Longrightarrow> part_need s x \<subseteq> os_live s"
    "x \<in> Q \<Longrightarrow> fp s x \<subseteq> {f..<os_fresh s}"
    "x \<in> Q \<Longrightarrow> y \<in> Q \<Longrightarrow> x \<noteq> y \<Longrightarrow> fp s x \<inter> fp s y = {}"
    "r \<in> os_live s \<Longrightarrow> r \<notin> L \<Longrightarrow> left_over s r \<or> r \<in> X \<or> (\<exists>x \<in> Q. r \<in> part_need s x)"
  using assms by (simp_all add: hold_def)

lemma holdI:
  assumes "os_ok s" "f \<le> os_fresh s" "L \<subseteq> os_live s" "\<And>r. r \<in> L \<Longrightarrow> res_addr r < f"
    "\<And>x. x \<in> Q \<Longrightarrow> part_ok s x" "\<And>x. x \<in> Q \<Longrightarrow> part_need s x \<subseteq> os_live s"
    "\<And>x. x \<in> Q \<Longrightarrow> fp s x \<subseteq> {f..<os_fresh s}"
    "\<And>x y. x \<in> Q \<Longrightarrow> y \<in> Q \<Longrightarrow> x \<noteq> y \<Longrightarrow> fp s x \<inter> fp s y = {}"
    "\<And>r. r \<in> os_live s \<Longrightarrow> r \<notin> L \<Longrightarrow> left_over s r \<or> r \<in> X \<or> (\<exists>x \<in> Q. r \<in> part_need s x)"
  shows "hold f L X Q s"
  using assms by (simp add: hold_def)

lemma madeD:
  assumes "made s s' X Q"
  shows "os_ok s'" "os_fresh s \<le> os_fresh s'" "os_live s \<subseteq> os_live s'"
    "same_at {..<os_fresh s} s s'" "a < os_fresh s \<Longrightarrow> times s' a = times s a"
    "rings s' = rings s" "os_script s' = os_script s" "x \<in> Q \<Longrightarrow> part_ok s' x"
    "x \<in> Q \<Longrightarrow> part_need s' x \<subseteq> os_live s'"
    "x \<in> Q \<Longrightarrow> fp s' x \<subseteq> {os_fresh s..<os_fresh s'}"
    "x \<in> Q \<Longrightarrow> y \<in> Q \<Longrightarrow> x \<noteq> y \<Longrightarrow> fp s' x \<inter> fp s' y = {}"
    "r \<in> os_live s' \<Longrightarrow> r \<notin> os_live s \<Longrightarrow>
       left_over s' r \<or> r \<in> X \<or> (\<exists>x \<in> Q. r \<in> part_need s' x)"
  using assms by (simp_all add: made_def)

lemma hold_made:
  assumes h: "hold f L X Q s" and m: "made s s' Y P"
  shows "hold f L (X \<union> Y) (Q \<union> P) s'"
proof -
  note H = holdD [OF h] and M = madeD [OF m]
  have fr: "part_ok s' x" "part_need s' x = part_need s x" "fp s' x = fp s x" if "x \<in> Q" for x
  proof -
    have "fp s x \<subseteq> {..<os_fresh s}" using H(7) [OF that] by auto
    with M(4) have sa: "same_at (fp s x) s s'" by (rule same_at_mono)
    show "part_ok s' x" "part_need s' x = part_need s x" "fp s' x = fp s x"
      by (rule part_frame [OF sa H(5) [OF that]] fp_frame [OF sa H(5) [OF that]])+
  qed
  have sep: "fp s' x \<inter> fp s' y = {}" if "x \<in> Q" "y \<in> P" for x y
  proof -
    have "fp s' x \<subseteq> {..<os_fresh s}" using H(7) [OF that(1)] fr(3) [OF that(1)] by auto
    moreover have "fp s' y \<subseteq> {os_fresh s..}" using M(10) [OF that(2)] by auto
    ultimately show ?thesis by fastforce
  qed
  show ?thesis
  proof (rule holdI)
    show "os_ok s'" "f \<le> os_fresh s'" "L \<subseteq> os_live s'" using H(2,3) M(1,2,3) by auto
    show "r \<in> L \<Longrightarrow> res_addr r < f" for r by (rule H(4))
    show "part_ok s' x" if "x \<in> Q \<union> P" for x using that fr(1) M(8) by auto
    show "part_need s' x \<subseteq> os_live s'" if "x \<in> Q \<union> P" for x using that fr(2) H(6) M(3,9) by blast
    show "fp s' x \<subseteq> {f..<os_fresh s'}" if "x \<in> Q \<union> P" for x
    proof (cases "x \<in> Q")
      case True
      with H(7) [OF True] fr(3) [OF True] M(2) show ?thesis by auto
    next
      case False
      with that M(10) [of x] H(2) show ?thesis by auto
    qed
    show "fp s' x \<inter> fp s' y = {}" if "x \<in> Q \<union> P" "y \<in> Q \<union> P" "x \<noteq> y" for x y
      using that sep [of x y] sep [of y x] fr(3) H(8) [of x y] M(11) [of x y] by (auto simp: Int_commute)
    show "left_over s' r \<or> r \<in> X \<union> Y \<or> (\<exists>x \<in> Q \<union> P. r \<in> part_need s' x)"
      if "r \<in> os_live s'" "r \<notin> L" for r
    proof (cases "r \<in> os_live s")
      case True
      from H(9) [OF this that(2)] consider "left_over s r" | "r \<in> X"
        | x where "x \<in> Q" "r \<in> part_need s x" by blast
      then show ?thesis
      proof cases
        case 1
        have "left_over s' r" by (rule left_over_mono [OF 1]) (use M(2,5) in auto)
        then show ?thesis by simp
      next
        case 3
        with fr(2) [OF 3(1)] show ?thesis by auto
      qed simp
    next
      case False
      with M(12) [OF that(1)] show ?thesis by blast
    qed
  qed
qed

lemma hold_removed:
  assumes h: "hold f L X Q s" and x: "x \<in> Q" and r: "removed s s' x"
  shows "hold f L X (Q - {x}) s'"
proof -
  note H = holdD [OF h]
  have R: "os_fresh s' = os_fresh s" "os_live s' = os_live s - part_need s x"
    "same_at (- fp s x) s s'" "times s' = times s" using r by (simp_all add: removed_def)
  have fr: "part_ok s' y" "part_need s' y = part_need s y" "fp s' y = fp s y" if "y \<in> Q - {x}" for y
  proof -
    have y: "y \<in> Q" "y \<noteq> x" using that by auto
    have "fp s y \<subseteq> - fp s x" using H(8) [OF y(1) x y(2)] by auto
    with R(3) have sa: "same_at (fp s y) s s'" by (rule same_at_mono)
    show "part_ok s' y" "part_need s' y = part_need s y" "fp s' y = fp s y"
      by (rule part_frame [OF sa H(5) [OF y(1)]] fp_frame [OF sa H(5) [OF y(1)]])+
  qed
  have need: "part_need s y \<inter> part_need s x = {}" if "y \<in> Q" "y \<noteq> x" for y
    using H(8) [OF that(1) x that(2)] by (auto simp: fp_def)
  have lo: "left_over s' q = left_over s q" for q
    using R by (simp add: left_over_def split: resource.splits)
  show ?thesis
  proof (rule holdI)
    show "os_ok s'" using H(1) R by (simp add: os_ok_def)
    show "f \<le> os_fresh s'" using H(2) R by simp
    have "L \<inter> part_need s x = {}" using H(4) H(7) [OF x] by (fastforce simp: fp_def)
    then show "L \<subseteq> os_live s'" using H(3) R(2) by auto
    show "q \<in> L \<Longrightarrow> res_addr q < f" for q by (rule H(4))
    show "part_ok s' y" if "y \<in> Q - {x}" for y using fr(1) [OF that] .
    show "part_need s' y \<subseteq> os_live s'" if "y \<in> Q - {x}" for y
      using H(6) [of y] need [of y] fr(2) [OF that] R(2) that by auto
    show "fp s' y \<subseteq> {f..<os_fresh s'}" if "y \<in> Q - {x}" for y
      using H(7) [of y] fr(3) [OF that] R(1) that by auto
    show "fp s' y \<inter> fp s' z = {}" if "y \<in> Q - {x}" "z \<in> Q - {x}" "y \<noteq> z" for y z
      using H(8) [of y z] fr(3) that by auto
    show "left_over s' q \<or> q \<in> X \<or> (\<exists>y \<in> Q - {x}. q \<in> part_need s' y)"
      if "q \<in> os_live s'" "q \<notin> L" for q
    proof -
      have q: "q \<in> os_live s" "q \<notin> part_need s x" using that R(2) by auto
      from H(9) [OF q(1) that(2)] consider "left_over s q" | "q \<in> X"
        | y where "y \<in> Q" "q \<in> part_need s y" by blast
      then show ?thesis
      proof cases
        case 3
        then have y: "y \<in> Q - {x}" using q(2) by auto
        with 3(2) fr(2) [OF y] show ?thesis by auto
      qed (simp_all add: lo)
    qed
  qed
qed

end
