(* ===== verification/Sin_Dtor.thy ===== *)
theory Sin_Dtor
  imports Sin_Parts
begin

text \<open>
  The destructors of the parts of an instance: on a part in good order each returns without
  a memory error, releases exactly what the part needs released, and leaves the other parts
  alone.
\<close>

subsection \<open>Queues and zones\<close>

lemma res_addr_Block [simp]: "res_addr ` Block ` A = A"
  by (simp add: image_image)

lemma queue_ctor_frame:
  assumes "sin_wi_queue_ctor e s = Some (r, e', s')"
  shows "s' = s\<lparr>os_fresh := os_fresh s', os_live := os_live s', os_clock := os_clock s', queues := queues s'\<rparr>"
  using assms
  by (auto simp: sin_wi_queue_ctor_def os_defs Let_def split: if_splits option.splits)

lemma queue_dtor_works:
  fixes s :: istore
  assumes "queue_ok s q" and "queue_need s q \<subseteq> os_live s"
  shows "sin_wi_queue_dtor q s = Some (s\<lparr>os_live := os_live s - queue_need s q, queues := (queues s)(q := None)\<rparr>)"
proof -
  from assms(1) obtain qr n where q: "queues s q = Some qr" "q_name qr = Some n" "n \<noteq> q"
    by (auto simp: queue_ok_def split: option.splits)
  then have "queue_need s q = {Block q, Cond q, Mutex q, Block n}"
    by (simp add: queue_need_def queue_name_def)
  with assms(2) sin_wi_queue_dtor_exact [OF q] show ?thesis by simp
qed

lemma zone_dtor_loop:
  fixes s :: istore
  assumes "distinct ps" and "Block ` set ps \<subseteq> os_live s"
  shows "\<exists>P h. free_pkts ps s = Some (s\<lparr>os_live := os_live s - Block ` set ps, pkts := P, links := h\<rparr>)
    \<and> (\<forall>a. a \<notin> set ps \<longrightarrow> h a = links s a)"
  using assms
proof (induction ps arbitrary: s)
  case Nil
  show ?case by (intro exI [of _ "pkts s"] exI [of _ "links s"]) simp
next
  case (Cons p ps)
  let ?s = "s\<lparr>os_live := os_live s - {Block p}, pkts := (pkts s)(p := None), links := (links s)(p := None)\<rparr>"
  have "Block ` set ps \<subseteq> os_live ?s" using Cons.prems by auto
  then obtain P h where 1: "free_pkts ps ?s = Some (?s\<lparr>os_live := os_live ?s - Block ` set ps, pkts := P, links := h\<rparr>)"
    "\<forall>a. a \<notin> set ps \<longrightarrow> h a = links ?s a"
    using Cons.IH [of ?s] Cons.prems(1) by auto
  have "os_live s - {Block p} - Block ` set ps = os_live s - Block ` set (p # ps)" by auto
  with 1 Cons.prems show ?case
    by (intro exI [of _ P] exI [of _ h]) (simp add: free_def)
qed

lemma zone_removed:
  fixes s :: istore
  assumes ok: "part_ok s (Zone a)" and live: "part_need s (Zone a) \<subseteq> os_live s"
  shows "\<exists>s'. sin_pkt_zone_dtor a s = Some s' \<and> removed s s' (Zone a)"
proof -
  from ok obtain z where z: "zones s a = Some z" "nat (z_num_slots z) = length (z_pmap z)"
    "distinct (a # z_pvt z # z_pmap_blk z # z_pmap z)"
    by (auto simp: zone_ok_def split: option.splits)
  have need: "part_need s (Zone a) = {Block a, Block (z_pvt z), Mutex (z_pvt z), Block (z_pmap_blk z)} \<union> Block ` set (z_pmap z)"
    using z by (simp add: zone_need_def)
  have "distinct (z_pmap z)" "Block ` set (z_pmap z) \<subseteq> os_live s" using z(3) live need by auto
  from zone_dtor_loop [OF this] obtain P h where f: "free_pkts (z_pmap z) s
      = Some (s\<lparr>os_live := os_live s - Block ` set (z_pmap z), pkts := P, links := h\<rparr>)"
    "\<forall>x. x \<notin> set (z_pmap z) \<longrightarrow> h x = links s x" by blast
  let ?s = "s\<lparr>os_live := os_live s - part_need s (Zone a), pkts := P, links := h, zones := (zones s)(a := None)\<rparr>"
  have "os_live s - Block ` set (z_pmap z) - {Block (z_pmap_blk z)} - {Mutex (z_pvt z)} - {Block (z_pvt z)} - {Block a}
      = os_live s - part_need s (Zone a)" using need by auto
  moreover have "Block a \<in> os_live s" "Block (z_pvt z) \<in> os_live s" "Mutex (z_pvt z) \<in> os_live s" "Block (z_pmap_blk z) \<in> os_live s"
    using live need by auto
  moreover have "a \<noteq> z_pvt z" "a \<noteq> z_pmap_blk z" "z_pvt z \<noteq> z_pmap_blk z"
    "a \<notin> set (z_pmap z)" "z_pvt z \<notin> set (z_pmap z)" "z_pmap_blk z \<notin> set (z_pmap z)"
    using z(3) by auto
  moreover have "take (nat (z_num_slots z)) (z_pmap z) = z_pmap z" using z(2) by simp
  ultimately have "sin_pkt_zone_dtor a s = Some ?s"
    by (simp add: sin_pkt_zone_dtor_def free_def pthread_mutex_destroy_def release_def z(1) f(1) image_iff)
  moreover have "removed s ?s (Zone a)"
    using f(2) need by (auto simp: removed_def fp_def same_at_def)
  ultimately show ?thesis by blast
qed

subsection \<open>Workers\<close>

text \<open>
  What a thread may do before it ends, as far as this theory is concerned: it takes the
  signal off its control queue and leaves the ledger and the parts alone.
\<close>

definition quiet :: "istore \<Rightarrow> istore \<Rightarrow> bool" where
  "quiet s s' \<longleftrightarrow> os_fresh s' = os_fresh s \<and> os_live s' = os_live s \<and> times s' = times s \<and>
     same_at UNIV s s'"

definition ends :: "runner \<Rightarrow> bool" where
  "ends run \<longleftrightarrow> (\<forall>a s s1. sin_wrk_thread_check_ctrl a s = Some (SIGTERM, s1) \<longrightarrow>
     (\<exists>s2. run a s = Some s2 \<and> quiet s1 s2))"

lemma endsD: "ends run \<Longrightarrow> sin_wrk_thread_check_ctrl a s = Some (SIGTERM, s1) \<Longrightarrow>
    \<exists>s2. run a s = Some s2 \<and> quiet s1 s2"
  by (simp add: ends_def)

lemma wrk_ok_parts:
  assumes "wrk_ok s a"
  obtains w pp p n c g cr where "wrks s a = Some w" "w_dtor w \<noteq> None" "w_pvt w = Some pp"
    "pvts s pp = Some p" "wp_tname p = Some n" "wp_ctrl_queue p = Some c" "wp_sigterm p = Some g"
    "signals s g = Some \<lparr>sg_type = SIN_TYPE_SIGNAL, sg_signum = SIGTERM\<rparr>" "links s g \<noteq> None"
    "queues s c = Some cr" "q_list cr = SIN_LIST_RESET" "queue_ok s c"
    "distinct [a, pp, n, c, queue_name s c, g, wp_tid p]"
    "wrk_need s a = {Block pp, Block n, Block g, Thread (wp_tid p)} \<union> queue_need s c"
    "wrk_priv s a = p" "pvt_of a s = Some (pp, p)"
proof -
  from assms obtain w pp p n c g cr where W: "wrks s a = Some w" "w_type w = SIN_TYPE_WRK_THREAD" "w_dtor w \<noteq> None"
     "w_get_tname w \<noteq> None" "w_notify_on_ctrl w \<noteq> None" "w_pvt w = Some pp" "pvts s pp = Some p"
     "wp_tname p = Some n" "wp_ctrl_queue p = Some c" "wp_sigterm p = Some g"
     "signals s g = Some \<lparr>sg_type = SIN_TYPE_SIGNAL, sg_signum = SIGTERM\<rparr>" "links s g \<noteq> None"
     "queues s c = Some cr" "q_list cr = SIN_LIST_RESET"
    by (auto simp: wrk_ok_def)
  have p: "wrk_pvt s a = pp" "wrk_priv s a = p" using W by (simp_all add: wrk_pvt_def wrk_priv_def)
  show thesis
  proof (rule that [of w pp p n c g cr])
    show "queue_ok s c" "distinct [a, pp, n, c, queue_name s c, g, wp_tid p]"
      using assms p W by (auto simp: wrk_ok_def wrk_addrs_def)
    show "wrk_need s a = {Block pp, Block n, Block g, Thread (wp_tid p)} \<union> queue_need s c"
      using p W by (simp add: wrk_need_def)
    show "pvt_of a s = Some (pp, p)" using W by (simp add: pvt_of_def)
  qed (use W p in simp_all)
qed

text \<open>The thread finds the signal on its queue.\<close>

lemma check_ctrl_empty:
  assumes "pvt_of a s = Some (pp, p)" "wp_ctrl_queue p = Some c" "queues s c = Some cr" "q_head cr = NULL"
  shows "sin_wrk_thread_check_ctrl a s = Some (-1, s)"
  using assms by (simp add: sin_wrk_thread_check_ctrl_def sin_wi_queue_get_item_def)

lemma check_ctrl_sigterm:
  assumes "pvt_of a s = Some (pp, p)" "wp_ctrl_queue p = Some c" "wp_sigterm p = Some g"
    "queues s c = Some cr" "q_head cr = Some g" "links s g = Some NULL" "signals s g = Some sg"
  shows "sin_wrk_thread_check_ctrl a s = Some (sg_signum sg, s\<lparr>queues := (queues s)(c \<mapsto>
    cr\<lparr>q_head := NULL, q_tail := NULL, q_length := q_length cr - 1\<rparr>)\<rparr>)"
  using assms
  by (simp add: sin_wrk_thread_check_ctrl_def sin_wi_queue_get_item_def take_item_def
      SIN_ITER_NEXT_def SIN_TYPE_LINK_def sin_signal_get_signum_def fun_upd_idem)

text \<open>Delivering the signal: the control queue holds it, and the notified queue is signalled.\<close>

lemma put_sigterm_works:
  assumes "pvt_of a s = Some (pp, p)" "wp_ctrl_queue p = Some c" "wp_sigterm p = Some g"
    "queues s c = Some cr" "q_list cr = SIN_LIST_RESET" "links s g \<noteq> None"
  shows "wrk_put_sigterm a s = Some (s\<lparr>links := (links s)(g \<mapsto> NULL), queues := (queues s)(c \<mapsto>
    notify_worker (cr\<lparr>q_head := Some g, q_tail := Some g, q_length := 1\<rparr>))\<rparr>)"
proof -
  have cr: "q_head cr = NULL" "q_length cr = 0" using assms(5) by (simp_all add: q_list_def SIN_LIST_RESET_def)
  have "lst_repr (links s) (q_list cr) []" by (simp add: assms(5))
  from put_item_exact [OF assms(4) this assms(6), of 1] cr assms
  show ?thesis by (simp add: wrk_put_sigterm_def)
qed

lemma reap_works:
  fixes s :: istore
  assumes p: "pvt_of a s = Some (pp, p)" "wp_tname p = Some n" "wp_ctrl_queue p = Some c" "wp_sigterm p = Some g"
    and c: "queues s c = Some cr" "q_head cr = NULL" "queue_ok s c"
    and d: "distinct [pp, n, c, queue_name s c, g, wp_tid p]"
    and live: "{Block pp, Block n, Block g, Thread (wp_tid p)} \<union> queue_need s c \<subseteq> os_live s"
  shows "wrk_reap a s = Some (s\<lparr>os_live := os_live s - ({Block pp, Block n, Block g, Thread (wp_tid p)} \<union> queue_need s c),
    signals := (signals s)(g := None), links := (links s)(g := None), queues := (queues s)(c := None),
    pvts := (pvts s)(pp := None)\<rparr>)"
proof -
  let ?s1 = "s\<lparr>os_live := os_live s - {Thread (wp_tid p)}\<rparr>"
  let ?s2 = "s\<lparr>os_live := os_live s - {Thread (wp_tid p)} - {Block g},
     signals := (signals s)(g := None), links := (links s)(g := None)\<rparr>"
  let ?s3 = "?s2\<lparr>os_live := os_live ?s2 - queue_need s c, queues := (queues s)(c := None)\<rparr>"
  have j: "pthread_join (wp_tid p) s = Some ?s1" using live by (simp add: pthread_join_def)
  have g: "sin_signal_dtor g ?s1 = Some ?s2" using live by (simp add: signal_dtor_works)
  have pv: "pvt_of a ?s2 = Some (pp, p)" using p(1) by (simp add: pvt_of_def)
  have "sin_wrk_thread_check_ctrl a ?s2 = Some (-1, ?s2)"
    using check_ctrl_empty [OF pv p(3)] c by simp
  then have dr: "drain_ctrl a ?s2 = Some ?s2" by (simp add: drain_ctrl.simps)
  have "queue_ok ?s2 c" "queue_need ?s2 c = queue_need s c" using c(3)
    by (simp_all add: queue_ok_def queue_need_def queue_name_def)
  moreover have "queue_need s c \<subseteq> os_live ?s2" using live d by (auto simp: queue_need_def)
  ultimately have q: "sin_wi_queue_dtor c ?s2 = Some ?s3"
    using queue_dtor_works [of ?s2 c] by simp
  have nl: "Block n \<in> os_live ?s3" "Block pp \<in> os_live ?s3" "n \<noteq> pp"
    using live d by (auto simp: queue_need_def)
  have un: "pvts s pp \<noteq> None \<or> True" by simp
  have "os_live s - {Thread (wp_tid p)} - {Block g} - queue_need s c - {Block n} - {Block pp}
    = os_live s - ({Block pp, Block n, Block g, Thread (wp_tid p)} \<union> queue_need s c)" by auto
  then show ?thesis using nl
    by (simp add: wrk_reap_def p j g dr q free_def wrk_undo_0_def release_def)
qed

text \<open>The first half of the destructor, up to the end of the thread.\<close>

lemma wrk_ended:
  assumes r: "ends run" and ok: "wrk_ok s a"
    and nq: "case wp_ctrl_notify_queue (wrk_priv s a) of None \<Rightarrow> True
      | Some nq \<Rightarrow> queue_ok s nq \<and> nq \<notin> set (wrk_addrs s a)"
  obtains s4 pp p n c g cr where
    "do { s \<leftarrow> wrk_put_sigterm a s; s \<leftarrow> wrk_pump a s; run a s } = Some s4"
    "pvt_of a s4 = Some (pp, p)" "wp_tname p = Some n" "wp_ctrl_queue p = Some c" "wp_sigterm p = Some g"
    "signals s4 g = Some \<lparr>sg_type = SIN_TYPE_SIGNAL, sg_signum = SIGTERM\<rparr>"
    "queues s4 c = Some cr" "q_head cr = NULL"
    "queue_ok s4 c" "queue_need s4 c = queue_need s c" "queue_name s4 c = queue_name s c"
    "distinct [a, pp, n, c, queue_name s c, g, wp_tid p]" "wrk_priv s a = p"
    "wrk_need s a = {Block pp, Block n, Block g, Thread (wp_tid p)} \<union> queue_need s c"
    "os_fresh s4 = os_fresh s" "os_live s4 = os_live s" "times s4 = times s"
    "same_at (- ({c, g} \<union> set_option (wp_ctrl_notify_queue p))) s s4"
    "\<And>q. wp_ctrl_notify_queue p = Some q \<Longrightarrow> q \<noteq> c \<and> queue_ok s4 q \<and> queue_name s4 q = queue_name s q"
proof -
  from ok obtain w pp p n c g cr where W: "wrks s a = Some w" "w_dtor w \<noteq> None" "w_pvt w = Some pp"
    "pvts s pp = Some p" "wp_tname p = Some n" "wp_ctrl_queue p = Some c" "wp_sigterm p = Some g"
    and S: "signals s g = Some \<lparr>sg_type = SIN_TYPE_SIGNAL, sg_signum = SIGTERM\<rparr>" "links s g \<noteq> None"
    and Q: "queues s c = Some cr" "q_list cr = SIN_LIST_RESET" "queue_ok s c"
    and d: "distinct [a, pp, n, c, queue_name s c, g, wp_tid p]"
    and need: "wrk_need s a = {Block pp, Block n, Block g, Thread (wp_tid p)} \<union> queue_need s c"
    and pr: "wrk_priv s a = p" "pvt_of a s = Some (pp, p)"
    by (rule wrk_ok_parts)
  define cr1 where "cr1 = notify_worker (cr\<lparr>q_head := Some g, q_tail := Some g, q_length := 1\<rparr>)"
  define s1 where "s1 = s\<lparr>links := (links s)(g \<mapsto> NULL), queues := (queues s)(c \<mapsto> cr1)\<rparr>"
  have cr1: "q_head cr1 = Some g" "q_name cr1 = q_name cr" "q_type cr1 = q_type cr"
    by (simp_all add: cr1_def notify_worker_def)
  have put: "wrk_put_sigterm a s = Some s1"
    using put_sigterm_works [OF pr(2) W(6,7) Q(1,2) S(2)] by (simp add: s1_def cr1_def)
  define Q2 where "Q2 = (case wp_ctrl_notify_queue p of None \<Rightarrow> queues s1
    | Some q \<Rightarrow> (queues s1)(q \<mapsto> notify_worker (the (queues s q))))"
  define s2 where "s2 = s1\<lparr>queues := Q2\<rparr>"
  have nq': "queue_ok s q" "q \<noteq> c" if "wp_ctrl_notify_queue p = Some q" for q
    using nq that pr W d by (auto simp: wrk_addrs_def wrk_pvt_def Let_def)
  have pv1: "pvt_of a s1 = Some (pp, p)" "pvt_of a s2 = Some (pp, p)"
    using pr(2) by (simp_all add: pvt_of_def s1_def s2_def)
  have pump: "wrk_pump a s1 = Some s2"
  proof (cases "wp_ctrl_notify_queue p")
    case None
    then show ?thesis using pv1 by (simp add: wrk_pump_def s2_def Q2_def)
  next
    case (Some q)
    with nq' [OF Some] obtain qr where "queues s q = Some qr" by (auto simp: queue_ok_def split: option.splits)
    with Some nq' [OF Some] pv1 show ?thesis
      by (simp add: wrk_pump_def s2_def Q2_def sin_wi_queue_pump_def s1_def)
  qed
  have c2: "queues s2 c = Some cr1" using nq'(2) by (auto simp: s2_def Q2_def s1_def split: option.splits)
  define cr3 where "cr3 = cr1\<lparr>q_head := NULL, q_tail := NULL, q_length := q_length cr1 - 1\<rparr>"
  define s3 where "s3 = s2\<lparr>queues := (queues s2)(c \<mapsto> cr3)\<rparr>"
  have "sin_wrk_thread_check_ctrl a s2 = Some (SIGTERM, s3)"
    using check_ctrl_sigterm [OF pv1(2) W(6,7) c2 cr1(1), of "\<lparr>sg_type = SIN_TYPE_SIGNAL, sg_signum = SIGTERM\<rparr>"]
      S(1) by (simp add: s2_def s1_def s3_def cr3_def)
  with r obtain s4 where s4: "run a s2 = Some s4" "quiet s3 s4" by (blast dest: endsD)
  have sm: "same_at UNIV s3 s4" and lv: "os_live s4 = os_live s" "os_fresh s4 = os_fresh s" "times s4 = times s"
    using s4(2) by (simp_all add: quiet_def s3_def s2_def s1_def)
  note sD = same_atD [OF sm UNIV_I]
  have c4: "queues s4 c = Some cr3" "q_head cr3 = NULL" by (simp_all add: sD s3_def cr3_def)
  have nm: "q_name cr3 = q_name cr" "q_type cr3 = q_type cr" by (simp_all add: cr3_def cr1)
  show thesis
  proof (rule that [of s4 pp p n c g cr3])
    show "do { s \<leftarrow> wrk_put_sigterm a s; s \<leftarrow> wrk_pump a s; run a s } = Some s4"
      using put pump s4(1) by simp
    show "pvt_of a s4 = Some (pp, p)" using pv1(2) sD by (simp add: pvt_of_def s3_def)
    show "signals s4 g = Some \<lparr>sg_type = SIN_TYPE_SIGNAL, sg_signum = SIGTERM\<rparr>"
      using S(1) by (simp add: sD s3_def s2_def s1_def)
    show "queue_ok s4 c" "queue_need s4 c = queue_need s c" "queue_name s4 c = queue_name s c"
      using Q c4 nm by (simp_all add: queue_ok_def queue_need_def queue_name_def)
    show "same_at (- ({c, g} \<union> set_option (wp_ctrl_notify_queue p))) s s4"
      by (rule same_atI) (auto simp: sD s3_def s2_def s1_def Q2_def split: option.splits)
    show "q \<noteq> c \<and> queue_ok s4 q \<and> queue_name s4 q = queue_name s q" if q: "wp_ctrl_notify_queue p = Some q" for q
    proof -
      from nq'(1) [OF q] obtain qr where "queues s q = Some qr" by (auto simp: queue_ok_def split: option.splits)
      then show ?thesis using nq' [OF q] q
        by (auto simp: queue_ok_def queue_name_def sD s3_def s2_def s1_def Q2_def notify_worker_def split: option.splits)
    qed
  qed (use W c4 d pr need lv in simp_all)
qed

lemma wrk_removed:
  assumes r: "ends run" and ok: "wrk_ok s a" and live: "wrk_need s a \<subseteq> os_live s"
    and nq: "case wp_ctrl_notify_queue (wrk_priv s a) of None \<Rightarrow> True
      | Some nq \<Rightarrow> queue_ok s nq \<and> nq \<notin> set (wrk_addrs s a)"
  obtains s' where "call_dtor run a s = Some s'" "os_fresh s' = os_fresh s"
    "os_live s' = os_live s - wrk_need s a" "times s' = times s"
    "same_at (- (res_addr ` wrk_need s a \<union> set_option (wp_ctrl_notify_queue (wrk_priv s a)))) s s'"
    "\<And>q. wp_ctrl_notify_queue (wrk_priv s a) = Some q \<Longrightarrow>
       queue_ok s' q \<and> queue_name s' q = queue_name s q"
proof -
  obtain s4 pp p n c g cr where
    e: "do { s \<leftarrow> wrk_put_sigterm a s; s \<leftarrow> wrk_pump a s; run a s } = Some s4"
    and P: "pvt_of a s4 = Some (pp, p)" "wp_tname p = Some n" "wp_ctrl_queue p = Some c" "wp_sigterm p = Some g"
    and c: "queues s4 c = Some cr" "q_head cr = NULL" "queue_ok s4 c" "queue_need s4 c = queue_need s c"
      "queue_name s4 c = queue_name s c"
    and d: "distinct [a, pp, n, c, queue_name s c, g, wp_tid p]" and pr: "wrk_priv s a = p"
    and need: "wrk_need s a = {Block pp, Block n, Block g, Thread (wp_tid p)} \<union> queue_need s c"
    and lv: "os_fresh s4 = os_fresh s" "os_live s4 = os_live s" "times s4 = times s"
    and sm: "same_at (- ({c, g} \<union> set_option (wp_ctrl_notify_queue p))) s s4"
    and nq4: "\<And>q. wp_ctrl_notify_queue p = Some q \<Longrightarrow> q \<noteq> c \<and> queue_ok s4 q \<and> queue_name s4 q = queue_name s q"
    by (rule wrk_ended [OF r ok nq]) metis
  let ?s5 = "s4\<lparr>os_live := os_live s - wrk_need s a, signals := (signals s4)(g := None),
    links := (links s4)(g := None), queues := (queues s4)(c := None), pvts := (pvts s4)(pp := None)\<rparr>"
  have "wrk_reap a s4 = Some ?s5"
    using reap_works [OF P c(1-3)] d live need c(4,5) lv by simp
  moreover obtain w where "wrks s a = Some w" "w_dtor w \<noteq> None" using ok by (rule wrk_ok_parts)
  ultimately have dt: "call_dtor run a s = Some ?s5"
    using e by (auto simp: call_dtor_def sin_wrk_thread_dtor_def split: Option.bind_splits)
  have ad: "res_addr ` wrk_need s a = {pp, n, c, queue_name s c, g, wp_tid p}"
    using need by (auto simp: queue_need_def)
  show thesis
  proof (rule that [OF dt])
    show "same_at (- (res_addr ` wrk_need s a \<union> set_option (wp_ctrl_notify_queue (wrk_priv s a)))) s ?s5"
    proof (rule same_at_trans)
      show "same_at (- (res_addr ` wrk_need s a \<union> set_option (wp_ctrl_notify_queue (wrk_priv s a)))) s s4"
        by (rule same_at_mono [OF sm]) (auto simp: ad pr)
      show "same_at (- (res_addr ` wrk_need s a \<union> set_option (wp_ctrl_notify_queue (wrk_priv s a)))) s4 ?s5"
        by (rule same_atI) (auto simp: ad)
    qed
    show "queue_ok ?s5 q \<and> queue_name ?s5 q = queue_name s q"
      if "wp_ctrl_notify_queue (wrk_priv s a) = Some q" for q
      using nq4 [OF that [unfolded pr]] by (auto simp: queue_ok_def queue_name_def)
  qed (simp_all add: lv)
qed

subsection \<open>The destructors\<close>

lemma wrk_notin:
  assumes "wrk_ok s a"
  shows "a \<notin> set (wrk_addrs s a)" "a \<notin> res_addr ` wrk_need s a" "Block a \<notin> wrk_need s a"
    "distinct (wrk_addrs s a)"
proof -
  show d: "a \<notin> set (wrk_addrs s a)" "distinct (wrk_addrs s a)" using assms by (auto simp: wrk_ok_def)
  then show "a \<notin> res_addr ` wrk_need s a" by (simp add: wrk_need_addrs)
  then show "Block a \<notin> wrk_need s a" by force
qed

lemma rxt_removed:
  assumes r: "ends run" and ok: "part_ok s (RxT a)" and live: "part_need s (RxT a) \<subseteq> os_live s"
  shows "\<exists>s'. sin_rx_thread_dtor run a s = Some s' \<and> removed s s' (RxT a)"
proof -
  have w: "wrk_ok s a" "wp_ctrl_notify_queue (wrk_priv s a) = NULL" using ok by simp_all
  from wrk_removed [OF r w(1)] live w(2) obtain s1 where
    1: "call_dtor run a s = Some s1" "os_fresh s1 = os_fresh s" "os_live s1 = os_live s - wrk_need s a"
      "times s1 = times s" "same_at (- res_addr ` wrk_need s a) s s1" by auto
  let ?s = "s1\<lparr>os_live := os_live s1 - {Block a}, wrks := (wrks s1)(a := None), rxts := (rxts s1)(a := None)\<rparr>"
  have "Block a \<in> os_live s1" using live 1(3) wrk_notin(3) [OF w(1)] by auto
  then have "sin_rx_thread_dtor run a s = Some ?s"
    using 1(1) by (simp add: sin_rx_thread_dtor_def free_def)
  moreover have "removed s ?s (RxT a)"
    using 1 by (auto simp: removed_def fp_def same_at_def)
  ultimately show ?thesis by blast
qed

lemma txt_removed:
  assumes r: "ends run" and ok: "part_ok s (TxT a)" and live: "part_need s (TxT a) \<subseteq> os_live s"
  shows "\<exists>s'. sin_tx_thread_dtor run a s = Some s' \<and> removed s s' (TxT a)"
proof -
  from ok obtain t q where t: "txts s a = Some t" "txo_outpkt_queue t = Some q"
    and n: "wp_ctrl_notify_queue (wrk_priv s a) = Some q" by auto
  have q: "tx_queue s a = q" using t by (simp add: tx_queue_def)
  have w: "wrk_ok s a" and qo: "queue_ok s q" and d: "distinct (a # q # queue_name s q # wrk_addrs s a)"
    using ok q by simp_all
  have "q \<notin> set (wrk_addrs s a)" using d by auto
  with n qo have nq: "case wp_ctrl_notify_queue (wrk_priv s a) of None \<Rightarrow> True
      | Some nq \<Rightarrow> queue_ok s nq \<and> nq \<notin> set (wrk_addrs s a)" by simp
  have wl: "wrk_need s a \<subseteq> os_live s" using live by simp
  obtain s1 where
    1: "call_dtor run a s = Some s1" "os_fresh s1 = os_fresh s" "os_live s1 = os_live s - wrk_need s a"
      "times s1 = times s" "same_at (- (res_addr ` wrk_need s a \<union> {q})) s s1"
      "queue_ok s1 q" "queue_name s1 q = queue_name s q"
    by (rule wrk_removed [OF r w wl nq]) (use n in auto)
  have qn: "queue_need s1 q = queue_need s q" using 1(7) by (simp add: queue_need_def)
  have "queue_need s q \<inter> wrk_need s a = {}"
  proof -
    have "res_addr ` queue_need s q \<inter> res_addr ` wrk_need s a = {}"
      unfolding wrk_need_addrs using d by (auto simp: queue_need_def)
    then show ?thesis by blast
  qed
  then have ql: "queue_need s1 q \<subseteq> os_live s1" using live q 1(3) qn by auto
  let ?s2 = "s1\<lparr>os_live := os_live s1 - queue_need s q, queues := (queues s1)(q := None)\<rparr>"
  have qd: "sin_wi_queue_dtor q s1 = Some ?s2" using queue_dtor_works [OF 1(6) ql] qn by simp
  let ?s = "?s2\<lparr>os_live := os_live ?s2 - {Block a}, wrks := (wrks s1)(a := None), txts := (txts s1)(a := None)\<rparr>"
  have "Block a \<in> os_live ?s2" using live 1(3) wrk_notin(3) [OF w] d by (auto simp: queue_need_def)
  then have "sin_tx_thread_dtor run a s = Some ?s"
    using t 1(1) qd by (simp add: sin_tx_thread_dtor_def tx_undo_1_def free_def)
  moreover have "removed s ?s (TxT a)"
  proof -
    have "os_live s1 - queue_need s q - {Block a} = os_live s - part_need s (TxT a)" using 1(3) q by auto
    moreover have "same_at (- fp s (TxT a)) s ?s"
    proof (rule same_at_trans)
      have "- fp s (TxT a) \<subseteq> - (res_addr ` wrk_need s a \<union> {q})" using q by (auto simp: fp_def queue_need_def)
      with 1(5) show "same_at (- fp s (TxT a)) s s1" by (rule same_at_mono)
      show "same_at (- fp s (TxT a)) s1 ?s" using q by (auto simp: same_at_def fp_def queue_need_def)
    qed
    ultimately show ?thesis using 1(2,4) by (simp add: removed_def)
  qed
  ultimately show ?thesis by blast
qed

lemma sorter_removed:
  assumes ok: "part_ok s (Sorter a)" and live: "part_need s (Sorter a) \<subseteq> os_live s"
  shows "\<exists>s'. rm_sorter a s = Some s' \<and> removed s s' (Sorter a)"
proof -
  from ok obtain so where so: "sorters s a = Some so" "so_addr so = a" "distinct (a # map e_addr (so_first so))"
    by (auto split: option.splits)
  let ?E = "Block ` e_addr ` set (so_first so)"
  have need: "part_need s (Sorter a) = {Block a} \<union> ?E" using so by simp
  have "\<forall>x \<in> set (so_first so). Block (e_addr x) \<in> os_live s" using live need by blast
  then have "free_entries (so_first so) s = Some (s\<lparr>os_live := os_live s - ?E\<rparr>)"
    using free_entries_works [of "so_first so" s] so(3) by simp
  moreover have "Block a \<in> os_live s - ?E" using so(3) live need by auto
  moreover have "os_live s - ?E - {Block a} = os_live s - part_need s (Sorter a)" using need by auto
  ultimately have "rm_sorter a s = Some (s\<lparr>os_live := os_live s - part_need s (Sorter a), sorters := (sorters s)(a := None)\<rparr>)"
    using so by (simp add: rm_sorter_def sin_pkt_sorter_dtor_def free_def)
  then show ?thesis using need by (auto simp: removed_def fp_def same_at_def)
qed

end
