(* ===== verification/Sin_Ctor.thy ===== *)
theory Sin_Ctor
  imports Sin_Dtor
begin

text \<open>
  The constructors of the parts of an instance: whichever call fails, each either gives back
  all it took, or returns a new part in good order that owns exactly the resources its
  destructor releases.
\<close>

subsection \<open>Creation\<close>

text \<open>What a constructor may touch: the ledger, and the store from the fresh addresses on.\<close>

definition grown :: "addr set \<Rightarrow> istore \<Rightarrow> istore \<Rightarrow> bool" where
  "grown A s s' \<longleftrightarrow> os_ok s' \<and> os_fresh s \<le> os_fresh s' \<and> same_at A s s' \<and>
     (\<forall>a \<in> A. times s' a = times s a) \<and> rings s' = rings s \<and> os_script s' = os_script s"

lemma grown_trans: "grown A s s1 \<Longrightarrow> grown A s1 s2 \<Longrightarrow> grown A s s2"
  by (auto simp: grown_def elim: same_at_trans)

lemma grown_mono: "grown A s s1 \<Longrightarrow> B \<subseteq> A \<Longrightarrow> grown B s s1"
  by (auto simp: grown_def elim!: same_at_mono)

text \<open>The queue constructor, with what it leaves alone.\<close>

lemma queue_ctor_grows:
  fixes s :: istore
  assumes "os_ok s"
  obtains (fail) e' s' where "sin_wi_queue_ctor e s = Some (NULL, e', s')" "grown {..<os_fresh s} s s'"
      "os_live s' = os_live s" "e' = None \<longleftrightarrow> e = None" "same_at UNIV s s'" "times s' = times s" "txts s' = txts s"
  | (ok) s' where "sin_wi_queue_ctor e s = Some (Some (os_fresh s), e, s')" "grown {..<os_fresh s} s s'"
      "os_fresh s' = os_fresh s + 2" "queue_ok s' (os_fresh s)" "queue_name s' (os_fresh s) = Suc (os_fresh s)"
      "os_live s' = os_live s \<union> queue_need s' (os_fresh s)"
      "\<exists>qr. queues s' (os_fresh s) = Some qr \<and> q_list qr = SIN_LIST_RESET"
      "same_at (- {os_fresh s}) s s'" "times s' = times s" "txts s' = txts s"
proof (cases rule: sin_wi_queue_ctor_cases [OF assms, of e])
  case (1 e' s')
  have f: "s' = s\<lparr>os_fresh := os_fresh s', os_live := os_live s', os_clock := os_clock s', queues := queues s'\<rparr>"
    by (rule queue_ctor_frame [OF 1(1)])
  have g: "same_at UNIV s s'" "times s' = times s" "txts s' = txts s" "rings s' = rings s" "os_script s' = os_script s"
    by (subst f, simp add: same_at_def 1(4))+
  show thesis
    by (rule fail [OF 1(1) _ 1(2,5) g(1,2,3)]) (use 1 g in \<open>auto simp: grown_def elim: same_at_mono\<close>)
next
  case (2 s')
  have f: "s' = s\<lparr>os_fresh := os_fresh s', os_live := os_live s', os_clock := os_clock s', queues := queues s'\<rparr>"
    by (rule queue_ctor_frame [OF 2(1)])
  have g: "same_at (- {os_fresh s}) s s'" "times s' = times s" "txts s' = txts s" "rings s' = rings s" "os_script s' = os_script s"
    by (subst f, simp add: same_at_def 2(4))+
  have q: "queue_ok s' (os_fresh s)" "queue_name s' (os_fresh s) = Suc (os_fresh s)"
    by (simp_all add: queue_ok_def queue_name_def 2(4))
  show thesis
  proof (rule ok [OF 2(1) _ 2(6) q _ _ g(1,2,3)])
    show "grown {..<os_fresh s} s s'"
      using 2(5,6) g by (auto simp: grown_def elim!: same_at_mono)
    show "os_live s' = os_live s \<union> queue_need s' (os_fresh s)"
      using 2(2) q by (auto simp: queue_need_def)
    show "\<exists>qr. queues s' (os_fresh s) = Some qr \<and> q_list qr = SIN_LIST_RESET"
      by (simp add: 2(4) q_list_def SIN_LIST_RESET_def sin_wi_queue_zero_def)
  qed
qed

text \<open>The undo labels of the worker's constructor.\<close>

lemma undo_0_works:
  "Block pp \<in> os_live s \<Longrightarrow> wrk_undo_0 pp s
    = Some (s\<lparr>os_live := os_live s - {Block pp}, pvts := (pvts s)(pp := None)\<rparr>)"
  by (simp add: wrk_undo_0_def free_def)

lemma undo_1_works:
  assumes "pvts s pp = Some p" "wp_tname p = Some n" "n \<noteq> pp" "{Block pp, Block n} \<subseteq> os_live s"
  shows "wrk_undo_1 pp s
    = Some (s\<lparr>os_live := os_live s - {Block pp, Block n}, pvts := (pvts s)(pp := None)\<rparr>)"
proof -
  have "os_live s - {Block n} - {Block pp} = os_live s - {Block pp, Block n}" by auto
  with assms show ?thesis by (simp add: wrk_undo_1_def free_def undo_0_works)
qed

lemma undo_2_works:
  fixes s :: istore
  assumes p: "pvts s pp = Some p" "wp_tname p = Some n" "wp_ctrl_queue p = Some c"
    and c: "queue_ok s c" and d: "distinct [pp, n, c, queue_name s c]"
    and live: "{Block pp, Block n} \<union> queue_need s c \<subseteq> os_live s"
  shows "wrk_undo_2 pp s = Some (s\<lparr>os_live := os_live s - ({Block pp, Block n} \<union> queue_need s c),
    pvts := (pvts s)(pp := None), queues := (queues s)(c := None)\<rparr>)"
proof -
  let ?s = "s\<lparr>os_live := os_live s - queue_need s c, queues := (queues s)(c := None)\<rparr>"
  have "sin_wi_queue_dtor c s = Some ?s" using queue_dtor_works [OF c] live by simp
  moreover have "{Block pp, Block n} \<subseteq> os_live ?s" using live d by (auto simp: queue_need_def)
  moreover have "os_live s - queue_need s c - {Block pp, Block n} = os_live s - ({Block pp, Block n} \<union> queue_need s c)" by auto
  ultimately show ?thesis using undo_1_works [of ?s pp p n] p d by (simp add: wrk_undo_2_def)
qed

lemma undo_3_works:
  fixes s :: istore
  assumes p: "pvts s pp = Some p" "wp_tname p = Some n" "wp_ctrl_queue p = Some c" "wp_sigterm p = Some g"
    and c: "queue_ok s c" and d: "distinct [pp, n, c, queue_name s c, g]"
    and live: "{Block pp, Block n, Block g} \<union> queue_need s c \<subseteq> os_live s"
  shows "wrk_undo_3 pp s = Some (s\<lparr>os_live := os_live s - ({Block pp, Block n, Block g} \<union> queue_need s c),
    pvts := (pvts s)(pp := None), queues := (queues s)(c := None),
    signals := (signals s)(g := None), links := (links s)(g := None)\<rparr>)"
proof -
  let ?s = "s\<lparr>os_live := os_live s - {Block g}, signals := (signals s)(g := None), links := (links s)(g := None)\<rparr>"
  have 1: "sin_signal_dtor g s = Some ?s" using live by (simp add: signal_dtor_works)
  have 2: "queue_ok ?s c" "queue_need ?s c = queue_need s c" "queue_name ?s c = queue_name s c"
    using c by (simp_all add: queue_ok_def queue_need_def queue_name_def)
  have 3: "{Block pp, Block n} \<union> queue_need ?s c \<subseteq> os_live ?s" unfolding 2 using live d by (auto simp: queue_need_def)
  have "os_live s - {Block g} - ({Block pp, Block n} \<union> queue_need s c)
    = os_live s - ({Block pp, Block n, Block g} \<union> queue_need s c)" by auto
  then show ?thesis
    using 1 p undo_2_works [of ?s pp p n c] 2 3 d by (simp add: wrk_undo_3_def)
qed
lemma grownI:
  assumes "os_ok s'" "os_fresh s \<le> os_fresh s'" "same_at A s s'" "\<And>a. a \<in> A \<Longrightarrow> times s' a = times s a"
    "rings s' = rings s" "os_script s' = os_script s"
  shows "grown A s s'"
  using assms by (simp add: grown_def)

lemma wrk_start_cases:
  fixes s :: istore
  assumes sane: "os_ok s" and p: "pvts s pp = Some p" "wp_tname p = Some n" "wp_ctrl_queue p = Some c"
    and c: "queue_ok s c" and d: "distinct [pp, n, c, queue_name s c]"
    and lt: "\<forall>x \<in> {pp, n, c, queue_name s c}. x < os_fresh s"
    and live: "{Block pp, Block n} \<union> queue_need s c \<subseteq> os_live s"
  obtains (fail) e' s' where "wrk_start pp rt e s = Some (-1, e', s')" "e' = None \<longleftrightarrow> e = None"
      "os_live s' = os_live s - ({Block pp, Block n} \<union> queue_need s c)"
      "grown ({..<os_fresh s} - {pp, c}) s s'" "txts s' = txts s"
  | (ok) s' where "wrk_start pp rt e s = Some (0, e, s')"
      "os_live s' = os_live s \<union> {Block (os_fresh s), Thread (Suc (os_fresh s))}"
      "os_fresh s' = os_fresh s + 2" "grown ({..<os_fresh s} - {pp}) s s'"
      "pvts s' pp = Some (p\<lparr>wp_sigterm := Some (os_fresh s), wp_runner := Some rt, wp_tid := Suc (os_fresh s)\<rparr>)"
      "signals s' (os_fresh s) = Some \<lparr>sg_type = SIN_TYPE_SIGNAL, sg_signum = SIGTERM\<rparr>"
      "links s' (os_fresh s) \<noteq> None" "queues s' = queues s" "txts s' = txts s"
proof -
  let ?f = "os_fresh s" and ?R = "{Block pp, Block n} \<union> queue_need s c"
  let ?r = "\<lambda>k. os_script s (os_clock s + k)"
  consider "?r 0 \<noteq> 0" | "?r 0 = 0" "?r 1 \<noteq> 0" | "?r 0 = 0" "?r 1 = 0" by blast
  then show thesis
  proof cases
    case 1
    define s1 where "s1 = s\<lparr>os_clock := Suc (os_clock s), pvts := (pvts s)(pp \<mapsto> p\<lparr>wp_sigterm := NULL\<rparr>)\<rparr>"
    have q: "queue_ok s1 c" "queue_need s1 c = queue_need s c" "queue_name s1 c = queue_name s c"
      using c by (simp_all add: s1_def queue_ok_def queue_need_def queue_name_def)
    let ?s = "s1\<lparr>os_live := os_live s1 - ?R, pvts := (pvts s1)(pp := None), queues := (queues s1)(c := None)\<rparr>"
    have "wrk_undo_2 pp s1 = Some ?s"
      using undo_2_works [of s1 pp "p\<lparr>wp_sigterm := NULL\<rparr>" n c] p d live q by (simp add: s1_def)
    then have "wrk_start pp rt e s = Some (-1, SET_ERR e ENOMEM, ?s)"
      using 1 p by (simp add: wrk_start_def sin_signal_ctor_def malloc_def os_result_def upd_pvt_def s1_def)
    then show thesis
    proof (rule fail)
      show "grown ({..<os_fresh s} - {pp, c}) s ?s"
        by (rule grownI) (use sane in \<open>auto simp: s1_def os_ok_def same_at_def\<close>)
    qed (simp_all add: s1_def SET_ERR_def)
  next
    case 2
    define s1 where "s1 = s\<lparr>os_fresh := Suc ?f, os_live := insert (Block ?f) (os_live s),
      signals := (signals s)(?f \<mapsto> \<lparr>sg_type = SIN_TYPE_SIGNAL, sg_signum = SIGTERM\<rparr>), links := (links s)(?f \<mapsto> NULL),
      pvts := (pvts s)(pp \<mapsto> p\<lparr>wp_sigterm := Some ?f, wp_runner := Some rt\<rparr>), os_clock := os_clock s + 2\<rparr>"
    have q: "queue_ok s1 c" "queue_need s1 c = queue_need s c" "queue_name s1 c = queue_name s c"
      using c by (simp_all add: s1_def queue_ok_def queue_need_def queue_name_def)
    let ?s = "s1\<lparr>os_live := os_live s1 - ({Block pp, Block n, Block ?f} \<union> queue_need s c),
      pvts := (pvts s1)(pp := None), queues := (queues s1)(c := None),
      signals := (signals s1)(?f := None), links := (links s1)(?f := None)\<rparr>"
    have "distinct [pp, n, c, queue_name s1 c, ?f]" using d lt q by auto
    moreover have "{Block pp, Block n, Block ?f} \<union> queue_need s1 c \<subseteq> os_live s1" using live q by (auto simp: s1_def)
    ultimately have "wrk_undo_3 pp s1 = Some ?s"
      using undo_3_works [of s1 pp "p\<lparr>wp_sigterm := Some ?f, wp_runner := Some rt\<rparr>" n c ?f] p q by (simp add: s1_def)
    then have "wrk_start pp rt e s = Some (-1, SET_ERR e (Errno (?r 1)), ?s)"
      using 2 p by (simp add: wrk_start_def sin_signal_ctor_def malloc_def os_result_def upd_pvt_def s1_def
          pthread_create_def acquire_def Let_def)
    then show thesis
    proof (rule fail)
      have "Block ?f \<notin> os_live s" using fresh_not_live [OF sane, of "Block ?f"] by simp
      then show "os_live ?s = os_live s - ?R" by (auto simp: s1_def)
      show "grown ({..<os_fresh s} - {pp, c}) s ?s"
        by (rule grownI) (use sane in \<open>auto simp: s1_def os_ok_def same_at_def intro: less_SucI\<close>)
    qed (simp_all add: SET_ERR_def s1_def)
  next
    case 3
    define s' where "s' = s\<lparr>os_fresh := os_fresh s + 2, os_live := os_live s \<union> {Block ?f, Thread (Suc ?f)}, os_clock := os_clock s + 2,
      signals := (signals s)(?f \<mapsto> \<lparr>sg_type = SIN_TYPE_SIGNAL, sg_signum = SIGTERM\<rparr>), links := (links s)(?f \<mapsto> NULL),
      pvts := (pvts s)(pp \<mapsto> p\<lparr>wp_sigterm := Some ?f, wp_runner := Some rt, wp_tid := Suc ?f\<rparr>)\<rparr>"
    have "wrk_start pp rt e s = Some (0, e, s')"
      using 3 p by (simp add: wrk_start_def sin_signal_ctor_def malloc_def os_result_def upd_pvt_def s'_def
          pthread_create_def acquire_def Let_def insert_commute)
    then show thesis
    proof (rule ok)
      show "grown ({..<os_fresh s} - {pp}) s s'"
      proof (rule grownI)
        show "os_ok s'" using os_okD [OF sane] by (fastforce simp: s'_def os_ok_def)
      qed (auto simp: s'_def same_at_def)
    qed (simp_all add: s'_def)
  qed
qed

text \<open>\<open>sin_wrk_thread_ctor\<close> on a structure at \<open>a\<close> that its caller has allocated.\<close>

lemma wrk_ctor_cases:
  fixes s :: istore
  assumes sane: "os_ok s" and a: "wrks s a = Some w0" "a < os_fresh s"
  obtains (fail) e' s' where "sin_wrk_thread_ctor a rt e s = Some (-1, e', s')" "e' = None \<longleftrightarrow> e = None"
      "os_live s' = os_live s" "grown ({..<os_fresh s} - {a}) s s'" "txts s' = txts s"
  | (ok) s' where "sin_wrk_thread_ctor a rt e s = Some (0, e, s')" "wrk_ok s' a"
      "os_live s' = os_live s \<union> wrk_need s' a" "set (wrk_addrs s' a) \<subseteq> {os_fresh s..<os_fresh s'}"
      "wp_ctrl_notify_queue (wrk_priv s' a) = NULL" "grown ({..<os_fresh s} - {a}) s s'" "txts s' = txts s"
proof -
  let ?f = "os_fresh s"
  let ?A = "{..<?f} - {a}"
  let ?r = "\<lambda>k. os_script s (os_clock s + k)"
  have nl: "Block ?f \<notin> os_live s" "Block (Suc ?f) \<notin> os_live s"
    using fresh_not_live [OF sane, of "Block ?f"] fresh_not_live [OF sane, of "Block (Suc ?f)"] by simp_all
  have lt: "\<forall>r \<in> os_live s. res_addr r < ?f" using os_okD [OF sane] by blast
  have af: "a \<noteq> ?f" using a(2) by simp
  define w where "w = w0\<lparr>w_type := SIN_TYPE_WRK_THREAD, w_pvt := Some ?f\<rparr>"
  note defs = sin_wrk_thread_ctor_def wrk_create_def upd_wrk_def upd_pvt_def malloc_def os_result_def Let_def
  consider "?r 0 \<noteq> 0" | "?r 0 = 0" "?r 1 \<noteq> 0" | "?r 0 = 0" "?r 1 = 0" by blast
  then show thesis
  proof cases
    case 1
    let ?s = "s\<lparr>os_clock := Suc (os_clock s), wrks := (wrks s)(a \<mapsto> w0\<lparr>w_type := SIN_TYPE_WRK_THREAD, w_pvt := NULL\<rparr>)\<rparr>"
    have "sin_wrk_thread_ctor a rt e s = Some (-1, SET_ERR e ENOMEM, ?s)" using 1 a(1) by (simp add: defs)
    then show thesis
    proof (rule fail)
      show "grown ?A s ?s" by (rule grownI) (use sane in \<open>auto simp: os_ok_def same_at_def\<close>)
    qed (simp_all add: SET_ERR_def)
  next
    case 2
    let ?s = "s\<lparr>os_fresh := Suc ?f, os_clock := os_clock s + 2, wrks := (wrks s)(a \<mapsto> w),
      pvts := (pvts s)(?f := None)\<rparr>"
    have "sin_wrk_thread_ctor a rt e s = Some (-1, SET_ERR e ENOMEM, ?s)"
      using 2 a(1) nl by (simp add: defs undo_0_works w_def)
    then show thesis
    proof (rule fail)
      show "grown ?A s ?s" by (rule grownI) (use sane lt in \<open>auto simp: os_ok_def same_at_def intro: less_SucI\<close>)
    qed (simp_all add: SET_ERR_def)
  next
    case 3
    define s2 where "s2 = s\<lparr>wrks := (wrks s)(a \<mapsto> w), os_clock := os_clock s + 2, os_fresh := Suc (Suc ?f),
      os_live := insert (Block (Suc ?f)) (insert (Block ?f) (os_live s)),
      pvts := (pvts s)(?f \<mapsto> pvt_zero\<lparr>wp_tname := Some (Suc ?f)\<rparr>)\<rparr>"
    have ok2: "os_ok s2" using lt by (fastforce simp: os_ok_def s2_def)
    have g2: "grown ?A s s2"
      by (rule grownI) (use ok2 in \<open>auto simp: s2_def same_at_def\<close>)
    have step: "wrk_create a rt e s = do {
        (q, e, s) \<leftarrow> sin_wi_queue_ctor e s2;
        s \<leftarrow> upd_pvt ?f (\<lambda>p. p\<lparr>wp_ctrl_queue := q\<rparr>) s;
        if q = NULL then do { s \<leftarrow> wrk_undo_1 ?f s; Some (-1, e, s) }
        else wrk_start ?f rt e s }"
      using 3 a(1) by (simp add: wrk_create_def upd_wrk_def upd_pvt_def [of _ _ "_ :: istore"] malloc_def os_result_def s2_def w_def cong: if_cong)
    let ?c = "Suc (Suc ?f)" and ?n = "Suc ?f" and ?c' = "Suc (Suc (Suc ?f))"
    have fr2: "os_fresh s2 = ?c" "os_live s2 = insert (Block ?n) (insert (Block ?f) (os_live s))"
      by (simp_all add: s2_def)
    have p2: "pvts s2 ?f = Some (pvt_zero\<lparr>wp_tname := Some ?n\<rparr>)" "wrks s2 a = Some w" by (simp_all add: s2_def)
    show thesis
    proof (cases rule: queue_ctor_grows [OF ok2, of e])
      case (1 e' s3)
      let ?p = "pvt_zero\<lparr>wp_tname := Some ?n, wp_ctrl_queue := NULL\<rparr>"
      define s4 where "s4 = s3\<lparr>pvts := (pvts s3)(?f \<mapsto> ?p)\<rparr>"
      let ?s = "s4\<lparr>os_live := os_live s4 - {Block ?f, Block ?n}, pvts := (pvts s4)(?f := None)\<rparr>"
      have p3: "pvts s3 ?f = Some (pvt_zero\<lparr>wp_tname := Some ?n\<rparr>)" using same_atD(5) [OF 1(5), of ?f] p2 by simp
      have "wrk_undo_1 ?f s4 = Some ?s"
        using undo_1_works [of s4 ?f ?p ?n] 1(3) fr2 by (simp add: s4_def)
      then have "sin_wrk_thread_ctor a rt e s = Some (-1, e', ?s)"
        using 1(1) p3 by (simp add: sin_wrk_thread_ctor_def step upd_pvt_def s4_def)
      then show thesis
      proof (rule fail [OF _ 1(4)])
        show "os_live ?s = os_live s" using nl fr2 1(3) by (auto simp: s4_def)
        have "grown ?A s3 ?s" by (rule grownI) (use 1(2) in \<open>auto simp: s4_def same_at_def grown_def os_ok_def\<close>)
        moreover have "grown ?A s2 s3" by (rule grown_mono [OF 1(2)]) (use fr2 in auto)
        ultimately show "grown ?A s ?s" using g2 by (blast intro: grown_trans)
        show "txts ?s = txts s" using 1(7) by (simp add: s4_def s2_def)
      qed
    next
      case (2 s3)
      let ?p = "pvt_zero\<lparr>wp_tname := Some ?n, wp_ctrl_queue := Some ?c\<rparr>"
      define s4 where "s4 = s3\<lparr>pvts := (pvts s3)(?f \<mapsto> ?p)\<rparr>"
      note Q = 2 [unfolded fr2(1)]
      have p3: "pvts s3 ?f = Some (pvt_zero\<lparr>wp_tname := Some ?n\<rparr>)" "wrks s3 a = Some w"
        using same_atD(5) [OF Q(8), of ?f] same_atD(4) [OF Q(8), of a] p2 a(2) by simp_all
      have fr4: "os_fresh s4 = ?f + 4" "os_live s4 = insert (Block ?n) (insert (Block ?f) (os_live s)) \<union> queue_need s4 ?c"
        "queue_need s4 ?c = {Block ?c, Cond ?c, Mutex ?c, Block ?c'}" "queue_name s4 ?c = ?c'" "queue_ok s4 ?c"
        using Q fr2 by (simp_all add: s4_def queue_ok_def queue_name_def queue_need_def)
      have ok4: "os_ok s4" using Q(2) by (simp add: grown_def s4_def os_ok_def)
      have g4: "grown ?A s s4"
      proof -
        have "grown ?A s2 s3" by (rule grown_mono [OF Q(2)]) auto
        moreover have "grown ?A s3 s4" by (rule grownI) (use ok4 in \<open>auto simp: s4_def same_at_def\<close>)
        ultimately show ?thesis using g2 by (blast intro: grown_trans)
      qed
      have st: "wrk_create a rt e s = wrk_start ?f rt e s4"
        using Q(1) p3 by (simp add: step upd_pvt_def s4_def)
      have nlq: "os_live s4 - ({Block ?f, Block ?n} \<union> queue_need s4 ?c) = os_live s"
      proof -
        have "Block ?f \<notin> os_live s" "Block ?n \<notin> os_live s" "Block ?c \<notin> os_live s" "Cond ?c \<notin> os_live s"
          "Mutex ?c \<notin> os_live s" "Block ?c' \<notin> os_live s"
          by (rule fresh_not_live [OF sane], simp)+
        then show ?thesis unfolding fr4(2) fr4(3) by auto
      qed
      have pr4: "pvts s4 ?f = Some ?p" "wp_tname ?p = Some ?n" "wp_ctrl_queue ?p = Some ?c" by (simp_all add: s4_def)
      have d4: "distinct [?f, ?n, ?c, queue_name s4 ?c]" "\<forall>x \<in> {?f, ?n, ?c, queue_name s4 ?c}. x < os_fresh s4"
        "{Block ?f, Block ?n} \<union> queue_need s4 ?c \<subseteq> os_live s4"
        using fr4 by auto
      show thesis
      proof (cases rule: wrk_start_cases [OF ok4 pr4 fr4(5) d4, of rt e])
        case (1 e' s')
        have "sin_wrk_thread_ctor a rt e s = Some (-1, e', s')" using 1(1) st by (simp add: sin_wrk_thread_ctor_def)
        then show thesis
        proof (rule fail [OF _ 1(2)])
          show "os_live s' = os_live s" by (simp only: 1(3) nlq)
          have "grown ?A s4 s'" by (rule grown_mono [OF 1(4)]) (use fr4(1) in auto)
          with g4 show "grown ?A s s'" by (rule grown_trans)
          show "txts s' = txts s" using 1(5) Q(10) by (simp add: s4_def s2_def)
        qed
      next
        case (2 s5)
        let ?g = "os_fresh s4" and ?pp = "?p\<lparr>wp_sigterm := Some (os_fresh s4), wp_runner := Some rt, wp_tid := Suc (os_fresh s4)\<rparr>"
        have "wrks s5 a = wrks s4 a" using 2(4) a(2) fr4(1) by (auto simp: grown_def same_at_def)
        then have w5: "wrks s5 a = Some w" using p3 by (simp add: s4_def)
        define w' where "w' = w\<lparr>w_dtor := Some Wrk_dtor, w_check_ctrl := Some Wrk_check_ctrl,
          w_notify_on_ctrl := Some Wrk_notify_on_ctrl, w_get_tname := Some Wrk_get_tname\<rparr>"
        let ?s = "s5\<lparr>wrks := (wrks s5)(a \<mapsto> w')\<rparr>"
        have ct: "sin_wrk_thread_ctor a rt e s = Some (0, e, ?s)"
          using 2(1) st w5 by (simp add: sin_wrk_thread_ctor_def wrk_set_methods_def upd_wrk_def w'_def)
        have pv: "wrk_pvt ?s a = ?f" "wrk_priv ?s a = ?pp"
          using 2(5) by (simp_all add: wrk_pvt_def wrk_priv_def w'_def w_def)
        have qn: "queue_ok ?s ?c" "queue_name ?s ?c = ?c'" "queue_need ?s ?c = queue_need s4 ?c"
          using fr4 2(8) by (simp_all add: queue_ok_def queue_name_def queue_need_def)
        have ad: "wrk_addrs ?s a = [?f, ?n, ?c, ?c', ?g, Suc ?g]" using pv qn by (simp add: wrk_addrs_def)
        have ne: "wrk_need ?s a = {Block ?f, Block ?n, Block ?g, Thread (Suc ?g)} \<union> queue_need s4 ?c"
          using pv qn by (simp add: wrk_need_def)
        show thesis
        proof (rule ok [OF ct])
          from Q(7) obtain qr where "queues s3 ?c = Some qr" "q_list qr = SIN_LIST_RESET" by auto
          then have "queues ?s ?c = Some qr" "q_list qr = SIN_LIST_RESET" using 2(8) by (simp_all add: s4_def)
          then show "wrk_ok ?s a"
            unfolding wrk_ok_def ad pv
            using 2(5,6,7) qn(1) fr4(1) a(2) by (auto simp: w'_def w_def)
          show "os_live ?s = os_live s \<union> wrk_need ?s a" using 2(2) fr4(2) ne by auto
          show "set (wrk_addrs ?s a) \<subseteq> {os_fresh s..<os_fresh ?s}" using ad 2(3) fr4(1) by auto
          show "wp_ctrl_notify_queue (wrk_priv ?s a) = NULL" using pv by (simp add: pvt_zero_def)
          have "grown ?A s4 ?s"
            by (rule grownI) (use 2(4) fr4(1) in \<open>auto simp: grown_def same_at_def os_ok_def\<close>)
          with g4 show "grown ?A s ?s" by (rule grown_trans)
          show "txts ?s = txts s" using 2(9) Q(10) by (simp add: s4_def s2_def)
        qed
      qed
    qed
  qed
qed
end
