(* ===== verification/Sin_Made.thy ===== *)
theory Sin_Made
  imports Sin_Ctor
begin

text \<open>
  The constructors of threads, sorters and zones in terms of the parts they make, and the
  registration of an entry, which lets a sorter grow.
\<close>

lemma madeI:
  assumes "grown {..<os_fresh s} s s'" "os_live s \<subseteq> os_live s'"
    "\<And>x. x \<in> Q \<Longrightarrow> part_ok s' x" "\<And>x. x \<in> Q \<Longrightarrow> part_need s' x \<subseteq> os_live s'"
    "\<And>x. x \<in> Q \<Longrightarrow> fp s' x \<subseteq> {os_fresh s..<os_fresh s'}"
    "\<And>x y. x \<in> Q \<Longrightarrow> y \<in> Q \<Longrightarrow> x \<noteq> y \<Longrightarrow> fp s' x \<inter> fp s' y = {}"
    "\<And>r. r \<in> os_live s' \<Longrightarrow> r \<notin> os_live s \<Longrightarrow>
      left_over s' r \<or> r \<in> X \<or> (\<exists>x \<in> Q. r \<in> part_need s' x)"
  shows "made s s' X Q"
  using assms by (simp add: made_def grown_def)

text \<open>Nothing made, and one part made that accounts for everything new.\<close>

lemma made_none: "grown {..<os_fresh s} s s' \<Longrightarrow> os_live s' = os_live s \<Longrightarrow> made s s' {} {}"
  by (rule madeI) auto

lemma made_one:
  assumes "grown {..<os_fresh s} s s'" "os_live s' = os_live s \<union> part_need s' x" "part_ok s' x"
    "fp s' x \<subseteq> {os_fresh s..<os_fresh s'}"
  shows "made s s' {} {x}"
  by (rule madeI) (use assms in auto)

definition opt_part :: "(addr \<Rightarrow> part) \<Rightarrow> ptr \<Rightarrow> part set" where
  "opt_part tag p = tag ` set_option p"

lemma opt_part_simps [simp]: "opt_part tag NULL = {}" "opt_part tag (Some a) = {tag a}"
  by (simp_all add: opt_part_def)

subsection \<open>Threads\<close>

lemma rxt_made:
  fixes s :: istore
  assumes sane: "os_ok s"
  shows "\<exists>p e' s'. sin_rx_thread_ctor w e s = Some (p, e', s') \<and> made s s' {} (opt_part RxT p) \<and>
    (e' = None \<longleftrightarrow> e = None) \<and> (p \<noteq> NULL \<longrightarrow> e' = e)"
proof (cases "os_script s (os_clock s) = 0")
  case False
  let ?s = "s\<lparr>os_clock := Suc (os_clock s)\<rparr>"
  have "sin_rx_thread_ctor w e s = Some (NULL, SET_ERR e ENOMEM, ?s)"
    using False by (simp add: sin_rx_thread_ctor_def malloc_def os_result_def)
  moreover have "made s ?s {} {}"
    by (rule made_none, rule grownI) (use sane in \<open>auto simp: os_ok_def same_at_def\<close>)
  ultimately show ?thesis by (auto simp: SET_ERR_def)
next
  case True
  let ?f = "os_fresh s"
  let ?s0 = "s\<lparr>os_clock := Suc (os_clock s), os_fresh := Suc ?f, os_live := insert (Block ?f) (os_live s)\<rparr>"
  define s1 where "s1 = ?s0\<lparr>wrks := (wrks s)(?f \<mapsto> wrk_zero), rxts := (rxts s)(?f \<mapsto>
      \<lparr>rxo_rx_ring = ws_rx_ring w, rxo_rx_zone = ws_rx_zone w, rxo_rx_sort = ws_rx_sort w, rxo_queue_fd = ws_queue_fd w\<rparr>)\<rparr>"
  have nl: "Block ?f \<notin> os_live s" by (rule fresh_not_live [OF sane]) simp
  have f1: "os_fresh s1 = Suc ?f" "os_live s1 = insert (Block ?f) (os_live s)" by (simp_all add: s1_def)
  have ok1: "os_ok s1" using os_okD [OF sane] by (fastforce simp: s1_def os_ok_def)
  have g1: "grown {..<?f} s s1" by (rule grownI) (use ok1 in \<open>auto simp: s1_def same_at_def\<close>)
  have w1: "wrks s1 ?f = Some wrk_zero" "?f < os_fresh s1" by (simp_all add: s1_def)
  have st: "sin_rx_thread_ctor w e s = do {
     (r, e, s) \<leftarrow> sin_wrk_thread_ctor ?f Rx_routine e s1;
     if r \<noteq> 0 then do {
       s \<leftarrow> free ?f s;
       Some (NULL, e, s\<lparr>wrks := (wrks s)(?f := None), rxts := (rxts s)(?f := None)\<rparr>)
     } else Some (Some ?f, e, s) }"
    using True by (simp add: sin_rx_thread_ctor_def malloc_def os_result_def s1_def)
  have sub: "{..<?f} \<subseteq> {..<os_fresh s1} - {?f}" using f1 by auto
  show ?thesis
  proof (cases rule: wrk_ctor_cases [OF ok1 w1, of Rx_routine e])
    case (1 e' s')
    let ?s = "s'\<lparr>os_live := os_live s' - {Block ?f}, wrks := (wrks s')(?f := None), rxts := (rxts s')(?f := None)\<rparr>"
    have "sin_rx_thread_ctor w e s = Some (NULL, e', ?s)" using 1(1,3) f1 by (simp add: st free_def)
    moreover have "made s ?s {} {}"
    proof (rule made_none)
      have "grown {..<?f} s s'" using g1 grown_mono [OF 1(4) sub] by (rule grown_trans)
      moreover have "grown {..<?f} s' ?s" by (rule grownI) (use 1(4) in \<open>auto simp: grown_def same_at_def os_ok_def\<close>)
      ultimately show "grown {..<?f} s ?s" by (rule grown_trans)
      show "os_live ?s = os_live s" using 1(3) f1 nl by auto
    qed
    ultimately show ?thesis using 1(2) by auto
  next
    case (2 s')
    have "sin_rx_thread_ctor w e s = Some (Some ?f, e, s')" using 2(1) by (simp add: st)
    moreover have "made s s' {} {RxT ?f}"
    proof (rule made_one)
      show g: "grown {..<?f} s s'" using g1 grown_mono [OF 2(6) sub] by (rule grown_trans)
      show "os_live s' = os_live s \<union> part_need s' (RxT ?f)" using 2(3) f1 by auto
      show "part_ok s' (RxT ?f)" using 2(2,5) by simp
      have "fp s' (RxT ?f) = insert ?f (set (wrk_addrs s' ?f))" by (simp add: fp_def image_Un wrk_need_addrs)
      moreover have "Suc ?f \<le> os_fresh s'" using 2(6) f1 by (simp add: grown_def)
      ultimately show "fp s' (RxT ?f) \<subseteq> {?f..<os_fresh s'}" using 2(4) f1 by auto
    qed
    ultimately show ?thesis by auto
  qed
qed

lemma tx_undo_works: "Block a \<in> os_live s \<Longrightarrow> tx_undo_1 a s = Some (s\<lparr>os_live := os_live s - {Block a},
    wrks := (wrks s)(a := None), txts := (txts s)(a := None)\<rparr>)"
  by (simp add: tx_undo_1_def free_def)

lemma txt_made:
  fixes s :: istore
  assumes sane: "os_ok s"
  shows "\<exists>p e' s'. sin_tx_thread_ctor w e s = Some (p, e', s') \<and> made s s' {} (opt_part TxT p) \<and>
    (e' = None \<longleftrightarrow> e = None) \<and> (p \<noteq> NULL \<longrightarrow> e' = e)"
proof (cases "os_script s (os_clock s) = 0")
  case False
  let ?s = "s\<lparr>os_clock := Suc (os_clock s)\<rparr>"
  have "sin_tx_thread_ctor w e s = Some (NULL, SET_ERR e ENOMEM, ?s)"
    using False by (simp add: sin_tx_thread_ctor_def malloc_def os_result_def)
  moreover have "made s ?s {} {}"
    by (rule made_none, rule grownI) (use sane in \<open>auto simp: os_ok_def same_at_def\<close>)
  ultimately show ?thesis by (auto simp: SET_ERR_def)
next
  case True
  let ?f = "os_fresh s" and ?q = "Suc (os_fresh s)"
  let ?t = "\<lparr>txo_outpkt_queue = Some ?q, txo_tx_ring = ws_tx_ring w, txo_tx_zone = ws_tx_zone w,
      txo_queue_fd = ws_queue_fd w\<rparr>"
  let ?s0 = "s\<lparr>os_clock := Suc (os_clock s), os_fresh := Suc ?f, os_live := insert (Block ?f) (os_live s)\<rparr>"
  define s1 where "s1 = ?s0\<lparr>wrks := (wrks s)(?f \<mapsto> wrk_zero)\<rparr>"
  have nl: "Block ?f \<notin> os_live s" by (rule fresh_not_live [OF sane]) simp
  have f1: "os_fresh s1 = ?q" "os_live s1 = insert (Block ?f) (os_live s)" by (simp_all add: s1_def)
  have ok1: "os_ok s1" using os_okD [OF sane] by (fastforce simp: s1_def os_ok_def)
  have g1: "grown {..<?f} s s1" by (rule grownI) (use ok1 in \<open>auto simp: s1_def same_at_def\<close>)
  have w1: "wrks s1 ?f = Some wrk_zero" by (simp add: s1_def)
  have st: "sin_tx_thread_ctor w e s = do {
     (outq, e, s) \<leftarrow> sin_wi_queue_ctor e s1;
     (case outq of
        None \<Rightarrow> do { s \<leftarrow> tx_undo_1 ?f s; Some (NULL, e, s) }
      | Some q \<Rightarrow> do {
          let s = s\<lparr>txts := (txts s)(?f \<mapsto> \<lparr>txo_outpkt_queue = outq,
            txo_tx_ring = ws_tx_ring w, txo_tx_zone = ws_tx_zone w, txo_queue_fd = ws_queue_fd w\<rparr>)\<rparr>;
          (r, e, s) \<leftarrow> sin_wrk_thread_ctor ?f Tx_routine e s;
          if r \<noteq> 0 then do {
            s \<leftarrow> sin_wi_queue_dtor q s;
            s \<leftarrow> tx_undo_1 ?f s;
            Some (NULL, e, s)
          } else do {
            w \<leftarrow> wrks s ?f;
            m \<leftarrow> w_notify_on_ctrl w;
            s \<leftarrow> sin_wrk_thread_notify_on_ctrl ?f outq s;
            Some (Some ?f, e, s)
          }
        }) }"
    using True by (simp add: sin_tx_thread_ctor_def malloc_def os_result_def s1_def)
  have "{..<?f} \<subseteq> {..<os_fresh s1}" using f1 by auto
  note Q = queue_ctor_grows [OF ok1, of e]
  show ?thesis
  proof (cases rule: Q)
    case (1 e' s2)
    let ?s = "s2\<lparr>os_live := os_live s2 - {Block ?f}, wrks := (wrks s2)(?f := None), txts := (txts s2)(?f := None)\<rparr>"
    have "sin_tx_thread_ctor w e s = Some (NULL, e', ?s)"
      using 1(1,3) f1 by (simp add: st tx_undo_works)
    moreover have "made s ?s {} {}"
    proof (rule made_none)
      have "grown {..<?f} s1 s2" by (rule grown_mono [OF 1(2)]) (use f1(1) in auto)
      moreover have "grown {..<?f} s2 ?s" by (rule grownI) (use 1(2) in \<open>auto simp: grown_def same_at_def os_ok_def\<close>)
      ultimately show "grown {..<?f} s ?s" using g1 by (blast intro: grown_trans)
      show "os_live ?s = os_live s" using 1(3) f1 nl by auto
    qed
    ultimately show ?thesis using 1(4) by auto
  next
    case (2 s2)
    note T = 2 [unfolded f1(1)]
    define s3 where "s3 = s2\<lparr>txts := (txts s2)(?f \<mapsto> ?t)\<rparr>"
    have f3: "os_fresh s3 = ?f + 3" "queue_ok s3 ?q" "queue_name s3 ?q = Suc ?q" "queue_need s3 ?q = {Block ?q, Cond ?q, Mutex ?q, Block (Suc ?q)}"
      "os_live s3 = insert (Block ?f) (os_live s) \<union> queue_need s3 ?q"
      using T(3,4,5,6) f1(2) by (simp_all add: s3_def queue_ok_def queue_name_def queue_need_def)
    have ok3: "os_ok s3" using T(2) by (simp add: grown_def s3_def os_ok_def)
    have g3: "grown {..<?f} s s3"
    proof -
      have "grown {..<?f} s1 s2" by (rule grown_mono [OF T(2)]) auto
      moreover have "grown {..<?f} s2 s3" by (rule grownI) (use ok3 in \<open>auto simp: s3_def same_at_def\<close>)
      ultimately show ?thesis using g1 by (blast intro: grown_trans)
    qed
    have w3: "wrks s3 ?f = Some wrk_zero" "?f < os_fresh s3"
      using same_atD(4) [OF T(8), of ?f] w1 f3(1) by (simp_all add: s3_def)
    have sub: "{..<?f} \<subseteq> {..<os_fresh s3} - {?f}" using f3(1) by auto
    have nr: "r \<notin> os_live s" if "?f \<le> res_addr r" for r by (rule fresh_not_live [OF sane that])
    show ?thesis
    proof (cases rule: wrk_ctor_cases [OF ok3 w3, of Tx_routine e])
      case (1 e' s4)
      have qs: "queues s4 ?q = queues s3 ?q" using 1(4) f3(1) by (auto simp: grown_def same_at_def)
      have q4: "queue_ok s4 ?q" "queue_need s4 ?q = queue_need s3 ?q"
        using qs f3(2) by (simp_all add: queue_ok_def queue_need_def queue_name_def)
      let ?s5 = "s4\<lparr>os_live := os_live s4 - queue_need s3 ?q, queues := (queues s4)(?q := None)\<rparr>"
      let ?s = "?s5\<lparr>os_live := os_live ?s5 - {Block ?f}, wrks := (wrks s4)(?f := None), txts := (txts s4)(?f := None)\<rparr>"
      have "queue_need s4 ?q \<subseteq> os_live s4" unfolding q4(2) 1(3) f3(5) by auto
      from queue_dtor_works [OF q4(1) this] have d: "sin_wi_queue_dtor ?q s4 = Some ?s5" by (simp only: q4(2))
      have "Block ?f \<in> os_live ?s5" using 1(3) f3(4,5) by simp
      from tx_undo_works [OF this] have u: "tx_undo_1 ?f ?s5 = Some ?s" by simp
      have "sin_tx_thread_ctor w e s = Some (NULL, e', ?s)"
        using T(1) 1(1) d u by (simp add: st s3_def)
      moreover have "made s ?s {} {}"
      proof (rule made_none)
        have "grown {..<?f} s s4" using g3 grown_mono [OF 1(4) sub] by (rule grown_trans)
        moreover have "grown {..<?f} s4 ?s"
          by (rule grownI) (use 1(4) in \<open>auto simp: grown_def same_at_def os_ok_def\<close>)
        ultimately show "grown {..<?f} s ?s" by (rule grown_trans)
        have "os_live ?s = insert (Block ?f) (os_live s) \<union> queue_need s3 ?q - queue_need s3 ?q - {Block ?f}"
          using 1(3) f3(5) by simp
        then show "os_live ?s = os_live s" unfolding f3(4)
          using nr [of "Block ?f"] nr [of "Block ?q"] nr [of "Cond ?q"] nr [of "Mutex ?q"] nr [of "Block (Suc ?q)"] by auto
      qed
      ultimately show ?thesis using 1(2) by auto
    next
      case (2 s4)
      from 2(2) obtain w4 pp p n c g cr where W: "wrks s4 ?f = Some w4" "w_dtor w4 \<noteq> None" "w_pvt w4 = Some pp"
        "pvts s4 pp = Some p" "wp_tname p = Some n" "wp_ctrl_queue p = Some c" "wp_sigterm p = Some g"
        "wrk_priv s4 ?f = p" "pvt_of ?f s4 = Some (pp, p)"
        by (rule wrk_ok_parts)
      have nm: "w_notify_on_ctrl w4 \<noteq> None" using 2(2) W(1) by (auto simp: wrk_ok_def)
      let ?p = "p\<lparr>wp_ctrl_notify_queue := Some ?q\<rparr>"
      define s5 where "s5 = s4\<lparr>pvts := (pvts s4)(pp \<mapsto> ?p)\<rparr>"
      have ct: "sin_tx_thread_ctor w e s = Some (Some ?f, e, s5)"
        using T(1) 2(1) W(1,4,9) nm
        by (auto simp: st s3_def sin_wrk_thread_notify_on_ctrl_def upd_pvt_def s5_def)
      have pv: "wrk_pvt s4 ?f = pp" "wrk_pvt s5 ?f = pp" "wrk_priv s5 ?f = ?p"
        using W(1,3) by (simp_all add: wrk_pvt_def wrk_priv_def s5_def)
      have qn: "queue_name s5 x = queue_name s4 x" "queue_need s5 x = queue_need s4 x" "queue_ok s5 x = queue_ok s4 x" for x
        by (simp_all add: queue_name_def queue_need_def queue_ok_def s5_def)
      have ad: "wrk_addrs s5 ?f = wrk_addrs s4 ?f" "wrk_need s5 ?f = wrk_need s4 ?f"
        using pv W(8) qn by (simp_all add: wrk_addrs_def wrk_need_def Let_def)
      have "wrk_ok s5 ?f"
        using 2(2) unfolding wrk_ok_def ad pv(3) W(8) qn
        using W by (auto simp: s5_def)
      then have wk: "wrk_ok s5 ?f" .
      have qs: "queues s4 ?q = queues s3 ?q" using 2(6) f3(1) by (auto simp: grown_def same_at_def)
      have tq: "txts s5 ?f = Some ?t" "tx_queue s5 ?f = ?q"
        using 2(7) by (simp_all add: s5_def s3_def tx_queue_def)
      have q5: "queue_ok s5 ?q" "queue_name s5 ?q = Suc ?q" "queue_need s5 ?q = queue_need s3 ?q"
        using qs f3 by (simp_all add: qn) (simp_all add: queue_ok_def queue_name_def queue_need_def)
      have as: "set (wrk_addrs s5 ?f) \<subseteq> {?f + 3..<os_fresh s5}" proof -
        have "os_fresh s5 = os_fresh s4" by (simp add: s5_def)
        then show ?thesis unfolding ad(1) using 2(4) f3(1) by simp
      qed
      have le: "?f + 3 \<le> os_fresh s5" using 2(6) f3(1) by (simp add: grown_def s5_def)
      have pp: "pp \<ge> ?f + 3" using as pv(2) by (auto simp: wrk_addrs_def Let_def)
      have "made s s5 {} {TxT ?f}"
      proof (rule made_one)
        have "grown {..<?f} s s4" using g3 grown_mono [OF 2(6) sub] by (rule grown_trans)
        moreover have "grown {..<?f} s4 s5"
          by (rule grownI) (use 2(6) pp in \<open>auto simp: grown_def same_at_def os_ok_def s5_def\<close>)
        ultimately show "grown {..<?f} s s5" by (rule grown_trans)
        have "os_live s5 = os_live s4" by (simp add: s5_def)
        then show "os_live s5 = os_live s \<union> part_need s5 (TxT ?f)"
          using 2(3) f3(5) by (auto simp: tq q5 ad)
        have nin: "x \<notin> set (wrk_addrs s5 ?f)" if "x < ?f + 3" for x using as that by auto
        show "part_ok s5 (TxT ?f)"
          using wk q5 tq pv(3) nin [of ?f] nin [of ?q] nin [of "Suc ?q"] wrk_notin(4) [OF wk] by simp
        have "fp s5 (TxT ?f) = {?f, ?q, Suc ?q} \<union> set (wrk_addrs s5 ?f)"
          by (simp add: fp_def tq image_Un wrk_need_addrs queue_need_def q5) auto
        then show "fp s5 (TxT ?f) \<subseteq> {?f..<os_fresh s5}" using as le by auto
      qed
      with ct show ?thesis by auto
    qed
  qed
qed

subsection \<open>Sorters\<close>

lemma sorter_made:
  fixes s :: istore
  assumes sane: "os_ok s"
  shows "\<exists>p e' s'. ctor_sorter q e s = (p, e', s') \<and> made s s' {} (opt_part Sorter p) \<and>
    (e' = None \<longleftrightarrow> e = None) \<and> (p \<noteq> NULL \<longrightarrow> e' = e) \<and> txts s' = txts s"
proof (cases "os_script s (os_clock s) = 0")
  case False
  let ?s = "s\<lparr>os_clock := Suc (os_clock s)\<rparr>"
  have "ctor_sorter q e s = (NULL, SET_ERR e ENOMEM, ?s)"
    using False by (simp add: ctor_sorter_def sin_pkt_sorter_ctor_def malloc_def os_result_def)
  moreover have "made s ?s {} {}"
    by (rule made_none, rule grownI) (use sane in \<open>auto simp: os_ok_def same_at_def\<close>)
  ultimately show ?thesis by (auto simp: SET_ERR_def)
next
  case True
  let ?f = "os_fresh s"
  define so where "so = \<lparr>so_addr = ?f, so_type = SIN_TYPE_PKT_SORTER, so_first = [] :: pstore ps_entry list,
       pkt_consume_default = put_items_cb, so_outq = q, so_ap = NULL, so_wrklist = SIN_LIST_RESET\<rparr>"
  let ?s = "s\<lparr>os_clock := Suc (os_clock s), os_fresh := Suc ?f, os_live := insert (Block ?f) (os_live s),
     sorters := (sorters s)(?f \<mapsto> so)\<rparr>"
  have "ctor_sorter q e s = (Some ?f, e, ?s)"
    using True by (simp add: ctor_sorter_def sin_pkt_sorter_ctor_def malloc_def os_result_def so_def)
  moreover have "made s ?s {} {Sorter ?f}"
  proof (rule made_one)
    show "grown {..<?f} s ?s"
      by (rule grownI) (use os_okD [OF sane] in \<open>auto simp: os_ok_def same_at_def intro: less_SucI\<close>)
  qed (auto simp: so_def fp_def)
  ultimately show ?thesis by auto
qed

text \<open>Registration lets a sorter grow by one entry.\<close>

lemma hold_reg:
  assumes h: "hold f L X Q s" and a: "Sorter a \<in> Q"
  shows "\<exists>r e' s'. reg_sorter a q t c ap e s = Some (r, e', s') \<and> hold f L X Q s' \<and>
    (e' = None \<longleftrightarrow> e = None) \<and> (r = 0 \<or> r = -1) \<and> (r = 0 \<longrightarrow> e' = e) \<and> txts s' = txts s \<and>
    rings s' = rings s \<and> os_script s' = os_script s"
proof -
  note H = holdD [OF h]
  from H(5) [OF a] obtain so where so: "sorters s a = Some so" "so_addr so = a"
    "distinct (a # map e_addr (so_first so))" by (auto split: option.splits)
  let ?f = "os_fresh s"
  show ?thesis
  proof (cases "os_script s (os_clock s) = 0")
    case False
    let ?s = "s\<lparr>os_clock := Suc (os_clock s)\<rparr>"
    have "reg_sorter a q t c ap e s = Some (-1, SET_ERR e ENOMEM, ?s)"
      using False so(1) by (simp add: reg_sorter_def sin_pkt_sorter_reg_def malloc_def os_result_def fun_upd_idem)
    moreover have "hold f L (X \<union> {}) (Q \<union> {}) ?s"
      by (rule hold_made [OF h], rule made_none, rule grownI) (use H(1) in \<open>auto simp: os_ok_def same_at_def\<close>)
    ultimately show ?thesis by (auto simp: SET_ERR_def)
  next
    case True
    define so' where "so' = so\<lparr>so_type := SIN_TYPE_ITERABLE, so_first := \<lparr>e_addr = ?f, e_type = 0, pkt_taste = t,
      pkt_consume = c, e_outq = q, e_ap = ap, e_wrklist = SIN_LIST_RESET\<rparr> # so_first so\<rparr>"
    let ?s = "s\<lparr>os_clock := Suc (os_clock s), os_fresh := Suc ?f, os_live := insert (Block ?f) (os_live s),
      sorters := (sorters s)(a \<mapsto> so')\<rparr>"
    have rg: "reg_sorter a q t c ap e s = Some (0, e, ?s)"
      using True so(1) by (simp add: reg_sorter_def sin_pkt_sorter_reg_def malloc_def os_result_def so'_def Let_def)
    have need: "part_need ?s (Sorter a) = insert (Block ?f) (part_need s (Sorter a))"
      using so(1) by (auto simp: so'_def)
    have al: "a \<in> fp s (Sorter a)" using so(1) by (simp add: fp_def)
    have lt: "fp s (Sorter a) \<subseteq> {f..<?f}" by (rule H(7) [OF a])
    have fr: "part_ok ?s x" "part_need ?s x = part_need s x" "fp ?s x = fp s x" if "x \<in> Q" "x \<noteq> Sorter a" for x
    proof -
      have "a \<notin> fp s x" using H(8) [OF that(1) a that(2)] al by auto
      then have sa: "same_at (fp s x) s ?s" by (auto simp: same_at_def)
      show "part_ok ?s x" "part_need ?s x = part_need s x" "fp ?s x = fp s x"
        by (rule part_frame [OF sa H(5) [OF that(1)]] fp_frame [OF sa H(5) [OF that(1)]])+
    qed
    have fpa: "fp ?s (Sorter a) = insert ?f (fp s (Sorter a))" by (simp only: fp_def need image_insert res_addr.simps)
    have "hold f L X Q ?s"
    proof (rule holdI)
      show "os_ok ?s" using os_okD [OF H(1)] by (auto simp: os_ok_def intro: less_SucI)
      show "f \<le> os_fresh ?s" "L \<subseteq> os_live ?s" using H(2,3) by auto
      show "r \<in> L \<Longrightarrow> res_addr r < f" for r by (rule H(4))
      have ok: "part_ok ?s (Sorter a)"
      proof -
        have "e_addr ` set (so_first so) \<subseteq> fp s (Sorter a)" using so(1) by (auto simp: fp_def)
        moreover have "?f \<notin> fp s (Sorter a)" using lt by auto
        ultimately have "?f \<notin> e_addr ` set (so_first so)" "a \<noteq> ?f" using al by blast+
        then show ?thesis using so by (simp add: so'_def)
      qed
      show "part_ok ?s x" if "x \<in> Q" for x using ok fr(1) [OF that] by blast
      show "part_need ?s x \<subseteq> os_live ?s" if "x \<in> Q" for x
      proof (cases "x = Sorter a")
        case True
        then show ?thesis using need H(6) [OF a] by auto
      next
        case False
        then show ?thesis using fr(2) [OF that] H(6) [OF that] by auto
      qed
      show "fp ?s x \<subseteq> {f..<os_fresh ?s}" if "x \<in> Q" for x
      proof (cases "x = Sorter a")
        case True
        then show ?thesis using fpa lt H(2) by auto
      next
        case False
        then show ?thesis using fr(3) [OF that] H(7) [OF that] by auto
      qed
      have nf: "?f \<notin> fp s x" if "x \<in> Q" for x using H(7) [OF that] by auto
      show "fp ?s x \<inter> fp ?s y = {}" if "x \<in> Q" "y \<in> Q" "x \<noteq> y" for x y
      proof -
        have 0: "fp s x \<inter> fp s y = {}" by (rule H(8) [OF that])
        note xy = that
        consider "x = Sorter a" "y \<noteq> Sorter a" | "y = Sorter a" "x \<noteq> Sorter a" | "x \<noteq> Sorter a" "y \<noteq> Sorter a"
          using xy(3) by blast
        then show ?thesis
          using 0 nf [OF xy(1)] nf [OF xy(2)] fpa fr(3) [OF xy(1)] fr(3) [OF xy(2)] by cases auto
      qed
      show "left_over ?s r \<or> r \<in> X \<or> (\<exists>x \<in> Q. r \<in> part_need ?s x)" if "r \<in> os_live ?s" "r \<notin> L" for r
      proof (cases "r = Block ?f")
        case True
        then show ?thesis using need a by blast
      next
        case False
        then have "r \<in> os_live s" using that by simp
        from H(9) [OF this that(2)] consider "left_over s r" | "r \<in> X" | x where "x \<in> Q" "r \<in> part_need s x" by blast
        then show ?thesis
        proof cases
          case 1
          then have "left_over ?s r" by (rule left_over_mono) auto
          then show ?thesis by simp
        next
          case 3
          then have "r \<in> part_need ?s x" using fr(2) [OF 3(1)] need by (cases "x = Sorter a") auto
          with 3(1) show ?thesis by blast
        qed simp
      qed
    qed
    with rg show ?thesis by simp
  qed
qed

subsection \<open>Zones\<close>

lemma pkt_ctor_cases:
  fixes s :: istore
  assumes "sin_pkt_ctor nm zone idx ring e s = Some (p, e', s')"
  shows "(p = NULL \<and> e' = SET_ERR e ENOMEM \<and> s' = s\<lparr>os_clock := Suc (os_clock s)\<rparr>) \<or>
    (\<exists>pk M. p = Some (os_fresh s) \<and> e' = e \<and> p_ts pk = Suc (os_fresh s) \<and> M \<subseteq> {Mutex (os_fresh s)} \<and>
      s' = s\<lparr>os_fresh := os_fresh s + 2, os_clock := os_clock s + 3,
        os_live := os_live s \<union> {Block (os_fresh s), Block (Suc (os_fresh s))} \<union> M,
        times := (times s)(Suc (os_fresh s) \<mapsto> (0, 0)), pkts := (pkts s)(os_fresh s \<mapsto> pk),
        links := (links s)(os_fresh s \<mapsto> NULL)\<rparr>)"
proof -
  let ?f = "os_fresh s" and ?r = "\<lambda>k. os_script s (os_clock s + k)"
  consider "?r 0 \<noteq> 0" | "?r 0 = 0" "?r 1 \<noteq> 0" | "?r 0 = 0" "?r 1 = 0" by blast
  then show ?thesis
  proof cases
    case 1
    then show ?thesis using assms by (auto simp: sin_pkt_ctor_def malloc_def os_result_def)
  next
    case 2
    then show ?thesis using assms by (auto simp: sin_pkt_ctor_def malloc_def os_result_def)
  next
    case 3
    from assms 3 obtain slot where sl: "get_slot (ring, idx) (s\<lparr>os_fresh := Suc (Suc ?f),
         os_live := insert (Block (Suc ?f)) (insert (Block ?f) (os_live s)), os_clock := Suc (Suc (os_clock s)),
         times := (times s)(Suc ?f \<mapsto> (0, 0))\<rparr>) = Some slot"
      by (auto simp: sin_pkt_ctor_def malloc_def os_result_def get_slot_def split: option.splits if_splits)
    define pk where "pk = sin_pkt_zero\<lparr>p_type := SIN_TYPE_PKT, p_ts := Suc ?f, my_zone := zone,
           my_ring := ring, zone_idx := of_nat idx, my_slot := (ring, idx),
           p_buf := NETMAP_BUF nm ring (s_buf_idx slot)\<rparr>"
    define M where "M = (if ?r 2 = 0 then {Mutex ?f} else {})"
    have "p = Some ?f \<and> e' = e \<and> s' = s\<lparr>os_fresh := ?f + 2, os_clock := os_clock s + 3,
        os_live := os_live s \<union> {Block ?f, Block (Suc ?f)} \<union> M,
        times := (times s)(Suc ?f \<mapsto> (0, 0)), pkts := (pkts s)(?f \<mapsto> pk), links := (links s)(?f \<mapsto> NULL)\<rparr>"
      using assms 3 sl
      by (cases s) (auto simp: sin_pkt_ctor_def malloc_def os_result_def get_slot_def pk_def M_def insert_commute
          pthread_mutex_init_def init_res_def Let_def numeral_eq_Suc split: option.splits if_splits)
    moreover have "p_ts pk = Suc ?f" "M \<subseteq> {Mutex ?f}" by (simp_all add: pk_def M_def)
    ultimately show ?thesis by blast
  qed
qed

text \<open>
  The packets made so far while a zone is filled, on top of the resources \<open>L\<close>. The mutex of
  a packet may or may not be live, as the result of its initialisation is ignored.
\<close>

definition fills :: "nat \<Rightarrow> resource set \<Rightarrow> addr list \<Rightarrow> istore \<Rightarrow> bool" where
  "fills f L ps s \<longleftrightarrow> distinct ps \<and> L \<subseteq> os_live s \<and> (\<forall>r \<in> L. res_addr r < f) \<and> f \<le> os_fresh s \<and>
     (\<forall>p \<in> set ps. f \<le> p \<and> Suc p < os_fresh s \<and> Suc p \<notin> set ps \<and>
        (\<exists>pk. pkts s p = Some pk \<and> p_ts pk = Suc p) \<and> times s (Suc p) \<noteq> None \<and>
        {Block p, Block (Suc p)} \<subseteq> os_live s) \<and>
     os_live s \<subseteq> L \<union> (\<Union>p \<in> set ps. {Block p, Block (Suc p), Mutex p})"

lemma fills_dtor:
  assumes h: "fills f L (p # ps) s" and d: "sin_pkt_dtor p s = Some s'"
  shows "fills f L ps s'" "grown {..<f} s s' \<or> \<not> os_ok s" "os_fresh s' = os_fresh s" "os_live s' \<subseteq> os_live s"
proof -
  from h obtain pk where pk: "pkts s p = Some pk" "p_ts pk = Suc p" "f \<le> p" "Suc p < os_fresh s" "p \<notin> set ps" "Suc p \<notin> set ps"
    by (auto simp: fills_def)
  from d pk have s': "s' = s\<lparr>os_live := os_live s - {Mutex p} - {Block (Suc p)} - {Block p},
      pkts := (pkts s)(p := None), links := (links s)(p := None), times := (times s)(Suc p := None)\<rparr>"
    by (auto simp: sin_pkt_dtor_def pthread_mutex_destroy_def free_def release_def split: if_splits)
  show "os_fresh s' = os_fresh s" "os_live s' \<subseteq> os_live s" by (auto simp: s')
  have L: "Mutex p \<notin> L" "Block p \<notin> L" "Block (Suc p) \<notin> L" using h pk(3) by (force simp: fills_def)+
  have q: "q \<noteq> p" "q \<noteq> Suc p" "Suc q \<noteq> p" "Suc q \<noteq> Suc p" if "q \<in> set ps" for q
    using that pk h by (auto simp: fills_def)
  show "fills f L ps s'"
    unfolding fills_def
  proof (intro conjI ballI)
    show "distinct ps" "f \<le> os_fresh s'" using h by (simp_all add: fills_def s')
    show "L \<subseteq> os_live s'" using h L by (auto simp: fills_def s')
    show "res_addr r < f" if "r \<in> L" for r using h that by (simp add: fills_def)
    show "os_live s' \<subseteq> L \<union> (\<Union>p \<in> set ps. {Block p, Block (Suc p), Mutex p})"
      using h by (auto simp: fills_def s')
    show "f \<le> x" "Suc x < os_fresh s'" "Suc x \<notin> set ps" "\<exists>pk. pkts s' x = Some pk \<and> p_ts pk = Suc x"
      "times s' (Suc x) \<noteq> None" "{Block x, Block (Suc x)} \<subseteq> os_live s'" if "x \<in> set ps" for x
      using h that q [OF that] by (simp_all add: fills_def s')
  qed
  show "grown {..<f} s s' \<or> \<not> os_ok s"
    using pk(3) by (auto simp: s' grown_def same_at_def os_ok_def)
qed

lemma undo_fill_works:
  assumes "fills f L ps s" and "undo_fill ps s = Some s'" and "os_ok s"
  shows "os_live s' = L" "grown {..<f} s s'"
proof -
  have "os_live s' = L \<and> grown {..<f} s s'"
    using assms
  proof (induction ps arbitrary: s)
    case Nil
    then show ?case by (auto simp: fills_def grown_def)
  next
    case (Cons p ps)
    then obtain s1 where s1: "sin_pkt_dtor p s = Some s1" "undo_fill ps s1 = Some s'"
      by (auto split: Option.bind_splits)
    note d = fills_dtor [OF Cons.prems(1) s1(1)]
    have g: "grown {..<f} s s1" using d(2) Cons.prems(3) by simp
    then have "os_ok s1" by (simp add: grown_def)
    from Cons.IH [OF d(1) s1(2) this] g show ?case by (blast intro: grown_trans)
  qed
  then show "os_live s' = L" "grown {..<f} s s'" by simp_all
qed

lemma fills_rev: "fills f L ps s \<Longrightarrow> fills f L (rev ps) s"
  by (simp add: fills_def)

lemma fills_ctor:
  assumes h: "fills f L ps s" and ok: "os_ok s" and M: "M \<subseteq> {Mutex (os_fresh s)}" and t: "p_ts pk = Suc (os_fresh s)"
    and s': "s' = s\<lparr>os_fresh := os_fresh s + 2, os_clock := c,
        os_live := os_live s \<union> {Block (os_fresh s), Block (Suc (os_fresh s))} \<union> M,
        times := (times s)(Suc (os_fresh s) \<mapsto> (0, 0)), pkts := (pkts s)(os_fresh s \<mapsto> pk),
        links := (links s)(os_fresh s \<mapsto> NULL)\<rparr>"
  shows "fills f L (ps @ [os_fresh s]) s'" "os_ok s'" "grown {..<f} s s'"
proof -
  show ok': "os_ok s'" using os_okD [OF ok] M by (fastforce simp: s' os_ok_def)
  have fl: "f \<le> os_fresh s" using h by (simp add: fills_def)
  show "grown {..<f} s s'"
    by (rule grownI) (use ok' fl in \<open>auto simp: s' same_at_def\<close>)
  have lt: "x \<noteq> os_fresh s" "Suc x \<noteq> os_fresh s" "x \<noteq> Suc (os_fresh s)" "Suc x < os_fresh s" if "x \<in> set ps" for x
  proof -
    show "Suc x < os_fresh s" using h that by (simp add: fills_def)
    then show "x \<noteq> os_fresh s" "Suc x \<noteq> os_fresh s" "x \<noteq> Suc (os_fresh s)" by auto
  qed
  show "fills f L (ps @ [os_fresh s]) s'"
    unfolding fills_def
  proof (intro conjI ballI)
    show "distinct (ps @ [os_fresh s])" using h lt by (auto simp: fills_def)
    show "L \<subseteq> os_live s'" "f \<le> os_fresh s'" using h by (auto simp: fills_def s')
    show "res_addr r < f" if "r \<in> L" for r using h that by (simp add: fills_def)
    show "os_live s' \<subseteq> L \<union> (\<Union>p \<in> set (ps @ [os_fresh s]). {Block p, Block (Suc p), Mutex p})"
      using h M by (auto simp: fills_def s')
    fix x assume x: "x \<in> set (ps @ [os_fresh s])"
    show "f \<le> x" using x h fl by (auto simp: fills_def)
    show "Suc x < os_fresh s'" using x lt(4) [of x] by (auto simp: s')
    show "Suc x \<notin> set (ps @ [os_fresh s])" using x lt h by (auto simp: fills_def)
    show "\<exists>pk. pkts s' x = Some pk \<and> p_ts pk = Suc x" using x lt h t by (auto simp: fills_def s')
    show "times s' (Suc x) \<noteq> None" "{Block x, Block (Suc x)} \<subseteq> os_live s'" using x h by (auto simp: fills_def s')
  qed
qed

lemma fill_loop_works:
  assumes "fills f L ps s" and "os_ok s" and "fill_loop nm zone ring e n ps s = Some (k, ps', e', s')"
  shows "grown {..<f} s s' \<and> os_ok s' \<and> (e' = None \<longleftrightarrow> e = None) \<and>
    (if k < 0 then os_live s' = L
     else e' = e \<and> length ps' = length ps + n \<and> fills f L ps' s')"
  using assms
proof (induction n arbitrary: ps s e)
  case 0
  then show ?case by (auto simp: grown_def)
next
  case (Suc n)
  from Suc.prems(3) obtain p e1 s1 where c: "sin_pkt_ctor nm zone (length ps) ring e s = Some (p, e1, s1)"
    by (auto split: Option.bind_splits)
  from pkt_ctor_cases [OF c] consider (none) "p = NULL" "e1 = SET_ERR e ENOMEM" "s1 = s\<lparr>os_clock := Suc (os_clock s)\<rparr>"
    | (some) pk M where "p = Some (os_fresh s)" "e1 = e" "p_ts pk = Suc (os_fresh s)" "M \<subseteq> {Mutex (os_fresh s)}"
      "s1 = s\<lparr>os_fresh := os_fresh s + 2, os_clock := os_clock s + 3,
        os_live := os_live s \<union> {Block (os_fresh s), Block (Suc (os_fresh s))} \<union> M,
        times := (times s)(Suc (os_fresh s) \<mapsto> (0, 0)), pkts := (pkts s)(os_fresh s \<mapsto> pk),
        links := (links s)(os_fresh s \<mapsto> NULL)\<rparr>" by blast
  then show ?case
  proof cases
    case none
    with Suc.prems(3) c obtain u: "undo_fill (rev ps) s1 = Some s'" "k = -1" "e' = e1"
      by (auto split: Option.bind_splits)
    have 1: "fills f L (rev ps) s1" "os_ok s1" "grown {..<f} s s1"
      using fills_rev [OF Suc.prems(1)] Suc.prems(2) none by (simp_all add: fills_def os_ok_def grown_def same_at_def)
    from undo_fill_works [OF 1(1) u(1) 1(2)] 1(3) u none(2) show ?thesis
      by (auto simp: SET_ERR_def grown_def intro: grown_trans elim: same_at_trans)
  next
    case some
    note F = fills_ctor [OF Suc.prems(1,2) some(4,3,5)]
    have "fill_loop nm zone ring e n (ps @ [os_fresh s]) s1 = Some (k, ps', e', s')"
      using Suc.prems(3) c some(1,2) by simp
    from Suc.IH [OF F(1,2) this] F(3) show ?thesis by (auto intro: grown_trans split: if_splits)
  qed
qed

lemma zone_made:
  fixes s :: istore
  assumes sane: "os_ok s" and c: "sin_pkt_zone_ctor nm ring fd e s = Some (p, e', s')"
  shows "\<exists>X. made s s' X (opt_part Zone p) \<and> (p \<noteq> NULL \<longrightarrow> X = {} \<and> e' = e) \<and> (\<exists>b. X \<subseteq> {Block b}) \<and>
    (e' = None \<longleftrightarrow> e = None)"
proof -
  let ?f = "os_fresh s" and ?r = "\<lambda>k. os_script s (os_clock s + k)"
  have nr: "r \<notin> os_live s" if "?f \<le> res_addr r" for r by (rule fresh_not_live [OF sane that])
  note defs = sin_pkt_zone_ctor_def malloc_def os_result_def Let_def pthread_mutex_init_def init_res_def
    er_undo_1_def er_undo_2_def free_def pthread_mutex_destroy_def release_def
  consider "?r 0 \<noteq> 0" | "?r 0 = 0" "?r 1 \<noteq> 0" | "?r 0 = 0" "?r 1 = 0" "?r 2 \<noteq> 0"
    | "?r 0 = 0" "?r 1 = 0" "?r 2 = 0" "?r 3 \<noteq> 0" | "?r 0 = 0" "?r 1 = 0" "?r 2 = 0" "?r 3 = 0" by blast
  then show ?thesis
  proof cases
    case 1
    then have e: "p = NULL" "e' = SET_ERR e ENOMEM" "s' = s\<lparr>os_clock := Suc (os_clock s)\<rparr>" using c by (simp_all add: defs)
    have "made s s' {} {}" unfolding e by (rule made_none, rule grownI) (use sane in \<open>auto simp: os_ok_def same_at_def\<close>)
    then show ?thesis using e by (intro exI [of _ "{}"]) (simp add: SET_ERR_def)
  next
    case 2
    then have e: "p = NULL" "e' = SET_ERR e ENOMEM" "s' = s\<lparr>os_clock := os_clock s + 2, os_fresh := Suc ?f\<rparr>"
      using c nr [of "Block ?f"] by (cases s; simp add: defs)+
    have "made s s' {} {}" unfolding e by (rule made_none, rule grownI) (use sane in \<open>auto simp: os_ok_def same_at_def intro: less_SucI\<close>)
    then show ?thesis using e by (intro exI [of _ "{}"]) (simp add: SET_ERR_def)
  next
    case 3
    then have e: "p = NULL" "e' = SET_ERR e (Errno (?r 2))" "s' = s\<lparr>os_clock := os_clock s + 3, os_fresh := ?f + 2\<rparr>"
      using c nr [of "Block ?f"] nr [of "Block (Suc ?f)"] by (cases s; simp add: defs numeral_eq_Suc)+
    have "made s s' {} {}" unfolding e by (rule made_none, rule grownI) (use os_okD [OF sane] in \<open>fastforce simp: os_ok_def same_at_def\<close>)+
    then show ?thesis using e by (intro exI [of _ "{}"]) (simp add: SET_ERR_def)
  next
    case 4
    then have e: "p = NULL" "e' = SET_ERR e ENOMEM" "s' = s\<lparr>os_clock := os_clock s + 4, os_fresh := ?f + 2\<rparr>"
      using c nr [of "Block ?f"] nr [of "Block (Suc ?f)"] nr [of "Mutex (Suc ?f)"]
      by (cases s; auto simp: defs numeral_eq_Suc insert_Diff_if split: Option.bind_splits)+
    have "made s s' {} {}" unfolding e by (rule made_none, rule grownI) (use os_okD [OF sane] in \<open>fastforce simp: os_ok_def same_at_def\<close>)+
    then show ?thesis using e by (intro exI [of _ "{}"]) (simp add: SET_ERR_def)
  next
    case 5
    let ?z = ?f and ?v = "Suc ?f" and ?b = "Suc (Suc ?f)"
    define L where "L = os_live s \<union> {Block ?z, Block ?v, Mutex ?v, Block ?b}"
    define s1 where "s1 = s\<lparr>os_clock := os_clock s + 4, os_fresh := ?f + 3, os_live := L\<rparr>"
    have ok1: "os_ok s1" using os_okD [OF sane] by (fastforce simp: os_ok_def s1_def L_def)
    have g1: "grown {..<?f} s s1" by (rule grownI) (use ok1 in \<open>auto simp: s1_def same_at_def\<close>)
    have fi: "fills (?f + 3) L [] s1" using ok1 by (auto simp: fills_def s1_def os_ok_def)
    have st: "sin_pkt_zone_ctor nm ring fd e s = do {
        r \<leftarrow> rings s ring;
        (n, ps, e, s) \<leftarrow> sin_pkt_zone_fill_from_ring nm ?z ring e s1;
        if n < 0 then do { s \<leftarrow> er_undo_2 ?z ?v s; Some (NULL, e, s) }
        else Some (Some ?z, e, s\<lparr>zones := (zones s)(?z \<mapsto>
          \<lparr>z_type = SIN_TYPE_PKT_ZONE, z_netmap_fd = fd, z_pmap_blk = ?b,
           z_pmap = ps, z_pvt = ?v, z_num_slots = sint (num_slots r)\<rparr>)\<rparr>) }"
      using 5 unfolding s1_def L_def
      by (simp add: sin_pkt_zone_ctor_def malloc_def os_result_def Let_def pthread_mutex_init_def
          init_res_def numeral_eq_Suc insert_commute)
    from c st obtain r n ps e1 s2 where r: "rings s ring = Some r"
      and fl: "fill_loop nm ?z ring e (nat (sint (num_slots r))) [] s1 = Some (n, ps, e1, s2)"
      and res: "(if n < 0 then do { s \<leftarrow> er_undo_2 ?z ?v s2; Some (NULL, e1, s) }
        else Some (Some ?z, e1, s2\<lparr>zones := (zones s2)(?z \<mapsto>
          \<lparr>z_type = SIN_TYPE_PKT_ZONE, z_netmap_fd = fd, z_pmap_blk = ?b,
           z_pmap = ps, z_pvt = ?v, z_num_slots = sint (num_slots r)\<rparr>)\<rparr>)) = Some (p, e', s')"
      by (auto simp: sin_pkt_zone_fill_from_ring_def s1_def split: Option.bind_splits)
    note F = fill_loop_works [OF fi ok1 fl]
    have g2: "grown {..<?f} s s2"
      using F g1 grown_mono [of "{..<?f + 3}" s1 s2 "{..<?f}"] by (auto intro: grown_trans)
    show ?thesis
    proof (cases "n < 0")
      case True
      then have lv: "os_live s2 = L" using F by simp
      from True res lv have e: "p = NULL" "e' = e1"
        "s' = s2\<lparr>os_live := L - {Mutex ?v} - {Block ?v} - {Block ?z}\<rparr>"
        by (auto simp: er_undo_2_def er_undo_1_def free_def pthread_mutex_destroy_def release_def
            split: Option.bind_splits if_splits)
      have lL: "L - {Mutex ?v} - {Block ?v} - {Block ?z} = insert (Block ?b) (os_live s)"
        unfolding L_def using nr [of "Block ?z"] nr [of "Block ?v"] nr [of "Mutex ?v"] by auto
      have "made s s' {Block ?b} {}"
      proof (rule madeI)
        have "grown {..<?f} s2 s'" unfolding e
          by (rule grownI) (use F lv in \<open>auto simp: same_at_def os_ok_def\<close>)
        with g2 show "grown {..<?f} s s'" by (rule grown_trans)
      qed (use e(3) lL in auto)
      then show ?thesis using e F by auto
    next
      case False
      define z where "z = \<lparr>z_type = SIN_TYPE_PKT_ZONE, z_netmap_fd = fd, z_pmap_blk = ?b,
           z_pmap = ps, z_pvt = ?v, z_num_slots = sint (num_slots r)\<rparr>"
      from False res have e: "p = Some ?z" "e' = e1" "s' = s2\<lparr>zones := (zones s2)(?z \<mapsto> z)\<rparr>"
        by (auto simp: z_def)
      from False F have G: "e1 = e" "length ps = nat (sint (num_slots r))" "fills (?f + 3) L ps s2" by auto
      have ps: "distinct ps" "\<forall>x \<in> set ps. ?f + 3 \<le> x \<and> Suc x < os_fresh s2" "?f + 3 \<le> os_fresh s2"
        "L \<subseteq> os_live s2" "\<forall>x \<in> set ps. Block x \<in> os_live s2"
        using G(3) by (simp_all add: fills_def)
      have need: "part_need s' (Zone ?z) = {Block ?z, Block ?v, Mutex ?v, Block ?b} \<union> Block ` set ps"
        by (simp add: e zone_need_def z_def)
      have "made s s' {} {Zone ?z}"
      proof (rule madeI)
        have "grown {..<?f} s2 s'" unfolding e
          by (rule grownI) (use g2 in \<open>auto simp: grown_def same_at_def os_ok_def\<close>)
        with g2 show "grown {..<?f} s s'" by (rule grown_trans)
        show "os_live s \<subseteq> os_live s'" using ps(4) e(3) by (auto simp: L_def)
        show "part_ok s' x" if "x \<in> {Zone ?z}" for x
        proof -
          have "?z \<notin> set ps" "?v \<notin> set ps" "?b \<notin> set ps" using ps(2) by force+
          then have "zone_ok s' ?z" using G(2) ps(1) by (simp add: e zone_ok_def z_def)
          then show ?thesis using that by simp
        qed
        show "part_need s' x \<subseteq> os_live s'" if "x \<in> {Zone ?z}" for x
          using that need ps(4,5) by (auto simp: e L_def)
        show "fp s' x \<subseteq> {?f..<os_fresh s'}" if "x \<in> {Zone ?z}" for x
        proof -
          have "fp s' (Zone ?z) = {?z, ?v, ?b} \<union> set ps" unfolding fp_def need by auto
          moreover have "set ps \<subseteq> {?f..<os_fresh s2}" using ps(2) by auto
          ultimately show ?thesis using that ps(3) by (simp add: e)
        qed
        show "left_over s' q \<or> q \<in> {} \<or> (\<exists>x \<in> {Zone ?z}. q \<in> part_need s' x)"
          if "q \<in> os_live s'" "q \<notin> os_live s" for q
        proof -
          have "q \<in> L \<or> (\<exists>x \<in> set ps. q = Block x \<or> q = Block (Suc x) \<or> q = Mutex x)"
            using that(1) G(3) by (auto simp: fills_def e)
          moreover have "left_over s' (Block (Suc x))" "left_over s' (Mutex x)" if "x \<in> set ps" for x
            using that G(3) by (simp_all add: left_over_def e fills_def)
          ultimately show ?thesis using that(2) need by (auto simp: L_def)
        qed
      qed auto
      then show ?thesis using e G by auto
    qed
  qed
qed
end
