(* ===== verification/Sin_Well.thy ===== *)
theory Sin_Well
  imports Sin_Made
begin

text \<open>
  When no call to the system fails and every ring has the slots it announces
  (\<open>all_well\<close>), every constructor succeeds. \<open>keep\<close> is what no constructor or
  destructor changes.
\<close>


definition keep :: "istore \<Rightarrow> istore \<Rightarrow> bool" where
  "keep s s' \<longleftrightarrow> rings s' = rings s \<and> os_script s' = os_script s"

definition all_well :: "istore \<Rightarrow> bool" where
  "all_well s \<longleftrightarrow> (\<forall>k. os_script s k = 0) \<and>
     (\<forall>ring r. rings s ring = Some r \<longrightarrow> nat (sint (num_slots r)) \<le> length (r_slots r))"

lemma queue_ctor_well:
  fixes s :: "'a qstore_scheme"
  assumes "\<forall>k. os_script s k = 0"
  shows "\<exists>q s'. sin_wi_queue_ctor e s = Some (Some q, e, s') \<and> os_script s' = os_script s \<and>
    s' = s\<lparr>os_fresh := os_fresh s', os_live := os_live s', os_clock := os_clock s', queues := queues s'\<rparr>"
  using assms
  by (simp add: sin_wi_queue_ctor_def os_defs Let_def)

lemma wrk_ctor_well:
  fixes s :: istore
  assumes "\<forall>k. os_script s k = 0" and "wrks s a = Some w"
  shows "\<exists>s' w' pp p. sin_wrk_thread_ctor a r e s = Some (0, e, s') \<and> wrks s' a = Some w' \<and>
    w_notify_on_ctrl w' \<noteq> None \<and> w_pvt w' = Some pp \<and> pvts s' pp = Some p"
proof -
  let ?f = "os_fresh s"
  let ?s1 = "s\<lparr>wrks := (wrks s)(a \<mapsto> w\<lparr>w_type := SIN_TYPE_WRK_THREAD, w_pvt := Some ?f\<rparr>),
     os_clock := os_clock s + 2, os_fresh := ?f + 2, os_live := os_live s \<union> {Block ?f, Block (Suc ?f)},
     pvts := (pvts s)(?f \<mapsto> pvt_zero\<lparr>wp_tname := Some (Suc ?f)\<rparr>)\<rparr>"
  from queue_ctor_well [of ?s1 e] assms(1) obtain q s2 where
    2: "sin_wi_queue_ctor e ?s1 = Some (Some q, e, s2)" "os_script s2 = os_script s"
      "s2 = ?s1\<lparr>os_fresh := os_fresh s2, os_live := os_live s2, os_clock := os_clock s2, queues := queues s2\<rparr>"
    by auto
  have m: "pvts s2 ?f = Some (pvt_zero\<lparr>wp_tname := Some (Suc ?f)\<rparr>)"
    "wrks s2 a = Some (w\<lparr>w_type := SIN_TYPE_WRK_THREAD, w_pvt := Some ?f\<rparr>)"
    by (subst 2(3), simp)+
  have "sin_wrk_thread_ctor a r e s = (do {
       s \<leftarrow> upd_pvt ?f (\<lambda>p. p\<lparr>wp_ctrl_queue := Some q\<rparr>) s2;
       (rval, e, s) \<leftarrow> wrk_start ?f r e s;
       if rval \<noteq> 0 then Some (rval, e, s) else do { s \<leftarrow> wrk_set_methods a s; Some (0, e, s) } })"
    using assms 2(1)
    by (simp add: sin_wrk_thread_ctor_def wrk_create_def upd_wrk_def upd_pvt_def malloc_def os_result_def
        pvt_zero_def numeral_eq_Suc insert_commute)
  with m 2(2) assms(1) show ?thesis
    by (simp add: upd_pvt_def upd_wrk_def wrk_start_def sin_signal_ctor_def malloc_def os_result_def
        pthread_create_def acquire_def wrk_set_methods_def Let_def)
qed

lemma rxt_well:
  fixes s :: istore
  assumes "all_well s" and "sin_rx_thread_ctor w e s = Some (p, e', s')"
  shows "p \<noteq> NULL"
proof -
  have sc: "\<forall>k. os_script s k = 0" using assms(1) by (simp add: all_well_def)
  let ?f = "os_fresh s"
  let ?s = "s\<lparr>os_clock := Suc (os_clock s), os_fresh := Suc ?f, os_live := insert (Block ?f) (os_live s),
     wrks := (wrks s)(?f \<mapsto> wrk_zero), rxts := (rxts s)(?f \<mapsto>
         \<lparr>rxo_rx_ring = ws_rx_ring w, rxo_rx_zone = ws_rx_zone w,
          rxo_rx_sort = ws_rx_sort w, rxo_queue_fd = ws_queue_fd w\<rparr>)\<rparr>"
  from wrk_ctor_well [of ?s ?f wrk_zero Rx_routine e] sc obtain s1 where
    "sin_wrk_thread_ctor ?f Rx_routine e ?s = Some (0, e, s1)" by auto
  with assms(2) sc show ?thesis
    by (auto simp: sin_rx_thread_ctor_def malloc_def os_result_def)
qed

lemma txt_well:
  fixes s :: istore
  assumes "all_well s" and "sin_tx_thread_ctor w e s = Some (p, e', s')"
  shows "p \<noteq> NULL"
proof -
  have sc: "\<forall>k. os_script s k = 0" using assms(1) by (simp add: all_well_def)
  let ?f = "os_fresh s"
  let ?s = "s\<lparr>os_clock := Suc (os_clock s), os_fresh := Suc ?f, os_live := insert (Block ?f) (os_live s),
     wrks := (wrks s)(?f \<mapsto> wrk_zero)\<rparr>"
  from queue_ctor_well [of ?s e] sc obtain q s1 where
    1: "sin_wi_queue_ctor e ?s = Some (Some q, e, s1)" "os_script s1 = os_script s"
      "s1 = ?s\<lparr>os_fresh := os_fresh s1, os_live := os_live s1, os_clock := os_clock s1, queues := queues s1\<rparr>"
    by auto
  have w: "wrks s1 ?f = Some wrk_zero" by (subst 1(3), simp)
  let ?s1 = "s1\<lparr>txts := (txts s1)(?f \<mapsto> \<lparr>txo_outpkt_queue = Some q,
              txo_tx_ring = ws_tx_ring w, txo_tx_zone = ws_tx_zone w,
              txo_queue_fd = ws_queue_fd w\<rparr>)\<rparr>"
  from wrk_ctor_well [of ?s1 ?f wrk_zero Tx_routine e] sc 1(2) w obtain s2 w2 pp pr where
    2: "sin_wrk_thread_ctor ?f Tx_routine e ?s1 = Some (0, e, s2)" "wrks s2 ?f = Some w2"
      "w_notify_on_ctrl w2 \<noteq> None" "w_pvt w2 = Some pp" "pvts s2 pp = Some pr" by auto
  from assms(2) sc 1(1) 2 show ?thesis
    by (auto simp: sin_tx_thread_ctor_def malloc_def os_result_def sin_wrk_thread_notify_on_ctrl_def
        pvt_of_def upd_pvt_def)
qed

lemma sorter_well: "all_well s \<Longrightarrow> ctor_sorter q e s = (p, e', s') \<Longrightarrow> p \<noteq> NULL"
  by (auto simp: ctor_sorter_def sin_pkt_sorter_ctor_def malloc_def os_result_def all_well_def)

lemma reg_well: "all_well s \<Longrightarrow> reg_sorter a q t c ap e s = Some (r, e', s') \<Longrightarrow> r = 0"
  by (auto simp: reg_sorter_def sin_pkt_sorter_reg_def malloc_def os_result_def all_well_def Let_def
      split: Option.bind_splits)

lemma pkt_ctor_well:
  assumes "all_well s" and "rings s ring = Some r" and "i < length (r_slots r)"
  shows "\<exists>p s'. sin_pkt_ctor nm zone i ring e s = Some (Some p, e, s') \<and> keep s s'"
  using assms
  by (simp add: sin_pkt_ctor_def malloc_def os_result_def all_well_def get_slot_def keep_def
      pthread_mutex_init_def init_res_def Let_def)

lemma fill_loop_well:
  assumes "all_well s" and "rings s ring = Some r" and "length ps + n \<le> length (r_slots r)"
  shows "\<exists>k ps' s'. fill_loop nm zone ring e n ps s = Some (int k, ps', e, s')"
  using assms
proof (induction n arbitrary: ps s)
  case 0
  then show ?case by auto
next
  case (Suc n)
  then obtain p s1 where 1: "sin_pkt_ctor nm zone (length ps) ring e s = Some (Some p, e, s1)" "keep s s1"
    using pkt_ctor_well [of s ring r "length ps" nm zone e] by auto
  have "all_well s1" "rings s1 ring = Some r" using Suc.prems(1,2) 1(2) by (simp_all add: all_well_def keep_def)
  from Suc.IH [OF this, of "ps @ [p]"] Suc.prems(3) 1 show ?case by auto
qed

lemma zone_ctor_well:
  assumes w: "all_well s" and r: "rings s ring = Some r"
  shows "\<exists>p s'. sin_pkt_zone_ctor nm ring fd e s = Some (Some p, e, s')"
proof -
  let ?n = "nat (sint (num_slots r))" and ?f = "os_fresh s"
  let ?s1 = "s\<lparr>os_clock := os_clock s + 4, os_fresh := ?f + 3,
     os_live := os_live s \<union> {Block ?f, Block (Suc ?f), Mutex (Suc ?f), Block (Suc (Suc ?f))}\<rparr>"
  have le: "?n \<le> length (r_slots r)" using w r by (auto simp: all_well_def)
  have "all_well ?s1" "rings ?s1 ring = Some r" using w r by (simp_all add: all_well_def)
  from fill_loop_well [OF this, of "[]" ?n nm ?f e] le obtain k ps s' where
    "fill_loop nm ?f ring e ?n [] ?s1 = Some (int k, ps, e, s')" by auto
  with w r show ?thesis
    by (simp add: sin_pkt_zone_ctor_def malloc_def os_result_def all_well_def Let_def pthread_mutex_init_def
        init_res_def sin_pkt_zone_fill_from_ring_def numeral_eq_Suc insert_commute)
qed

end
