(* ===== verification/Sin_Columns.thy ===== *)
theory Sin_Columns
  imports Sin_Well "HOL-Library.Multiset"
begin

text \<open>
  The parts an instance is made of, counted: \<open>holdm\<close> says that exactly the parts of a
  multiset are held, each once, besides what was live before. The locale \<open>ring_column\<close> is
  the interface of a destructor that the undo loops call for every pointer of a column of
  the working sets, \<open>ring_maker\<close> the interface of a loop body that fills such a column.
\<close>

definition holdm :: "nat \<Rightarrow> resource set \<Rightarrow> resource set \<Rightarrow> part multiset \<Rightarrow> istore \<Rightarrow> bool" where
  "holdm f L X M s \<longleftrightarrow> (\<forall>x. count M x \<le> 1) \<and> hold f L X (set_mset M) s"

lemma fp_nonempty: "part_ok s x \<Longrightarrow> fp s x \<noteq> {}"
  by (cases x) (auto simp: fp_def zone_ok_def zone_need_def split: option.splits)

lemma holdm_made:
  assumes h: "holdm f L X M s" and m: "made s s' Y (set_mset P)" and P: "\<forall>x. count P x \<le> 1"
  shows "holdm f L (X \<union> Y) (M + P) s'"
proof -
  have h': "hold f L X (set_mset M) s" using h by (simp add: holdm_def)
  note H = holdD [OF h'] and D = madeD [OF m]
  have "x \<notin># M" if x: "x \<in># P" for x
  proof
    assume xM: "x \<in># M"
    have "fp s x \<subseteq> {..<os_fresh s}" using H(7) [OF xM] by auto
    with D(4) have "same_at (fp s x) s s'" by (rule same_at_mono)
    then have "fp s' x = fp s x" using H(5) [OF xM] by (rule fp_frame)
    then have "fp s' x = {}" using D(10) [OF x] H(7) [OF xM] by fastforce
    with fp_nonempty [OF D(8) [OF x]] show False by simp
  qed
  then have "count (M + P) x \<le> 1" for x
    using h P by (cases "x \<in># P") (auto simp: holdm_def not_in_iff)
  with hold_made [OF h' m] show ?thesis by (simp add: holdm_def)
qed

lemma holdm_removed:
  assumes h: "holdm f L X (add_mset x M) s" and r: "removed s s' x"
  shows "holdm f L X M s'"
proof -
  have c: "\<forall>y. count (add_mset x M) y \<le> 1" "hold f L X (set_mset (add_mset x M)) s"
    using h by (simp_all add: holdm_def)
  have "count M x = 0" using c(1) spec [OF c(1), of x] by simp
  then have "x \<notin># M" by (simp add: not_in_iff)
  then have s: "set_mset (add_mset x M) - {x} = set_mset M" by auto
  have "x \<in> set_mset (add_mset x M)" by simp
  from hold_removed [OF c(2) this r] s have "hold f L X (set_mset M) s'" by simp
  moreover have "count M y \<le> 1" for y using spec [OF c(1), of y] by (simp split: if_splits)
  ultimately show ?thesis by (simp add: holdm_def)
qed

lemma holdmD:
  assumes "holdm f L X M s"
  shows "hold f L X (set_mset M) s" "x \<in># M \<Longrightarrow> part_ok s x" "x \<in># M \<Longrightarrow> part_need s x \<subseteq> os_live s" "os_ok s"
proof -
  show h: "hold f L X (set_mset M) s" using assms by (simp add: holdm_def)
  show "x \<in># M \<Longrightarrow> part_ok s x" "x \<in># M \<Longrightarrow> part_need s x \<subseteq> os_live s" "os_ok s"
    using holdD(5,6) [OF h, of x] holdD(1) [OF h] by simp_all
qed

definition opt_m :: "(addr \<Rightarrow> part) \<Rightarrow> ptr \<Rightarrow> part multiset" where
  "opt_m tag p = (case p of None \<Rightarrow> {#} | Some a \<Rightarrow> {#tag a#})"

lemma opt_m_simps [simp]: "opt_m tag NULL = {#}" "opt_m tag (Some a) = {#tag a#}"
  by (simp_all add: opt_m_def)

lemma opt_m_set [simp]: "set_mset (opt_m tag p) = opt_part tag p"
  by (cases p) simp_all

lemma opt_m_count [simp]: "count (opt_m tag p) x \<le> Suc 0"
  by (cases p) simp_all

definition cells :: "(addr \<Rightarrow> part) \<Rightarrow> (wrk_set \<Rightarrow> ptr) \<Rightarrow> wrk_set list \<Rightarrow> part multiset" where
  "cells tag col ws = sum_list (map (\<lambda>w. opt_m tag (col w)) ws)"

lemma cells_simps [simp]:
  "cells tag col [] = {#}" "cells tag col (w # ws) = opt_m tag (col w) + cells tag col ws"
  by (simp_all add: cells_def)

lemma cells_null: "\<forall>w \<in> set ws. col w = NULL \<Longrightarrow> cells tag col ws = {#}"
  by (induction ws) simp_all

lemma keep_refl [simp]: "keep s s"
  by (simp add: keep_def)

lemma keep_trans: "keep s s' \<Longrightarrow> keep s' s'' \<Longrightarrow> keep s s''"
  by (simp add: keep_def)

lemma all_well_keep: "keep s s' \<Longrightarrow> all_well s' = all_well s"
  by (simp add: keep_def all_well_def)

locale ring_column =
  fixes tag :: "addr \<Rightarrow> part" and rm :: "addr \<Rightarrow> istore \<Rightarrow> istore option"
  assumes rm_removes: "part_ok s (tag a) \<Longrightarrow> part_need s (tag a) \<subseteq> os_live s \<Longrightarrow>
    \<exists>s'. rm a s = Some s' \<and> removed s s' (tag a)"
begin

lemma rm_hold:
  assumes "holdm f L X (add_mset (tag a) M) s"
  shows "\<exists>s'. rm a s = Some s' \<and> holdm f L X M s'"
proof -
  have "part_ok s (tag a)" "part_need s (tag a) \<subseteq> os_live s" using holdmD [OF assms] by simp_all
  from rm_removes [OF this] holdm_removed [OF assms] show ?thesis by blast
qed

lemma undo_one_hold:
  assumes "holdm f L X (opt_m tag p + M) s" and "p \<noteq> NULL"
  shows "\<exists>s'. undo_one p rm s = Some s' \<and> holdm f L X M s'"
  using assms rm_hold by (auto simp: undo_one_def)

lemma undo_rings_hold:
  assumes "holdm f L X (cells tag col ws + M) s"
  shows "\<exists>s'. undo_rings col rm ws s = Some s' \<and> holdm f L X M s'"
  using assms
proof (induction ws arbitrary: s)
  case Nil
  then show ?case by simp
next
  case (Cons w ws)
  show ?case
  proof (cases "col w")
    case None
    with Cons show ?thesis by simp
  next
    case (Some a)
    with Cons.prems have "holdm f L X (add_mset (tag a) (cells tag col ws + M)) s" by simp
    from rm_hold [OF this] obtain s1 where "rm a s = Some s1" "holdm f L X (cells tag col ws + M) s1" by blast
    with Cons.IH [of s1] Some show ?thesis by simp
  qed
qed

end

text \<open>
  A loop that fills the column: \<open>body\<close> makes one part and records it with \<open>put\<close>.
\<close>

locale ring_maker = ring_column +
  fixes col :: "wrk_set \<Rightarrow> ptr" and put :: "ptr \<Rightarrow> wrk_set \<Rightarrow> wrk_set"
    and body :: "nat \<Rightarrow> wrk_set \<Rightarrow> errno option \<Rightarrow> istore \<Rightarrow> (bool \<times> wrk_set \<times> errno option \<times> istore) option"
    and pre :: "part multiset \<Rightarrow> istore \<Rightarrow> wrk_set \<Rightarrow> bool"
  assumes col_put: "col (put p w) = p" and put_null: "col w = NULL \<Longrightarrow> put NULL w = w"
    and pre_mono: "pre M s w \<Longrightarrow> keep s s' \<Longrightarrow> pre (M + N) s' w"
    and body_crash: "holdm f L X M s \<Longrightarrow> pre M s w \<Longrightarrow> body i w e s = None \<Longrightarrow> \<not> all_well s"
    and body_holds: "holdm f L X M s \<Longrightarrow> pre M s w \<Longrightarrow> body i w e s = Some (ok, w', e', s') \<Longrightarrow>
      \<exists>p Y. w' = put p w \<and> holdm f L (X \<union> Y) (opt_m tag p + M) s' \<and> keep s s' \<and>
        (e' = None \<longleftrightarrow> e = None) \<and> (ok \<longrightarrow> p \<noteq> NULL \<and> e' = e \<and> Y = {}) \<and> (\<exists>b. Y \<subseteq> {Block b}) \<and> (ok \<or> \<not> all_well s)"
begin

lemma for_rings_hold:
  assumes "holdm f L X M s" and "\<forall>w \<in> set ws. col w = NULL \<and> pre M s w"
  shows "case for_rings body i ws e s of None \<Rightarrow> \<not> all_well s
    | Some (ok, ws', e', s') \<Rightarrow> \<exists>Y. holdm f L (X \<union> Y) (cells tag col ws' + M) s' \<and> keep s s' \<and>
        list_all2 (\<lambda>w w'. w' = put (col w') w) ws ws' \<and> (e' = None \<longleftrightarrow> e = None) \<and>
        (ok \<longrightarrow> (\<forall>w \<in> set ws'. col w \<noteq> NULL) \<and> e' = e \<and> Y = {}) \<and> (\<exists>b. Y \<subseteq> {Block b}) \<and> (ok \<or> \<not> all_well s)"
  using assms
proof (induction ws arbitrary: i e s M)
  case Nil
  then show ?case by simp
next
  case (Cons w ws)
  have pw: "col w = NULL" "pre M s w" using Cons.prems(2) by simp_all
  show ?case
  proof (cases "body i w e s")
    case None
    with body_crash [OF Cons.prems(1) pw(2)] show ?thesis by simp
  next
    case (Some r)
    then obtain ok w1 e1 s1 where b: "body i w e s = Some (ok, w1, e1, s1)" by (cases r) auto
    from body_holds [OF Cons.prems(1) pw(2) b] obtain p Y where
      P: "w1 = put p w" "holdm f L (X \<union> Y) (opt_m tag p + M) s1" "keep s s1" "e1 = None \<longleftrightarrow> e = None"
        "ok \<longrightarrow> p \<noteq> NULL \<and> e1 = e \<and> Y = {}" "\<exists>b. Y \<subseteq> {Block b}" "ok \<or> \<not> all_well s" by blast
    note aw = all_well_keep [OF P(3)]
    have rest: "list_all2 (\<lambda>w w'. w' = put (col w') w) ws ws"
      using Cons.prems(2) put_null by (induction ws) auto
    have cn: "cells tag col ws = {#}" using Cons.prems(2) by (intro cells_null) simp
    show ?thesis
    proof (cases ok)
      case False
      with b P rest cn col_put show ?thesis by auto
    next
      case True
      with P have h1: "holdm f L X (opt_m tag p + M) s1" "p \<noteq> NULL" "e1 = e" by simp_all
      have "pre (opt_m tag p + M) s1 v" if "v \<in> set ws" for v
        using pre_mono [of M s v s1 "opt_m tag p"] Cons.prems(2) that P(3) by (simp add: add.commute)
      then have pr: "\<forall>v \<in> set ws. col v = NULL \<and> pre (opt_m tag p + M) s1 v" using Cons.prems(2) by simp
      note IH = Cons.IH [OF h1(1) pr, where i = "Suc i" and e = e1]
      show ?thesis
      proof (cases "for_rings body (Suc i) ws e1 s1")
        case None
        with IH have "\<not> all_well s1" by simp
        with aw None b True show ?thesis by simp
      next
        case (Some r')
        then obtain ok2 ws2 e2 s2 where r': "for_rings body (Suc i) ws e1 s1 = Some (ok2, ws2, e2, s2)" by (cases r') auto
        with IH obtain Y2 where Q: "holdm f L (X \<union> Y2) (cells tag col ws2 + (opt_m tag p + M)) s2" "keep s1 s2"
          "list_all2 (\<lambda>w w'. w' = put (col w') w) ws ws2" "e2 = None \<longleftrightarrow> e1 = None"
          "ok2 \<longrightarrow> (\<forall>w \<in> set ws2. col w \<noteq> NULL) \<and> e2 = e1 \<and> Y2 = {}" "\<exists>b. Y2 \<subseteq> {Block b}" "ok2 \<or> \<not> all_well s" using aw by auto
        have "holdm f L (X \<union> Y2) (cells tag col (w1 # ws2) + M) s2" using Q(1) P(1) col_put by (simp add: ac_simps)
        moreover have "keep s s2" using P(3) Q(2) by (rule keep_trans)
        ultimately show ?thesis using b True r' Q P(1) h1 col_put by (simp; intro exI [of _ Y2]; auto)
      qed
    qed
  qed
qed

end

lemma made_hold:
  assumes "holdm f L X M s" and "made s s' Y (opt_part tag p)"
  shows "holdm f L (X \<union> Y) (opt_m tag p + M) s'" "keep s s'"
  using holdm_made [OF assms(1), of s' Y "opt_m tag p"] assms(2)
  by (simp_all add: add.commute keep_def made_def)

lemma holdm_reg:
  assumes h: "holdm f L X M s" and a: "Sorter a \<in># M"
  shows "\<exists>r e' s'. reg_sorter a q t c ap e s = Some (r, e', s') \<and> holdm f L X M s' \<and> keep s s' \<and>
    (e' = None \<longleftrightarrow> e = None) \<and> (r = 0 \<or> r = -1) \<and> (r = 0 \<longrightarrow> e' = e) \<and> (r = 0 \<or> \<not> all_well s)"
  using hold_reg [OF holdmD(1) [OF h] a, of q t c ap e] reg_well [of s a q t c ap e] h by (auto simp: holdm_def keep_def)

lemma out_queue_of:
  assumes "holdm f L X M s" and "TxT t \<in># M"
  shows "\<exists>q. sin_tx_thread_get_out_queue t s = Some q"
  using holdmD(2) [OF assms] by (auto simp: sin_tx_thread_get_out_queue_def)

lemma zone_ctor_none: "sin_pkt_zone_ctor nm ring fd e s = None \<Longrightarrow> rings s ring \<noteq> None \<Longrightarrow> \<not> all_well s"
  by (auto dest: zone_ctor_well [where nm = nm and fd = fd and e = e])

lemma zone_ctor_hold:
  assumes "holdm f L X M s" and "sin_pkt_zone_ctor nm ring fd e s = Some (p, e', s')" and "rings s ring \<noteq> None"
  shows "\<exists>Y. holdm f L (X \<union> Y) (opt_m Zone p + M) s' \<and> keep s s' \<and> (e' = None \<longleftrightarrow> e = None) \<and>
    (p \<noteq> NULL \<longrightarrow> e' = e \<and> Y = {}) \<and> (\<exists>b. Y \<subseteq> {Block b}) \<and> (p \<noteq> NULL \<or> \<not> all_well s)"
proof -
  from zone_made [OF holdmD(4) [OF assms(1)] assms(2)] obtain Y where
    Y: "made s s' Y (opt_part Zone p)" "p \<noteq> NULL \<longrightarrow> Y = {} \<and> e' = e" "\<exists>b. Y \<subseteq> {Block b}" "e' = None \<longleftrightarrow> e = None"
    by blast
  moreover have "p \<noteq> NULL \<or> \<not> all_well s" using zone_ctor_well [of s ring _ nm fd e] assms(2,3) by fastforce
  ultimately show ?thesis using made_hold [OF assms(1) Y(1)] by blast
qed

interpretation zone_col: ring_column Zone sin_pkt_zone_dtor
  by unfold_locales (rule zone_removed)

interpretation sorter_col: ring_column Sorter rm_sorter
  by unfold_locales (rule sorter_removed)

interpretation tx_zones: ring_maker Zone sin_pkt_zone_dtor ws_tx_zone "\<lambda>p w. w\<lparr>ws_tx_zone := p\<rparr>"
  "\<lambda>i w e s. do { (z, e, s) \<leftarrow> sin_pkt_zone_ctor nm (ws_tx_ring w) fd e s;
     Some (z \<noteq> NULL, w\<lparr>ws_tx_zone := z\<rparr>, e, s) }"
  "\<lambda>M s w. rings s (ws_tx_ring w) \<noteq> None" for nm fd
proof unfold_locales
  fix f L X M s w e
  assume "holdm f L X M s" "rings s (ws_tx_ring w) \<noteq> None"
    "do { (z, e, s) \<leftarrow> sin_pkt_zone_ctor nm (ws_tx_ring w) fd e s;
     Some (z \<noteq> NULL, w\<lparr>ws_tx_zone := z\<rparr>, e, s) } = None"
  then show "\<not> all_well s" by (auto dest: zone_ctor_none split: Option.bind_splits)
next
  fix f L X M s w e ok w' e' s'
  assume h: "holdm f L X M s" and r: "rings s (ws_tx_ring w) \<noteq> None" and b: "do { (z, e, s) \<leftarrow> sin_pkt_zone_ctor nm (ws_tx_ring w) fd e s;
     Some (z \<noteq> NULL, w\<lparr>ws_tx_zone := z\<rparr>, e, s) } = Some (ok, w', e', s')"
  then obtain p where c: "sin_pkt_zone_ctor nm (ws_tx_ring w) fd e s = Some (p, e', s')"
    "w' = w\<lparr>ws_tx_zone := p\<rparr>" "ok = (p \<noteq> NULL)" by (auto split: Option.bind_splits)
  with zone_ctor_hold [OF h c(1) r] show "\<exists>p Y. w' = w\<lparr>ws_tx_zone := p\<rparr> \<and>
    holdm f L (X \<union> Y) (opt_m Zone p + M) s' \<and> keep s s' \<and> (e' = None \<longleftrightarrow> e = None) \<and>
    (ok \<longrightarrow> p \<noteq> NULL \<and> e' = e \<and> Y = {}) \<and> (\<exists>b. Y \<subseteq> {Block b}) \<and> (ok \<or> \<not> all_well s)" by blast
qed (auto simp: keep_def)

interpretation rx_zones: ring_maker Zone sin_pkt_zone_dtor ws_rx_zone "\<lambda>p w. w\<lparr>ws_rx_zone := p\<rparr>"
  "\<lambda>i w e s. do { (z, e, s) \<leftarrow> sin_pkt_zone_ctor nm (ws_rx_ring w) fd e s;
     Some (z \<noteq> NULL, w\<lparr>ws_rx_zone := z\<rparr>, e, s) }"
  "\<lambda>M s w. rings s (ws_rx_ring w) \<noteq> None" for nm fd
proof unfold_locales
  fix f L X M s w e
  assume "holdm f L X M s" "rings s (ws_rx_ring w) \<noteq> None"
    "do { (z, e, s) \<leftarrow> sin_pkt_zone_ctor nm (ws_rx_ring w) fd e s;
     Some (z \<noteq> NULL, w\<lparr>ws_rx_zone := z\<rparr>, e, s) } = None"
  then show "\<not> all_well s" by (auto dest: zone_ctor_none split: Option.bind_splits)
next
  fix f L X M s w e ok w' e' s'
  assume h: "holdm f L X M s" and r: "rings s (ws_rx_ring w) \<noteq> None" and b: "do { (z, e, s) \<leftarrow> sin_pkt_zone_ctor nm (ws_rx_ring w) fd e s;
     Some (z \<noteq> NULL, w\<lparr>ws_rx_zone := z\<rparr>, e, s) } = Some (ok, w', e', s')"
  then obtain p where c: "sin_pkt_zone_ctor nm (ws_rx_ring w) fd e s = Some (p, e', s')"
    "w' = w\<lparr>ws_rx_zone := p\<rparr>" "ok = (p \<noteq> NULL)" by (auto split: Option.bind_splits)
  with zone_ctor_hold [OF h c(1) r] show "\<exists>p Y. w' = w\<lparr>ws_rx_zone := p\<rparr> \<and>
    holdm f L (X \<union> Y) (opt_m Zone p + M) s' \<and> keep s s' \<and> (e' = None \<longleftrightarrow> e = None) \<and>
    (ok \<longrightarrow> p \<noteq> NULL \<and> e' = e \<and> Y = {}) \<and> (\<exists>b. Y \<subseteq> {Block b}) \<and> (ok \<or> \<not> all_well s)" by blast
qed (auto simp: keep_def)

lemma txt_hold:
  assumes "holdm f L X M s"
  shows "\<exists>p e' s'. sin_tx_thread_ctor w e s = Some (p, e', s') \<and> holdm f L X (opt_m TxT p + M) s' \<and> keep s s' \<and>
    (e' = None \<longleftrightarrow> e = None) \<and> (p \<noteq> NULL \<longrightarrow> e' = e) \<and> (p \<noteq> NULL \<or> \<not> all_well s)"
  using txt_made [OF holdmD(4) [OF assms], of w e] made_hold [OF assms, of _ "{}" TxT] txt_well [of s] by fastforce

lemma rxt_hold:
  assumes "holdm f L X M s"
  shows "\<exists>p e' s'. sin_rx_thread_ctor w e s = Some (p, e', s') \<and> holdm f L X (opt_m RxT p + M) s' \<and> keep s s' \<and>
    (e' = None \<longleftrightarrow> e = None) \<and> (p \<noteq> NULL \<longrightarrow> e' = e) \<and> (p \<noteq> NULL \<or> \<not> all_well s)"
  using rxt_made [OF holdmD(4) [OF assms], of w e] made_hold [OF assms, of _ "{}" RxT] rxt_well [of s] by fastforce

lemma sorter_hold:
  assumes "holdm f L X M s"
  shows "\<exists>p e' s'. ctor_sorter q e s = (p, e', s') \<and> holdm f L X (opt_m Sorter p + M) s' \<and> keep s s' \<and>
    (e' = None \<longleftrightarrow> e = None) \<and> (p \<noteq> NULL \<longrightarrow> e' = e) \<and> (p \<noteq> NULL \<or> \<not> all_well s)"
  using sorter_made [OF holdmD(4) [OF assms], of q e] made_hold [OF assms, of _ "{}" Sorter] sorter_well [of s] by fastforce

lemma ring_sorter_hold:
  assumes h: "holdm f L X M s" and t: "ws_tx_thread w = Some t" "TxT t \<in># M"
  shows "\<exists>ok e' s' p. ring_sorter q w e s = Some (ok, w\<lparr>ws_rx_sort := p\<rparr>, e', s') \<and>
    holdm f L X (opt_m Sorter p + M) s' \<and> keep s s' \<and> (e' = None \<longleftrightarrow> e = None) \<and> (ok \<longrightarrow> p \<noteq> NULL \<and> e' = e) \<and>
    (ok \<or> \<not> all_well s)"
proof -
  from sorter_hold [OF h, of q e] obtain p e1 s1 where
    1: "ctor_sorter q e s = (p, e1, s1)" "holdm f L X (opt_m Sorter p + M) s1" "keep s s1"
      "e1 = None \<longleftrightarrow> e = None" "p \<noteq> NULL \<longrightarrow> e1 = e" "p \<noteq> NULL \<or> \<not> all_well s" by blast
  show ?thesis
  proof (cases p)
    case None
    with 1 show ?thesis by (intro exI [of _ False] exI [of _ e1] exI [of _ s1] exI [of _ NULL]) (simp add: ring_sorter_def)
  next
    case (Some a)
    from out_queue_of [OF 1(2), of t] t(2) obtain oq where oq: "sin_tx_thread_get_out_queue t s1 = Some oq" by auto
    from holdm_reg [OF 1(2), of a oq icmp_taste_cb icmp_proc_cb NULL e1] Some obtain r e2 s2 where
      2: "reg_sorter a oq icmp_taste_cb icmp_proc_cb NULL e1 s1 = Some (r, e2, s2)"
        "holdm f L X (opt_m Sorter p + M) s2" "keep s1 s2" "e2 = None \<longleftrightarrow> e1 = None" "r = 0 \<longrightarrow> e2 = e1" "r = 0 \<or> \<not> all_well s1" by auto
    have "ring_sorter q w e s = Some (r = 0, w\<lparr>ws_rx_sort := p\<rparr>, e2, s2)"
      using 1(1) Some t(1) oq 2(1) by (simp add: ring_sorter_def)
    moreover have "keep s s2" using 1(3) 2(3) by (rule keep_trans)
    ultimately show ?thesis using 1(4,5) 2(2,4-) Some all_well_keep [OF 1(3)]
      by (intro exI [of _ "r = 0"] exI [of _ e2] exI [of _ s2] exI [of _ p]) simp
  qed
qed

interpretation sorter_rings: ring_maker Sorter rm_sorter ws_rx_sort "\<lambda>p w. w\<lparr>ws_rx_sort := p\<rparr>"
  "\<lambda>i. ring_sorter q" "\<lambda>M s w. \<exists>t. ws_tx_thread w = Some t \<and> TxT t \<in># M" for q
proof unfold_locales
  fix q f L X M s e and w :: wrk_set
  assume h: "holdm f L X M s" and "\<exists>t. ws_tx_thread w = Some t \<and> TxT t \<in># M"
  then obtain t where t: "ws_tx_thread w = Some t" "TxT t \<in># M" by blast
  from ring_sorter_hold [OF h t, of q e] obtain ok e' s' p where b: "ring_sorter q w e s = Some (ok, w\<lparr>ws_rx_sort := p\<rparr>, e', s')"
      "holdm f L X (opt_m Sorter p + M) s'" "keep s s'" "e' = None \<longleftrightarrow> e = None" "ok \<longrightarrow> p \<noteq> NULL \<and> e' = e" "ok \<or> \<not> all_well s" by blast
  {
    assume "ring_sorter q w e s = None"
    with b(1) show "\<not> all_well s" by simp
  }
  {
    fix ok1 w1 e1 s1
    assume "ring_sorter q w e s = Some (ok1, w1, e1, s1)"
    with b show "\<exists>p Y. w1 = w\<lparr>ws_rx_sort := p\<rparr> \<and> holdm f L (X \<union> Y) (opt_m Sorter p + M) s1 \<and> keep s s1 \<and>
        (e1 = None \<longleftrightarrow> e = None) \<and> (ok1 \<longrightarrow> p \<noteq> NULL \<and> e1 = e \<and> Y = {}) \<and> (\<exists>b. Y \<subseteq> {Block b}) \<and> (ok1 \<or> \<not> all_well s)"
      by (intro exI [of _ p] exI [of _ "{}"]) auto
  }
qed auto
end
