(* ===== verification/Sin_Stops.thy ===== *)
theory Sin_Stops
  imports Sin_Columns
begin

text \<open>
  The columns of the threads, under the assumption that a thread which is told to end does
  so (locale \<open>stops\<close>), and what the system calls of \<open>sin_init\<close> do to the parts held.
\<close>

subsection \<open>Threads that end when told to\<close>

locale stops =
  fixes run :: runner
  assumes run_ends: "ends run"

sublocale stops < tx_col: ring_column TxT "sin_tx_thread_dtor run"
  by unfold_locales (rule txt_removed [OF run_ends])

sublocale stops < rx_col: ring_column RxT "sin_rx_thread_dtor run"
  by unfold_locales (rule rxt_removed [OF run_ends])

text \<open>The shortest life: the thread does nothing but find the signal.\<close>

definition finish_now :: runner where
  "finish_now a s = map_option snd (sin_wrk_thread_check_ctrl a s)"

interpretation finish: stops finish_now
  by unfold_locales (simp add: ends_def finish_now_def quiet_def)

sublocale stops < tx_maker: ring_maker TxT "sin_tx_thread_dtor run" ws_tx_thread "\<lambda>p w. w\<lparr>ws_tx_thread := p\<rparr>"
  "\<lambda>i w e s. do { (t, e, s) \<leftarrow> sin_tx_thread_ctor w e s; Some (t \<noteq> NULL, w\<lparr>ws_tx_thread := t\<rparr>, e, s) }"
  "\<lambda>_ _ _. True"
proof unfold_locales
  fix f L X M s e and w :: wrk_set
  assume h: "holdm f L X M s"
  from txt_hold [OF h, of w e] obtain p e1 s1 where t: "sin_tx_thread_ctor w e s = Some (p, e1, s1)"
    "holdm f L X (opt_m TxT p + M) s1" "keep s s1" "e1 = None \<longleftrightarrow> e = None" "p \<noteq> NULL \<longrightarrow> e1 = e" "p \<noteq> NULL \<or> \<not> all_well s" by blast
  {
    assume "do { (t, e, s) \<leftarrow> sin_tx_thread_ctor w e s; Some (t \<noteq> NULL, w\<lparr>ws_tx_thread := t\<rparr>, e, s) } = None"
    with t(1) show "\<not> all_well s" by simp
  }
  {
    fix ok w' e' s'
    assume "do { (t, e, s) \<leftarrow> sin_tx_thread_ctor w e s; Some (t \<noteq> NULL, w\<lparr>ws_tx_thread := t\<rparr>, e, s) }
      = Some (ok, w', e', s')"
    with t show "\<exists>p Y. w' = w\<lparr>ws_tx_thread := p\<rparr> \<and> holdm f L (X \<union> Y) (opt_m TxT p + M) s' \<and> keep s s' \<and>
      (e' = None \<longleftrightarrow> e = None) \<and> (ok \<longrightarrow> p \<noteq> NULL \<and> e' = e \<and> Y = {}) \<and> (\<exists>b. Y \<subseteq> {Block b}) \<and> (ok \<or> \<not> all_well s)"
      by (intro exI [of _ p] exI [of _ "{}"]) auto
  }
qed auto

sublocale stops < rx_maker: ring_maker RxT "sin_rx_thread_dtor run" ws_rx_thread "\<lambda>p w. w\<lparr>ws_rx_thread := p\<rparr>"
  "\<lambda>i w e s. do { (t, e, s) \<leftarrow> sin_rx_thread_ctor w e s; Some (t \<noteq> NULL, w\<lparr>ws_rx_thread := t\<rparr>, e, s) }"
  "\<lambda>_ _ _. True"
proof unfold_locales
  fix f L X M s e and w :: wrk_set
  assume h: "holdm f L X M s"
  from rxt_hold [OF h, of w e] obtain p e1 s1 where t: "sin_rx_thread_ctor w e s = Some (p, e1, s1)"
    "holdm f L X (opt_m RxT p + M) s1" "keep s s1" "e1 = None \<longleftrightarrow> e = None" "p \<noteq> NULL \<longrightarrow> e1 = e" "p \<noteq> NULL \<or> \<not> all_well s" by blast
  {
    assume "do { (t, e, s) \<leftarrow> sin_rx_thread_ctor w e s; Some (t \<noteq> NULL, w\<lparr>ws_rx_thread := t\<rparr>, e, s) } = None"
    with t(1) show "\<not> all_well s" by simp
  }
  {
    fix ok w' e' s'
    assume "do { (t, e, s) \<leftarrow> sin_rx_thread_ctor w e s; Some (t \<noteq> NULL, w\<lparr>ws_rx_thread := t\<rparr>, e, s) }
      = Some (ok, w', e', s')"
    with t show "\<exists>p Y. w' = w\<lparr>ws_rx_thread := p\<rparr> \<and> holdm f L (X \<union> Y) (opt_m RxT p + M) s' \<and> keep s s' \<and>
      (e' = None \<longleftrightarrow> e = None) \<and> (ok \<longrightarrow> p \<noteq> NULL \<and> e' = e \<and> Y = {}) \<and> (\<exists>b. Y \<subseteq> {Block b}) \<and> (ok \<or> \<not> all_well s)"
      by (intro exI [of _ p] exI [of _ "{}"]) auto
  }
qed auto

subsection \<open>Blocks and descriptors\<close>

lemma blk_hold:
  assumes "holdm f L X (add_mset (Blk a) M) s"
  shows "\<exists>s'. free a s = Some s' \<and> holdm f L X M s'"
proof -
  have "Block a \<in> os_live s" using holdmD(3) [OF assms, of "Blk a"] by simp
  then have f: "free a s = Some (s\<lparr>os_live := os_live s - {Block a}\<rparr>)" by (simp add: free_def)
  have "removed s (s\<lparr>os_live := os_live s - {Block a}\<rparr>) (Blk a)"
    by (simp add: removed_def same_at_def)
  with f holdm_removed [OF assms] show ?thesis by blast
qed

lemma descr_hold:
  assumes "holdm f L X (add_mset (Descr fd) M) s"
  shows "holdm f L X M (sys_close fd s)"
proof -
  have "0 \<le> fd" using holdmD(2) [OF assms, of "Descr fd"] by simp
  then have "removed s (sys_close fd s) (Descr fd)" by (simp add: removed_def same_at_def sys_close_def)
  with assms show ?thesis by (rule holdm_removed)
qed

lemma malloc_hold:
  assumes h: "holdm f L X M s" and m: "malloc s = (p, s')"
  shows "holdm f L X (opt_m Blk p + M) s'" "keep s s'"
proof -
  have sane: "os_ok s" by (rule holdmD(4) [OF h])
  have "made s s' {} (opt_part Blk p)"
  proof (cases p)
    case None
    with m have s': "s' = s\<lparr>os_clock := Suc (os_clock s)\<rparr>" by (auto simp: malloc_def os_result_def split: if_splits)
    have "made s s' {} {}" unfolding s' by (rule made_none, rule grownI) (use sane in \<open>auto simp: os_ok_def same_at_def\<close>)
    with None show ?thesis by simp
  next
    case (Some a)
    with m have s': "a = os_fresh s" "s' = s\<lparr>os_clock := Suc (os_clock s), os_fresh := Suc (os_fresh s),
       os_live := insert (Block (os_fresh s)) (os_live s)\<rparr>"
      by (auto simp: malloc_def os_result_def split: if_splits)
    have "made s s' {} {Blk a}"
    proof (rule made_one)
      show "grown {..<os_fresh s} s s'" unfolding s'
        by (rule grownI) (use os_okD [OF sane] in \<open>auto simp: os_ok_def same_at_def intro: less_SucI\<close>)
    qed (auto simp: s' fp_def)
    with Some show ?thesis by simp
  qed
  from made_hold [OF h this] show "holdm f L X (opt_m Blk p + M) s'" "keep s s'" by simp_all
qed

lemma result_hold:
  assumes h: "holdm f L X M s"
  shows "holdm f L X M (s\<lparr>os_clock := n\<rparr>)"
proof -
  have "made s (s\<lparr>os_clock := n\<rparr>) {} {}"
    by (rule made_none, rule grownI) (use holdmD(4) [OF h] in \<open>auto simp: os_ok_def same_at_def\<close>)
  with made_hold [OF h, of _ "{}" Blk NULL] show ?thesis by simp
qed

lemma ioctl_hold:
  assumes "holdm f L X M s" and "sys_ioctl s = (r, err, s')"
  shows "holdm f L X M s'" "keep s s'"
  using assms result_hold by (auto simp: sys_ioctl_def os_result_def keep_def split: if_splits)

definition fd_m :: "int \<Rightarrow> part multiset" where
  "fd_m fd = (if fd = -1 then {#} else {#Descr fd#})"

definition fds :: "wrk_set list \<Rightarrow> part multiset" where
  "fds ws = sum_list (map (\<lambda>w. fd_m (ws_queue_fd w)) ws)"

lemma fds_simps [simp]: "fds [] = {#}" "fds (w # ws) = fd_m (ws_queue_fd w) + fds ws"
  by (simp_all add: fds_def)

lemma open_hold:
  assumes h: "holdm f L X M s" and o': "sys_open s = (fd, err, s')"
  shows "holdm f L X (fd_m fd + M) s'" "keep s s'" "fd < 0 \<longleftrightarrow> fd = -1"
proof -
  have sane: "os_ok s" by (rule holdmD(4) [OF h])
  consider "fd = -1" "s' = s\<lparr>os_clock := Suc (os_clock s)\<rparr>"
    | "fd = int (os_fresh s)" "s' = s\<lparr>os_clock := Suc (os_clock s), os_fresh := Suc (os_fresh s),
       os_live := insert (Fd (os_fresh s)) (os_live s)\<rparr>"
    using o' by (auto simp: sys_open_def acquire_def os_result_def split: if_splits)
  then have "holdm f L X (fd_m fd + M) s' \<and> keep s s' \<and> (fd < 0 \<longleftrightarrow> fd = -1)"
  proof cases
    case 1
    with result_hold [OF h] show ?thesis by (simp add: fd_m_def keep_def)
  next
    case 2
    have "made s s' {} (set_mset {#Descr fd#})"
      unfolding set_mset_single
    proof (rule made_one)
      show "grown {..<os_fresh s} s s'" unfolding 2
        by (rule grownI) (use os_okD [OF sane] in \<open>auto simp: os_ok_def same_at_def intro: less_SucI\<close>)
    qed (auto simp: 2 fp_def)
    from holdm_made [OF h this] 2 show ?thesis by (simp add: fd_m_def keep_def)
  qed
  then show "holdm f L X (fd_m fd + M) s'" "keep s s'" "fd < 0 \<longleftrightarrow> fd = -1" by simp_all
qed

lemma mmap_hold:
  assumes h: "holdm f L X M s" and o': "sys_mmap s = (p, err, s')"
  shows "\<exists>Y. holdm f L (X \<union> Y) M s' \<and> keep s s' \<and> (\<exists>m. Y \<subseteq> {Mapped m})"
proof -
  have sane: "os_ok s" by (rule holdmD(4) [OF h])
  consider "s' = s\<lparr>os_clock := Suc (os_clock s)\<rparr>"
    | "s' = s\<lparr>os_clock := Suc (os_clock s), os_fresh := Suc (os_fresh s),
       os_live := insert (Mapped (os_fresh s)) (os_live s)\<rparr>"
    using o' by (auto simp: sys_mmap_def acquire_def os_result_def split: if_splits)
  then show ?thesis
  proof cases
    case 1
    with result_hold [OF h] show ?thesis by (intro exI [of _ "{}"]) (simp add: keep_def)
  next
    case 2
    have "made s s' {Mapped (os_fresh s)} (set_mset {#})"
    proof (rule madeI)
      show "grown {..<os_fresh s} s s'" unfolding 2
        by (rule grownI) (use os_okD [OF sane] in \<open>auto simp: os_ok_def same_at_def intro: less_SucI\<close>)
    qed (auto simp: 2)
    from holdm_made [OF h this] 2 show ?thesis by (intro exI [of _ "{Mapped (os_fresh s)}"]) (simp add: keep_def)
  qed
qed

lemma close_rings_hold: "holdm f L X (fds ws + M) s \<Longrightarrow> holdm f L X M (close_rings ws s)"
proof (induction ws arbitrary: s)
  case (Cons w ws)
  then have "holdm f L X (fds ws + M) (if ws_queue_fd w \<noteq> -1 then sys_close (ws_queue_fd w) s else s)"
    using descr_hold by (auto simp: fd_m_def)
  with Cons.IH show ?case by simp
qed simp

lemma set_ifnot_hold:
  assumes h: "holdm f L X M s" and r: "set_ifnot_err grr e s = (fd, grr', e', s')"
  shows "holdm f L X (fd_m fd + M) s'" "keep s s'" "grr' = 0 \<Longrightarrow> grr = 0 \<and> e' = e \<and> fd \<noteq> -1" "e' = None \<longleftrightarrow> e = None"
  using r open_hold [OF h] h
  by (auto simp: set_ifnot_err_def fd_m_def SET_ERR_def split: if_splits prod.splits)

lemma open_rings_hold:
  assumes "holdm f L X M s" and "open_rings ws grr e s = (ws', grr', e', s')"
  shows "holdm f L X (fds ws' + M) s' \<and> keep s s' \<and> (grr' = 0 \<longrightarrow> grr = 0 \<and> e' = e) \<and> (e' = None \<longleftrightarrow> e = None) \<and>
    list_all2 (\<lambda>w w'. w' = w\<lparr>ws_queue_fd := ws_queue_fd w'\<rparr>) ws ws'"
  using assms
proof (induction ws arbitrary: M grr e s ws' grr' e' s')
  case (Cons w ws)
  obtain fd g1 e1 s1 where 1: "set_ifnot_err grr e s = (fd, g1, e1, s1)" by (cases "set_ifnot_err grr e s")
  obtain ws2 g2 e2 s2 where 2: "open_rings ws g1 e1 s1 = (ws2, g2, e2, s2)" by (cases "open_rings ws g1 e1 s1")
  note S = set_ifnot_hold [OF Cons.prems(1) 1]
  have r: "ws' = w\<lparr>ws_queue_fd := fd\<rparr> # ws2" "grr' = g2" "e' = e2" "s' = s2" using Cons.prems(2) 1 2 by auto
  from Cons.IH [OF S(1) 2] S r show ?case by (auto simp: ac_simps intro: keep_trans)
qed simp
end
