(* ===== verification/Sin_Undo.thy ===== *)
theory Sin_Undo
  imports Sin_Stops
begin

text \<open>
  The undo labels of \<open>sin_init\<close>: each gives back exactly the parts that are held when the
  constructor jumps to it.
\<close>

text \<open>The parts that each undo label, falling through to the last, has to give back.\<close>

definition parts_1 :: "sin_stance \<Rightarrow> part multiset" where
  "parts_1 sip = {#Descr (netmap_fd sip), Blk (sip_addr sip)#}"

definition parts_2 :: "sin_stance \<Rightarrow> part multiset" where
  "parts_2 sip = fds (phy sip) + (fd_m (ws_queue_fd (hst sip)) + add_mset (Blk (phy_blk sip)) (parts_1 sip))"

definition parts_3 :: "sin_stance \<Rightarrow> part multiset" where
  "parts_3 sip = cells Zone ws_tx_zone (phy sip) + parts_2 sip"

definition parts_4 :: "sin_stance \<Rightarrow> part multiset" where
  "parts_4 sip = cells Zone ws_rx_zone (phy sip) + parts_3 sip"

definition parts_5 :: "sin_stance \<Rightarrow> part multiset" where
  "parts_5 sip = opt_m Zone (ws_tx_zone (hst sip)) + parts_4 sip"

definition parts_7 :: "sin_stance \<Rightarrow> part multiset" where
  "parts_7 sip = cells TxT ws_tx_thread (phy sip) + (opt_m Zone (ws_rx_zone (hst sip)) + parts_5 sip)"

definition parts_9 :: "sin_stance \<Rightarrow> part multiset" where
  "parts_9 sip = cells Sorter ws_rx_sort (phy sip) + (opt_m TxT (ws_tx_thread (hst sip)) + parts_7 sip)"

definition parts_10 :: "sin_stance \<Rightarrow> part multiset" where
  "parts_10 sip = cells RxT ws_rx_thread (phy sip) + parts_9 sip"

definition parts_11 :: "sin_stance \<Rightarrow> part multiset" where
  "parts_11 sip = opt_m Sorter (ws_rx_sort (hst sip)) + parts_10 sip"

definition sip_parts :: "sin_stance \<Rightarrow> part multiset" where
  "sip_parts sip = opt_m RxT (ws_rx_thread (hst sip)) + parts_11 sip"

lemmas parts_defs = sip_parts_def parts_11_def parts_10_def parts_9_def parts_7_def parts_5_def
  parts_4_def parts_3_def parts_2_def parts_1_def

definition undone :: "nat \<Rightarrow> resource set \<Rightarrow> resource set \<Rightarrow> istore option \<Rightarrow> bool" where
  "undone f L X r \<longleftrightarrow> (\<exists>s'. r = Some s' \<and> holdm f L X {#} s')"

lemma undone_bind: "\<exists>s1. m = Some s1 \<and> holdm f L X M s1 \<Longrightarrow>
    (\<And>s1. holdm f L X M s1 \<Longrightarrow> undone f L X (k s1)) \<Longrightarrow> undone f L X (Option.bind m k)"
  by auto

lemma undo_0_hold: "holdm f L X {#Blk (sip_addr sip)#} s \<Longrightarrow> undone f L X (init_undo_0 sip s)"
  using blk_hold [of f L X "sip_addr sip" "{#}" s] by (simp add: undone_def init_undo_0_def)

lemma undo_1_hold: "holdm f L X (parts_1 sip) s \<Longrightarrow> undone f L X (init_undo_1 sip s)"
  unfolding init_undo_1_def parts_1_def by (intro undo_0_hold descr_hold) simp

lemma close_fd_hold:
  "holdm f L X (fd_m fd + M) s \<Longrightarrow> holdm f L X M (if fd \<noteq> -1 then sys_close fd s else s)"
  using descr_hold [of f L X fd M s] by (simp add: fd_m_def split: if_splits)

lemma undo_2_hold:
  assumes "holdm f L X (parts_2 sip) s"
  shows "undone f L X (init_undo_2 sip s)"
proof -
  let ?s1 = "close_rings (phy sip) s"
  let ?s2 = "if ws_queue_fd (hst sip) \<noteq> -1 then sys_close (ws_queue_fd (hst sip)) ?s1 else ?s1"
  have "holdm f L X (fd_m (ws_queue_fd (hst sip)) + add_mset (Blk (phy_blk sip)) (parts_1 sip)) ?s1"
    using close_rings_hold assms by (simp add: parts_2_def)
  then have "holdm f L X (add_mset (Blk (phy_blk sip)) (parts_1 sip)) ?s2"
    by (rule close_fd_hold)
  from undone_bind [OF blk_hold [OF this] undo_1_hold]
  show ?thesis by (simp add: init_undo_2_def Let_def)
qed

lemma undo_3_hold: "holdm f L X (parts_3 sip) s \<Longrightarrow> undone f L X (init_undo_3 sip s)"
  unfolding init_undo_3_def parts_3_def
  by (rule undone_bind [OF zone_col.undo_rings_hold undo_2_hold])

lemma undo_4_hold: "holdm f L X (parts_4 sip) s \<Longrightarrow> undone f L X (init_undo_4 sip s)"
  unfolding init_undo_4_def parts_4_def
  by (rule undone_bind [OF zone_col.undo_rings_hold undo_3_hold])

lemma undo_5_hold: "holdm f L X (parts_5 sip) s \<Longrightarrow> ws_tx_zone (hst sip) \<noteq> NULL \<Longrightarrow>
    undone f L X (init_undo_5 sip s)"
  unfolding init_undo_5_def parts_5_def
  by (rule undone_bind [OF zone_col.undo_one_hold undo_4_hold])

context stops
begin

lemma undo_7_hold: "holdm f L X (parts_7 sip) s \<Longrightarrow> ws_tx_zone (hst sip) \<noteq> NULL \<Longrightarrow>
    ws_rx_zone (hst sip) \<noteq> NULL \<Longrightarrow> undone f L X (init_undo_7 run sip s)"
  unfolding init_undo_7_def parts_7_def
  by (rule undone_bind [OF tx_col.undo_rings_hold undone_bind [OF zone_col.undo_one_hold undo_5_hold]])

lemma undo_9_hold: "holdm f L X (parts_9 sip) s \<Longrightarrow> ws_tx_zone (hst sip) \<noteq> NULL \<Longrightarrow>
    ws_rx_zone (hst sip) \<noteq> NULL \<Longrightarrow> ws_tx_thread (hst sip) \<noteq> NULL \<Longrightarrow>
    undone f L X (init_undo_9 run sip s)"
  unfolding init_undo_9_def parts_9_def
  by (rule undone_bind [OF sorter_col.undo_rings_hold undone_bind [OF tx_col.undo_one_hold undo_7_hold]])

lemma undo_10_hold: "holdm f L X (parts_10 sip) s \<Longrightarrow> ws_tx_zone (hst sip) \<noteq> NULL \<Longrightarrow>
    ws_rx_zone (hst sip) \<noteq> NULL \<Longrightarrow> ws_tx_thread (hst sip) \<noteq> NULL \<Longrightarrow>
    undone f L X (init_undo_10 run sip s)"
  unfolding init_undo_10_def parts_10_def
  by (rule undone_bind [OF rx_col.undo_rings_hold undo_9_hold])

lemma undo_11_hold: "holdm f L X (parts_11 sip) s \<Longrightarrow> ws_tx_zone (hst sip) \<noteq> NULL \<Longrightarrow>
    ws_rx_zone (hst sip) \<noteq> NULL \<Longrightarrow> ws_tx_thread (hst sip) \<noteq> NULL \<Longrightarrow> ws_rx_sort (hst sip) \<noteq> NULL \<Longrightarrow>
    undone f L X (init_undo_11 run sip s)"
  unfolding init_undo_11_def parts_11_def
  by (rule undone_bind [OF sorter_col.undo_one_hold undo_10_hold])

end

end
