(* ===== verification/Sin_Stage.thy ===== *)
theory Sin_Stage
  imports Sin_Undo
begin

text \<open>
  The constructor as a sequence of stages, and the first of them: the structure, the device,
  the working sets and the descriptors.
\<close>

subsection \<open>Columns and the loops that fill them\<close>

lemma put_cells:
  assumes "list_all2 (\<lambda>w w'. w' = put (c w') w) ws ws'" and "\<And>p w. col (put p w) = col w"
  shows "cells tag col ws' = cells tag col ws"
  using assms(1) by (induction rule: list_all2_induct) (auto simp: assms(2), metis assms(2))

lemma put_fds:
  assumes "list_all2 (\<lambda>w w'. w' = put (c w') w) ws ws'" and "\<And>p w. ws_queue_fd (put p w) = ws_queue_fd w"
  shows "fds ws' = fds ws"
  using assms(1) by (induction rule: list_all2_induct) (auto, metis assms(2))

lemma put_all:
  assumes "list_all2 (\<lambda>w w'. w' = put (c w') w) ws ws'" and "\<And>p w. P (put p w) = P w"
  shows "(\<forall>w \<in> set ws'. P w) = (\<forall>w \<in> set ws. P w)"
  using assms(1) by (induction rule: list_all2_induct) (auto, (metis assms(2))+)

lemma put_length: "list_all2 P ws ws' \<Longrightarrow> length ws' = length ws"
  by (simp add: list_all2_lengthD)

lemma cells_mem: "w \<in> set ws \<Longrightarrow> col w = Some t \<Longrightarrow> tag t \<in># cells tag col ws"
  by (induction ws) auto

subsection \<open>The stages of the constructor\<close>

type_synonym init_result = "(errno option \<times> istore + sin_stance \<times> errno option \<times> istore) option"

text \<open>
  After a stage: if a call has failed, either a zone constructor has committed a memory error
  or everything has been undone; otherwise the stage is complete and \<open>post\<close> holds of the
  instance and the state.
\<close>

definition stage :: "nat \<Rightarrow> resource set \<Rightarrow> istore \<Rightarrow> errno option \<Rightarrow>
    (resource set \<Rightarrow> sin_stance \<Rightarrow> istore \<Rightarrow> bool) \<Rightarrow> init_result \<Rightarrow> bool" where
  "stage f L s0 e post r \<longleftrightarrow> (case r of
     None \<Rightarrow> \<not> all_well s0
   | Some (Inl (e', s')) \<Rightarrow> \<not> all_well s0 \<and> (e' = None \<longleftrightarrow> e = None) \<and>
       (\<exists>m b. holdm f L {Mapped m, Block b} {#} s')
   | Some (Inr (sip, e', s')) \<Rightarrow> e' = e \<and> keep s0 s' \<and> (\<exists>m. post {Mapped m} sip s'))"

lemma holdm_wider:
  assumes "holdm f L X M s" and "X \<subseteq> Y"
  shows "holdm f L Y M s"
proof -
  have "hold f L X (set_mset M) s" using assms(1) by (simp add: holdm_def)
  then have "hold f L Y (set_mset M) s" using assms(2) by (auto simp: hold_def)
  then show ?thesis using assms(1) by (simp add: holdm_def)
qed

lemma stage_give_up:
  assumes "undone f L X (u s)" and "X \<subseteq> {Mapped m, Block b}" and "e' = None \<longleftrightarrow> e = None"
    and "\<not> all_well s0"
  shows "stage f L s0 e post (give_up u e' s)"
proof -
  from assms(1) obtain s' where s': "u s = Some s'" "holdm f L X {#} s'" by (auto simp: undone_def)
  from holdm_wider [OF s'(2) assms(2)] s'(1) assms(3,4) show ?thesis
    by (auto simp: stage_def give_up_def)
qed

lemma stage_and_then:
  assumes "stage f L s0 e post r"
    and "\<And>m sip s. post {Mapped m} sip s \<Longrightarrow> keep s0 s \<Longrightarrow> stage f L s e post' (k sip e s)"
  shows "stage f L s0 e post' (and_then r k)"
proof (cases r)
  case None
  with assms(1) show ?thesis by (simp add: stage_def and_then_def)
next
  case (Some x)
  show ?thesis
  proof (cases x)
    case (Inl y)
    with Some assms(1) show ?thesis by (cases y) (simp add: stage_def and_then_def)
  next
    case (Inr y)
    obtain sip e' s where y: "y = (sip, e', s)" by (cases y)
    with Some Inr assms(1) obtain m where p: "e' = e" "keep s0 s" "post {Mapped m} sip s"
      by (auto simp: stage_def)
    have "stage f L s e post' (k sip e s)" by (rule assms(2) [OF p(3,2)])
    then have "stage f L s0 e post' (k sip e s)"
      using p(2) all_well_keep [OF p(2)] keep_trans
      by (auto simp: stage_def split: option.splits sum.splits)
    then show ?thesis using Some Inr y p(1) by (simp add: and_then_def)
  qed
qed

lemma calls_well:
  "malloc s = (None, s') \<Longrightarrow> \<not> all_well s" "sys_open s = (fd, err, s') \<Longrightarrow> fd < 0 \<Longrightarrow> \<not> all_well s"
  "sys_ioctl s = (r, err, s') \<Longrightarrow> r < 0 \<Longrightarrow> \<not> all_well s" "sys_mmap s = (None, err, s') \<Longrightarrow> \<not> all_well s"
  "set_ifnot_err g e s = (fd, g', e', s') \<Longrightarrow> g' \<noteq> 0 \<Longrightarrow> g \<noteq> 0 \<or> \<not> all_well s"
  by (auto simp: os_defs sys_ioctl_def set_ifnot_err_def all_well_def split: if_splits)

lemma open_rings_well:
  "open_rings ws g e s = (ws', g', e', s') \<Longrightarrow> holdm f L X M s \<Longrightarrow> g' \<noteq> 0 \<Longrightarrow> g \<noteq> 0 \<or> \<not> all_well s"
proof (induction ws arbitrary: M g e s ws')
  case (Cons w ws)
  obtain fd g1 e1 s1 where 1: "set_ifnot_err g e s = (fd, g1, e1, s1)" by (cases "set_ifnot_err g e s")
  obtain ws2 where 2: "open_rings ws g1 e1 s1 = (ws2, g', e', s')"
    using Cons.prems(1) 1 by (cases "open_rings ws g1 e1 s1") simp
  note S = set_ifnot_hold [OF Cons.prems(2) 1]
  from Cons.IH [OF 2 S(1) Cons.prems(3)] calls_well(5) [OF 1] all_well_keep [OF S(2)] show ?case by blast
qed simp

definition no_ptrs :: "wrk_set \<Rightarrow> bool" where
  "no_ptrs w \<longleftrightarrow> ws_tx_zone w = NULL \<and> ws_rx_zone w = NULL \<and> ws_tx_thread w = NULL \<and>
     ws_rx_thread w = NULL \<and> ws_rx_sort w = NULL"

definition opened :: "nat \<Rightarrow> resource set \<Rightarrow> netmap_dev \<Rightarrow> resource set \<Rightarrow> sin_stance \<Rightarrow> istore \<Rightarrow> bool" where
  "opened f L dev X sip s \<longleftrightarrow> holdm f L X (parts_2 sip) s \<and> no_ptrs (hst sip) \<and>
     (\<forall>w \<in> set (phy sip). no_ptrs w) \<and> nrings sip = int (length (phy sip)) \<and>
     length (phy sip) = unat (nr_rx_rings dev) \<and> sip_type sip = SIN_TYPE_SINSTANCE \<and> sin_nref sip = 0"

lemma init_open_stage:
  assumes "holdm f L {} {#} s"
  shows "stage f L s e (opened f L dev) (init_open dev e s)"
proof -
  obtain p s1 where 1: "malloc s = (p, s1)" by (cases "malloc s")
  note H1 = malloc_hold [OF assms 1]
  show ?thesis
  proof (cases p)
    case None
    with 1 H1(1) holdm_wider [of f L "{}" "{#}" s1] calls_well(1) [of s s1] show ?thesis
      by (auto simp: init_open_def stage_def SET_ERR_def)
  next
    case (Some a)
    obtain fd err s2 where 2: "sys_open s1 = (fd, err, s2)" by (cases "sys_open s1")
    have h1: "holdm f L {} {#Blk a#} s1" using H1(1) Some by simp
    note H2 = open_hold [OF h1 2] and w1 = all_well_keep [OF H1(2)]
    let ?sip = "(sin_stance_zero a)\<lparr>netmap_fd := fd\<rparr>"
    show ?thesis
    proof (cases "fd < 0")
      case True
      with H2 have hx: "holdm f L {} {#Blk (sip_addr ?sip)#} s2" by (simp add: fd_m_def sin_stance_zero_def)
      have eq: "init_open dev e s = give_up (init_undo_0 ?sip) (SET_ERR e (Errno err)) s2"
        using 1 Some 2 True by (simp add: init_open_def Let_def)
      from stage_give_up [where u = "init_undo_0 ?sip" and s = s2 and e' = "SET_ERR e (Errno err)" and e = e, OF undo_0_hold [OF hx]]
      show ?thesis using calls_well(2) [OF 2 True] w1 by (simp add: eq SET_ERR_def)
    next
      case False
      with H2(1,3) have h2: "holdm f L {} (parts_1 ?sip) s2" by (simp add: fd_m_def parts_1_def sin_stance_zero_def add_mset_commute)
      obtain r err2 s3 where 3: "sys_ioctl s2 = (r, err2, s3)" by (cases "sys_ioctl s2")
      note H3 = ioctl_hold [OF h2 3]
      have w2: "all_well s2 = all_well s" using all_well_keep [OF H2(2)] w1 by simp
      then have w3: "all_well s3 = all_well s" using all_well_keep [OF H3(2)] by simp
      show ?thesis
      proof (cases "r < 0")
        case True
        have eq: "init_open dev e s = give_up (init_undo_1 ?sip) (SET_ERR e (Errno err2)) s3"
          using 1 Some 2 False 3 True by (simp add: init_open_def Let_def)
        from stage_give_up [where u = "init_undo_1 ?sip" and s = s3 and e' = "SET_ERR e (Errno err2)" and e = e, OF undo_1_hold [OF H3(1)]]
        show ?thesis using calls_well(3) [OF 3 True] w2 by (simp add: eq SET_ERR_def)
      next
        case r: False
        obtain m err3 s4 where 4: "sys_mmap s3 = (m, err3, s4)" by (cases "sys_mmap s3")
        obtain Y y where Y: "holdm f L ({} \<union> Y) (parts_1 ?sip) s4" "keep s3 s4" "Y \<subseteq> {Mapped y}"
          using mmap_hold [OF H3(1) 4] by blast
        have H4: "holdm f L {Mapped y} (parts_1 ?sip) s4" by (rule holdm_wider [OF Y(1)]) (use Y(3) in simp)
        have w4: "all_well s4 = all_well s" using all_well_keep [OF Y(2)] w3 by simp
        show ?thesis
        proof (cases m)
          case None
          have hx: "holdm f L {Mapped y} (parts_1 (?sip\<lparr>sip_mem := NULL\<rparr>)) s4" using H4(1) by (simp add: parts_1_def)
          have eq: "init_open dev e s = give_up (init_undo_1 (?sip\<lparr>sip_mem := NULL\<rparr>)) (SET_ERR e (Errno err3)) s4"
            using 1 Some 2 False 3 r 4 None by (simp add: init_open_def Let_def)
          from stage_give_up [where u = "init_undo_1 (?sip\<lparr>sip_mem := NULL\<rparr>)" and s = s4 and m = y and e' = "SET_ERR e (Errno err3)" and e = e, OF undo_1_hold [OF hx]]
          show ?thesis using calls_well(4) [OF 4 [unfolded None]] w3 by (simp add: eq SET_ERR_def)
        next
          case m: (Some ma)
          let ?n = "nat (uint (nr_rx_rings dev))"
          let ?sip' = "?sip\<lparr>sip_mem := m, nrings := uint (nr_rx_rings dev)\<rparr>"
          obtain q s5 where 5: "malloc s4 = (q, s5)" by (cases "malloc s4")
          note H5 = malloc_hold [OF H4(1) 5]
          show ?thesis
          proof (cases q)
            case None
            have hx: "holdm f L {Mapped y} (parts_1 ?sip') s5" using H5(1) None by (simp add: parts_1_def)
            have eq: "init_open dev e s = give_up (init_undo_1 ?sip') (SET_ERR e ENOMEM) s5"
              using 1 Some 2 False 3 r 4 m 5 None by (simp add: init_open_def Let_def)
            from stage_give_up [where u = "init_undo_1 ?sip'" and s = s5 and m = y and e' = "SET_ERR e ENOMEM" and e = e, OF undo_1_hold [OF hx]]
            show ?thesis using calls_well(1) [OF 5 [unfolded None]] w4 by (simp add: eq SET_ERR_def)
          next
            case q: (Some b)
            obtain ws g e6 s6 where 6: "open_rings (replicate ?n wrk_set_zero) 0 e s5 = (ws, g, e6, s6)"
              by (cases "open_rings (replicate ?n wrk_set_zero) 0 e s5")
            obtain hfd g7 e7 s7 where 7: "set_ifnot_err g e6 s6 = (hfd, g7, e7, s7)" by (cases "set_ifnot_err g e6 s6")
            note H6 = open_rings_hold [OF H5(1) 6]
            note H7 = set_ifnot_hold [OF conjunct1 [OF H6] 7]
            let ?s' = "?sip'\<lparr>phy_blk := b, phy := ws, hst := (hst ?sip')\<lparr>ws_queue_fd := hfd\<rparr>\<rparr>"
            have h7: "holdm f L {Mapped y} (parts_2 ?s') s7"
              using H7(1) q by (simp add: parts_2_def parts_1_def ac_simps sin_stance_zero_def add_mset_commute)
            have eq: "init_open dev e s = (if g7 \<noteq> 0 then give_up (init_undo_2 ?s') e7 s7 else Some (Inr (?s', e7, s7)))"
              using 1 Some 2 False 3 r 4 m 5 q 6 7 by (simp add: init_open_def Let_def)
            have w5: "all_well s5 = all_well s" using all_well_keep [OF H5(2)] w4 by simp
            have w6: "all_well s6 = all_well s" using all_well_keep [of s5 s6] H6 w5 by simp
            have nw: "\<not> all_well s" if "g7 \<noteq> 0"
              using calls_well(5) [OF 7 that] open_rings_well [OF 6 H5(1)] w5 w6 by blast
            have ee: "e7 = None \<longleftrightarrow> e = None" using H6 H7(4) by simp
            show ?thesis
            proof (cases "g7 = 0")
              case False
              from stage_give_up [where u = "init_undo_2 ?s'" and s = s7 and m = y and e' = e7 and e = e, OF undo_2_hold [OF h7]] ee show ?thesis
                using eq False nw by simp
            next
              case True
              have l2: "list_all2 (\<lambda>w w'. w' = w\<lparr>ws_queue_fd := ws_queue_fd w'\<rparr>) (replicate ?n wrk_set_zero) ws"
                using H6 by simp
              have "\<forall>w \<in> set ws. no_ptrs w"
                using put_all [of "\<lambda>p w. w\<lparr>ws_queue_fd := p\<rparr>" ws_queue_fd, OF l2, of no_ptrs]
                by (simp add: no_ptrs_def wrk_set_zero_def)
              moreover have "length ws = ?n" using put_length [OF l2] by simp
              ultimately have "opened f L dev {Mapped y} ?s' s7"
                using h7 by (simp add: opened_def no_ptrs_def sin_stance_zero_def wrk_set_zero_def)
              moreover have "keep s s7"
                using H1(2) H2(2) H3(2) Y(2) H5(2) H6 H7(2) by (simp add: keep_def)
              ultimately show ?thesis using eq True H6 H7(3) by (auto simp: stage_def)
            qed
          qed
        qed
      qed
    qed
  qed
qed

end
