(* ===== verification/Sin_Patterns.thy ===== *)
theory Sin_Patterns
  imports Sin_Stage
begin

text \<open>
  Binding the descriptors to their rings, and the two patterns the later stages of the
  constructor follow: a loop that fills a column of the working sets, and one object for the
  host ring.
\<close>

subsection \<open>What the stages build\<close>

definition shape :: "netmap_dev \<Rightarrow> sin_stance \<Rightarrow> bool" where
  "shape dev sip \<longleftrightarrow> nrings sip = int (length (phy sip)) \<and> length (phy sip) = unat (nr_rx_rings dev) \<and>
     sip_type sip = SIN_TYPE_SINSTANCE \<and> sin_nref sip = 0"

definition filled :: "bool \<Rightarrow> bool \<Rightarrow> bool \<Rightarrow> bool \<Rightarrow> bool \<Rightarrow> wrk_set \<Rightarrow> bool" where
  "filled tz rz t so r w \<longleftrightarrow> (ws_tx_zone w \<noteq> NULL) = tz \<and> (ws_rx_zone w \<noteq> NULL) = rz \<and>
     (ws_tx_thread w \<noteq> NULL) = t \<and> (ws_rx_sort w \<noteq> NULL) = so \<and> (ws_rx_thread w \<noteq> NULL) = r"

definition has_rings :: "istore \<Rightarrow> wrk_set \<Rightarrow> bool" where
  "has_rings s w \<longleftrightarrow> rings s (ws_tx_ring w) \<noteq> None \<and> rings s (ws_rx_ring w) \<noteq> None"

lemma has_rings_keep: "keep s s' \<Longrightarrow> has_rings s' = has_rings s"
  by (auto simp: has_rings_def keep_def fun_eq_iff)

lemma opened_filled: "no_ptrs = filled False False False False False"
  by (auto simp: no_ptrs_def filled_def fun_eq_iff)

definition built :: "bool \<Rightarrow> bool \<Rightarrow> bool \<Rightarrow> bool \<Rightarrow> bool \<Rightarrow> netmap_dev \<Rightarrow> sin_stance \<Rightarrow> bool" where
  "built tz rz t so r dev sip \<longleftrightarrow> shape dev sip \<and> (\<forall>w \<in> set (phy sip). filled tz rz t so r w)"

subsection \<open>Binding the rings\<close>

lemma register_rings:
  assumes "holdm f L X M s" and "\<forall>k < length ws. rings s (NETMAP_RXRING dev (i + k)) \<noteq> None \<and>
      rings s (NETMAP_TXRING dev (i + k)) \<noteq> None"
  shows "\<exists>ok ws' e' s'. for_rings (\<lambda>i w e s.
        let (r, err, s) = sys_ioctl s in
        if r < 0 then Some (False, w, SET_ERR e (Errno err), s)
        else Some (True, w\<lparr>ws_rx_ring := NETMAP_RXRING dev i, ws_tx_ring := NETMAP_TXRING dev i\<rparr>, e, s))
       i ws e s = Some (ok, ws', e', s') \<and> holdm f L X M s' \<and> keep s s' \<and>
     list_all2 (\<lambda>w w'. ws_queue_fd w' = ws_queue_fd w \<and> no_ptrs w' = no_ptrs w) ws ws' \<and>
     (e' = None \<longleftrightarrow> e = None) \<and> (ok \<longrightarrow> e' = e \<and> (\<forall>w \<in> set ws'. has_rings s w)) \<and> (ok \<or> \<not> all_well s)"
  using assms
proof (induction ws arbitrary: i e s)
  case Nil
  then show ?case by (intro exI [of _ True]) simp
next
  case (Cons w ws)
  obtain r err s1 where 1: "sys_ioctl s = (r, err, s1)" by (cases "sys_ioctl s")
  note H = ioctl_hold [OF Cons.prems(1) 1]
  have k: "rings s1 = rings s" using H(2) by (simp add: keep_def)
  show ?case
  proof (cases "r < 0")
    case True
    with 1 H calls_well(3) [OF 1] show ?thesis by (intro exI [of _ False]) (auto simp: SET_ERR_def list_all2_refl)
  next
    case False
    have "\<forall>k < length ws. rings s1 (NETMAP_RXRING dev (Suc i + k)) \<noteq> None \<and>
        rings s1 (NETMAP_TXRING dev (Suc i + k)) \<noteq> None"
    proof (intro allI impI)
      fix k assume "k < length ws"
      then show "rings s1 (NETMAP_RXRING dev (Suc i + k)) \<noteq> None \<and> rings s1 (NETMAP_TXRING dev (Suc i + k)) \<noteq> None"
        using spec [OF Cons.prems(2), of "Suc k"] k by simp
    qed
    from Cons.IH [OF H(1) this, of e] obtain ok ws' e' s' where
      2: "for_rings (\<lambda>i w e s.
        let (r, err, s) = sys_ioctl s in
        if r < 0 then Some (False, w, SET_ERR e (Errno err), s)
        else Some (True, w\<lparr>ws_rx_ring := NETMAP_RXRING dev i, ws_tx_ring := NETMAP_TXRING dev i\<rparr>, e, s))
       (Suc i) ws e s1 = Some (ok, ws', e', s')" "holdm f L X M s'" "keep s1 s'"
     "list_all2 (\<lambda>w w'. ws_queue_fd w' = ws_queue_fd w \<and> no_ptrs w' = no_ptrs w) ws ws'"
     "e' = None \<longleftrightarrow> e = None" "ok \<longrightarrow> e' = e \<and> (\<forall>w \<in> set ws'. has_rings s1 w)" "ok \<or> \<not> all_well s1" by blast
    note aw = all_well_keep [OF H(2)]
    have "has_rings s1 = has_rings s" using H(2) by (rule has_rings_keep)
    moreover have "rings s (NETMAP_RXRING dev i) \<noteq> None" "rings s (NETMAP_TXRING dev i) \<noteq> None"
      using spec [OF Cons.prems(2), of 0] by simp_all
    ultimately show ?thesis using 1 2 aw False keep_trans [OF H(2) 2(3)] by (simp add: has_rings_def no_ptrs_def)
  qed
qed

definition registered :: "nat \<Rightarrow> resource set \<Rightarrow> netmap_dev \<Rightarrow> resource set \<Rightarrow> sin_stance \<Rightarrow> istore \<Rightarrow> bool" where
  "registered f L dev X sip s \<longleftrightarrow> holdm f L X (parts_2 sip) s \<and> no_ptrs (hst sip) \<and>
     built False False False False False dev sip \<and> (\<forall>w \<in> set (phy sip). has_rings s w) \<and> has_rings s (hst sip)"

lemma init_register_stage:
  assumes o: "opened f L dev {Mapped m} sip s"
    and r: "\<forall>i \<le> unat (nr_rx_rings dev). rings s (NETMAP_RXRING dev i) \<noteq> None \<and> rings s (NETMAP_TXRING dev i) \<noteq> None"
  shows "stage f L s e (registered f L dev) (init_register dev sip e s)"
proof -
  note O = o [unfolded opened_def]
  have "\<forall>k < length (phy sip). rings s (NETMAP_RXRING dev (0 + k)) \<noteq> None \<and> rings s (NETMAP_TXRING dev (0 + k)) \<noteq> None"
    using r O by simp
  from register_rings [OF conjunct1 [OF O] this, of e] obtain ok ws e1 s1 where
    1: "for_rings (\<lambda>i w e s.
        let (r, err, s) = sys_ioctl s in
        if r < 0 then Some (False, w, SET_ERR e (Errno err), s)
        else Some (True, w\<lparr>ws_rx_ring := NETMAP_RXRING dev i, ws_tx_ring := NETMAP_TXRING dev i\<rparr>, e, s))
       0 (phy sip) e s = Some (ok, ws, e1, s1)" "holdm f L {Mapped m} (parts_2 sip) s1" "keep s s1"
     "list_all2 (\<lambda>w w'. ws_queue_fd w' = ws_queue_fd w \<and> no_ptrs w' = no_ptrs w) (phy sip) ws"
     "e1 = None \<longleftrightarrow> e = None" "ok \<longrightarrow> e1 = e \<and> (\<forall>w \<in> set ws. has_rings s w)" "ok \<or> \<not> all_well s" by blast
  let ?sip = "sip\<lparr>phy := ws\<rparr>"
  have fd: "fds ws = fds (phy sip)" using 1(4) by (induction rule: list_all2_induct) auto
  have p2: "parts_2 ?sip = parts_2 sip" by (simp add: parts_2_def parts_1_def fd)
  have len: "length ws = length (phy sip)" using 1(4) by (simp add: list_all2_lengthD)
  have np: "\<forall>w \<in> set ws. no_ptrs w"
  proof -
    have "\<forall>w \<in> set (phy sip). no_ptrs w" using O by simp
    with 1(4) show ?thesis by (induction rule: list_all2_induct) auto
  qed
  have h1: "holdm f L {Mapped m} (parts_2 ?sip) s1" using 1(2) p2 by simp
  show ?thesis
  proof (cases ok)
    case False
    have eq: "init_register dev sip e s = give_up (init_undo_2 ?sip) e1 s1"
      using 1(1) False by (simp add: init_register_def Let_def)
    from stage_give_up [where u = "init_undo_2 ?sip" and s = s1 and m = m and e' = e1 and e = e, OF undo_2_hold [OF h1]] 1(5,7) False
    show ?thesis by (simp add: eq)
  next
    case True
    obtain r err s2 where 2: "sys_ioctl s1 = (r, err, s2)" by (cases "sys_ioctl s1")
    note H2 = ioctl_hold [OF h1 2]
    show ?thesis
    proof (cases "r < 0")
      case r: True
      have eq: "init_register dev sip e s = give_up (init_undo_2 ?sip) (SET_ERR e1 (Errno err)) s2"
        using 1(1) True 2 r by (simp add: init_register_def Let_def)
      from stage_give_up [where u = "init_undo_2 ?sip" and s = s2 and m = m and e' = "SET_ERR e1 (Errno err)" and e = e, OF undo_2_hold [OF H2(1)]] 1(5)
          calls_well(3) [OF 2 r] all_well_keep [OF 1(3)]
      show ?thesis by (simp add: eq SET_ERR_def)
    next
      case ge: False
      let ?i = "nat (nrings sip)"
      let ?s' = "?sip\<lparr>hst := (hst sip)\<lparr>ws_rx_ring := NETMAP_RXRING dev ?i, ws_tx_ring := NETMAP_TXRING dev ?i\<rparr>\<rparr>"
      have eq: "init_register dev sip e s = Some (Inr (?s', e1, s2))"
        using 1(1) True 2 ge by (simp add: init_register_def Let_def)
      have k: "keep s s2" using 1(3) H2(2) by (rule keep_trans)
      have hr: "has_rings s2 = has_rings s" using k by (rule has_rings_keep)
      have "?i = unat (nr_rx_rings dev)" using O by simp
      then have "has_rings s (hst ?s')" using r [rule_format, of ?i] by (simp add: has_rings_def)
      moreover have "parts_2 ?s' = parts_2 ?sip" by (simp add: parts_2_def parts_1_def)
      moreover have "no_ptrs (hst ?s') = no_ptrs (hst sip)" by (simp add: no_ptrs_def)
      moreover have "built False False False False False dev ?s'"
        using O np len opened_filled by (simp add: built_def shape_def)
      ultimately have "registered f L dev {Mapped m} ?s' s2"
        using H2(1) O 1(6) True hr by (simp add: registered_def)
      with k 1(6) True show ?thesis by (auto simp: eq stage_def)
    qed
  qed
qed


subsection \<open>Filling a column, and the host ring\<close>

text \<open>
  The two patterns the later stages are made of: a loop over the hardware rings, and one
  object for the host ring; each jumps to its undo label when it fails.
\<close>

definition fill_column :: "(nat \<Rightarrow> wrk_set \<Rightarrow> errno option \<Rightarrow> istore \<Rightarrow>
      (bool \<times> wrk_set \<times> errno option \<times> istore) option) \<Rightarrow>
    (sin_stance \<Rightarrow> istore \<Rightarrow> istore option) \<Rightarrow> sin_stance \<Rightarrow> errno option \<Rightarrow> istore \<Rightarrow> init_result" where
  "fill_column body undo sip e s = do {
     (ok, ws, e, s) \<leftarrow> for_rings body 0 (phy sip) e s;
     let sip = sip\<lparr>phy := ws\<rparr>;
     if \<not> ok then give_up (undo sip) e s else Some (Inr (sip, e, s))
   }"

definition fill_host :: "(errno option \<Rightarrow> istore \<Rightarrow> (ptr \<times> errno option \<times> istore) option) \<Rightarrow>
    (ptr \<Rightarrow> wrk_set \<Rightarrow> wrk_set) \<Rightarrow> (sin_stance \<Rightarrow> istore \<Rightarrow> istore option) \<Rightarrow>
    sin_stance \<Rightarrow> errno option \<Rightarrow> istore \<Rightarrow> init_result" where
  "fill_host mk put undo sip e s = do {
     (p, e, s) \<leftarrow> mk e s;
     let sip = sip\<lparr>hst := put p (hst sip)\<rparr>;
     if p = NULL then give_up (undo sip) e s else Some (Inr (sip, e, s))
   }"

definition refilled :: "(ptr \<Rightarrow> wrk_set \<Rightarrow> wrk_set) \<Rightarrow> (wrk_set \<Rightarrow> ptr) \<Rightarrow> wrk_set list \<Rightarrow> wrk_set list \<Rightarrow> bool" where
  "refilled put col ws ws' \<longleftrightarrow> list_all2 (\<lambda>w w'. w' = put (col w') w) ws ws'"

lemma refilledD:
  assumes "refilled put col ws ws'"
  shows "length ws' = length ws"
    and "(\<And>p w. other (put p w) = other w) \<Longrightarrow> cells tag other ws' = cells tag other ws"
    and "(\<And>p w. ws_queue_fd (put p w) = ws_queue_fd w) \<Longrightarrow> fds ws' = fds ws"
    and "(\<And>p w. P (put p w) = P w) \<Longrightarrow> (\<forall>w \<in> set ws'. P w) = (\<forall>w \<in> set ws. P w)"
  using assms put_cells [of put col ws ws' other tag] put_fds [of put col ws ws'] put_all [of put col ws ws' P]
  by (simp_all add: refilled_def list_all2_lengthD)

definition makes :: "nat \<Rightarrow> resource set \<Rightarrow> resource set \<Rightarrow> (addr \<Rightarrow> part) \<Rightarrow> part multiset \<Rightarrow>
    istore \<Rightarrow> errno option \<Rightarrow> (ptr \<times> errno option \<times> istore) option \<Rightarrow> bool" where
  "makes f L X tag M s e r \<longleftrightarrow> (case r of None \<Rightarrow> \<not> all_well s
     | Some (p, e', s') \<Rightarrow> \<exists>Y. holdm f L (X \<union> Y) (opt_m tag p + M) s' \<and> keep s s' \<and>
         (e' = None \<longleftrightarrow> e = None) \<and> (p \<noteq> NULL \<longrightarrow> e' = e \<and> Y = {}) \<and> (\<exists>b. Y \<subseteq> {Block b}) \<and> (p \<noteq> NULL \<or> \<not> all_well s))"

lemma fill_host_stage:
  assumes mk: "makes f L {Mapped m} tag M s e (mk e s)"
    and undo: "\<And>X s'. holdm f L X M s' \<Longrightarrow> undone f L X (undo (sip\<lparr>hst := put NULL (hst sip)\<rparr>) s')"
    and post: "\<And>p s'. holdm f L {Mapped m} (opt_m tag p + M) s' \<Longrightarrow> p \<noteq> NULL \<Longrightarrow> keep s s' \<Longrightarrow>
      post {Mapped m} (sip\<lparr>hst := put p (hst sip)\<rparr>) s'"
  shows "stage f L s e post (fill_host mk put undo sip e s)"
proof (cases "mk e s")
  case None
  with mk show ?thesis by (simp add: makes_def fill_host_def stage_def)
next
  case (Some x)
  obtain p e' s' where x: "x = (p, e', s')" by (cases x)
  with Some mk obtain Y b where Y: "holdm f L ({Mapped m} \<union> Y) (opt_m tag p + M) s'" "keep s s'"
    "e' = None \<longleftrightarrow> e = None" "p \<noteq> NULL \<longrightarrow> e' = e \<and> Y = {}" "Y \<subseteq> {Block b}" "p \<noteq> NULL \<or> \<not> all_well s" by (auto simp: makes_def)
  show ?thesis
  proof (cases "p = NULL")
    case True
    let ?u = "undo (sip\<lparr>hst := put NULL (hst sip)\<rparr>)"
    have "undone f L ({Mapped m} \<union> Y) (?u s')" by (rule undo) (use Y(1) True in simp)
    then have "stage f L s e post (give_up ?u e' s')"
      by (rule stage_give_up) (use Y(3,5,6) True in auto)
    moreover have "fill_host mk put undo sip e s = give_up ?u e' s'"
      using Some x True by (simp add: fill_host_def Let_def)
    ultimately show ?thesis
      by simp
  next
    case False
    with Y have "post {Mapped m} (sip\<lparr>hst := put p (hst sip)\<rparr>) s'" by (intro post) simp_all
    moreover have "fill_host mk put undo sip e s = Some (Inr (sip\<lparr>hst := put p (hst sip)\<rparr>, e', s'))"
      using Some x False by (auto simp: fill_host_def Let_def)
    ultimately show ?thesis using Y False by (auto simp: stage_def)
  qed
qed

context ring_maker
begin

lemma fill_column_stage:
  assumes h: "holdm f L {Mapped m} M s" and pre: "\<forall>w \<in> set (phy sip). col w = NULL \<and> pre M s w"
    and undo: "\<And>X ws s'. holdm f L X (cells tag col ws + M) s' \<Longrightarrow> refilled put col (phy sip) ws \<Longrightarrow>
      undone f L X (undo (sip\<lparr>phy := ws\<rparr>) s')"
    and post: "\<And>ws s'. holdm f L {Mapped m} (cells tag col ws + M) s' \<Longrightarrow> refilled put col (phy sip) ws \<Longrightarrow>
      keep s s' \<Longrightarrow> \<forall>w \<in> set ws. col w \<noteq> NULL \<Longrightarrow> post {Mapped m} (sip\<lparr>phy := ws\<rparr>) s'"
  shows "stage f L s e post (fill_column body undo sip e s)"
proof -
  note H = for_rings_hold [OF h pre, where i = 0 and e = e]
  show ?thesis
  proof (cases "for_rings body 0 (phy sip) e s")
    case None
    with H show ?thesis by (simp add: fill_column_def stage_def)
  next
    case (Some x)
    obtain ok ws e' s' where x: "x = (ok, ws, e', s')" by (cases x)
    from H Some x obtain Y b where Y: "holdm f L ({Mapped m} \<union> Y) (cells tag col ws + M) s'" "keep s s'"
      "refilled put col (phy sip) ws" "e' = None \<longleftrightarrow> e = None"
      "ok \<longrightarrow> (\<forall>w \<in> set ws. col w \<noteq> NULL) \<and> e' = e \<and> Y = {}" "Y \<subseteq> {Block b}" "ok \<or> \<not> all_well s" by (auto simp: refilled_def)
    show ?thesis
    proof (cases ok)
      case False
      let ?u = "undo (sip\<lparr>phy := ws\<rparr>)"
      have "undone f L ({Mapped m} \<union> Y) (?u s')" using Y(1,3) by (rule undo)
      then have "stage f L s e post (give_up ?u e' s')"
        by (rule stage_give_up) (use Y(4,6,7) False in auto)
      moreover have "fill_column body undo sip e s = give_up ?u e' s'"
        using Some x False by (simp add: fill_column_def Let_def)
      ultimately show ?thesis
        by simp
    next
      case True
      with Y have "post {Mapped m} (sip\<lparr>phy := ws\<rparr>) s'" by (intro post) simp_all
      moreover have "fill_column body undo sip e s = Some (Inr (sip\<lparr>phy := ws\<rparr>, e', s'))"
        using Some x True by (simp add: fill_column_def Let_def)
      ultimately show ?thesis using Y True by (auto simp: stage_def)
    qed
  qed
qed

end

end
