(* ===== verification/Sin_Init_Zones.thy ===== *)
theory Sin_Init_Zones
  imports Sin_Patterns
begin

text \<open>
  The later stages of the constructor written with the two patterns, and the stage that
  creates the packet zones.
\<close>

subsection \<open>The later stages as columns and host objects\<close>

lemma and_then_simps [simp]:
  "and_then None k = None" "and_then (Some (Inl g)) k = Some (Inl g)"
  "and_then (Some (Inr (sip, e, s))) k = k sip e s" "and_then (give_up u e s) k = give_up u e s"
  by (auto simp: and_then_def give_up_def split: Option.bind_splits)

lemma and_then_bind [simp]: "and_then (Option.bind m f) k = Option.bind m (\<lambda>x. and_then (f x) k)"
  by (cases m) simp_all

abbreviation tx_zone_body :: "netmap_api \<Rightarrow> int \<Rightarrow> nat \<Rightarrow> wrk_set \<Rightarrow> errno option \<Rightarrow> istore \<Rightarrow>
    (bool \<times> wrk_set \<times> errno option \<times> istore) option" where
  "tx_zone_body nm fd \<equiv> \<lambda>i w e s. Option.bind (sin_pkt_zone_ctor nm (ws_tx_ring w) fd e s)
     (\<lambda>(z, e, s). Some (z \<noteq> NULL, w\<lparr>ws_tx_zone := z\<rparr>, e, s))"

abbreviation rx_zone_body :: "netmap_api \<Rightarrow> int \<Rightarrow> nat \<Rightarrow> wrk_set \<Rightarrow> errno option \<Rightarrow> istore \<Rightarrow>
    (bool \<times> wrk_set \<times> errno option \<times> istore) option" where
  "rx_zone_body nm fd \<equiv> \<lambda>i w e s. Option.bind (sin_pkt_zone_ctor nm (ws_rx_ring w) fd e s)
     (\<lambda>(z, e, s). Some (z \<noteq> NULL, w\<lparr>ws_rx_zone := z\<rparr>, e, s))"

lemma init_zones_stages:
  "init_zones nm sip e s = and_then (and_then (and_then
     (fill_column (tx_zone_body nm (netmap_fd sip)) init_undo_3 sip e s)
     (fill_column (rx_zone_body nm (netmap_fd sip)) init_undo_4))
     (fill_host (sin_pkt_zone_ctor nm (ws_tx_ring (hst sip)) (netmap_fd sip)) (\<lambda>p w. w\<lparr>ws_tx_zone := p\<rparr>) init_undo_4))
     (fill_host (sin_pkt_zone_ctor nm (ws_rx_ring (hst sip)) (netmap_fd sip)) (\<lambda>p w. w\<lparr>ws_rx_zone := p\<rparr>) init_undo_5)"
  unfolding init_zones_def fill_column_def fill_host_def Let_def
  by (auto simp: case_prod_beta intro!: Option.bind_cong)


subsection \<open>Parts and columns\<close>

lemma refilled_in:
  assumes "refilled put col ws ws'" and "w' \<in> set ws'"
  shows "\<exists>w \<in> set ws. w' = put (col w') w"
  using assms unfolding refilled_def by (induction rule: list_all2_induct) auto

lemma refilled_parts:
  "refilled (\<lambda>p w. w\<lparr>ws_tx_zone := p\<rparr>) ws_tx_zone (phy sip) ws \<Longrightarrow> parts_2 (sip\<lparr>phy := ws\<rparr>) = parts_2 sip"
  "refilled (\<lambda>p w. w\<lparr>ws_rx_zone := p\<rparr>) ws_rx_zone (phy sip) ws \<Longrightarrow> parts_3 (sip\<lparr>phy := ws\<rparr>) = parts_3 sip"
  "refilled (\<lambda>p w. w\<lparr>ws_tx_thread := p\<rparr>) ws_tx_thread (phy sip) ws \<Longrightarrow> parts_5 (sip\<lparr>phy := ws\<rparr>) = parts_5 sip"
  "refilled (\<lambda>p w. w\<lparr>ws_rx_sort := p\<rparr>) ws_rx_sort (phy sip) ws \<Longrightarrow> parts_7 (sip\<lparr>phy := ws\<rparr>) = parts_7 sip"
  "refilled (\<lambda>p w. w\<lparr>ws_rx_thread := p\<rparr>) ws_rx_thread (phy sip) ws \<Longrightarrow> parts_9 (sip\<lparr>phy := ws\<rparr>) = parts_9 sip"
  by (simp_all add: parts_defs refilledD(2) refilledD(3))

lemma refilled_shape: "refilled put col (phy sip) ws \<Longrightarrow> shape dev sip \<Longrightarrow> shape dev (sip\<lparr>phy := ws\<rparr>)"
  by (simp add: shape_def refilledD(1))

lemma refilled_all:
  assumes "refilled put col ws ws'" and "\<forall>w \<in> set ws. Q w" and "\<forall>w \<in> set ws'. col w \<noteq> NULL"
    and "\<And>p w. Q w \<Longrightarrow> p \<noteq> NULL \<Longrightarrow> R (put p w)"
  shows "\<forall>w \<in> set ws'. R w"
proof
  fix w' assume w': "w' \<in> set ws'"
  from refilled_in [OF assms(1) w'] obtain w where w: "w \<in> set ws" "w' = put (col w') w" by blast
  have "R (put (col w') w)" by (rule assms(4)) (use assms(2,3) w(1) w' in simp_all)
  with w(2) show "R w'" by simp
qed

lemma refilled_built_gen:
  assumes "refilled put col (phy sip) ws" and "\<forall>w \<in> set ws. col w \<noteq> NULL" and "built tz rz t so r dev sip"
    and "\<And>p w. filled tz rz t so r w \<Longrightarrow> p \<noteq> NULL \<Longrightarrow> filled tz' rz' t' so' r' (put p w)"
  shows "built tz' rz' t' so' r' dev (sip\<lparr>phy := ws\<rparr>)"
proof -
  have "\<forall>w \<in> set (phy sip). filled tz rz t so r w" using assms(3) by (simp add: built_def)
  then have "\<forall>w \<in> set ws. filled tz' rz' t' so' r' w"
    by (rule refilled_all [OF assms(1)]) (use assms(2,4) in simp_all)
  then show ?thesis using refilled_shape [OF assms(1)] assms(3) by (simp add: built_def)
qed

lemma refilled_built:
  "refilled (\<lambda>p w. w\<lparr>ws_tx_zone := p\<rparr>) ws_tx_zone (phy sip) ws \<Longrightarrow> \<forall>w \<in> set ws. ws_tx_zone w \<noteq> NULL \<Longrightarrow>
     built False rz t so r dev sip \<Longrightarrow> built True rz t so r dev (sip\<lparr>phy := ws\<rparr>)"
  "refilled (\<lambda>p w. w\<lparr>ws_rx_zone := p\<rparr>) ws_rx_zone (phy sip) ws \<Longrightarrow> \<forall>w \<in> set ws. ws_rx_zone w \<noteq> NULL \<Longrightarrow>
     built tz False t so r dev sip \<Longrightarrow> built tz True t so r dev (sip\<lparr>phy := ws\<rparr>)"
  "refilled (\<lambda>p w. w\<lparr>ws_tx_thread := p\<rparr>) ws_tx_thread (phy sip) ws \<Longrightarrow> \<forall>w \<in> set ws. ws_tx_thread w \<noteq> NULL \<Longrightarrow>
     built tz rz False so r dev sip \<Longrightarrow> built tz rz True so r dev (sip\<lparr>phy := ws\<rparr>)"
  "refilled (\<lambda>p w. w\<lparr>ws_rx_sort := p\<rparr>) ws_rx_sort (phy sip) ws \<Longrightarrow> \<forall>w \<in> set ws. ws_rx_sort w \<noteq> NULL \<Longrightarrow>
     built tz rz t False r dev sip \<Longrightarrow> built tz rz t True r dev (sip\<lparr>phy := ws\<rparr>)"
  "refilled (\<lambda>p w. w\<lparr>ws_rx_thread := p\<rparr>) ws_rx_thread (phy sip) ws \<Longrightarrow> \<forall>w \<in> set ws. ws_rx_thread w \<noteq> NULL \<Longrightarrow>
     built tz rz t so False dev sip \<Longrightarrow> built tz rz t so True dev (sip\<lparr>phy := ws\<rparr>)"
  by (erule (2) refilled_built_gen; simp add: filled_def)+

subsection \<open>The zones\<close>

lemma zone_makes:
  assumes "holdm f L X M s" and "rings s ring \<noteq> None"
  shows "makes f L X Zone M s e (sin_pkt_zone_ctor nm ring fd e s)"
proof (cases "sin_pkt_zone_ctor nm ring fd e s")
  case None
  with zone_ctor_none [OF None assms(2)] show ?thesis by (simp add: makes_def)
next
  case (Some x)
  obtain p e' s' where x: "x = (p, e', s')" by (cases x)
  from zone_ctor_hold [OF assms(1) Some [unfolded x] assms(2)] Some x show ?thesis by (simp add: makes_def)
qed

lemmas zone_host_stage = fill_host_stage [where mk = "sin_pkt_zone_ctor nm ring fd" and tag = Zone, OF zone_makes]
  for nm ring fd

definition zoned :: "nat \<Rightarrow> resource set \<Rightarrow> netmap_dev \<Rightarrow> resource set \<Rightarrow> sin_stance \<Rightarrow> istore \<Rightarrow> bool" where
  "zoned f L dev X sip s \<longleftrightarrow> holdm f L X (parts_7 sip) s \<and> filled True True False False False (hst sip) \<and>
     built True True False False False dev sip"

lemma column_null:
  assumes "built tz rz t so r dev sip"
  shows "\<not> tz \<Longrightarrow> \<forall>w \<in> set (phy sip). ws_tx_zone w = NULL" "\<not> rz \<Longrightarrow> \<forall>w \<in> set (phy sip). ws_rx_zone w = NULL"
    "\<not> t \<Longrightarrow> \<forall>w \<in> set (phy sip). ws_tx_thread w = NULL" "\<not> so \<Longrightarrow> \<forall>w \<in> set (phy sip). ws_rx_sort w = NULL"
    "\<not> r \<Longrightarrow> \<forall>w \<in> set (phy sip). ws_rx_thread w = NULL"
  using assms by (simp_all add: built_def filled_def)

lemma built_hst [simp]: "built tz rz t so r dev (sip\<lparr>hst := w\<rparr>) = built tz rz t so r dev sip"
  by (simp add: built_def shape_def)

lemma parts_hst:
  "parts_4 (sip\<lparr>hst := w\<lparr>ws_tx_zone := p\<rparr>\<rparr>) = parts_4 (sip\<lparr>hst := w\<rparr>)"
  "parts_5 (sip\<lparr>hst := w\<lparr>ws_rx_zone := p\<rparr>\<rparr>) = parts_5 (sip\<lparr>hst := w\<rparr>)"
  "parts_7 (sip\<lparr>hst := w\<lparr>ws_tx_thread := p\<rparr>\<rparr>) = parts_7 (sip\<lparr>hst := w\<rparr>)"
  "parts_10 (sip\<lparr>hst := w\<lparr>ws_rx_sort := p\<rparr>\<rparr>) = parts_10 (sip\<lparr>hst := w\<rparr>)"
  "parts_11 (sip\<lparr>hst := w\<lparr>ws_rx_thread := p\<rparr>\<rparr>) = parts_11 (sip\<lparr>hst := w\<rparr>)"
  by (simp_all add: parts_defs)

lemma hst_same: "sip\<lparr>hst := hst sip\<rparr> = sip"
  by simp

lemma init_zones_stage:
  assumes g: "registered f L dev {Mapped m} sip s"
  shows "stage f L s e (zoned f L dev) (init_zones nm sip e s)"
proof -
  let ?P1 = "\<lambda>X sip1 s. holdm f L X (parts_3 sip1) s \<and> no_ptrs (hst sip1) \<and>
     built True False False False False dev sip1 \<and> (\<forall>w \<in> set (phy sip1). rings s (ws_rx_ring w) \<noteq> None)"
  let ?P2 = "\<lambda>X sip2 s. holdm f L X (parts_4 sip2) s \<and> no_ptrs (hst sip2) \<and> built True True False False False dev sip2"
  let ?P3 = "\<lambda>X sip3 s. holdm f L X (parts_5 sip3) s \<and> filled True False False False False (hst sip3) \<and>
     built True True False False False dev sip3"
  have G: "holdm f L {Mapped m} (parts_2 sip) s" "no_ptrs (hst sip)" "built False False False False False dev sip"
    "\<forall>w \<in> set (phy sip). has_rings s w" "has_rings s (hst sip)"
    using g by (simp_all add: registered_def)
  have 1: "stage f L s e ?P1 (fill_column (tx_zone_body nm (netmap_fd sip)) init_undo_3 sip e s)"
  proof (rule tx_zones.fill_column_stage [OF G(1)])
    show "\<forall>w \<in> set (phy sip). ws_tx_zone w = NULL \<and> rings s (ws_tx_ring w) \<noteq> None"
      using column_null(1) [OF G(3)] G(4) by (simp add: has_rings_def)
    fix ws assume re: "refilled (\<lambda>p w. w\<lparr>ws_tx_zone := p\<rparr>) ws_tx_zone (phy sip) ws"
    note pp = refilled_parts(1) [OF re]
    {
      fix X s' assume "holdm f L X (cells Zone ws_tx_zone ws + parts_2 sip) s'"
      then have "holdm f L X (parts_3 (sip\<lparr>phy := ws\<rparr>)) s'" by (simp add: parts_3_def pp)
      then show "undone f L X (init_undo_3 (sip\<lparr>phy := ws\<rparr>) s')" by (rule undo_3_hold)
    }
    fix s' assume h: "holdm f L {Mapped m} (cells Zone ws_tx_zone ws + parts_2 sip) s'" and k: "keep s s'"
      and n: "\<forall>w \<in> set ws. ws_tx_zone w \<noteq> NULL"
    have "(\<forall>w \<in> set ws. rings s (ws_rx_ring w) \<noteq> None)"
      using refilledD(4) [OF re, of "\<lambda>w. rings s (ws_rx_ring w) \<noteq> None"] G(4) by (simp add: has_rings_def)
    then show "?P1 {Mapped m} (sip\<lparr>phy := ws\<rparr>) s'"
      using h k G(2) refilled_built(1) [OF re n G(3)] by (simp add: parts_3_def pp keep_def)
  qed
  have 2: "stage f L s1 e ?P2 (fill_column (rx_zone_body nm (netmap_fd sip)) init_undo_4 sip1 e s1)"
    if P: "?P1 {Mapped m1} sip1 s1" for m1 sip1 s1
  proof (rule rx_zones.fill_column_stage [OF conjunct1 [OF P]])
    from P have b: "built True False False False False dev sip1" by simp
    show "\<forall>w \<in> set (phy sip1). ws_rx_zone w = NULL \<and> rings s1 (ws_rx_ring w) \<noteq> None"
      using column_null(2) [OF b] P by simp
    fix ws assume re: "refilled (\<lambda>p w. w\<lparr>ws_rx_zone := p\<rparr>) ws_rx_zone (phy sip1) ws"
    note pp = refilled_parts(2) [OF re]
    {
      fix X s' assume "holdm f L X (cells Zone ws_rx_zone ws + parts_3 sip1) s'"
      then have "holdm f L X (parts_4 (sip1\<lparr>phy := ws\<rparr>)) s'" by (simp add: parts_4_def pp)
      then show "undone f L X (init_undo_4 (sip1\<lparr>phy := ws\<rparr>) s')" by (rule undo_4_hold)
    }
    fix s' assume h: "holdm f L {Mapped m1} (cells Zone ws_rx_zone ws + parts_3 sip1) s'"
      and n: "\<forall>w \<in> set ws. ws_rx_zone w \<noteq> NULL"
    then show "?P2 {Mapped m1} (sip1\<lparr>phy := ws\<rparr>) s'"
      using h P refilled_built(2) [OF re n b] by (simp add: parts_4_def pp)
  qed
  have 3: "stage f L s2 e ?P3 (fill_host (sin_pkt_zone_ctor nm (ws_tx_ring (hst sip)) (netmap_fd sip))
      (\<lambda>p w. w\<lparr>ws_tx_zone := p\<rparr>) init_undo_4 sip2 e s2)"
    if P: "?P2 {Mapped m2} sip2 s2" and k: "keep s s2" for m2 sip2 s2
  proof (rule zone_host_stage [OF conjunct1 [OF P]])
    show "rings s2 (ws_tx_ring (hst sip)) \<noteq> None" using G(5) k by (simp add: has_rings_def keep_def)
    have pp: "parts_4 (sip2\<lparr>hst := (hst sip2)\<lparr>ws_tx_zone := p\<rparr>\<rparr>) = parts_4 sip2" for p
      by (simp add: parts_hst)
    show "undone f L X (init_undo_4 (sip2\<lparr>hst := (hst sip2)\<lparr>ws_tx_zone := NULL\<rparr>\<rparr>) s')"
      if "holdm f L X (parts_4 sip2) s'" for X s' using that by (intro undo_4_hold) (simp add: pp)
    show "?P3 {Mapped m2} (sip2\<lparr>hst := (hst sip2)\<lparr>ws_tx_zone := p\<rparr>\<rparr>) s'"
      if "holdm f L {Mapped m2} (opt_m Zone p + parts_4 sip2) s'" "p \<noteq> NULL" for p s'
      using that P by (simp add: parts_5_def pp filled_def no_ptrs_def)
  qed
  have 4: "stage f L s3 e (zoned f L dev) (fill_host (sin_pkt_zone_ctor nm (ws_rx_ring (hst sip)) (netmap_fd sip))
      (\<lambda>p w. w\<lparr>ws_rx_zone := p\<rparr>) init_undo_5 sip3 e s3)"
    if P: "?P3 {Mapped m3} sip3 s3" and k: "keep s s3" for m3 sip3 s3
  proof (rule zone_host_stage [OF conjunct1 [OF P]])
    show "rings s3 (ws_rx_ring (hst sip)) \<noteq> None" using G(5) k by (simp add: has_rings_def keep_def)
    have pp: "parts_5 (sip3\<lparr>hst := (hst sip3)\<lparr>ws_rx_zone := p\<rparr>\<rparr>) = parts_5 sip3" for p
      by (simp add: parts_hst)
    have b: "built True True False False False dev sip3" using P by simp
    have q: "filled True False False False False (hst sip3)" using P by blast
    show "undone f L X (init_undo_5 (sip3\<lparr>hst := (hst sip3)\<lparr>ws_rx_zone := NULL\<rparr>\<rparr>) s')"
      if "holdm f L X (parts_5 sip3) s'" for X s' using that q by (intro undo_5_hold) (simp_all add: pp filled_def)
    show "zoned f L dev {Mapped m3} (sip3\<lparr>hst := (hst sip3)\<lparr>ws_rx_zone := p\<rparr>\<rparr>) s'"
      if "holdm f L {Mapped m3} (opt_m Zone p + parts_5 sip3) s'" "p \<noteq> NULL" for p s'
      using that b q cells_null [OF column_null(3) [OF b]]
      by (simp add: zoned_def parts_7_def pp filled_def)
  qed
  show ?thesis unfolding init_zones_stages
  proof (rule stage_and_then)
    show "stage f L s e ?P3 (and_then (and_then (fill_column (tx_zone_body nm (netmap_fd sip)) init_undo_3 sip e s)
        (fill_column (rx_zone_body nm (netmap_fd sip)) init_undo_4))
        (fill_host (sin_pkt_zone_ctor nm (ws_tx_ring (hst sip)) (netmap_fd sip)) (\<lambda>p w. w\<lparr>ws_tx_zone := p\<rparr>) init_undo_4))"
    proof (rule stage_and_then)
      show "stage f L s e ?P2 (and_then (fill_column (tx_zone_body nm (netmap_fd sip)) init_undo_3 sip e s)
        (fill_column (rx_zone_body nm (netmap_fd sip)) init_undo_4))"
        by (rule stage_and_then [OF 1]) (rule 2)
    qed (rule 3)
  qed (rule 4)
qed

end
