(* ===== verification/Sin_Init_Threads.thy ===== *)
theory Sin_Init_Threads
  imports Sin_Init_Zones
begin

text \<open>
  The stages of the constructor that create the transmit threads, the sorters and the
  receive threads.
\<close>

abbreviation tx_body :: "nat \<Rightarrow> wrk_set \<Rightarrow> errno option \<Rightarrow> istore \<Rightarrow>
    (bool \<times> wrk_set \<times> errno option \<times> istore) option" where
  "tx_body \<equiv> \<lambda>i w e s. Option.bind (sin_tx_thread_ctor w e s)
     (\<lambda>(t, e, s). Some (t \<noteq> NULL, w\<lparr>ws_tx_thread := t\<rparr>, e, s))"

abbreviation rx_body :: "nat \<Rightarrow> wrk_set \<Rightarrow> errno option \<Rightarrow> istore \<Rightarrow>
    (bool \<times> wrk_set \<times> errno option \<times> istore) option" where
  "rx_body \<equiv> \<lambda>i w e s. Option.bind (sin_rx_thread_ctor w e s)
     (\<lambda>(t, e, s). Some (t \<noteq> NULL, w\<lparr>ws_rx_thread := t\<rparr>, e, s))"

lemma init_tx_stages:
  "init_tx run sip e s = and_then (fill_column tx_body (init_undo_7 run) sip e s)
     (\<lambda>sip. fill_host (sin_tx_thread_ctor (hst sip)) (\<lambda>p w. w\<lparr>ws_tx_thread := p\<rparr>) (init_undo_7 run) sip)"
  unfolding init_tx_def fill_column_def fill_host_def Let_def
  by (auto simp: case_prod_beta intro!: Option.bind_cong)

lemma and_then_pair: "and_then (Some (Inr (sip, x))) k = k sip (fst x) (snd x)"
  by (cases x) simp

lemma init_rx_stages:
  "init_rx run sip e s = and_then (and_then (fill_column rx_body (init_undo_10 run) sip e s)
     (\<lambda>sip e s. do {
        t \<leftarrow> (case phy sip of [] \<Rightarrow> None | w # _ \<Rightarrow> ws_tx_thread w);
        q \<leftarrow> sin_tx_thread_get_out_queue t s;
        fill_host (\<lambda>e s. Some (ctor_sorter q e s)) (\<lambda>p w. w\<lparr>ws_rx_sort := p\<rparr>) (init_undo_10 run) sip e s }))
     (\<lambda>sip. fill_host (sin_rx_thread_ctor (hst sip)) (\<lambda>p w. w\<lparr>ws_rx_thread := p\<rparr>) (init_undo_11 run) sip)"
  unfolding init_rx_def fill_column_def fill_host_def Let_def
  by (auto simp: case_prod_beta and_then_pair cong: if_cong intro!: Option.bind_cong)

lemma init_sorters_stages:
  "init_sorters run sip e s = do {
     t \<leftarrow> ws_tx_thread (hst sip);
     q \<leftarrow> sin_tx_thread_get_out_queue t s;
     fill_column (\<lambda>i. ring_sorter q) (init_undo_9 run) sip e s }"
  by (simp add: init_sorters_def fill_column_def)

lemma makesI:
  assumes "r = Some (p, e', s')" and "holdm f L X (opt_m tag p + M) s'" and "keep s s'"
    and "e' = None \<longleftrightarrow> e = None" and "p \<noteq> NULL \<longrightarrow> e' = e" and "p \<noteq> NULL \<or> \<not> all_well s"
  shows "makes f L X tag M s e r"
  using assms by (simp add: makes_def) (intro exI [of _ "{}"], simp)

lemma txt_makes:
  assumes "holdm f L X M s"
  shows "makes f L X TxT M s e (sin_tx_thread_ctor w e s)"
  using txt_hold [OF assms, of w e] by (auto intro: makesI)

lemma rxt_makes:
  assumes "holdm f L X M s"
  shows "makes f L X RxT M s e (sin_rx_thread_ctor w e s)"
  using rxt_hold [OF assms, of w e] by (auto intro: makesI)

lemma sorter_makes:
  assumes "holdm f L X M s"
  shows "makes f L X Sorter M s e (Some (ctor_sorter q e s))"
  using sorter_hold [OF assms, of q e] by (auto intro: makesI)

lemmas txt_host_stage = fill_host_stage [where mk = "sin_tx_thread_ctor w" and tag = TxT, OF txt_makes] for w
lemmas rxt_host_stage = fill_host_stage [where mk = "sin_rx_thread_ctor w" and tag = RxT, OF rxt_makes] for w
lemmas sorter_host_stage = fill_host_stage [where mk = "\<lambda>e s. Some (ctor_sorter q e s)" and tag = Sorter,
  OF sorter_makes] for q

definition threaded :: "nat \<Rightarrow> resource set \<Rightarrow> netmap_dev \<Rightarrow> resource set \<Rightarrow> sin_stance \<Rightarrow> istore \<Rightarrow> bool" where
  "threaded f L dev X sip s \<longleftrightarrow> holdm f L X (parts_9 sip) s \<and> filled True True True False False (hst sip) \<and>
     built True True True False False dev sip"

definition sorted :: "nat \<Rightarrow> resource set \<Rightarrow> netmap_dev \<Rightarrow> resource set \<Rightarrow> sin_stance \<Rightarrow> istore \<Rightarrow> bool" where
  "sorted f L dev X sip s \<longleftrightarrow> holdm f L X (parts_9 sip) s \<and> filled True True True False False (hst sip) \<and>
     built True True True True False dev sip"

definition complete :: "nat \<Rightarrow> resource set \<Rightarrow> netmap_dev \<Rightarrow> resource set \<Rightarrow> sin_stance \<Rightarrow> istore \<Rightarrow> bool" where
  "complete f L dev X sip s \<longleftrightarrow> holdm f L X (sip_parts sip) s \<and> filled True True True True True (hst sip) \<and>
     built True True True True True dev sip"

context stops
begin

lemma init_tx_stage:
  assumes g: "zoned f L dev {Mapped m} sip s"
  shows "stage f L s e (threaded f L dev) (init_tx run sip e s)"
proof -
  let ?P1 = "\<lambda>X sip1 s. holdm f L X (parts_7 sip1) s \<and> filled True True False False False (hst sip1) \<and>
     built True True True False False dev sip1"
  let ?M = "opt_m Zone (ws_rx_zone (hst sip)) + parts_5 sip"
  have b: "built True True False False False dev sip" and f: "filled True True False False False (hst sip)"
    using g by (simp_all add: zoned_def)
  have G: "holdm f L {Mapped m} ?M s"
    using g cells_null [OF column_null(3) [OF b]] by (simp add: zoned_def parts_7_def)
  have 1: "stage f L s e ?P1 (fill_column tx_body (init_undo_7 run) sip e s)"
  proof (rule tx_maker.fill_column_stage [OF G])
    show "\<forall>w \<in> set (phy sip). ws_tx_thread w = NULL \<and> True" using column_null(3) [OF b] by simp
    fix ws assume re: "refilled (\<lambda>p w. w\<lparr>ws_tx_thread := p\<rparr>) ws_tx_thread (phy sip) ws"
    have pp: "parts_7 (sip\<lparr>phy := ws\<rparr>) = cells TxT ws_tx_thread ws + ?M"
      using refilled_parts(3) [OF re] by (simp add: parts_7_def)
    show "undone f L X (init_undo_7 run (sip\<lparr>phy := ws\<rparr>) s')"
      if "holdm f L X (cells TxT ws_tx_thread ws + ?M) s'" for X s'
      using that f by (intro undo_7_hold) (simp_all add: pp filled_def)
    show "?P1 {Mapped m} (sip\<lparr>phy := ws\<rparr>) s'"
      if "holdm f L {Mapped m} (cells TxT ws_tx_thread ws + ?M) s'" "\<forall>w \<in> set ws. ws_tx_thread w \<noteq> NULL" for s'
      using that f refilled_built(3) [OF re that(2) b] by (simp add: pp)
  qed
  show ?thesis unfolding init_tx_stages
  proof (rule stage_and_then [OF 1])
    fix m1 sip1 s1 assume P: "?P1 {Mapped m1} sip1 s1"
    show "stage f L s1 e (threaded f L dev)
      (fill_host (sin_tx_thread_ctor (hst sip1)) (\<lambda>p w. w\<lparr>ws_tx_thread := p\<rparr>) (init_undo_7 run) sip1 e s1)"
    proof (rule txt_host_stage [OF conjunct1 [OF P]])
      have pp: "parts_7 (sip1\<lparr>hst := (hst sip1)\<lparr>ws_tx_thread := p\<rparr>\<rparr>) = parts_7 sip1" for p
        by (simp add: parts_hst)
      have b: "built True True True False False dev sip1" using P by simp
      show "undone f L X (init_undo_7 run (sip1\<lparr>hst := (hst sip1)\<lparr>ws_tx_thread := NULL\<rparr>\<rparr>) s')"
        if "holdm f L X (parts_7 sip1) s'" for X s' using that P by (intro undo_7_hold) (simp_all add: pp filled_def)
      show "threaded f L dev {Mapped m1} (sip1\<lparr>hst := (hst sip1)\<lparr>ws_tx_thread := p\<rparr>\<rparr>) s'"
        if "holdm f L {Mapped m1} (opt_m TxT p + parts_7 sip1) s'" "p \<noteq> NULL" for p s'
        using that P cells_null [OF column_null(4) [OF b]] by (simp add: threaded_def parts_9_def pp filled_def)
    qed
  qed
qed

lemma init_sorters_stage:
  assumes g: "threaded f L dev {Mapped m} sip s"
  shows "stage f L s e (sorted f L dev) (init_sorters run sip e s)"
proof -
  let ?M = "opt_m TxT (ws_tx_thread (hst sip)) + parts_7 sip"
  have b: "built True True True False False dev sip" and f: "filled True True True False False (hst sip)"
    using g by (simp_all add: threaded_def)
  have G: "holdm f L {Mapped m} ?M s"
    using g cells_null [OF column_null(4) [OF b]] by (simp add: threaded_def parts_9_def)
  obtain t where t: "ws_tx_thread (hst sip) = Some t" using f by (auto simp: filled_def)
  then have "TxT t \<in># ?M" by simp
  from out_queue_of [OF G this] obtain q where q: "sin_tx_thread_get_out_queue t s = Some q" by blast
  have eq: "init_sorters run sip e s = fill_column (\<lambda>i. ring_sorter q) (init_undo_9 run) sip e s"
    by (simp add: init_sorters_stages t q)
  show ?thesis unfolding eq
  proof (rule sorter_rings.fill_column_stage [OF G])
    have "\<exists>t. ws_tx_thread w = Some t \<and> TxT t \<in># ?M" if w: "w \<in> set (phy sip)" for w
    proof -
      from w b obtain t where "ws_tx_thread w = Some t" by (auto simp: built_def filled_def)
      with cells_mem [of w "phy sip" ws_tx_thread t TxT] w show ?thesis by (simp add: parts_7_def)
    qed
    then show "\<forall>w \<in> set (phy sip). ws_rx_sort w = NULL \<and> (\<exists>t. ws_tx_thread w = Some t \<and> TxT t \<in># ?M)"
      using column_null(4) [OF b] by simp
    fix ws assume re: "refilled (\<lambda>p w. w\<lparr>ws_rx_sort := p\<rparr>) ws_rx_sort (phy sip) ws"
    have pp: "parts_9 (sip\<lparr>phy := ws\<rparr>) = cells Sorter ws_rx_sort ws + ?M"
      using refilled_parts(4) [OF re] by (simp add: parts_9_def)
    show "undone f L X (init_undo_9 run (sip\<lparr>phy := ws\<rparr>) s')"
      if "holdm f L X (cells Sorter ws_rx_sort ws + ?M) s'" for X s'
      using that f by (intro undo_9_hold) (simp_all add: pp filled_def)
    show "sorted f L dev {Mapped m} (sip\<lparr>phy := ws\<rparr>) s'"
      if "holdm f L {Mapped m} (cells Sorter ws_rx_sort ws + ?M) s'" "\<forall>w \<in> set ws. ws_rx_sort w \<noteq> NULL" for s'
      using that f refilled_built(4) [OF re that(2) b] by (simp add: pp sorted_def)
  qed
qed

lemma init_rx_stage:
  assumes g: "sorted f L dev {Mapped m} sip s" and n: "0 < nr_rx_rings dev"
  shows "stage f L s e (complete f L dev) (init_rx run sip e s)"
proof -
  let ?P1 = "\<lambda>X sip1 s. holdm f L X (parts_10 sip1) s \<and> filled True True True False False (hst sip1) \<and>
     built True True True True True dev sip1"
  let ?P2 = "\<lambda>X sip2 s. holdm f L X (parts_11 sip2) s \<and> filled True True True True False (hst sip2) \<and>
     built True True True True True dev sip2"
  have b: "built True True True True False dev sip" and f: "filled True True True False False (hst sip)"
    and G: "holdm f L {Mapped m} (parts_9 sip) s"
    using g by (simp_all add: sorted_def)
  have 1: "stage f L s e ?P1 (fill_column rx_body (init_undo_10 run) sip e s)"
  proof (rule rx_maker.fill_column_stage [OF G])
    show "\<forall>w \<in> set (phy sip). ws_rx_thread w = NULL \<and> True" using column_null(5) [OF b] by simp
    fix ws assume re: "refilled (\<lambda>p w. w\<lparr>ws_rx_thread := p\<rparr>) ws_rx_thread (phy sip) ws"
    have pp: "parts_10 (sip\<lparr>phy := ws\<rparr>) = cells RxT ws_rx_thread ws + parts_9 sip"
      using refilled_parts(5) [OF re] by (simp add: parts_10_def)
    show "undone f L X (init_undo_10 run (sip\<lparr>phy := ws\<rparr>) s')"
      if "holdm f L X (cells RxT ws_rx_thread ws + parts_9 sip) s'" for X s'
      using that f by (intro undo_10_hold) (simp_all add: pp filled_def)
    show "?P1 {Mapped m} (sip\<lparr>phy := ws\<rparr>) s'"
      if "holdm f L {Mapped m} (cells RxT ws_rx_thread ws + parts_9 sip) s'" "\<forall>w \<in> set ws. ws_rx_thread w \<noteq> NULL" for s'
      using that f refilled_built(5) [OF re that(2) b] by (simp add: pp)
  qed
  have 2: "stage f L s1 e ?P2 (do {
        t \<leftarrow> (case phy sip1 of [] \<Rightarrow> None | w # _ \<Rightarrow> ws_tx_thread w);
        q \<leftarrow> sin_tx_thread_get_out_queue t s1;
        fill_host (\<lambda>e s. Some (ctor_sorter q e s)) (\<lambda>p w. w\<lparr>ws_rx_sort := p\<rparr>) (init_undo_10 run) sip1 e s1 })"
    if P: "?P1 {Mapped m1} sip1 s1" for m1 sip1 s1
  proof -
    have "phy sip1 \<noteq> []" using P n by (auto simp: built_def shape_def word_gt_0 unat_eq_0)
    then obtain w ws where w: "phy sip1 = w # ws" by (cases "phy sip1") auto
    with P obtain t where t: "ws_tx_thread w = Some t" by (auto simp: built_def filled_def)
    have "TxT t \<in># parts_10 sip1" using t w by (simp add: parts_10_def parts_9_def parts_7_def)
    from out_queue_of [OF conjunct1 [OF P] this] obtain q where q: "sin_tx_thread_get_out_queue t s1 = Some q" by blast
    have "stage f L s1 e ?P2 (fill_host (\<lambda>e s. Some (ctor_sorter q e s)) (\<lambda>p w. w\<lparr>ws_rx_sort := p\<rparr>) (init_undo_10 run) sip1 e s1)"
    proof (rule sorter_host_stage [OF conjunct1 [OF P]])
      have pp: "parts_10 (sip1\<lparr>hst := (hst sip1)\<lparr>ws_rx_sort := p\<rparr>\<rparr>) = parts_10 sip1" for p
        by (simp add: parts_hst)
      show "undone f L X (init_undo_10 run (sip1\<lparr>hst := (hst sip1)\<lparr>ws_rx_sort := NULL\<rparr>\<rparr>) s')"
        if "holdm f L X (parts_10 sip1) s'" for X s' using that P by (intro undo_10_hold) (simp_all add: pp filled_def)
      show "?P2 {Mapped m1} (sip1\<lparr>hst := (hst sip1)\<lparr>ws_rx_sort := p\<rparr>\<rparr>) s'"
        if "holdm f L {Mapped m1} (opt_m Sorter p + parts_10 sip1) s'" "p \<noteq> NULL" for p s'
        using that P by (simp add: parts_11_def pp filled_def)
    qed
    then show ?thesis by (simp add: w t q)
  qed
  have 3: "stage f L s2 e (complete f L dev)
      (fill_host (sin_rx_thread_ctor (hst sip2)) (\<lambda>p w. w\<lparr>ws_rx_thread := p\<rparr>) (init_undo_11 run) sip2 e s2)"
    if P: "?P2 {Mapped m2} sip2 s2" for m2 sip2 s2
  proof (rule rxt_host_stage [OF conjunct1 [OF P]])
    have pp: "parts_11 (sip2\<lparr>hst := (hst sip2)\<lparr>ws_rx_thread := p\<rparr>\<rparr>) = parts_11 sip2" for p
      by (simp add: parts_hst)
    show "undone f L X (init_undo_11 run (sip2\<lparr>hst := (hst sip2)\<lparr>ws_rx_thread := NULL\<rparr>\<rparr>) s')"
      if "holdm f L X (parts_11 sip2) s'" for X s' using that P by (intro undo_11_hold) (simp_all add: pp filled_def)
    show "complete f L dev {Mapped m2} (sip2\<lparr>hst := (hst sip2)\<lparr>ws_rx_thread := p\<rparr>\<rparr>) s'"
      if "holdm f L {Mapped m2} (opt_m RxT p + parts_11 sip2) s'" "p \<noteq> NULL" for p s'
      using that P by (simp add: complete_def sip_parts_def pp filled_def)
  qed
  show ?thesis unfolding init_rx_stages
  proof (rule stage_and_then)
    show "stage f L s e ?P2 (and_then (fill_column rx_body (init_undo_10 run) sip e s)
     (\<lambda>sip e s. do {
        t \<leftarrow> (case phy sip of [] \<Rightarrow> None | w # _ \<Rightarrow> ws_tx_thread w);
        q \<leftarrow> sin_tx_thread_get_out_queue t s;
        fill_host (\<lambda>e s. Some (ctor_sorter q e s)) (\<lambda>p w. w\<lparr>ws_rx_sort := p\<rparr>) (init_undo_10 run) sip e s }))"
      by (rule stage_and_then [OF 1]) (rule 2)
  qed (rule 3)
qed

end

end
