(* ===== verification/Sin_Tags.thy ===== *)
theory Sin_Tags
  imports Sin_Stops
begin

text \<open>
  The type assertions of the build with \<open>SIN_DEBUG\<close> on the way through \<open>sin_destroy\<close>: each
  destructor that looks at the tag of its object, as it is compiled there. On a part in good
  order it does what the release build does.
\<close>

subsection \<open>Destructors that look at tags\<close>

text \<open>\<open>assert\<close> aborts; there is no state after it.\<close>

definition SIN_TYPE_ASSERT :: "u32 \<Rightarrow> u32 \<Rightarrow> unit option" where
  "SIN_TYPE_ASSERT sin_type model_type = (if sin_type = model_type then Some () else None)"

definition sin_signal_dtor_debug :: "addr \<Rightarrow> istore \<Rightarrow> istore option" where
  "sin_signal_dtor_debug ssign s = do {
     sg \<leftarrow> signals s ssign;
     _ \<leftarrow> SIN_TYPE_ASSERT (sg_type sg) SIN_TYPE_SIGNAL;
     sin_signal_dtor ssign s
   }"

definition sin_signal_get_signum_debug :: "addr \<Rightarrow> istore \<Rightarrow> int option" where
  "sin_signal_get_signum_debug ssign s = do {
     sg \<leftarrow> signals s ssign;
     _ \<leftarrow> SIN_TYPE_ASSERT (sg_type sg) SIN_TYPE_SIGNAL;
     Some (sg_signum sg)
   }"

definition sin_wi_queue_dtor_debug :: "addr \<Rightarrow> istore \<Rightarrow> istore option" where
  "sin_wi_queue_dtor_debug queue s = do {
     qr \<leftarrow> queues s queue;
     _ \<leftarrow> SIN_TYPE_ASSERT (q_type qr) SIN_TYPE_WI_QUEUE;
     sin_wi_queue_dtor queue s
   }"

definition sin_pkt_zone_dtor_debug :: "addr \<Rightarrow> istore \<Rightarrow> istore option" where
  "sin_pkt_zone_dtor_debug spzp s = do {
     z \<leftarrow> zones s spzp;
     _ \<leftarrow> SIN_TYPE_ASSERT (z_type z) SIN_TYPE_PKT_ZONE;
     sin_pkt_zone_dtor spzp s
   }"

text \<open>The destructor of a worker, which takes left-over signals off the control queue.\<close>

definition sin_wrk_thread_check_ctrl_debug :: "addr \<Rightarrow> istore \<Rightarrow> (int \<times> istore) option" where
  "sin_wrk_thread_check_ctrl_debug swtp s = do {
     (a, p) \<leftarrow> pvt_of swtp s;
     q \<leftarrow> wp_ctrl_queue p;
     (r, s) \<leftarrow> sin_wi_queue_get_item q 0 0 s;
     (case r of
        Return (Some ssign) \<Rightarrow> do {
          signum \<leftarrow> sin_signal_get_signum_debug ssign s;
          s \<leftarrow> (if Some ssign \<noteq> wp_sigterm p then sin_signal_dtor_debug ssign s else Some s);
          Some (signum, s)
        }
      | _ \<Rightarrow> Some (-1, s))
   }"

partial_function (option) drain_ctrl_debug :: "addr \<Rightarrow> istore \<Rightarrow> istore option" where
  "drain_ctrl_debug swtp s = do {
     (r, s) \<leftarrow> sin_wrk_thread_check_ctrl_debug swtp s;
     if r \<noteq> -1 then drain_ctrl_debug swtp s else Some s
   }"

definition wrk_reap_debug :: "addr \<Rightarrow> istore \<Rightarrow> istore option" where
  "wrk_reap_debug swtp s = do {
     (pp, p) \<leftarrow> pvt_of swtp s;
     s \<leftarrow> pthread_join (wp_tid p) s;
     sg \<leftarrow> wp_sigterm p;
     s \<leftarrow> sin_signal_dtor_debug sg s;
     s \<leftarrow> drain_ctrl_debug swtp s;
     q \<leftarrow> wp_ctrl_queue p;
     s \<leftarrow> sin_wi_queue_dtor_debug q s;
     s \<leftarrow> (case wp_tname p of None \<Rightarrow> Some s | Some n \<Rightarrow> free n s);
     wrk_undo_0 pp s
   }"

definition sin_wrk_thread_dtor_debug :: "runner \<Rightarrow> addr \<Rightarrow> istore \<Rightarrow> istore option" where
  "sin_wrk_thread_dtor_debug run swtp s = do {
     s \<leftarrow> wrk_put_sigterm swtp s;
     s \<leftarrow> wrk_pump swtp s;
     s \<leftarrow> run swtp s;
     wrk_reap_debug swtp s
   }"

definition call_dtor_debug :: "runner \<Rightarrow> addr \<Rightarrow> istore \<Rightarrow> istore option" where
  "call_dtor_debug run swtp s = do {
     w \<leftarrow> wrks s swtp;
     m \<leftarrow> w_dtor w;
     sin_wrk_thread_dtor_debug run swtp s
   }"

definition sin_rx_thread_dtor_debug :: "runner \<Rightarrow> addr \<Rightarrow> istore \<Rightarrow> istore option" where
  "sin_rx_thread_dtor_debug run srtp s = do {
     w \<leftarrow> wrks s srtp;
     _ \<leftarrow> SIN_TYPE_ASSERT (w_type w) SIN_TYPE_WRK_THREAD;
     s \<leftarrow> call_dtor_debug run srtp s;
     s \<leftarrow> free srtp s;
     Some (s\<lparr>wrks := (wrks s)(srtp := None), rxts := (rxts s)(srtp := None)\<rparr>)
   }"

definition sin_tx_thread_dtor_debug :: "runner \<Rightarrow> addr \<Rightarrow> istore \<Rightarrow> istore option" where
  "sin_tx_thread_dtor_debug run sttp s = do {
     w \<leftarrow> wrks s sttp;
     _ \<leftarrow> SIN_TYPE_ASSERT (w_type w) SIN_TYPE_WRK_THREAD;
     t \<leftarrow> txts s sttp;
     s \<leftarrow> call_dtor_debug run sttp s;
     q \<leftarrow> txo_outpkt_queue t;
     s \<leftarrow> sin_wi_queue_dtor_debug q s;
     tx_undo_1 sttp s
   }"

subsection \<open>The whole destructor\<close>

primrec destroy_rx_debug :: "runner \<Rightarrow> wrk_set list \<Rightarrow> istore \<Rightarrow> istore option" where
  "destroy_rx_debug run [] s = Some s"
| "destroy_rx_debug run (w # ws) s = do {
     s \<leftarrow> undo_one (ws_rx_thread w) (sin_rx_thread_dtor_debug run) s;
     s \<leftarrow> undo_one (ws_rx_sort w) rm_sorter s;
     destroy_rx_debug run ws s
   }"

primrec destroy_tx_debug :: "runner \<Rightarrow> wrk_set list \<Rightarrow> istore \<Rightarrow> istore option" where
  "destroy_tx_debug run [] s = Some s"
| "destroy_tx_debug run (w # ws) s = do {
     s \<leftarrow> undo_one (ws_tx_thread w) (sin_tx_thread_dtor_debug run) s;
     destroy_tx_debug run ws s
   }"

primrec destroy_zones_debug :: "wrk_set list \<Rightarrow> istore \<Rightarrow> istore option" where
  "destroy_zones_debug [] s = Some s"
| "destroy_zones_debug (w # ws) s = do {
     s \<leftarrow> undo_one (ws_rx_zone w) sin_pkt_zone_dtor_debug s;
     s \<leftarrow> undo_one (ws_tx_zone w) sin_pkt_zone_dtor_debug s;
     destroy_zones_debug ws (sys_close (ws_queue_fd w) s)
   }"

definition sin_destroy_debug :: "runner \<Rightarrow> addr \<Rightarrow> istore \<Rightarrow> istore option" where
  "sin_destroy_debug run p s = do {
     sip \<leftarrow> stances s p;
     _ \<leftarrow> SIN_TYPE_ASSERT (sip_type sip) SIN_TYPE_SINSTANCE;
     s \<leftarrow> undo_one (ws_rx_thread (hst sip)) (sin_rx_thread_dtor_debug run) s;
     s \<leftarrow> undo_one (ws_rx_sort (hst sip)) rm_sorter s;
     s \<leftarrow> destroy_rx_debug run (phy sip) s;
     s \<leftarrow> undo_one (ws_tx_thread (hst sip)) (sin_tx_thread_dtor_debug run) s;
     s \<leftarrow> destroy_tx_debug run (phy sip) s;
     s \<leftarrow> undo_one (ws_rx_zone (hst sip)) sin_pkt_zone_dtor_debug s;
     s \<leftarrow> undo_one (ws_tx_zone (hst sip)) sin_pkt_zone_dtor_debug s;
     s \<leftarrow> destroy_zones_debug (phy sip) (sys_close (ws_queue_fd (hst sip)) s);
     s \<leftarrow> free (phy_blk sip) s;
     s \<leftarrow> free (sip_addr sip) (sys_close (netmap_fd sip) s);
     Some (s\<lparr>stances := (stances s)(p := None)\<rparr>)
   }"

subsection \<open>On parts in good order\<close>

lemma queue_dtor_same: "queue_ok s q \<Longrightarrow> sin_wi_queue_dtor_debug q s = sin_wi_queue_dtor q s"
  by (auto simp: queue_ok_def sin_wi_queue_dtor_debug_def SIN_TYPE_ASSERT_def split: option.splits)

lemma zone_dtor_same: "part_ok s (Zone a) \<Longrightarrow> sin_pkt_zone_dtor_debug a s = sin_pkt_zone_dtor a s"
  by (auto simp: zone_ok_def sin_pkt_zone_dtor_debug_def SIN_TYPE_ASSERT_def split: option.splits)

lemma signal_dtor_same:
  "signals s g = Some sg \<Longrightarrow> sg_type sg = SIN_TYPE_SIGNAL \<Longrightarrow> sin_signal_dtor_debug g s = sin_signal_dtor g s"
  by (simp add: sin_signal_dtor_debug_def SIN_TYPE_ASSERT_def)

lemma reap_same:
  assumes p: "pvt_of a s = Some (pp, p)" "wp_ctrl_queue p = Some c" "wp_sigterm p = Some g"
    and g: "signals s g = Some sg" "sg_type sg = SIN_TYPE_SIGNAL"
    and c: "queues s c = Some cr" "q_head cr = NULL" "queue_ok s c"
  shows "wrk_reap_debug a s = wrk_reap a s"
proof -
  let ?s1 = "s\<lparr>os_live := os_live s - {Thread (wp_tid p)}\<rparr>"
  have 1: "sin_signal_dtor_debug g ?s1 = sin_signal_dtor g ?s1" using g by (simp add: signal_dtor_same)
  have 2: "drain_ctrl_debug a s2 = Some s2 \<and> drain_ctrl a s2 = Some s2 \<and>
      sin_wi_queue_dtor_debug c s2 = sin_wi_queue_dtor c s2"
    if s2: "sin_signal_dtor g ?s1 = Some s2" for s2
  proof -
    have q: "queues s2 = queues s" "pvt_of a s2 = Some (pp, p)"
      using s2 p(1) by (auto simp: sin_signal_dtor_def free_def release_def pvt_of_def split: if_splits Option.bind_splits)
    then have "sin_wrk_thread_check_ctrl_debug a s2 = Some (-1, s2)"
      using p c by (simp add: sin_wrk_thread_check_ctrl_debug_def sin_wi_queue_get_item_def)
    moreover have "sin_wrk_thread_check_ctrl a s2 = Some (-1, s2)"
      using check_ctrl_empty [OF q(2) p(2)] q(1) c by simp
    moreover have "queue_ok s2 c" using q(1) c(3) by (simp add: queue_ok_def)
    ultimately show ?thesis by (simp add: drain_ctrl.simps drain_ctrl_debug.simps queue_dtor_same)
  qed
  show ?thesis
  proof (cases "pthread_join (wp_tid p) s")
    case None
    with p show ?thesis by (simp add: wrk_reap_def wrk_reap_debug_def)
  next
    case (Some s1)
    then have "s1 = ?s1" by (simp add: pthread_join_def release_def split: if_splits)
    with Some p 1 2 show ?thesis
      by (cases "sin_signal_dtor g ?s1") (simp_all add: wrk_reap_def wrk_reap_debug_def)
  qed
qed

lemma call_dtor_same:
  assumes r: "ends run" and ok: "wrk_ok s a"
    and nq: "case wp_ctrl_notify_queue (wrk_priv s a) of None \<Rightarrow> True
      | Some nq \<Rightarrow> queue_ok s nq \<and> nq \<notin> set (wrk_addrs s a)"
  shows "call_dtor_debug run a s = call_dtor run a s"
proof -
  obtain s4 pp p c g cr where
    e: "do { s \<leftarrow> wrk_put_sigterm a s; s \<leftarrow> wrk_pump a s; run a s } = Some s4"
    and P: "pvt_of a s4 = Some (pp, p)" "wp_ctrl_queue p = Some c" "wp_sigterm p = Some g"
    and g: "signals s4 g = Some \<lparr>sg_type = SIN_TYPE_SIGNAL, sg_signum = SIGTERM\<rparr>"
    and c: "queues s4 c = Some cr" "q_head cr = NULL" "queue_ok s4 c"
    by (rule wrk_ended [OF r ok nq]) metis
  have "wrk_reap_debug a s4 = wrk_reap a s4" by (rule reap_same [OF P g _ c]) simp
  with e show ?thesis
    by (auto simp: call_dtor_debug_def call_dtor_def sin_wrk_thread_dtor_debug_def sin_wrk_thread_dtor_def
        split: Option.bind_splits)
qed

lemma wrk_tag: "wrk_ok s a \<Longrightarrow> \<exists>w. wrks s a = Some w \<and> w_type w = SIN_TYPE_WRK_THREAD"
  by (auto simp: wrk_ok_def)

lemma rxt_same:
  assumes r: "ends run" and ok: "part_ok s (RxT a)"
  shows "sin_rx_thread_dtor_debug run a s = sin_rx_thread_dtor run a s"
proof -
  have "call_dtor_debug run a s = call_dtor run a s"
    using ok by (intro call_dtor_same [OF r]) simp_all
  moreover obtain w where "wrks s a = Some w" "w_type w = SIN_TYPE_WRK_THREAD" using ok wrk_tag by auto
  ultimately show ?thesis
    by (simp add: sin_rx_thread_dtor_debug_def sin_rx_thread_dtor_def SIN_TYPE_ASSERT_def)
qed

lemma txt_same:
  assumes r: "ends run" and ok: "part_ok s (TxT a)" and live: "part_need s (TxT a) \<subseteq> os_live s"
  shows "sin_tx_thread_dtor_debug run a s = sin_tx_thread_dtor run a s"
proof -
  from ok obtain t q where t: "txts s a = Some t" "txo_outpkt_queue t = Some q"
    and n: "wp_ctrl_notify_queue (wrk_priv s a) = Some q" by auto
  have q: "tx_queue s a = q" using t by (simp add: tx_queue_def)
  have w: "wrk_ok s a" and nq: "case wp_ctrl_notify_queue (wrk_priv s a) of None \<Rightarrow> True
      | Some nq \<Rightarrow> queue_ok s nq \<and> nq \<notin> set (wrk_addrs s a)"
    using ok q n by auto
  obtain s1 where s1: "call_dtor run a s = Some s1" "queue_ok s1 q"
    by (rule wrk_removed [OF r w _ nq]) (use live n in auto)
  obtain w' where "wrks s a = Some w'" "w_type w' = SIN_TYPE_WRK_THREAD" using wrk_tag [OF w] by blast
  with s1 t call_dtor_same [OF r w nq] show ?thesis
    by (simp add: sin_tx_thread_dtor_debug_def sin_tx_thread_dtor_def SIN_TYPE_ASSERT_def queue_dtor_same)
qed

text \<open>
  The interface of a destructor with assertions: on a part in good order it is the destructor
  without.
\<close>

locale asserting_column = ring_column tag rm
  for tag :: "addr \<Rightarrow> part" and rm :: "addr \<Rightarrow> istore \<Rightarrow> istore option" +
  fixes rm_debug :: "addr \<Rightarrow> istore \<Rightarrow> istore option"
  assumes debug_same: "part_ok s (tag a) \<Longrightarrow> part_need s (tag a) \<subseteq> os_live s \<Longrightarrow> rm_debug a s = rm a s"
begin

lemma undo_one_both:
  assumes "holdm f L X (opt_m tag p + M) s" and "p \<noteq> NULL"
  obtains s' where "undo_one p rm s = Some s'" "undo_one p rm_debug s = Some s'" "holdm f L X M s'"
proof -
  obtain s' where s': "undo_one p rm s = Some s'" "holdm f L X M s'" using undo_one_hold [OF assms] by blast
  obtain a where a: "p = Some a" using assms(2) by auto
  have "part_ok s (tag a)" "part_need s (tag a) \<subseteq> os_live s" using holdmD [OF assms(1)] a by simp_all
  from debug_same [OF this] s' a show thesis by (intro that [of s']) (simp_all add: undo_one_def)
qed

end

interpretation zone_tag: asserting_column Zone sin_pkt_zone_dtor sin_pkt_zone_dtor_debug
  by unfold_locales (rule zone_dtor_same)

sublocale stops < tx_tag: asserting_column TxT "sin_tx_thread_dtor run" "sin_tx_thread_dtor_debug run"
  by unfold_locales (rule txt_same [OF run_ends])

sublocale stops < rx_tag: asserting_column RxT "sin_rx_thread_dtor run" "sin_rx_thread_dtor_debug run"
  by unfold_locales (rule rxt_same [OF run_ends])

end
