(* ===== verification/Sin_Lifecycle.thy ===== *)
theory Sin_Lifecycle
  imports Sin_Init_Threads Sin_Tags Sin_Example
begin

text \<open>
  The life of an instance: what \<open>sin_init\<close> returns, whatever calls fail, registration on its
  sorters, and \<open>sin_destroy\<close>.
\<close>


subsection \<open>The whole constructor\<close>

text \<open>
  An instance in good order at \<open>p\<close>: all it is made of is held, no two parts sharing an
  address, and besides them only left-overs of packets and the mapped memory have become
  live.
\<close>

definition instance_at :: "nat \<Rightarrow> resource set \<Rightarrow> netmap_dev \<Rightarrow> addr \<Rightarrow> istore \<Rightarrow> bool" where
  "instance_at f L dev p s \<longleftrightarrow> (\<exists>sip m. stances s p = Some (sip\<lparr>sin_nref := 1\<rparr>) \<and> sip_addr sip = p \<and>
     complete f L dev {Mapped m} sip s)"

definition ready :: "netmap_dev \<Rightarrow> sin_stance \<Rightarrow> bool" where
  "ready dev sip \<longleftrightarrow> filled True True True True True (hst sip) \<and> built True True True True True dev sip"

lemma complete_ready: "complete f L dev X sip s \<longleftrightarrow> holdm f L X (sip_parts sip) s \<and> ready dev sip"
  by (simp add: complete_def ready_def)

text \<open>Two of the parts held share no address; a part may be traded for another at the same place.\<close>

lemma holdm_apart:
  assumes "holdm f L X (add_mset x M) s" and "y \<in># M"
  shows "fp s x \<inter> fp s y = {}"
proof -
  have "count (add_mset x M) x \<le> 1" using assms(1) by (simp only: holdm_def)
  then have "x \<notin># M" by (simp add: not_in_iff)
  with assms(2) have "x \<noteq> y" by blast
  with holdD(8) [OF holdmD(1) [OF assms(1)], of x y] assms(2) show ?thesis by simp
qed

lemma holdm_trade:
  assumes h: "holdm f L X (add_mset x M) s" and y: "part_ok s y" "part_need s y = part_need s x"
  shows "holdm f L X (add_mset y M) s"
proof -
  have fy: "fp s y = fp s x" using y(2) by (simp add: fp_def)
  have "y \<notin># M"
    using holdm_apart [OF h, of y] fp_nonempty [OF y(1)] fy by auto
  moreover have cx: "count (add_mset x M) z \<le> 1" for z using h by (simp only: holdm_def)
  ultimately have c: "count (add_mset y M) z \<le> 1" for z
    using cx [of z] by (cases "x = z"; cases "y = z") (simp_all add: not_in_iff)
  have nx: "x \<notin># M" using cx [of x] by (simp add: not_in_iff)
  note H = holdD [OF holdmD(1) [OF h]]
  have "hold f L X (set_mset (add_mset y M)) s"
  proof (rule holdI)
    show "fp s a \<inter> fp s b = {}" if "a \<in># add_mset y M" "b \<in># add_mset y M" "a \<noteq> b" for a b
      using that holdm_apart [OF h] H(8) [of a b] fy by (auto simp: Int_commute)
    show "left_over s r \<or> r \<in> X \<or> (\<exists>z \<in> set_mset (add_mset y M). r \<in> part_need s z)"
      if "r \<in> os_live s" "r \<notin> L" for r
      using H(9) [OF that] y(2) by auto
    show "part_need s z \<subseteq> os_live s" "fp s z \<subseteq> {f..<os_fresh s}" "part_ok s z" if "z \<in># add_mset y M" for z
      using that H(5-7) [of x] H(5-7) [of z] y fy by auto
  qed (use H(1-4) in auto)
  with c show ?thesis by (simp add: holdm_def)
qed

lemma holdm_init: "os_ok s \<Longrightarrow> holdm (os_fresh s) (os_live s) {} {#} s"
  by (auto simp: holdm_def hold_def os_ok_def)

text \<open>Writing to an instance disturbs no part but the instance itself.\<close>

lemma part_stances:
  assumes "\<And>a sip. x = Stance a sip \<Longrightarrow> t a = stances s a"
  shows "part_ok (s\<lparr>stances := t\<rparr>) x = part_ok s x" "part_need (s\<lparr>stances := t\<rparr>) x = part_need s x"
  using assms
  by (cases x; simp add: zone_need_def zone_ok_def queue_need_def queue_name_def queue_ok_def tx_queue_def
      wrk_need_def wrk_pvt_def wrk_priv_def wrk_ok_def wrk_addrs_def; fail)+

lemma left_over_stances [simp]: "left_over (s\<lparr>stances := t\<rparr>) r = left_over s r"
  by (cases r) (simp_all add: left_over_def)

lemma holdm_stances:
  assumes "\<And>a sip. Stance a sip \<in># M \<Longrightarrow> t a = stances s a"
  shows "holdm f L X M (s\<lparr>stances := t\<rparr>) = holdm f L X M s"
proof -
  have "part_ok (s\<lparr>stances := t\<rparr>) x = part_ok s x" "part_need (s\<lparr>stances := t\<rparr>) x = part_need s x" if "x \<in># M" for x
    by (rule part_stances; use assms that in blast)+
  then show ?thesis by (simp add: holdm_def hold_def os_ok_def fp_def)
qed

lemma holdm_stances_empty [simp]: "holdm f L X {#} (s\<lparr>stances := t\<rparr>) = holdm f L X {#} s"
  by (rule holdm_stances) simp

text \<open>The parts an instance is made of do not contain the contents of an instance.\<close>

fun plain :: "part \<Rightarrow> bool" where
  "plain (Stance a sip) = False"
| "plain x = True"

lemma parts_ranges:
  "set_mset (opt_m tag p) \<subseteq> range tag" "set_mset (cells tag col ws) \<subseteq> range tag"
  "set_mset (fd_m fd) \<subseteq> range Descr" "set_mset (fds ws) \<subseteq> range Descr"
proof -
  have o: "set_mset (opt_m tag p) \<subseteq> range tag" for p by (cases p) auto
  have d: "set_mset (fd_m fd) \<subseteq> range Descr" for fd by (simp add: fd_m_def)
  show "set_mset (opt_m tag p) \<subseteq> range tag" "set_mset (fd_m fd) \<subseteq> range Descr" using o d .
  show "set_mset (cells tag col ws) \<subseteq> range tag" by (induction ws) (simp_all add: o del: opt_m_set)
  show "set_mset (fds ws) \<subseteq> range Descr" by (induction ws) (simp_all add: d)
qed

lemma sip_parts_plain:
  assumes "x \<in># sip_parts sip"
  shows "plain x"
proof -
  have "set_mset (sip_parts sip) \<subseteq> range Zone \<union> range TxT \<union> range RxT \<union> range Sorter \<union> range Blk \<union> range Descr"
    unfolding parts_defs using parts_ranges by (simp add: le_supI2 subset_iff del: opt_m_set; blast)
  with assms show ?thesis by auto
qed

lemma holdm_sip_stances [simp]: "holdm f L X (sip_parts sip) (s\<lparr>stances := t\<rparr>) = holdm f L X (sip_parts sip) s"
  by (rule holdm_stances) (auto dest: sip_parts_plain)

context stops
begin

lemma sin_init_stage:
  assumes "os_ok s" and "0 < nr_rx_rings dev"
    and r: "\<forall>i \<le> unat (nr_rx_rings dev). rings s (NETMAP_RXRING dev i) \<noteq> None \<and> rings s (NETMAP_TXRING dev i) \<noteq> None"
  shows "stage (os_fresh s) (os_live s) s e (complete (os_fresh s) (os_live s) dev)
    (and_then (and_then (and_then (and_then (and_then
       (init_open dev e s) (init_register dev)) (init_zones nm)) (init_tx run))
       (init_sorters run)) (init_rx run))"
proof -
  let ?f = "os_fresh s" and ?L = "os_live s"
  have 1: "stage ?f ?L s e (opened ?f ?L dev) (init_open dev e s)"
    by (rule init_open_stage [OF holdm_init [OF assms(1)]])
  have 2: "stage ?f ?L s e (registered ?f ?L dev) (and_then (init_open dev e s) (init_register dev))"
    by (rule stage_and_then [OF 1], rule init_register_stage) (use r in \<open>auto simp: keep_def\<close>)
  have 3: "stage ?f ?L s e (zoned ?f ?L dev) (and_then (and_then (init_open dev e s) (init_register dev)) (init_zones nm))"
    by (rule stage_and_then [OF 2]) (rule init_zones_stage)
  have 4: "stage ?f ?L s e (threaded ?f ?L dev) (and_then (and_then (and_then (init_open dev e s)
      (init_register dev)) (init_zones nm)) (init_tx run))"
    by (rule stage_and_then [OF 3]) (rule init_tx_stage)
  have 5: "stage ?f ?L s e (sorted ?f ?L dev) (and_then (and_then (and_then (and_then (init_open dev e s)
      (init_register dev)) (init_zones nm)) (init_tx run)) (init_sorters run))"
    by (rule stage_and_then [OF 4]) (rule init_sorters_stage)
  show ?thesis
    by (rule stage_and_then [OF 5]) (rule init_rx_stage [OF _ assms(2)])
qed

end


subsection \<open>The destructor\<close>

text \<open>Each step is shown of the release build and of the build with assertions at once.\<close>

lemma close_any_hold: "holdm f L X (fd_m fd + M) s \<Longrightarrow> holdm f L X M (sys_close fd s)"
  using descr_hold [of f L X fd M s] by (auto simp: fd_m_def sys_close_def split: if_splits)

lemma destroy_zones_hold:
  assumes "holdm f L X (cells Zone ws_rx_zone ws + (cells Zone ws_tx_zone ws + (fds ws + M))) s"
    and "\<forall>w \<in> set ws. ws_rx_zone w \<noteq> NULL \<and> ws_tx_zone w \<noteq> NULL"
  shows "\<exists>s'. destroy_zones ws s = Some s' \<and> destroy_zones_debug ws s = Some s' \<and> holdm f L X M s'"
  using assms
proof (induction ws arbitrary: s)
  case (Cons w ws)
  let ?N = "cells Zone ws_rx_zone ws + (cells Zone ws_tx_zone ws + (fds ws + M))"
  have n: "ws_rx_zone w \<noteq> NULL" "ws_tx_zone w \<noteq> NULL" using Cons.prems(2) by simp_all
  have "holdm f L X (opt_m Zone (ws_rx_zone w) + (opt_m Zone (ws_tx_zone w) + (fd_m (ws_queue_fd w) + ?N))) s"
    using Cons.prems(1) by (simp add: ac_simps)
  from zone_tag.undo_one_both [OF this n(1)] obtain s1 where
    1: "undo_one (ws_rx_zone w) sin_pkt_zone_dtor s = Some s1"
      "undo_one (ws_rx_zone w) sin_pkt_zone_dtor_debug s = Some s1"
      "holdm f L X (opt_m Zone (ws_tx_zone w) + (fd_m (ws_queue_fd w) + ?N)) s1" .
  from zone_tag.undo_one_both [OF 1(3) n(2)] obtain s2 where
    2: "undo_one (ws_tx_zone w) sin_pkt_zone_dtor s1 = Some s2"
      "undo_one (ws_tx_zone w) sin_pkt_zone_dtor_debug s1 = Some s2" "holdm f L X (fd_m (ws_queue_fd w) + ?N) s2" .
  have "holdm f L X ?N (sys_close (ws_queue_fd w) s2)" by (rule close_any_hold [OF 2(3)])
  from Cons.IH [OF this] Cons.prems(2) 1(1,2) 2(1,2) show ?case by simp
qed simp

context stops
begin

lemma destroy_rx_hold:
  assumes "holdm f L X (cells RxT ws_rx_thread ws + (cells Sorter ws_rx_sort ws + M)) s"
    and "\<forall>w \<in> set ws. ws_rx_thread w \<noteq> NULL \<and> ws_rx_sort w \<noteq> NULL"
  shows "\<exists>s'. destroy_rx run ws s = Some s' \<and> destroy_rx_debug run ws s = Some s' \<and> holdm f L X M s'"
  using assms
proof (induction ws arbitrary: s)
  case (Cons w ws)
  let ?N = "cells RxT ws_rx_thread ws + (cells Sorter ws_rx_sort ws + M)"
  have n: "ws_rx_thread w \<noteq> NULL" "ws_rx_sort w \<noteq> NULL" using Cons.prems(2) by simp_all
  have "holdm f L X (opt_m RxT (ws_rx_thread w) + (opt_m Sorter (ws_rx_sort w) + ?N)) s"
    using Cons.prems(1) by (simp add: ac_simps)
  from rx_tag.undo_one_both [OF this n(1)] obtain s1 where
    1: "undo_one (ws_rx_thread w) (sin_rx_thread_dtor run) s = Some s1"
      "undo_one (ws_rx_thread w) (sin_rx_thread_dtor_debug run) s = Some s1"
      "holdm f L X (opt_m Sorter (ws_rx_sort w) + ?N) s1" .
  from sorter_col.undo_one_hold [OF 1(3) n(2)] obtain s2 where
    2: "undo_one (ws_rx_sort w) rm_sorter s1 = Some s2" "holdm f L X ?N s2" by blast
  from Cons.IH [OF 2(2)] Cons.prems(2) 1(1,2) 2(1) show ?case by simp
qed simp

lemma destroy_tx_hold:
  assumes "holdm f L X (cells TxT ws_tx_thread ws + M) s" and "\<forall>w \<in> set ws. ws_tx_thread w \<noteq> NULL"
  shows "\<exists>s'. destroy_tx run ws s = Some s' \<and> destroy_tx_debug run ws s = Some s' \<and> holdm f L X M s'"
  using assms
proof (induction ws arbitrary: s)
  case (Cons w ws)
  have n: "ws_tx_thread w \<noteq> NULL" using Cons.prems(2) by simp
  have "holdm f L X (opt_m TxT (ws_tx_thread w) + (cells TxT ws_tx_thread ws + M)) s"
    using Cons.prems(1) by (simp add: ac_simps)
  from tx_tag.undo_one_both [OF this n] obtain s1 where
    1: "undo_one (ws_tx_thread w) (sin_tx_thread_dtor run) s = Some s1"
      "undo_one (ws_tx_thread w) (sin_tx_thread_dtor_debug run) s = Some s1"
      "holdm f L X (cells TxT ws_tx_thread ws + M) s1" .
  from Cons.IH [OF 1(3)] Cons.prems(2) 1(1,2) show ?case by simp
qed simp

lemma destroy_frame:
  assumes H: "holdm f L X (sip_parts sip + M) s" and rd: "ready dev sip"
    and st: "stances s p = Some (sip\<lparr>sin_nref := c\<rparr>)" "sip_addr sip = p"
  shows "\<exists>s'. sin_destroy run p s = Some s' \<and> sin_destroy_debug run p s = Some s' \<and> holdm f L X M s'"
proof -
  have tg: "SIN_TYPE_ASSERT (sip_type sip) SIN_TYPE_SINSTANCE = Some ()"
    using rd by (simp add: ready_def built_def shape_def SIN_TYPE_ASSERT_def)
  let ?h = "hst sip" and ?w = "phy sip"
  let ?M6 = "add_mset (Blk (phy_blk sip)) (parts_1 sip + M)"
  let ?M5 = "cells Zone ws_rx_zone ?w + (cells Zone ws_tx_zone ?w + (fds ?w + ?M6))"
  let ?M4 = "cells TxT ws_tx_thread ?w + (opt_m Zone (ws_rx_zone ?h) + (opt_m Zone (ws_tx_zone ?h) + (fd_m (ws_queue_fd ?h) + ?M5)))"
  let ?M3 = "cells RxT ws_rx_thread ?w + (cells Sorter ws_rx_sort ?w + (opt_m TxT (ws_tx_thread ?h) + ?M4))"
  have "sip_parts sip + M = opt_m RxT (ws_rx_thread ?h) + (opt_m Sorter (ws_rx_sort ?h) + ?M3)"
    by (simp add: parts_defs ac_simps)
  with H have 0: "holdm f L X (opt_m RxT (ws_rx_thread ?h) + (opt_m Sorter (ws_rx_sort ?h) + ?M3)) s"
    by (simp only:)
  have nh: "ws_rx_thread ?h \<noteq> NULL" "ws_rx_sort ?h \<noteq> NULL" "ws_tx_thread ?h \<noteq> NULL" "ws_rx_zone ?h \<noteq> NULL" "ws_tx_zone ?h \<noteq> NULL"
    using rd by (simp_all add: ready_def filled_def)
  have nw: "\<forall>w \<in> set ?w. ws_rx_thread w \<noteq> NULL \<and> ws_rx_sort w \<noteq> NULL" "\<forall>w \<in> set ?w. ws_tx_thread w \<noteq> NULL"
    "\<forall>w \<in> set ?w. ws_rx_zone w \<noteq> NULL \<and> ws_tx_zone w \<noteq> NULL"
    using rd by (simp_all add: ready_def built_def filled_def)
  from rx_tag.undo_one_both [OF 0 nh(1)] obtain s1 where
    1: "undo_one (ws_rx_thread ?h) (sin_rx_thread_dtor run) s = Some s1"
      "undo_one (ws_rx_thread ?h) (sin_rx_thread_dtor_debug run) s = Some s1"
      "holdm f L X (opt_m Sorter (ws_rx_sort ?h) + ?M3) s1" .
  obtain s2 where 2: "undo_one (ws_rx_sort ?h) rm_sorter s1 = Some s2" "holdm f L X ?M3 s2"
    using sorter_col.undo_one_hold [OF 1(3) nh(2)] by blast
  obtain s3 where 3: "destroy_rx run ?w s2 = Some s3" "destroy_rx_debug run ?w s2 = Some s3"
    "holdm f L X (opt_m TxT (ws_tx_thread ?h) + ?M4) s3"
    using destroy_rx_hold [OF 2(2) nw(1)] by blast
  from tx_tag.undo_one_both [OF 3(3) nh(3)] obtain s4 where
    4: "undo_one (ws_tx_thread ?h) (sin_tx_thread_dtor run) s3 = Some s4"
      "undo_one (ws_tx_thread ?h) (sin_tx_thread_dtor_debug run) s3 = Some s4" "holdm f L X ?M4 s4" .
  obtain s5 where 5: "destroy_tx run ?w s4 = Some s5" "destroy_tx_debug run ?w s4 = Some s5"
    "holdm f L X (opt_m Zone (ws_rx_zone ?h) + (opt_m Zone (ws_tx_zone ?h) + (fd_m (ws_queue_fd ?h) + ?M5))) s5"
    using destroy_tx_hold [OF 4(3) nw(2)] by blast
  from zone_tag.undo_one_both [OF 5(3) nh(4)] obtain s6 where
    6: "undo_one (ws_rx_zone ?h) sin_pkt_zone_dtor s5 = Some s6"
      "undo_one (ws_rx_zone ?h) sin_pkt_zone_dtor_debug s5 = Some s6"
      "holdm f L X (opt_m Zone (ws_tx_zone ?h) + (fd_m (ws_queue_fd ?h) + ?M5)) s6" .
  from zone_tag.undo_one_both [OF 6(3) nh(5)] obtain s7 where
    7: "undo_one (ws_tx_zone ?h) sin_pkt_zone_dtor s6 = Some s7"
      "undo_one (ws_tx_zone ?h) sin_pkt_zone_dtor_debug s6 = Some s7"
      "holdm f L X (fd_m (ws_queue_fd ?h) + ?M5) s7" .
  obtain s8 where 8: "destroy_zones ?w (sys_close (ws_queue_fd ?h) s7) = Some s8"
    "destroy_zones_debug ?w (sys_close (ws_queue_fd ?h) s7) = Some s8" "holdm f L X ?M6 s8"
    using destroy_zones_hold [OF close_any_hold [OF 7(3)] nw(3)] by blast
  obtain s9 where 9: "free (phy_blk sip) s8 = Some s9" "holdm f L X (parts_1 sip + M) s9"
    using blk_hold [OF 8(3)] by blast
  have D9: "holdm f L X (add_mset (Descr (netmap_fd sip)) (add_mset (Blk (sip_addr sip)) M)) s9"
    using 9(2) by (simp add: parts_1_def)
  note B = descr_hold [OF D9]
  obtain s10 where 10: "free (sip_addr sip) (sys_close (netmap_fd sip) s9) = Some s10" "holdm f L X M s10"
    using blk_hold [OF B] by blast
  have "Stance p x \<notin># M" for x
    using holdm_apart [OF B, of "Stance p x"] st(2) by (auto simp: fp_def)
  then have "holdm f L X M (s10\<lparr>stances := (stances s10)(p := None)\<rparr>)"
    using 10(2) by (subst holdm_stances) auto
  moreover have "sin_destroy run p s = Some (s10\<lparr>stances := (stances s10)(p := None)\<rparr>)"
    unfolding sin_destroy_def by (simp add: st(1) 1(1) 2(1) 3(1) 4(1) 5(1) 6(1) 7(1) 8(1) 9(1) 10(1))
  moreover have "sin_destroy_debug run p s = Some (s10\<lparr>stances := (stances s10)(p := None)\<rparr>)"
    unfolding sin_destroy_debug_def by (simp add: st(1) tg 1(2) 2(1) 3(2) 4(2) 5(2) 6(2) 7(2) 8(2) 9(1) 10(1))
  ultimately show ?thesis by blast
qed

lemma destroy_hold:
  assumes "instance_at f L dev p s"
  shows "\<exists>m s'. sin_destroy run p s = Some s' \<and> sin_destroy_debug run p s = Some s' \<and> holdm f L {Mapped m} {#} s'"
proof -
  from assms obtain sip m where st: "stances s p = Some (sip\<lparr>sin_nref := 1\<rparr>)" "sip_addr sip = p"
    and c: "complete f L dev {Mapped m} sip s" by (auto simp: instance_at_def)
  then have "holdm f L {Mapped m} (sip_parts sip + {#}) s" "ready dev sip" by (simp_all add: complete_ready)
  from destroy_frame [OF this st] show ?thesis by blast
qed

end

context stops
begin

lemma init_outcome:
  assumes "os_ok s" and "0 < nr_rx_rings dev"
    and "\<forall>i \<le> unat (nr_rx_rings dev). rings s (NETMAP_RXRING dev i) \<noteq> None \<and> rings s (NETMAP_TXRING dev i) \<noteq> None"
  shows "case sin_init nm dev run e s of
     None \<Rightarrow> \<not> all_well s
   | Some (None, e', s') \<Rightarrow> \<not> all_well s \<and> (e' = None \<longleftrightarrow> e = None) \<and>
       (\<exists>m b. holdm (os_fresh s) (os_live s) {Mapped m, Block b} {#} s')
   | Some (Some p, e', s') \<Rightarrow> e' = e \<and> instance_at (os_fresh s) (os_live s) dev p s'"
proof -
  define r where "r = and_then (and_then (and_then (and_then (and_then
       (init_open dev e s) (init_register dev)) (init_zones nm)) (init_tx run)) (init_sorters run)) (init_rx run)"
  have st: "stage (os_fresh s) (os_live s) s e (complete (os_fresh s) (os_live s) dev) r"
    unfolding r_def by (rule sin_init_stage [OF assms])
  show ?thesis
  proof (cases r)
    case None
    with st show ?thesis by (simp add: sin_init_def r_def [symmetric] stage_def)
  next
    case (Some x)
    show ?thesis
    proof (cases x)
      case (Inl y)
      obtain e' s' where "y = (e', s')" by (cases y)
      with Some Inl st show ?thesis by (simp add: sin_init_def r_def [symmetric] stage_def)
    next
      case (Inr y)
      obtain sip e' s' where y: "y = (sip, e', s')" by (cases y)
      with Some Inr st obtain m where c: "e' = e" "complete (os_fresh s) (os_live s) dev {Mapped m} sip s'"
        by (auto simp: stage_def)
      then have n: "sin_nref sip = 0" by (simp add: complete_def built_def shape_def)
      have "instance_at (os_fresh s) (os_live s) dev (sip_addr sip)
          (s'\<lparr>stances := (stances s')(sip_addr sip \<mapsto> sip\<lparr>sin_nref := 1\<rparr>)\<rparr>)"
        using c(2) unfolding instance_at_def by (intro exI [of _ sip] exI [of _ m]) (simp add: complete_def)
      with Some Inr y c(1) n show ?thesis by (simp add: sin_init_def r_def [symmetric] SIN_INCREF_def)
    qed
  qed
qed

end

lemma destroy_gone: "sin_destroy run p s = Some s' \<Longrightarrow> stances s' p = None"
  by (auto simp: sin_destroy_def split: Option.bind_splits)

lemma holdm_none:
  assumes "holdm f L X {#} s"
  shows "L \<subseteq> os_live s" "\<forall>r \<in> os_live s - L. left_over s r \<or> r \<in> X"
  using holdD(3,9) [OF holdmD(1) [OF assms]] by auto


definition ex_dev :: netmap_dev where
  "ex_dev = \<lparr>nr_rx_rings = 1, NETMAP_RXRING = (\<lambda>i. 60 + i), NETMAP_TXRING = (\<lambda>i. 70 + i)\<rparr>"

definition ex_boot :: istore where
  "ex_boot = \<lparr>os_fresh = 100, os_live = {}, os_script = (\<lambda>_. 0), os_clock = 0, links = Map.empty,
     queues = Map.empty, rings = [60 \<mapsto> ex_rx_ring, 61 \<mapsto> ex_rx_ring, 70 \<mapsto> ex_tx_ring, 71 \<mapsto> ex_tx_ring],
     pkts = Map.empty, zones = Map.empty, times = Map.empty, mem = Map.empty, signals = Map.empty,
     wrks = Map.empty, pvts = Map.empty, rxts = Map.empty, txts = Map.empty, sorters = Map.empty,
     stances = Map.empty, socks = Map.empty, saddrs = Map.empty, squeues = Map.empty\<rparr>"

lemma ex_boot_facts:
  "os_ok ex_boot" "0 < nr_rx_rings ex_dev" "all_well ex_boot"
  "\<forall>i \<le> unat (nr_rx_rings ex_dev). rings ex_boot (NETMAP_RXRING ex_dev i) \<noteq> None \<and>
    rings ex_boot (NETMAP_TXRING ex_dev i) \<noteq> None"
  by (auto simp: ex_boot_def ex_dev_def os_ok_def all_well_def ex_rx_ring_def ex_tx_ring_def le_Suc_eq)

lemma ex_instance:
  "\<exists>p s. sin_init ex_nm ex_dev finish_now None ex_boot = Some (Some p, None, s) \<and> instance_at 100 {} ex_dev p s"
proof -
  have f: "os_fresh ex_boot = 100" "os_live ex_boot = {}" by (simp_all add: ex_boot_def)
  from finish.init_outcome [OF ex_boot_facts(1,2,4), where nm = ex_nm and e = None] ex_boot_facts(3) show ?thesis
    by (cases "sin_init ex_nm ex_dev finish_now None ex_boot") (auto simp: f split: option.splits)
qed


lemma destroy_works:
  assumes "instance_at f L dev p s" and "ends run"
  shows "\<exists>s' m. sin_destroy run p s = Some s' \<and> stances s' p = None \<and> L \<subseteq> os_live s' \<and>
    (\<forall>r \<in> os_live s' - L. left_over s' r \<or> r = Mapped m)"
  using stops.destroy_hold [OF stops.intro [OF assms(2)] assms(1)] destroy_gone holdm_none by fastforce



subsection \<open>Registration on the sorters of an instance\<close>

definition reg_entry :: "addr \<Rightarrow> addr \<Rightarrow> (addr \<Rightarrow> cb_arg \<Rightarrow> pstore \<Rightarrow> int option) \<Rightarrow>
    (sin_list \<Rightarrow> cb_arg \<Rightarrow> pstore \<Rightarrow> pstore option) \<Rightarrow> ptr \<Rightarrow> pstore ps_entry" where
  "reg_entry b q taste consume ap = \<lparr>e_addr = b, e_type = 0, pkt_taste = taste, pkt_consume = consume,
     e_outq = q, e_ap = ap, e_wrklist = SIN_LIST_RESET\<rparr>"

text \<open>The sorter at \<open>a\<close> has got one more entry, in front.\<close>

definition one_more :: "addr \<Rightarrow> addr \<Rightarrow> (addr \<Rightarrow> cb_arg \<Rightarrow> pstore \<Rightarrow> int option) \<Rightarrow>
    (sin_list \<Rightarrow> cb_arg \<Rightarrow> pstore \<Rightarrow> pstore option) \<Rightarrow> ptr \<Rightarrow> istore \<Rightarrow> istore \<Rightarrow> bool" where
  "one_more a q taste consume ap s s' \<longleftrightarrow> (\<exists>so b. sorters s a = Some so \<and>
     sorters s' a = Some (so\<lparr>so_type := SIN_TYPE_ITERABLE, so_first := reg_entry b q taste consume ap # so_first so\<rparr>))"

lemma reg_sorter_effect:
  assumes "reg_sorter a q t c ap e s = Some (r, e', s')"
  shows "txts s' = txts s" "stances s' = stances s" "\<forall>x. x \<noteq> a \<longrightarrow> sorters s' x = sorters s x"
    "r = 0 \<Longrightarrow> one_more a q t c ap s s'"
  using assms
  by (auto simp: reg_sorter_def sin_pkt_sorter_reg_def one_more_def reg_entry_def malloc_def os_result_def Let_def
      split: Option.bind_splits if_splits)

lemma reg_rings_effect:
  assumes "reg_rings ws t c ap e s = Some (r, e', s')" and "distinct (map ws_rx_sort ws)"
  shows "txts s' = txts s \<and> stances s' = stances s \<and>
    (\<forall>x. Some x \<notin> ws_rx_sort ` set ws \<longrightarrow> sorters s' x = sorters s x) \<and>
    (r = 0 \<longrightarrow> (\<forall>w \<in> set ws. \<exists>a tx q. ws_rx_sort w = Some a \<and> ws_tx_thread w = Some tx \<and>
       sin_tx_thread_get_out_queue tx s = Some q \<and> one_more a q t c ap s s'))"
  using assms
proof (induction ws arbitrary: e s)
  case (Cons w ws)
  from Cons.prems(1) obtain tx q a r1 e1 s1 where
    1: "ws_tx_thread w = Some tx" "sin_tx_thread_get_out_queue tx s = Some q" "ws_rx_sort w = Some a"
      "reg_sorter a q t c ap e s = Some (r1, e1, s1)"
      "(if r1 \<noteq> 0 then Some (-1, e1, s1) else reg_rings ws t c ap e1 s1) = Some (r, e', s')"
    by (auto split: Option.bind_splits)
  note R = reg_sorter_effect [OF 1(4)]
  show ?case
  proof (cases "r1 = 0")
    case False
    with 1 R show ?thesis by auto
  next
    case True
    with 1(5) have "reg_rings ws t c ap e1 s1 = Some (r, e', s')" by simp
    from Cons.IH [OF this] Cons.prems(2) have
      I: "txts s' = txts s1" "stances s' = stances s1" "\<forall>x. Some x \<notin> ws_rx_sort ` set ws \<longrightarrow> sorters s' x = sorters s1 x"
        "r = 0 \<longrightarrow> (\<forall>w \<in> set ws. \<exists>a tx q. ws_rx_sort w = Some a \<and> ws_tx_thread w = Some tx \<and>
           sin_tx_thread_get_out_queue tx s1 = Some q \<and> one_more a q t c ap s1 s')" by simp_all
    have a: "Some a \<notin> ws_rx_sort ` set ws" using Cons.prems(2) 1(3) by (auto simp: image_iff)
    have hd: "one_more a q t c ap s s'" if "r = 0"
      using R(4) [OF True] I(3) a by (simp add: one_more_def)
    have tl: "\<exists>a tx q. ws_rx_sort v = Some a \<and> ws_tx_thread v = Some tx \<and>
           sin_tx_thread_get_out_queue tx s = Some q \<and> one_more a q t c ap s s'" if "r = 0" "v \<in> set ws" for v
    proof -
      from I(4) that obtain a' tx' q' where v: "ws_rx_sort v = Some a'" "ws_tx_thread v = Some tx'"
        "sin_tx_thread_get_out_queue tx' s1 = Some q'" "one_more a' q' t c ap s1 s'" by blast
      have "a' \<noteq> a" using a v(1) that(2) by (auto simp: image_iff)
      then have "sorters s1 a' = sorters s a'" using R(3) by simp
      with v R(1) show ?thesis by (auto simp: one_more_def sin_tx_thread_get_out_queue_def)
    qed
    show ?thesis using I(1-3) R(1-3) hd tl 1(1-3) by auto
  qed
qed simp

lemma reg_rings_hold:
  assumes "holdm f L X M s"
    and "\<forall>w \<in> set ws. \<exists>a t. ws_rx_sort w = Some a \<and> Sorter a \<in># M \<and> ws_tx_thread w = Some t \<and> TxT t \<in># M"
  shows "\<exists>r e' s'. reg_rings ws tst c ap e s = Some (r, e', s') \<and> holdm f L X M s' \<and> keep s s' \<and>
    (e' = None \<longleftrightarrow> e = None) \<and> (r = 0 \<or> r = -1) \<and> (r = 0 \<longrightarrow> e' = e) \<and> (r = 0 \<or> \<not> all_well s)"
  using assms
proof (induction ws arbitrary: e s)
  case (Cons w ws)
  from Cons.prems(2) obtain a t where at: "ws_rx_sort w = Some a" "Sorter a \<in># M" "ws_tx_thread w = Some t" "TxT t \<in># M"
    by auto
  from out_queue_of [OF Cons.prems(1) at(4)] obtain q where q: "sin_tx_thread_get_out_queue t s = Some q" by blast
  from holdm_reg [OF Cons.prems(1) at(2), of q tst c ap e] obtain r1 e1 s1 where
    1: "reg_sorter a q tst c ap e s = Some (r1, e1, s1)" "holdm f L X M s1" "keep s s1" "e1 = None \<longleftrightarrow> e = None"
      "r1 = 0 \<or> r1 = -1" "r1 = 0 \<longrightarrow> e1 = e" "r1 = 0 \<or> \<not> all_well s" by blast
  show ?case
  proof (cases "r1 = 0")
    case False
    with 1 at q show ?thesis by simp
  next
    case True
    from Cons.IH [OF 1(2), of e1] Cons.prems(2) obtain r e' s' where
      "reg_rings ws tst c ap e1 s1 = Some (r, e', s')" "holdm f L X M s'" "keep s1 s'"
        "e' = None \<longleftrightarrow> e1 = None" "r = 0 \<or> r = -1" "r = 0 \<longrightarrow> e' = e1" "r = 0 \<or> \<not> all_well s1" by auto
    with 1 True at q all_well_keep [OF 1(3)] keep_trans [OF 1(3)] show ?thesis by simp
  qed
qed simp

lemma cells_unique:
  assumes "\<forall>x. count (cells tag col ws) x \<le> 1" and "\<forall>w \<in> set ws. col w \<noteq> NULL"
  shows "distinct (map col ws)"
  using assms
proof (induction ws)
  case (Cons w ws)
  from Cons.prems(2) obtain a where a: "col w = Some a" by auto
  have c: "\<forall>x. count (cells tag col ws) x \<le> 1"
  proof
    fix x show "count (cells tag col ws) x \<le> 1"
      using spec [OF Cons.prems(1), of x] by (simp split: if_splits)
  qed
  have "col w \<notin> col ` set ws"
  proof
    assume "col w \<in> col ` set ws"
    then obtain v where "v \<in> set ws" "col v = Some a" using a by auto
    then have "tag a \<in># cells tag col ws" by (rule cells_mem)
    then have "0 < count (cells tag col ws) (tag a)" by simp
    with spec [OF Cons.prems(1), of "tag a"] a show False by simp
  qed
  with Cons.IH [OF c] Cons.prems(2) show ?case by simp
qed simp

lemma sorter_reg_frame:
  assumes h: "holdm f L X (sip_parts sip + M) s" and rd: "ready dev sip" and st: "stances s p = Some (sip\<lparr>sin_nref := c\<rparr>)"
  shows "\<exists>r e' s'. sin_sorter_reg p taste consume ap e s = Some (r, e', s') \<and>
    holdm f L X (sip_parts sip + M) s' \<and> keep s s' \<and> stances s' = stances s \<and> (r = 0 \<or> \<not> all_well s) \<and>
    (if r = 0 then e' = e \<and> (\<forall>w \<in> set (phy sip). \<exists>a tx q. ws_rx_sort w = Some a \<and> ws_tx_thread w = Some tx \<and>
       sin_tx_thread_get_out_queue tx s = Some q \<and> one_more a q taste consume ap s s')
     else r = -1 \<and> (e' = None \<longleftrightarrow> e = None))"
proof -
  have n: "\<forall>w \<in> set (phy sip). ws_rx_sort w \<noteq> NULL \<and> ws_tx_thread w \<noteq> NULL"
    using rd by (simp add: ready_def built_def filled_def)
  have "\<exists>a t. ws_rx_sort w = Some a \<and> Sorter a \<in># sip_parts sip + M \<and> ws_tx_thread w = Some t \<and> TxT t \<in># sip_parts sip + M"
    if w: "w \<in> set (phy sip)" for w
  proof -
    from n w obtain a t where "ws_rx_sort w = Some a" "ws_tx_thread w = Some t" by blast
    with cells_mem [OF w, of ws_rx_sort a Sorter] cells_mem [OF w, of ws_tx_thread t TxT] show ?thesis
      by (simp add: parts_defs)
  qed
  with reg_rings_hold [OF h, of "phy sip" taste consume ap e] obtain r e' s' where
    1: "reg_rings (phy sip) taste consume ap e s = Some (r, e', s')" "holdm f L X (sip_parts sip + M) s'" "keep s s'"
      "e' = None \<longleftrightarrow> e = None" "r = 0 \<or> r = -1" "r = 0 \<longrightarrow> e' = e" "r = 0 \<or> \<not> all_well s" by blast
  have "distinct (map ws_rx_sort (phy sip))"
  proof (rule cells_unique [where tag = Sorter])
    have "count (cells Sorter ws_rx_sort (phy sip)) x \<le> count (sip_parts sip + M) x" for x
      by (simp add: parts_defs)
    moreover have "count (sip_parts sip + M) x \<le> 1" for x using h by (simp only: holdm_def)
    ultimately show "\<forall>x. count (cells Sorter ws_rx_sort (phy sip)) x \<le> 1" using le_trans by blast
  qed (use n in simp)
  note E = reg_rings_effect [OF 1(1) this]
  with st 1 show ?thesis
    by (intro exI [of _ r] exI [of _ e'] exI [of _ s']) (auto simp: sin_sorter_reg_def)
qed

lemma sorter_reg_works:
  assumes i: "instance_at f L dev p s"
  shows "\<exists>r e' s' sip. sin_sorter_reg p taste consume ap e s = Some (r, e', s') \<and> stances s p = Some sip \<and>
    instance_at f L dev p s' \<and> (r = 0 \<or> \<not> all_well s) \<and>
    (if r = 0 then e' = e \<and> (\<forall>w \<in> set (phy sip). \<exists>a tx q. ws_rx_sort w = Some a \<and> ws_tx_thread w = Some tx \<and>
       sin_tx_thread_get_out_queue tx s = Some q \<and> one_more a q taste consume ap s s')
     else r = -1 \<and> (e' = None \<longleftrightarrow> e = None))"
proof -
  from i obtain sip m where st: "stances s p = Some (sip\<lparr>sin_nref := 1\<rparr>)" "sip_addr sip = p"
    and h: "holdm f L {Mapped m} (sip_parts sip + {#}) s" and rd: "ready dev sip"
    by (auto simp: instance_at_def complete_ready)
  from sorter_reg_frame [OF h rd st(1), of taste consume ap e] obtain r e' s' where
    1: "sin_sorter_reg p taste consume ap e s = Some (r, e', s')" "holdm f L {Mapped m} (sip_parts sip) s'"
      "stances s' = stances s" "r = 0 \<or> \<not> all_well s"
      "if r = 0 then e' = e \<and> (\<forall>w \<in> set (phy sip). \<exists>a tx q. ws_rx_sort w = Some a \<and> ws_tx_thread w = Some tx \<and>
       sin_tx_thread_get_out_queue tx s = Some q \<and> one_more a q taste consume ap s s')
     else r = -1 \<and> (e' = None \<longleftrightarrow> e = None)" by auto
  have "instance_at f L dev p s'"
    using st rd 1(2,3) unfolding instance_at_def by (intro exI [of _ sip] exI [of _ m]) (simp add: complete_ready)
  with st(1) 1 show ?thesis
    by (intro exI [of _ r] exI [of _ e'] exI [of _ s'] exI [of _ "sip\<lparr>sin_nref := 1\<rparr>"])
      (cases "r = 0"; auto)
qed



end
