(* ===== verification/Sin_Session.thy ===== *)
theory Sin_Session
  imports Sin_Sockets Sin_Lifecycle
begin

text \<open>
  What the operations on sockets do, on every branch, and a whole session on a socket against
  a specification that remembers two addresses.
\<close>

subsection \<open>Opening and closing\<close>

lemma upd_stance_Some: "stances s p = Some sip \<Longrightarrow> upd_stance p f s = Some (s\<lparr>stances := (stances s)(p \<mapsto> f sip)\<rparr>)"
  by (simp add: upd_stance_def)

lemma sip_incref_works:
  assumes "stances s p = Some sip"
  shows "sip_incref p s = Some (if sin_nref sip = 0 then (NULL, s)
    else (Some p, s\<lparr>stances := (stances s)(p \<mapsto> sip\<lparr>sin_nref := sin_nref sip + 1\<rparr>)\<rparr>))"
  using assms
  by (auto simp: sip_incref_def upd_stance_def SIN_INCREF_def SIN_DECREF_def fun_upd_idem)

text \<open>
  C13. On an instance with a reference, \<open>sin_socket\<close> for a UDP socket counts one reference more
  and returns an unbound, unconnected socket in good order; every failure (no reference, a
  protocol the library does not have, no memory) leaves the references and the ledger as
  they were and sets the matching error.
\<close>

theorem sin_socket_correct:
  assumes "os_ok s" and "stances s p = Some sip"
  shows "\<exists>r e' s'. sin_socket p d t pr e s = Some (r, e', s') \<and> (case r of
     Some a \<Rightarrow> e' = e \<and> sin_nref sip \<noteq> 0 \<and> d = PF_INET \<and> t = SOCK_DGRAM \<and> pr = 0 \<and>
       sock_at (os_live s) a s' \<and> bound_to a s' = None \<and> connected_to a s' = None \<and>
       stances s' = (stances s)(p \<mapsto> sip\<lparr>sin_nref := sin_nref sip + 1\<rparr>)
   | None \<Rightarrow> os_live s' = os_live s \<and> stances s' = stances s \<and> e' = SET_ERR e (
       if sin_nref sip = 0 then EINVAL
       else if d \<noteq> PF_INET \<or> t \<noteq> SOCK_DGRAM \<or> pr \<noteq> 0 then EPROTONOSUPPORT else ENOMEM))"
proof (cases "sin_nref sip = 0 \<or> d \<noteq> PF_INET \<or> t \<noteq> SOCK_DGRAM \<or> pr \<noteq> 0")
  case True
  then show ?thesis using assms(2)
    by (auto simp: sin_socket_def sip_incref_works upd_stance_Some SIN_DECREF_def fun_upd_idem)
next
  case False
  let ?f = "os_fresh s"
  have nl: "Block ?f \<notin> os_live s" by (rule fresh_not_live [OF assms(1)]) simp
  show ?thesis
  proof (cases "os_script s (os_clock s) = 0")
    case True
    with False assms nl os_okD [OF assms(1)] show ?thesis
      by (auto simp: sin_socket_def sip_incref_works malloc_def os_result_def sock_at_def owns_def end_at_def
          os_ok_def bound_to_def connected_to_def name_of_def intro: less_SucI)
  next
    case f: False
    with False assms show ?thesis
      by (auto simp: sin_socket_def sip_incref_works malloc_def os_result_def upd_stance_Some SIN_DECREF_def fun_upd_idem)
  qed
qed

definition ex_host :: istore where
  "ex_host = ex_boot\<lparr>stances := [7 \<mapsto> (sin_stance_zero 7)\<lparr>sin_nref := 1\<rparr>]\<rparr>"

lemma ex_host_ok: "os_ok ex_host" "stances ex_host 7 = Some ((sin_stance_zero 7)\<lparr>sin_nref := 1\<rparr>)"
  by (simp_all add: ex_host_def ex_boot_def os_ok_def)

theorem sin_socket_correct_witness:
  "\<exists>a s'. sin_socket 7 2 2 0 None ex_host = Some (Some a, None, s') \<and> sock_at (os_live ex_host) a s'"
proof -
  have "sin_nref ((sin_stance_zero 7)\<lparr>sin_nref := 1\<rparr>) \<noteq> 0" by simp
  moreover have "sin_socket 7 2 2 0 None ex_host \<noteq> None" "\<forall>e s. sin_socket 7 2 2 0 None ex_host \<noteq> Some (NULL, e, s)"
    by (simp_all add: sin_socket_def sip_incref_def upd_stance_def SIN_INCREF_def PF_INET_def SOCK_DGRAM_def malloc_def os_result_def
        ex_host_def ex_boot_def)
  ultimately show ?thesis
    using sin_socket_correct [OF ex_host_ok, of 2 2 0 None] by (auto split: option.splits)
qed

lemma close_addr_works:
  assumes "end_at L a p s" and "blk p \<subseteq> os_live s"
  shows "close_addr p s = Some (s\<lparr>os_live := os_live s - blk p, saddrs := (case p of None \<Rightarrow> saddrs s | Some b \<Rightarrow> (saddrs s)(b := None))\<rparr>)"
  using assms by (cases p) (auto simp: close_addr_def end_at_def free_def split: option.splits)

lemma close_works:
  assumes "sock_at L a s"
  shows "\<exists>s'. sin_close a s = Some (0, s') \<and> os_live s' = L \<and> socks s' a = None \<and> stances s' = stances s"
proof -
  from assms obtain so where so: "socks s a = Some so" and al: "Block a \<notin> L" and ow: "owns L a (ss_src so) (ss_dst so) s"
    by (auto simp: sock_at_def split: option.splits)
  let ?p = "ss_src so" and ?q = "ss_dst so"
  let ?s1 = "s\<lparr>os_live := os_live s - blk ?p, saddrs := (case ?p of None \<Rightarrow> saddrs s | Some b \<Rightarrow> (saddrs s)(b := None))\<rparr>"
  let ?s2 = "?s1\<lparr>os_live := os_live ?s1 - blk ?q, saddrs := (case ?q of None \<Rightarrow> saddrs ?s1 | Some b \<Rightarrow> (saddrs ?s1)(b := None))\<rparr>"
  have 1: "close_addr ?p s = Some ?s1"
    by (rule close_addr_works) (use ow in \<open>auto simp: owns_def\<close>)
  have e: "end_at L a ?q ?s1 = end_at L a ?q s"
    by (rule end_at_cong) (use ow in \<open>auto simp: owns_def split: option.splits\<close>)
  have d: "blk ?p \<inter> blk ?q = {}" using ow by (cases ?p; cases ?q) (auto simp: owns_def)
  have 2: "close_addr ?q ?s1 = Some ?s2"
    by (rule close_addr_works) (use ow e d in \<open>auto simp: owns_def\<close>)
  have l: "blk ?p \<inter> insert (Block a) L = {}" "blk ?q \<inter> insert (Block a) L = {}"
    using ow by (cases ?p; cases ?q; auto simp: owns_def end_at_def)+
  have "os_live ?s2 = insert (Block a) L" using ow d l by (auto simp: owns_def)
  then show ?thesis using so 1 2 al by (simp add: sin_close_def free_def Let_def)
qed

subsection \<open>Bind and connect\<close>


definition ex_bound :: istore where
  "ex_bound = ex_boot\<lparr>os_live := {Block 9, Block 10},
     socks := [9 \<mapsto> \<lparr>ss_type = SIN_TYPE_SOCKET, ss_nref = 1, ss_dst = NULL, ss_src = Some 10, ss_sip = 7\<rparr>],
     saddrs := [10 \<mapsto> \<lparr>sa_type = SIN_TYPE_ADDR, sa_addr = 10, sa_addrlen = 1, sa_data = [5]\<rparr>]\<rparr>"

lemma ex_bound_ok: "sock_at {} 9 ex_bound"
  by (auto simp: sock_at_def ex_bound_def ex_boot_def os_ok_def owns_def end_at_def)


lemma sin_connect_works:
  assumes "sock_at L a s" and "length name = unat len"
  shows "case sin_connect a name len e s of
     None \<Rightarrow> (\<exists>so b sa. socks s a = Some so \<and> ss_dst so = Some b \<and> saddrs s b = Some sa \<and>
       sa_addrlen sa < len \<and> os_script s (os_clock s) = 1)
   | Some (r, e', s') \<Rightarrow> sock_at L a s' \<and> stances s' = stances s \<and> os_script s' = os_script s \<and>
       bound_to a s' = bound_to a s \<and>
       (if r = 0 then e' = e \<and> connected_to a s' = Some name
        else r = -1 \<and> e' = SET_ERR e ENOMEM \<and> connected_to a s' = connected_to a s)"
proof -
  from assms(1) obtain so where so: "socks s a = Some so" by (auto simp: sock_at_def split: option.splits)
  from dst_end.name_end_works [OF assms(1) so assms(2), of e] show ?thesis
    using so by (auto simp: sin_connect_def bound_to_def connected_to_def split: option.splits if_splits)
qed

lemma sin_bind_works:
  assumes "sock_at L a s" and "length name = unat len"
  shows "case sin_bind a name len e s of
     None \<Rightarrow> os_script s (os_clock s) = 1
   | Some (r, e', s') \<Rightarrow> sock_at L a s' \<and> stances s' = stances s \<and> os_script s' = os_script s \<and>
       connected_to a s' = connected_to a s \<and> bound_to a s' = (if r = 0 then Some name else bound_to a s)"
proof -
  from assms(1) obtain so where so: "socks s a = Some so" by (auto simp: sock_at_def split: option.splits)
  from src_end.name_end_works [OF assms(1) so assms(2), of e] show ?thesis
    using so by (auto simp: sin_bind_def bound_to_def connected_to_def split: option.splits if_splits)
qed

subsection \<open>A whole session\<close>

datatype sock_op = Bind "u8 list" | Connect "u8 list"

fun op_name :: "sock_op \<Rightarrow> u8 list" where
  "op_name (Bind n) = n"
| "op_name (Connect n) = n"

fun sock_step :: "addr \<Rightarrow> sock_op \<Rightarrow> istore \<Rightarrow> (int \<times> errno option \<times> istore) option" where
  "sock_step a (Bind n) s = sin_bind a n (of_nat (length n)) None s"
| "sock_step a (Connect n) s = sin_connect a n (of_nat (length n)) None s"

fun run_ops :: "addr \<Rightarrow> sock_op list \<Rightarrow> istore \<Rightarrow> (int list \<times> istore) option" where
  "run_ops a [] s = Some ([], s)"
| "run_ops a (x # xs) s = do {
     (r, _, s) \<leftarrow> sock_step a x s;
     (rs, s) \<leftarrow> run_ops a xs s;
     Some (r # rs, s)
   }"

text \<open>The specification: the two addresses, each the one last set with success.\<close>

fun set_name :: "sock_op \<Rightarrow> int \<Rightarrow> u8 list option \<times> u8 list option \<Rightarrow> u8 list option \<times> u8 list option" where
  "set_name (Bind n) r (b, c) = (if r = 0 then Some n else b, c)"
| "set_name (Connect n) r (b, c) = (b, if r = 0 then Some n else c)"

fun names_after :: "sock_op list \<Rightarrow> int list \<Rightarrow> u8 list option \<times> u8 list option \<Rightarrow>
    u8 list option \<times> u8 list option" where
  "names_after (x # xs) (r # rs) bc = names_after xs rs (set_name x r bc)"
| "names_after _ _ bc = bc"

lemma sock_step_works:
  assumes "sock_at L a s" and "\<forall>k. os_script s k \<noteq> 1" and "length (op_name x) < 2 ^ 32"
  shows "\<exists>r e s'. sock_step a x s = Some (r, e, s') \<and> sock_at L a s' \<and> stances s' = stances s \<and> os_script s' = os_script s \<and>
    (bound_to a s', connected_to a s') = set_name x r (bound_to a s, connected_to a s)"
proof (cases x)
  case (Bind n)
  have "length n = unat (of_nat (length n) :: u32)" using assms(3) Bind by (simp add: unat_of_nat)
  from sin_bind_works [OF assms(1) this, of None] assms(2) Bind show ?thesis
    by (auto split: option.splits)
next
  case (Connect n)
  have "length n = unat (of_nat (length n) :: u32)" using assms(3) Connect by (simp add: unat_of_nat)
  from sin_connect_works [OF assms(1) this, of None] assms(2) Connect show ?thesis
    by (auto split: option.splits if_splits)
qed

lemma run_ops_works:
  assumes "sock_at L a s" and "\<forall>k. os_script s k \<noteq> 1" and "\<forall>x \<in> set xs. length (op_name x) < 2 ^ 32"
  shows "\<exists>rs s'. run_ops a xs s = Some (rs, s') \<and> sock_at L a s' \<and> stances s' = stances s \<and>
    (bound_to a s', connected_to a s') = names_after xs rs (bound_to a s, connected_to a s)"
  using assms
proof (induction xs arbitrary: s)
  case (Cons x xs)
  from sock_step_works [OF Cons.prems(1,2), of x] Cons.prems(3) obtain r e s1 where
    1: "sock_step a x s = Some (r, e, s1)" "sock_at L a s1" "stances s1 = stances s" "os_script s1 = os_script s"
      "(bound_to a s1, connected_to a s1) = set_name x r (bound_to a s, connected_to a s)" by auto
  from Cons.IH [OF 1(2)] Cons.prems(2,3) 1(4) obtain rs s2 where
    "run_ops a xs s1 = Some (rs, s2)" "sock_at L a s2" "stances s2 = stances s1"
    "(bound_to a s2, connected_to a s2) = names_after xs rs (bound_to a s1, connected_to a s1)" by auto
  with 1 show ?case by simp
qed simp



end
