(* ===== verification/Sin_Shutdown.thy ===== *)
theory Sin_Shutdown
  imports Sin_Lifecycle
begin

text \<open>
  The two moments at which a worker thread and its owner run side by side: shutdown and start.

  For shutdown the transmit thread and its owner are a transition system whose steps are the
  modelled functions: the thread goes through the top of its loop, where it may sleep in
  its output queue, to the look at its control queue and back; the owner, in the destructor,
  queues the signal, pumps the output queue and waits in \<open>pthread_join\<close>. Nobody else writes
  to the queues: \<open>sin_destroy\<close> has ended the receive threads before. Spurious wake-ups, which
  POSIX allows but nobody may count on, are left out.
\<close>

datatype place = Top | Asleep | Ctrl | Ended

datatype owner = Idle | Signalled | Joining | Joined

inductive down :: "addr \<Rightarrow> addr \<Rightarrow> place \<times> owner \<times> istore \<Rightarrow> place \<times> owner \<times> istore \<Rightarrow> bool" for a q where
  full: "down a q (Top, w, s) (Ctrl, w, s)"
| take: "sin_wi_queue_get_items q l 1 1 s = Some (Return n, l', s') \<Longrightarrow> down a q (Top, w, s) (Ctrl, w, s')"
| sleep: "sin_wi_queue_get_items q l 1 1 s = Some (Wait, l', s') \<Longrightarrow> down a q (Top, w, s) (Asleep, w, s')"
| wake: "queues s q = Some qr \<Longrightarrow> 0 < woken (q_cond qr) \<Longrightarrow>
    sin_wi_queue_get_items_wake q l 1 1 s = Some (Return n, l', s') \<Longrightarrow> down a q (Asleep, w, s) (Ctrl, w, s')"
| check: "sin_wrk_thread_check_ctrl a s = Some (r, s') \<Longrightarrow>
    down a q (Ctrl, w, s) (if r = SIGTERM then Ended else Top, w, s')"
| put: "wrk_put_sigterm a s = Some s' \<Longrightarrow> down a q (t, Idle, s) (t, Signalled, s')"
| pump: "wrk_pump a s = Some s' \<Longrightarrow> down a q (t, Signalled, s) (t, Joining, s')"
| join: "down a q (Ended, Joining, s) (Ended, Joined, s)"

inductive_simps down_at:
  "down a q (Asleep, Idle, s) st" "down a q (Asleep, Signalled, s) st" "down a q (Asleep, Joining, s) st"
  "down a q (Ctrl, Joining, s) st" "down a q (Ended, Joining, s) st" "down a q (Ended, Joined, s) st"

definition sleepers :: "addr \<Rightarrow> nat \<Rightarrow> istore \<Rightarrow> bool" where
  "sleepers q n s \<longleftrightarrow> (case queues s q of None \<Rightarrow> False
     | Some qr \<Rightarrow> q_head qr = NULL \<and> unat (q_nwait qr) = n \<and> q_cond qr = \<lparr>asleep = n, woken = 0\<rparr>)"

text \<open>The two halves of the destructor on a transmit thread in good order.\<close>

lemma signal_works:
  assumes ok: "part_ok s (TxT a)" and q: "queues s (tx_queue s a) = Some qr"
  obtains c g p pp cr s1 where "wrk_put_sigterm a s = Some s1"
    "wrk_pump a s1 = Some (s1\<lparr>queues := (queues s1)(tx_queue s a \<mapsto> notify_worker qr)\<rparr>)"
    "queues s1 (tx_queue s a) = Some qr" "c \<noteq> tx_queue s a" "queues s1 c = Some cr" "q_head cr = Some g"
    "links s1 g = Some NULL" "signals s1 g = Some \<lparr>sg_type = SIN_TYPE_SIGNAL, sg_signum = SIGTERM\<rparr>"
    "wp_ctrl_queue p = Some c" "wp_sigterm p = Some g"
    "\<And>Q. pvt_of a (s1\<lparr>queues := Q\<rparr>) = Some (pp, p)"
proof -
  have w: "wrk_ok s a" using ok by simp
  from w obtain w pp p n c g cr where W: "wrks s a = Some w" "w_dtor w \<noteq> None" "w_pvt w = Some pp"
    "pvts s pp = Some p" "wp_tname p = Some n" "wp_ctrl_queue p = Some c" "wp_sigterm p = Some g"
    and S: "signals s g = Some \<lparr>sg_type = SIN_TYPE_SIGNAL, sg_signum = SIGTERM\<rparr>" "links s g \<noteq> None"
    and Q: "queues s c = Some cr" "q_list cr = SIN_LIST_RESET" "queue_ok s c"
    and d: "distinct [a, pp, n, c, queue_name s c, g, wp_tid p]"
    and need: "wrk_need s a = {Block pp, Block n, Block g, Thread (wp_tid p)} \<union> queue_need s c"
    and pr: "wrk_priv s a = p" "pvt_of a s = Some (pp, p)"
    by (rule wrk_ok_parts)
  have nq: "wp_ctrl_notify_queue p = Some (tx_queue s a)" using ok pr(1) by (auto simp: tx_queue_def)
  have "c \<in> set (wrk_addrs s a)" using pr W by (simp add: wrk_addrs_def)
  moreover have "tx_queue s a \<notin> set (wrk_addrs s a)" using ok by simp
  ultimately have ne: "c \<noteq> tx_queue s a" by blast
  let ?cr = "notify_worker (cr\<lparr>q_head := Some g, q_tail := Some g, q_length := 1\<rparr>)"
  let ?s1 = "s\<lparr>links := (links s)(g \<mapsto> NULL), queues := (queues s)(c \<mapsto> ?cr)\<rparr>"
  have put: "wrk_put_sigterm a s = Some ?s1" by (rule put_sigterm_works [OF pr(2) W(6,7) Q(1,2) S(2)])
  have pv: "pvt_of a (?s1\<lparr>queues := Q'\<rparr>) = Some (pp, p)" for Q' using pr(2) by (simp add: pvt_of_def)
  have pv1: "pvt_of a ?s1 = Some (pp, p)" using pr(2) by (simp add: pvt_of_def)
  show thesis
  proof (rule that [OF put])
    show "wrk_pump a ?s1 = Some (?s1\<lparr>queues := (queues ?s1)(tx_queue s a \<mapsto> notify_worker qr)\<rparr>)"
      using pv1 nq ne q by (simp add: wrk_pump_def sin_wi_queue_pump_def)
    show "queues ?s1 (tx_queue s a) = Some qr" using ne q by simp
    show "queues ?s1 c = Some ?cr" "q_head ?cr = Some g" by (simp_all add: notify_worker_def)
  qed (use ne S W pv in simp_all)
qed

text \<open>
  C14. The shutdown of a transmit thread can hang. If the owner signals and pumps while the
  thread is between looking at its control queue and going to sleep on its empty output queue, the pump
  finds nobody to wake; the thread then sleeps, the owner waits in \<open>pthread_join\<close>, and
  neither can take a step.
\<close>

theorem tx_shutdown_hangs:
  assumes "part_ok s (TxT a)" and "sleepers (tx_queue s a) 0 s"
  shows "\<exists>s'. (down a (tx_queue s a))\<^sup>*\<^sup>* (Top, Idle, s) (Asleep, Joining, s') \<and>
    \<not> (\<exists>st. down a (tx_queue s a) (Asleep, Joining, s') st)"
proof -
  let ?q = "tx_queue s a"
  from assms(2) obtain qr where qr: "queues s ?q = Some qr" "q_head qr = NULL" "q_nwait qr = 0" "q_cond qr = \<lparr>asleep = 0, woken = 0\<rparr>"
    by (auto simp: sleepers_def unat_eq_0 split: option.splits)
  from assms(1) qr(1) obtain s1 where s1: "wrk_put_sigterm a s = Some s1"
    "wrk_pump a s1 = Some (s1\<lparr>queues := (queues s1)(?q \<mapsto> notify_worker qr)\<rparr>)" "queues s1 ?q = Some qr"
    by (rule signal_works)
  define s2 where "s2 = s1\<lparr>queues := (queues s1)(?q \<mapsto> notify_worker qr)\<rparr>"
  have "notify_worker qr = qr" using qr(3) by (simp add: notify_worker_def)
  then have q2: "queues s2 ?q = Some qr" by (simp add: s2_def)
  define s3 where "s3 = s2\<lparr>queues := (queues s2)(?q \<mapsto> cond_sleep qr)\<rparr>"
  have q3: "queues s3 ?q = Some (cond_sleep qr)" "woken (q_cond (cond_sleep qr)) = 0"
    using qr(4) by (simp_all add: s3_def cond_sleep_def)
  have 1: "down a ?q (Top, Idle, s) (Top, Signalled, s1)" using s1(1) by (rule down.put)
  have 2: "down a ?q (Top, Signalled, s1) (Top, Joining, s2)" using s1(2) unfolding s2_def by (rule down.pump)
  have "sin_wi_queue_get_items ?q SIN_LIST_RESET 1 1 s2 = Some (Wait, SIN_LIST_RESET, s3)"
    using q2 qr(2) by (simp add: sin_wi_queue_get_items_def s3_def)
  then have 3: "down a ?q (Top, Joining, s2) (Asleep, Joining, s3)" by (rule down.sleep)
  have "\<not> (\<exists>st. down a ?q (Asleep, Joining, s3) st)" using q3 by (simp add: down_at)
  moreover have "(down a ?q)\<^sup>*\<^sup>* (Top, Idle, s) (Asleep, Joining, s3)" using 1 2 3 by (meson converse_rtranclp_into_rtranclp r_into_rtranclp)
  ultimately show ?thesis by blast
qed

definition ex_tx :: "sin_wi_queue \<Rightarrow> istore" where
  "ex_tx qr = ex_boot\<lparr>
     txts := [1 \<mapsto> \<lparr>txo_outpkt_queue = Some 2, txo_tx_ring = 70, txo_tx_zone = NULL, txo_queue_fd = 3\<rparr>],
     wrks := [1 \<mapsto> \<lparr>w_type = SIN_TYPE_WRK_THREAD, w_dtor = Some Wrk_dtor, w_check_ctrl = Some Wrk_check_ctrl,
       w_notify_on_ctrl = Some Wrk_notify_on_ctrl, w_get_tname = Some Wrk_get_tname, w_pvt = Some 4\<rparr>],
     pvts := [4 \<mapsto> \<lparr>wp_tid = 9, wp_tname = Some 5, wp_ctrl_queue = Some 6, wp_ctrl_notify_queue = Some 2,
       wp_sigterm = Some 8, wp_runner = Some Tx_routine\<rparr>],
     queues := [2 \<mapsto> qr\<lparr>q_type := SIN_TYPE_WI_QUEUE, q_name := Some 3\<rparr>, 6 \<mapsto> ex_queue\<lparr>q_name := Some 7\<rparr>],
     signals := [8 \<mapsto> \<lparr>sg_type = SIN_TYPE_SIGNAL, sg_signum = SIGTERM\<rparr>], links := [8 \<mapsto> NULL]\<rparr>"

lemma ex_tx_ok: "part_ok (ex_tx qr) (TxT 1)" "tx_queue (ex_tx qr) 1 = 2"
  by (simp_all add: ex_tx_def tx_queue_def wrk_ok_def wrk_priv_def wrk_pvt_def wrk_addrs_def queue_ok_def
      queue_name_def ex_queue_def sin_wi_queue_zero_def q_list_def SIN_LIST_RESET_def)

lemma ex_tx_sleepers: "sleepers 2 0 (ex_tx ex_queue)" "sleepers 2 1 (ex_tx (cond_sleep ex_queue))"
  by (simp_all add: ex_tx_def sleepers_def ex_queue_def sin_wi_queue_zero_def cond_sleep_def)

theorem tx_shutdown_hangs_witness:
  "\<exists>s'. (down 1 2)\<^sup>*\<^sup>* (Top, Idle, ex_tx ex_queue) (Asleep, Joining, s') \<and> \<not> (\<exists>st. down 1 2 (Asleep, Joining, s') st)"
  using tx_shutdown_hangs [of "ex_tx ex_queue" 1] ex_tx_ok [of ex_queue] ex_tx_sleepers(1) by simp

text \<open>
  C15. If the thread already sleeps when its owner starts to end it, the two come to an end
  together, on every run, in five steps: signal, pump, wake-up, the look at the control
  queue, join.
\<close>

theorem tx_shutdown_ends:
  assumes "part_ok s (TxT a)" and "sleepers (tx_queue s a) 1 s"
  shows "\<exists>s'. \<forall>n st. (down a (tx_queue s a) ^^ n) (Asleep, Idle, s) st \<longrightarrow>
    n \<le> 5 \<and> (n = 5 \<longrightarrow> st = (Ended, Joined, s')) \<and> (n < 5 \<longrightarrow> (\<exists>st'. down a (tx_queue s a) st st'))"
proof -
  let ?q = "tx_queue s a"
  from assms(2) obtain qr where qr: "queues s ?q = Some qr" "q_head qr = NULL" "unat (q_nwait qr) = 1" "q_cond qr = \<lparr>asleep = 1, woken = 0\<rparr>"
    by (auto simp: sleepers_def split: option.splits)
  from assms(1) qr(1) obtain c g p pp cr s1 where s1: "wrk_put_sigterm a s = Some s1"
    "wrk_pump a s1 = Some (s1\<lparr>queues := (queues s1)(?q \<mapsto> notify_worker qr)\<rparr>)" "queues s1 ?q = Some qr"
    and c: "c \<noteq> ?q" "queues s1 c = Some cr" "q_head cr = Some g" "links s1 g = Some NULL"
      "signals s1 g = Some \<lparr>sg_type = SIN_TYPE_SIGNAL, sg_signum = SIGTERM\<rparr>" "wp_ctrl_queue p = Some c" "wp_sigterm p = Some g"
      "\<And>Q. pvt_of a (s1\<lparr>queues := Q\<rparr>) = Some (pp, p)"
    by (rule signal_works) blast
  define qr2 where "qr2 = notify_worker qr"
  have qr2: "q_head qr2 = NULL" "q_cond qr2 = \<lparr>asleep = 0, woken = 1\<rparr>"
    using qr by (simp_all add: qr2_def notify_worker_def word_less_nat_alt pthread_cond_signal_def)
  define s2 where "s2 = s1\<lparr>queues := (queues s1)(?q \<mapsto> qr2)\<rparr>"
  define s3 where "s3 = s2\<lparr>queues := (queues s2)(?q \<mapsto> cond_resume qr2)\<rparr>"
  have s3: "s3 = s1\<lparr>queues := (queues s1)(?q \<mapsto> cond_resume qr2)\<rparr>" by (simp add: s3_def s2_def)
  have wk: "sin_wi_queue_get_items_wake ?q l 1 1 s2 = Some (Return 0, l, s3)" for l
    using qr2(1) by (simp add: sin_wi_queue_get_items_wake_def s2_def s3_def)
  have "queues s3 c = Some cr" using c(1,2) by (simp add: s3)
  from check_ctrl_sigterm [OF c(8) [of "queues s3"] c(6,7), of cr] this c(3-5) obtain s4 where
    ck: "sin_wrk_thread_check_ctrl a s3 = Some (SIGTERM, s4)" by (auto simp: s3)
  let ?C = "\<lambda>i. [(Asleep, Idle, s), (Asleep, Signalled, s1), (Asleep, Joining, s2), (Ctrl, Joining, s3),
      (Ended, Joining, s4), (Ended, Joined, s4)] ! i"
  have step: "down a ?q (?C i) st \<longleftrightarrow> st = ?C (Suc i)" if "i < 5" for i st
  proof -
    have 0: "down a ?q (Asleep, Idle, s) st \<longleftrightarrow> st = (Asleep, Signalled, s1)"
      using qr(1,4) s1(1) by (simp add: down_at)
    have 1: "down a ?q (Asleep, Signalled, s1) st \<longleftrightarrow> st = (Asleep, Joining, s2)"
      using s1(2,3) qr(4) by (simp add: down_at s2_def qr2_def)
    have q2: "queues s2 ?q = Some qr2" by (simp add: s2_def)
    have 2: "down a ?q (Asleep, Joining, s2) st \<longleftrightarrow> st = (Ctrl, Joining, s3)"
      using q2 qr2(2) by (simp add: down_at wk)
    have 3: "down a ?q (Ctrl, Joining, s3) st \<longleftrightarrow> st = (Ended, Joining, s4)"
      using ck by (simp add: down_at)
    have 4: "down a ?q (Ended, Joining, s4) st \<longleftrightarrow> st = (Ended, Joined, s4)"
      by (simp add: down_at)
    from that consider "i = 0" | "i = 1" | "i = 2" | "i = 3" | "i = 4" by linarith
    then show ?thesis by cases (simp_all add: 0 1 2 3 4 numeral_eq_Suc)
  qed
  have stop: "\<not> down a ?q (Ended, Joined, s4) st" for st by (simp add: down_at)
  have run: "(down a ?q ^^ n) (Asleep, Idle, s) st \<Longrightarrow> n \<le> 5 \<and> st = ?C n" for n st
  proof (induction n arbitrary: st)
    case (Suc n)
    then obtain y where y: "(down a ?q ^^ n) (Asleep, Idle, s) y" "down a ?q y st" by auto
    from Suc.IH [OF y(1)] have "n \<le> 5" "y = ?C n" by simp_all
    have "n \<noteq> 5"
    proof
      assume "n = 5"
      then have "y = (Ended, Joined, s4)" using \<open>y = ?C n\<close> by simp
      with y(2) stop show False by simp
    qed
    then have "n < 5" using \<open>n \<le> 5\<close> by simp
    with step [OF this, of st] y(2) \<open>y = ?C n\<close> show ?case by simp
  qed simp
  show ?thesis
  proof (intro exI [of _ s4] allI impI)
    fix n st assume "(down a ?q ^^ n) (Asleep, Idle, s) st"
    from run [OF this] have R: "n \<le> 5" "st = ?C n" by simp_all
    have "st = (Ended, Joined, s4)" if "n = 5" using R(2) that by simp
    moreover have "\<exists>st'. down a ?q st st'" if "n < 5" using step [OF that] R(2) by blast
    ultimately show "n \<le> 5 \<and> (n = 5 \<longrightarrow> st = (Ended, Joined, s4)) \<and> (n < 5 \<longrightarrow> (\<exists>st'. down a ?q st st'))"
      using R(1) by blast
  qed
qed

theorem tx_shutdown_ends_witness:
  "\<exists>s'. \<forall>st. (down 1 2 ^^ 5) (Asleep, Idle, ex_tx (cond_sleep ex_queue)) st \<longrightarrow> st = (Ended, Joined, s')"
proof -
  from tx_shutdown_ends [of "ex_tx (cond_sleep ex_queue)" 1] ex_tx_ok [of "cond_sleep ex_queue"] ex_tx_sleepers(2)
  obtain s' where "\<forall>n st. (down 1 2 ^^ n) (Asleep, Idle, ex_tx (cond_sleep ex_queue)) st \<longrightarrow>
    n \<le> 5 \<and> (n = 5 \<longrightarrow> st = (Ended, Joined, s')) \<and> (n < 5 \<longrightarrow> (\<exists>st'. down 1 2 st st'))" by auto
  then show ?thesis by blast
qed

subsection \<open>The start\<close>

lemma wrk_create_well:
  fixes s :: istore
  assumes "\<forall>k. os_script s k = 0" and "wrks s a = Some w"
  shows "\<exists>s' n pp p. wrk_create a r e s = Some (0, e, s') \<and> wrks s' a = Some (w\<lparr>w_type := SIN_TYPE_WRK_THREAD, w_pvt := Some pp\<rparr>) \<and>
    pvts s' pp = Some p \<and> wp_runner p = Some r \<and> wp_tname p = Some n \<and> Thread (wp_tid p) \<in> os_live s'"
proof -
  let ?f = "os_fresh s"
  let ?s1 = "s\<lparr>wrks := (wrks s)(a \<mapsto> w\<lparr>w_type := SIN_TYPE_WRK_THREAD, w_pvt := Some ?f\<rparr>),
     os_clock := os_clock s + 2, os_fresh := ?f + 2, os_live := os_live s \<union> {Block ?f, Block (Suc ?f)},
     pvts := (pvts s)(?f \<mapsto> pvt_zero\<lparr>wp_tname := Some (Suc ?f)\<rparr>)\<rparr>"
  from queue_ctor_well [of ?s1 e] assms(1) obtain q s2 where
    2: "sin_wi_queue_ctor e ?s1 = Some (Some q, e, s2)" "os_script s2 = os_script s"
      "s2 = ?s1\<lparr>os_fresh := os_fresh s2, os_live := os_live s2, os_clock := os_clock s2, queues := queues s2\<rparr>"
    by auto
  have m: "pvts s2 ?f = Some (pvt_zero\<lparr>wp_tname := Some (Suc ?f)\<rparr>)"
    "wrks s2 a = Some (w\<lparr>w_type := SIN_TYPE_WRK_THREAD, w_pvt := Some ?f\<rparr>)"
    by (subst 2(3), simp)+
  have "wrk_create a r e s = (do {
       s \<leftarrow> upd_pvt ?f (\<lambda>p. p\<lparr>wp_ctrl_queue := Some q\<rparr>) s2;
       wrk_start ?f r e s })"
    using assms 2(1)
    by (simp add: wrk_create_def upd_wrk_def upd_pvt_def malloc_def os_result_def
        pvt_zero_def numeral_eq_Suc insert_commute)
  with m 2(2) assms(1) show ?thesis
    by (simp add: upd_pvt_def wrk_start_def sin_signal_ctor_def malloc_def os_result_def
        pthread_create_def acquire_def Let_def) (intro exI [of _ "Suc ?f"] exI [of _ ?f], simp)
qed

text \<open>
  C16. \<open>sin_wrk_thread_ctor\<close> starts the thread before it sets the methods. A thread that runs at once, on
  the zeroed structure its users pass in, calls a null \<open>get_tname\<close>; once the methods are set
  it starts as it should.
\<close>

theorem wrk_start_race:
  fixes s :: istore
  assumes "\<forall>k. os_script s k = 0" and "wrks s a = Some wrk_zero"
  shows "\<exists>s1 s2 n. wrk_create a r e s = Some (0, e, s1) \<and> sin_wrk_thread_runner a s1 = None \<and>
    wrk_set_methods a s1 = Some s2 \<and> sin_wrk_thread_runner a s2 = Some (r, Some n)"
  using wrk_create_well [OF assms, of r e]
  by (auto simp: sin_wrk_thread_runner_def pvt_of_def call_get_tname_def wrk_zero_def wrk_set_methods_def
      upd_wrk_def sin_wrk_thread_get_tname_def)

theorem wrk_start_race_witness:
  "\<exists>s1. wrk_create 1 Tx_routine None (ex_boot\<lparr>wrks := [1 \<mapsto> wrk_zero]\<rparr>) = Some (0, None, s1) \<and>
     sin_wrk_thread_runner 1 s1 = None"
  using wrk_start_race [of "ex_boot\<lparr>wrks := [1 \<mapsto> wrk_zero]\<rparr>" 1 Tx_routine None] by (auto simp: ex_boot_def)

end
