(* ===== verification/Sin_Typed.thy ===== *)
theory Sin_Typed
  imports Sin_Lifecycle
begin

text \<open>
  The objects an instance consists of carry the tags of their types, and so the build with
  \<open>SIN_DEBUG\<close> destroys it without failing a type assertion.
\<close>

definition zone_typed :: "istore \<Rightarrow> ptr \<Rightarrow> bool" where
  "zone_typed s p \<longleftrightarrow> (\<exists>a z. p = Some a \<and> zones s a = Some z \<and> z_type z = SIN_TYPE_PKT_ZONE)"

definition queue_typed :: "istore \<Rightarrow> ptr \<Rightarrow> bool" where
  "queue_typed s p \<longleftrightarrow> (\<exists>a q. p = Some a \<and> queues s a = Some q \<and> q_type q = SIN_TYPE_WI_QUEUE)"

text \<open>A worker, with the control queue and the signal it owns.\<close>

definition wrk_typed :: "istore \<Rightarrow> ptr \<Rightarrow> bool" where
  "wrk_typed s p \<longleftrightarrow> (\<exists>a w b pv g sg. p = Some a \<and> wrks s a = Some w \<and> w_type w = SIN_TYPE_WRK_THREAD \<and>
     w_pvt w = Some b \<and> pvts s b = Some pv \<and> queue_typed s (wp_ctrl_queue pv) \<and>
     wp_sigterm pv = Some g \<and> signals s g = Some sg \<and> sg_type sg = SIN_TYPE_SIGNAL)"

definition tx_typed :: "istore \<Rightarrow> ptr \<Rightarrow> bool" where
  "tx_typed s p \<longleftrightarrow> wrk_typed s p \<and> (\<exists>a t. p = Some a \<and> txts s a = Some t \<and> queue_typed s (txo_outpkt_queue t))"

definition set_typed :: "istore \<Rightarrow> wrk_set \<Rightarrow> bool" where
  "set_typed s w \<longleftrightarrow> zone_typed s (ws_rx_zone w) \<and> zone_typed s (ws_tx_zone w) \<and>
     wrk_typed s (ws_rx_thread w) \<and> tx_typed s (ws_tx_thread w)"

lemma queue_ok_typed: "queue_ok s q \<Longrightarrow> queue_typed s (Some q)"
  by (auto simp: queue_ok_def queue_typed_def split: option.splits)

lemma wrk_ok_typed:
  assumes "wrk_ok s a"
  shows "wrk_typed s (Some a)"
proof -
  from assms obtain w pp p n c g cr where W: "wrks s a = Some w" "w_dtor w \<noteq> None" "w_pvt w = Some pp"
    "pvts s pp = Some p" "wp_tname p = Some n" "wp_ctrl_queue p = Some c" "wp_sigterm p = Some g"
    "signals s g = Some \<lparr>sg_type = SIN_TYPE_SIGNAL, sg_signum = SIGTERM\<rparr>" "queue_ok s c"
    by (rule wrk_ok_parts) metis
  with wrk_tag [OF assms] queue_ok_typed [OF W(9)] show ?thesis by (auto simp: wrk_typed_def)
qed

lemma part_typed:
  "part_ok s (Zone a) \<Longrightarrow> zone_typed s (Some a)"
  "part_ok s (RxT a) \<Longrightarrow> wrk_typed s (Some a)"
  "part_ok s (TxT a) \<Longrightarrow> tx_typed s (Some a)"
proof -
  show "part_ok s (Zone a) \<Longrightarrow> zone_typed s (Some a)"
    by (auto simp: zone_ok_def zone_typed_def split: option.splits)
  show "part_ok s (RxT a) \<Longrightarrow> wrk_typed s (Some a)" by (simp add: wrk_ok_typed)
  assume ok: "part_ok s (TxT a)"
  then obtain t q where t: "txts s a = Some t" "txo_outpkt_queue t = Some q" by auto
  then have "tx_queue s a = q" by (simp add: tx_queue_def)
  with ok t wrk_ok_typed [of s a] queue_ok_typed [of s q] show "tx_typed s (Some a)" by (simp add: tx_typed_def)
qed

lemma complete_typed:
  assumes c: "complete f L dev X sip s"
  shows "\<forall>w \<in> set (hst sip # phy sip). set_typed s w"
proof
  fix w assume w: "w \<in> set (hst sip # phy sip)"
  have h: "holdm f L X (sip_parts sip) s" using c by (simp add: complete_def)
  from c w obtain z z' r t where p: "ws_rx_zone w = Some z" "ws_tx_zone w = Some z'"
    "ws_rx_thread w = Some r" "ws_tx_thread w = Some t"
    by (auto simp: complete_def built_def filled_def)
  have "Zone z \<in># sip_parts sip \<and> Zone z' \<in># sip_parts sip \<and> RxT r \<in># sip_parts sip \<and> TxT t \<in># sip_parts sip"
  proof (cases "w = hst sip")
    case True
    with p show ?thesis by (simp add: parts_defs)
  next
    case False
    with w have "w \<in> set (phy sip)" by simp
    with cells_mem [of w "phy sip" ws_rx_zone z Zone] cells_mem [of w "phy sip" ws_tx_zone z' Zone]
      cells_mem [of w "phy sip" ws_rx_thread r RxT] cells_mem [of w "phy sip" ws_tx_thread t TxT] p
    show ?thesis by (simp add: parts_defs)
  qed
  then have "part_ok s (Zone z)" "part_ok s (Zone z')" "part_ok s (RxT r)" "part_ok s (TxT t)"
    using holdmD(2) [OF h] by blast+
  then show "set_typed s w" unfolding set_typed_def p by (intro conjI part_typed)
qed



end
