(* ===== verification/Sin_Ping.thy ===== *)
theory Sin_Ping
  imports Sin_Tx_Send Sin_Echo Sin_Zone_Inv
begin

text \<open>
  The whole way of a packet through an instance: a turn of the receive thread of a ring, after
  which the echo replies wait in a queue, and a turn of the transmit thread that serves the
  queue, after which they lie in the slots of its ring.
\<close>

subsection \<open>A turn of the transmit thread\<close>

lemma get_items_queues:
  assumes q: "q_repr s q xs" and ne: "xs \<noteq> []" and l: "lst_repr (links s) l []"
  obtains n l' Q where "sin_wi_queue_get_items q l 1 1 s = Some (Return n, l', s\<lparr>queues := Q\<rparr>)"
    and "lst_repr (links s) l' xs"
proof -
  from q obtain qr where qr: "queues s q = Some qr" "lst_repr (links s) (q_list qr) xs" by (rule q_reprE)
  have "q_head qr \<noteq> NULL" using lst_reprD(1) [OF qr(2)] ne by (cases xs) auto
  moreover have "lst_head l = NULL" using l by (simp add: lst_repr_def)
  ultimately show thesis using qr(1) that [OF _ qr(2), of "q_length qr"]
    by (simp add: sin_wi_queue_get_items_def take_items_def q_list_def)
qed

lemma queues_irrelevant [simp]:
  "content (s\<lparr>queues := Q\<rparr>) = content s" "buf_of (s\<lparr>queues := Q\<rparr>) = buf_of s"
  "slot_of (s\<lparr>queues := Q\<rparr>) = slot_of s" "swap_ok nm tz (s\<lparr>queues := Q\<rparr>) = swap_ok nm tz s"
  "fits (s\<lparr>queues := Q\<rparr>) = fits s" "tx_pkt_ok nm (s\<lparr>queues := Q\<rparr>) = tx_pkt_ok nm s"
  by (auto simp: content_def buf_of_def slot_of_def fits_def swap_ok_def tx_pkt_ok_def fun_eq_iff
      split: option.splits)

lemma tx_ready_queues [simp]: "tx_ready nm th (s\<lparr>queues := Q\<rparr>) z r ps ts = tx_ready nm th s z r ps ts"
  by (simp add: tx_ready_def tx_pre_def apart_def)

text \<open>The packets a turn works on: those left over from the last one, or else those in the queue.\<close>

lemma tx_turn_works:
  assumes nm: "netmap_ok nm" and z: "zones s (stt_tx_zone th) = Some z"
    and r: "rings s (stt_tx_ring th) = Some r" and o: "lst_repr (links s) out xs"
    and q: "q_repr s (stt_outpkt_queue th) ys" and ps: "ps = (if xs = [] then ys else xs)" "ps \<noteq> []"
    and a: "tx_ring_nslots r \<noteq> 0" and n: "n = min (unat (tx_ring_nslots r)) (length ps)"
    and w: "w = window (ring_size r) (unat (r_cur r)) n" and ts: "ts = map ((!) (z_pmap z)) w"
    and rdy: "tx_ready nm th s z r (take n ps) ts" and dis: "set ps \<inter> set ts = {}"
  shows "\<exists>out' s' r'. sin_tx_thread_turn nm inp th out s =
      Some (if tx_ctrl inp = 15 then Exit_thread else Next_turn, out',
        s'\<lparr>rings := (rings s')(stt_tx_ring th \<mapsto> in_sync inp r')\<rparr>) \<and>
    lst_repr (links s') out' (drop n ps) \<and>
    map (\<lambda>j. slot_content nm s' (stt_tx_ring th, j)) w = map (content s) (take n ps) \<and>
    (\<forall>p \<in> set (take n ps). \<exists>k. pkts s' p = Some k \<and> \<not> is_busy k) \<and>
    (\<forall>x \<in> set (take n ps @ ts). links s' x = Some NULL) \<and>
    rings s' (stt_tx_ring th) = Some r' \<and> r_head r' = r_cur r' \<and> r_tail r' = r_tail r \<and>
    unat (r_cur r') = ridx (ring_size r) (unat (r_cur r)) n"
proof -
  let ?a = "unat (tx_ring_nslots r)"
  obtain k l Q where g: "(if SIN_LIST_IS_EMPTY out then sin_wi_queue_get_items (stt_outpkt_queue th) out 1 1 s
      else Some (Return 0, out, s)) = Some (Return k, l, s\<lparr>queues := Q\<rparr>)" "lst_repr (links s) l ps"
  proof (cases "xs = []")
    case True
    with o lst_repr_empty [OF o] get_items_queues [OF q] ps that show thesis by (auto split: if_splits)
  next
    case False
    with o lst_repr_empty [OF o] ps that [of 0 out "queues s"] show thesis by simp
  qed
  let ?s = "s\<lparr>queues := Q\<rparr>"
  have zr: "zones ?s (stt_tx_zone th) = Some z" "rings ?s (stt_tx_ring th) = Some r" "lst_repr (links ?s) l ps"
    using z r g(2) by simp_all
  have t: "take n ps = take ?a ps" "drop n ps = drop ?a ps" "n = length (take ?a ps)"
    using n by (auto simp: min_def)
  have "tx_ready nm th ?s z r (take n ps) ts" using rdy by simp
  from tx_send_works [OF nm zr ps(2) refl a, folded t(3), folded t(1,2) w ts, OF this dis]
  obtain out' s' r' where s': "tx_send nm th (tx_ring_nslots r) l ?s = Some (of_nat n, out', s')"
    "lst_repr (links s') out' (drop n ps)"
    "map (\<lambda>j. slot_content nm s' (stt_tx_ring th, j)) w = map (content ?s) (take n ps)"
    "\<forall>p \<in> set (take n ps). \<exists>k. pkts s' p = Some k \<and> \<not> is_busy k"
    "\<forall>x \<in> set (take n ps @ ts). links s' x = Some NULL"
    "rings s' (stt_tx_ring th) = Some r'" "r_head r' = r_cur r'" "r_tail r' = r_tail r"
    "unat (r_cur r') = ridx (ring_size r) (unat (r_cur r)) n" by (elim exE conjE)
  have "0 < n" using n ps(2) a by (simp add: unat_gt_0)
  moreover have "n < 2 ^ 32" using n unat_u32_bound [of "tx_ring_nslots r"] by simp
  ultimately have "(0 :: u32) < of_nat n" by (simp add: word_less_nat_alt unat_of_nat)
  then have "sin_tx_thread_turn nm inp th out s =
      Some (if tx_ctrl inp = 15 then Exit_thread else Next_turn, out',
        s'\<lparr>rings := (rings s')(stt_tx_ring th \<mapsto> in_sync inp r')\<rparr>)"
    using r a g(1) s'(1,6) by (simp add: sin_tx_thread_turn_def tx_go_on_def tx_finish_def set_ring_def)
  with s'(2-9) show ?thesis by auto
qed

text \<open>
  C3. A turn of the transmit thread, from its queue to the wire. The thread works on what is
  left over from the last turn, or else on what is in its queue. As many packets as the
  ring has room for go out in order: when \<open>NIOCTXSYNC\<close> is called, the slots from the old
  \<open>cur\<close> on hold their contents, \<open>head\<close> and \<open>cur\<close> have moved behind them, and the packets are
  free and unlinked; the rest stays on the local list. If the ring has no room only the
  synchronisation is done; if there is nothing to send the thread goes to sleep in its
  queue. It ends exactly on \<open>SIGTERM\<close>.
\<close>

theorem tx_turn_correct:
  assumes nm: "netmap_ok nm" and z: "zones s (stt_tx_zone th) = Some z"
    and r: "rings s (stt_tx_ring th) = Some r" and o: "lst_repr (links s) out xs"
    and q: "q_repr s (stt_outpkt_queue th) ys" "queues s (stt_outpkt_queue th) = Some qr"
    and ps: "ps = (if xs = [] then ys else xs)" and n: "n = min (unat (tx_ring_nslots r)) (length ps)"
    and w: "w = window (ring_size r) (unat (r_cur r)) n" and ts: "ts = map ((!) (z_pmap z)) w"
    and rdy: "tx_ready nm th s z r (take n ps) ts" and dis: "set ps \<inter> set ts = {}"
    and nxt: "nxt = (if tx_ctrl inp = 15 then Exit_thread else Next_turn)"
  shows "if tx_ring_nslots r = 0 then sin_tx_thread_turn nm inp th out s =
      Some (nxt, out, s\<lparr>rings := (rings s)(stt_tx_ring th \<mapsto> in_sync inp r)\<rparr>)
    else if ps = [] then sin_tx_thread_turn nm inp th out s =
      Some (Asleep (tx_ring_nslots r), out, s\<lparr>queues := (queues s)(stt_outpkt_queue th \<mapsto> cond_sleep qr)\<rparr>)
    else \<exists>out' s' r'. sin_tx_thread_turn nm inp th out s =
        Some (nxt, out', s'\<lparr>rings := (rings s')(stt_tx_ring th \<mapsto> in_sync inp r')\<rparr>) \<and>
      lst_repr (links s') out' (drop n ps) \<and>
      map (\<lambda>j. slot_content nm s' (stt_tx_ring th, j)) w = map (content s) (take n ps) \<and>
      (\<forall>p \<in> set (take n ps). \<exists>k. pkts s' p = Some k \<and> \<not> is_busy k) \<and>
      (\<forall>x \<in> set (take n ps @ ts). links s' x = Some NULL) \<and>
      rings s' (stt_tx_ring th) = Some r' \<and> r_head r' = r_cur r' \<and> r_tail r' = r_tail r \<and>
      unat (r_cur r') = ridx (ring_size r) (unat (r_cur r)) n"
proof -
  consider "tx_ring_nslots r = 0" | "tx_ring_nslots r \<noteq> 0" "ps = []" | "tx_ring_nslots r \<noteq> 0" "ps \<noteq> []" by blast
  then show ?thesis
  proof cases
    case 1
    with r show ?thesis by (simp add: sin_tx_thread_turn_def tx_finish_def set_ring_def nxt)
  next
    case 2
    then have e: "xs = []" "ys = []" using ps by (auto split: if_splits)
    have "q_head qr = NULL" using q e by (simp add: q_repr_def lst_repr_def)
    moreover have "SIN_LIST_IS_EMPTY out" using lst_repr_empty [OF o] e by simp
    ultimately show ?thesis using 2 r q(2)
      by (simp add: sin_tx_thread_turn_def tx_go_on_def sin_wi_queue_get_items_def)
  next
    case 3
    with tx_turn_works [OF nm z r o q(1) ps 3(2,1) n w ts rdy dis, of inp] show ?thesis by (simp add: nxt)
  qed
qed

theorem tx_turn_correct_witness:
  "\<exists>out' s' r'. sin_tx_thread_turn ex_nm \<lparr>in_sync = id, tx_ctrl = -1\<rparr> ex_tx ex_out ex_store =
      Some (Next_turn, out', s'\<lparr>rings := (rings s')(72 \<mapsto> r')\<rparr>) \<and>
    slot_content ex_nm s' (72, 1) = content ex_store 21"
proof -
  have q: "q_repr ex_store (stt_outpkt_queue ex_tx) []" "queues ex_store (stt_outpkt_queue ex_tx) = Some ex_queue"
    by (simp_all add: q_repr_def ex_store_def ex_queue_def sin_wi_queue_zero_def lst_repr_def ex_tx_def)
  have ps: "[21] = (if [21] = [] then [] else [21])" by simp
  note f = ex_tx_facts
  have n: "1 = min (unat (tx_ring_nslots ex_tx_ring)) (length [21 :: addr])" by (simp add: f(4))
  have rdy: "tx_ready ex_nm ex_tx ex_store (ex_zone 63 [31, 32, 33]) ex_tx_ring (take 1 [21]) [32]"
    using f(7) by simp
  have d: "set [21] \<inter> set [32 :: addr] = {}" by simp
  from tx_turn_correct [OF ex_nm_ok f(1,2,3) q ps n f(5,6) rdy d refl, of "\<lparr>in_sync = id, tx_ctrl = -1\<rparr>"]
  show ?thesis by (auto simp: f(4)) (auto simp: ex_tx_def)
qed

subsection \<open>From the receive ring to the transmit ring\<close>

lemma distinct_map_parts:
  assumes "distinct (map f [0..<n] @ map g [0..<m])" and "distinct js" "set js \<subseteq> {..<n}"
    and "distinct ws" "set ws \<subseteq> {..<m}"
  shows "distinct (map f js @ map g ws)"
proof -
  have "inj_on f {..<n}" "inj_on g {..<m}" "f ` {..<n} \<inter> g ` {..<m} = {}"
    using assms(1) by (simp_all add: distinct_map atLeast0LessThan)
  with assms(2-5) show ?thesis by (auto simp: distinct_map intro: inj_on_subset)
qed

text \<open>
  Two rings of one device, with their zones, fit for forwarding: the same netmap memory, all
  buffers different and with room for 2048 bytes, no packet of the transmit ring in use.
\<close>

definition ring_pair :: "netmap_api \<Rightarrow> 'a pstore_scheme \<Rightarrow> addr \<Rightarrow> netmap_ring \<Rightarrow> addr \<Rightarrow> addr \<Rightarrow> bool" where
  "ring_pair nm s ring r tring tzone \<longleftrightarrow> ring \<noteq> tring \<and> same_memory nm ring tring \<and> zone_ok nm s tzone tring \<and>
     (case (rings s tring, zones s tzone) of
        (Some tr, Some tz) \<Rightarrow> ring_size tr \<le> 2 ^ 31 \<and>
          distinct (map (slot_buf nm ring r) [0..<ring_size r] @ map (slot_buf nm tring tr) [0..<ring_size tr]) \<and>
          (\<forall>b \<in> slot_buf nm ring r ` {..<ring_size r} \<union> slot_buf nm tring tr ` {..<ring_size tr}.
             \<exists>d. mem s b = Some d \<and> 2048 \<le> length d) \<and>
          (\<forall>j < ring_size tr. \<not> busy_at s tz j \<and> rx_ready s (z_pmap tz ! j))
      | _ \<Rightarrow> False)"

lemma rx_window_below: "ring_ok r \<Longrightarrow> set (rx_window r) \<subseteq> {..<ring_size r}"
  using ring_okD [of r] rdist_less [of "unat (r_cur r)" "ring_size r" "unat (r_tail r)"]
  by (auto simp: rx_window_def set_window)

lemma ring_pairD:
  assumes "ring_pair nm s ring r tring tzone" and "rings s tring = Some tr" and "zones s tzone = Some tz"
  shows "ring \<noteq> tring" "same_memory nm ring tring" "ring_size tr \<le> 2 ^ 31" "ring_ok tr"
    "length (z_pmap tz) = ring_size tr" "distinct (z_pmap tz)"
    "distinct (map (slot_buf nm ring r) [0..<ring_size r] @ map (slot_buf nm tring tr) [0..<ring_size tr])"
    "\<And>j. j < ring_size r \<Longrightarrow> \<exists>d. mem s (slot_buf nm ring r j) = Some d \<and> 2048 \<le> length d"
    "\<And>j. j < ring_size tr \<Longrightarrow> \<exists>d. mem s (slot_buf nm tring tr j) = Some d \<and> 2048 \<le> length d"
    "\<And>j. j < ring_size tr \<Longrightarrow> slot_pkt_ok nm s tzone tring tr j (z_pmap tz ! j) \<and> \<not> busy_at s tz j \<and>
       rx_ready s (z_pmap tz ! j)"
proof -
  have a: "ring \<noteq> tring" "same_memory nm ring tring" "zone_ok nm s tzone tring"
    and b: "ring_size tr \<le> 2 ^ 31"
      "distinct (map (slot_buf nm ring r) [0..<ring_size r] @ map (slot_buf nm tring tr) [0..<ring_size tr])"
      "\<forall>b \<in> slot_buf nm ring r ` {..<ring_size r} \<union> slot_buf nm tring tr ` {..<ring_size tr}.
         \<exists>d. mem s b = Some d \<and> 2048 \<le> length d"
      "\<forall>j < ring_size tr. \<not> busy_at s tz j \<and> rx_ready s (z_pmap tz ! j)"
    using assms by (simp_all add: ring_pair_def)
  from a(3) assms(2,3) have c: "ring_ok tr" "length (z_pmap tz) = ring_size tr" "distinct (z_pmap tz)"
    "\<And>j. j < ring_size tr \<Longrightarrow> slot_pkt_ok nm s tzone tring tr j (z_pmap tz ! j)"
    by (auto elim: zone_okE)
  show "ring \<noteq> tring" "same_memory nm ring tring" "ring_size tr \<le> 2 ^ 31" "ring_ok tr"
    "length (z_pmap tz) = ring_size tr" "distinct (z_pmap tz)"
    "distinct (map (slot_buf nm ring r) [0..<ring_size r] @ map (slot_buf nm tring tr) [0..<ring_size tr])"
    using a b c by blast+
  show "\<And>j. j < ring_size r \<Longrightarrow> \<exists>d. mem s (slot_buf nm ring r j) = Some d \<and> 2048 \<le> length d"
    "\<And>j. j < ring_size tr \<Longrightarrow> \<exists>d. mem s (slot_buf nm tring tr j) = Some d \<and> 2048 \<le> length d"
    "\<And>j. j < ring_size tr \<Longrightarrow> slot_pkt_ok nm s tzone tring tr j (z_pmap tz ! j) \<and> \<not> busy_at s tz j \<and>
       rx_ready s (z_pmap tz ! j)"
    using b(3,4) c(4) by auto
qed

text \<open>
  After a turn of the receive thread its packets \<open>js\<close> and the slots \<open>ws\<close> of the other ring
  are what the transmit thread asks for.
\<close>

lemma turned_tx_ready:
  assumes T: "turned nm s ring r z A s1" and P: "ring_pair nm s ring r tring tzone"
    and tr: "rings s tring = Some tr" and tz: "zones s tzone = Some tz"
    and rx: "ring_ok r" "\<And>j. j < ring_size r \<Longrightarrow> slot_pkt_ok nm s zone ring r j (z_pmap z ! j)"
      "zones s zone = Some z" "length (z_pmap z) = ring_size r"
    and js: "distinct js" "set js \<subseteq> set (rx_window r)"
    and bufs: "\<And>j. j \<in> set js \<Longrightarrow> \<exists>b. mem s1 (slot_buf nm ring r j) = Some b \<and> 2048 \<le> length b"
    and lens: "\<And>j. j \<in> set js \<Longrightarrow> unat (s_len (r_slots r ! j)) \<le> 2048"
    and ws: "distinct ws" "set ws \<subseteq> {..<ring_size tr}" and A: "\<And>j. j < ring_size tr \<Longrightarrow> z_pmap tz ! j \<notin> A"
    and th: "stt_tx_ring th = tring" "stt_tx_zone th = tzone"
  shows "tx_ready nm th s1 tz tr (map ((!) (z_pmap z)) js) (map ((!) (z_pmap tz)) ws)"
    and "map (content s1) (map ((!) (z_pmap z)) js) = map (\<lambda>j. map_option (take (unat (s_len (r_slots r ! j))))
      (mem s1 (slot_buf nm ring r j))) js"
    and "set (z_pmap z) \<inter> set (z_pmap tz) = {}"
proof -
  note p = ring_pairD(1-7,9,10) [OF P tr tz]
  note below = subset_trans [OF js(2) rx_window_below [OF rx(1)]]
  from T have t: "zones s1 = zones s" "rings s1 tring = Some tr" "map_option r_slots (rings s1 ring) = Some (r_slots r)"
    "\<And>j. j \<in> set (rx_window r) \<Longrightarrow> \<exists>k. pkts s (z_pmap z ! j) = Some k \<and> p_buf k = slot_buf nm ring r j \<and>
       pkts s1 (z_pmap z ! j) = Some (rx_mark (r_slots r ! j) k)"
    "\<And>a. a \<notin> (!) (z_pmap z) ` set (rx_window r) \<Longrightarrow> pkts s1 a = pkts s a \<and> (a \<notin> A \<longrightarrow> links s1 a = links s a)"
    "\<And>c. c \<notin> slot_buf nm ring r ` set (rx_window r) \<Longrightarrow> mem s1 c = mem s c"
    using p(1) tr by (auto simp: turned_def)
  have apart: "z_pmap z ! i \<noteq> z_pmap tz ! j" if "i < ring_size r" "j < ring_size tr" for i j
    using rx(2) [OF that(1)] p(9) [OF that(2)] p(1) by (auto simp: slot_pkt_ok_def split: option.splits)
  then show "set (z_pmap z) \<inter> set (z_pmap tz) = {}"
    using rx(4) p(5) by (fastforce simp: in_set_conv_nth)
  have R: "\<exists>k. pkts s1 (z_pmap z ! j) = Some k \<and> p_buf k = slot_buf nm ring r j \<and> my_slot k = (ring, j) \<and>
      my_zone k = zone \<and> unat (p_len k) = unat (s_len (r_slots r ! j)) \<and> slots s1 (ring, j) = Some (r_slots r ! j)"
    if j: "j \<in> set js" for j
  proof -
    from j below js(2) have j': "j < ring_size r" "j \<in> set (rx_window r)" by auto
    from t(4) [OF j'(2)] rx(2) [OF j'(1)] obtain k where "p_buf k = slot_buf nm ring r j"
      "pkts s1 (z_pmap z ! j) = Some (rx_mark (r_slots r ! j) k)" "my_slot k = (ring, j)" "my_zone k = zone"
      by (auto elim: slot_pkt_okE)
    moreover have "slots s1 (ring, j) = Some (r_slots r ! j)"
      using t(3) j' rx(1) by (auto simp: slots_def get_slot_def ring_ok_def)
    ultimately show ?thesis by (simp add: unat_slot_len)
  qed
  have W: "\<exists>k y. pkts s1 (z_pmap tz ! j) = Some k \<and> p_buf k = slot_buf nm tring tr j \<and> my_slot k = (tring, j) \<and>
      my_zone k = tzone \<and> slots s1 (tring, j) = Some (r_slots tr ! j) \<and> links s1 (z_pmap tz ! j) = Some NULL \<and>
      (\<exists>d. mem s1 (p_buf k) = Some d \<and> 2048 \<le> length d)"
    if j: "j < ring_size tr" for j
  proof -
    have "z_pmap tz ! j \<notin> (!) (z_pmap z) ` set (rx_window r)"
      using apart j rx_window_below [OF rx(1)] by fastforce
    with t(5) A [OF j] have e: "pkts s1 (z_pmap tz ! j) = pkts s (z_pmap tz ! j)"
      "links s1 (z_pmap tz ! j) = links s (z_pmap tz ! j)" by auto
    have "slot_buf nm tring tr j \<notin> slot_buf nm ring r ` set (rx_window r)"
      using p(7) j rx_window_below [OF rx(1)] by (fastforce simp: image_iff)
    with t(6) p(8) [OF j] have m: "\<exists>d. mem s1 (slot_buf nm tring tr j) = Some d \<and> 2048 \<le> length d" by simp
    have "slots s1 (tring, j) = Some (r_slots tr ! j)"
      using t(2) j p(4) by (simp add: slots_def get_slot_def ring_ok_def)
    with p(9) [OF j] e m show ?thesis
      by (auto simp: rx_ready_def slot_buf_def elim: slot_pkt_okE split: option.splits)
  qed
  let ?ps = "map ((!) (z_pmap z)) js" and ?ts = "map ((!) (z_pmap tz)) ws"
  have bR: "buf_of s1 (z_pmap z ! j) = slot_buf nm ring r j" "slot_of s1 (z_pmap z ! j) = (ring, j)"
    if "j \<in> set js" for j using R [OF that] by (auto simp: buf_of_def slot_of_def)
  have bW: "buf_of s1 (z_pmap tz ! j) = slot_buf nm tring tr j" "slot_of s1 (z_pmap tz ! j) = (tring, j)"
    if "j < ring_size tr" for j using W [OF that] by (auto simp: buf_of_def slot_of_def)
  show "map (content s1) ?ps = map (\<lambda>j. map_option (take (unat (s_len (r_slots r ! j)))) (mem s1 (slot_buf nm ring r j))) js"
    using R by (fastforce simp: content_def)
  have "\<forall>x \<in> set (?ps @ ?ts). tx_pkt_ok nm s1 x"
  proof -
    have "tx_pkt_ok nm s1 (z_pmap z ! j)" if j: "j \<in> set js" for j
      using R [OF j] bufs [OF j] t(1) rx(3) by (auto simp: tx_pkt_ok_def slot_buf_def)
    moreover have "tx_pkt_ok nm s1 (z_pmap tz ! j)" if "j < ring_size tr" for j
      using W [OF that] t(1) tz by (auto simp: tx_pkt_ok_def slot_buf_def)
    ultimately show ?thesis using ws(2) by auto
  qed
  moreover have "\<forall>x \<in> set ?ps. fits s1 x"
  proof -
    have "fits s1 (z_pmap z ! j)" if j: "j \<in> set js" for j
      using R [OF j] lens [OF j] by (auto simp: fits_def)
    then show ?thesis by simp
  qed
  moreover have "apart s1 (?ps @ ?ts)"
  proof -
    have b: "map (buf_of s1) (?ps @ ?ts) = map (slot_buf nm ring r) js @ map (slot_buf nm tring tr) ws"
      and l: "map (slot_of s1) (?ps @ ?ts) = map (Pair ring) js @ map (Pair tring) ws"
      using bR bW ws(2) by auto
    have "distinct (map (Pair ring) js @ map (Pair tring) ws)"
      using js(1) ws(1) p(1) by (auto simp: distinct_map inj_on_def)
    then have d: "distinct (map (slot_of s1) (?ps @ ?ts))" unfolding l .
    moreover have "distinct (map (buf_of s1) (?ps @ ?ts))"
      unfolding b by (rule distinct_map_parts [OF p(7) js(1) below ws])
    ultimately show ?thesis unfolding apart_def by (metis distinct_map)
  qed
  moreover have "\<forall>x \<in> set ?ps. \<forall>y \<in> set ?ts. swap_ok nm tzone s1 x y"
    using bR bW ws(2) p(2) by (auto simp: swap_ok_def same_memory_def)
  moreover have "\<forall>j < ring_size tr. slot_of s1 (z_pmap tz ! j) = (tring, j)" using bW(2) by blast
  moreover have "\<forall>x \<in> set ?ts. links s1 x = Some NULL" using W ws(2) by fastforce
  ultimately show "tx_ready nm th s1 tz tr ?ps ?ts" using p(3-6) by (simp add: tx_ready_def tx_pre_def th)
qed

lemma length_req2rpl_buf: "42 \<le> length p \<Longrightarrow> \<exists>p'. req2rpl_buf p = Some p' \<and> length p' = length p"
  by (rule req2rpl_buf_spec [of p]) auto

lemma slot_pkt_ok_rings [simp]: "slot_pkt_ok nm (s\<lparr>rings := R\<rparr>) = slot_pkt_ok nm s"
  by (simp add: slot_pkt_ok_def fun_eq_iff cong: option.case_cong)

text \<open>
  C1. A ping is answered. Echo requests that arrive on a ring leave, in order of arrival and
  turned into replies of the same length, through the transmit ring of the same device, in
  the slots from its \<open>cur\<close> on, as many as there is room for; this takes one turn of
  the receive thread and one turn of the transmit thread, which waited for work. The packets
  of the requests answered are no longer busy, so their slots can be given back; the
  requests that found no room wait on the transmit thread's list.
\<close>

theorem ping_answered:
  assumes nm: "netmap_ok nm" and inv: "rx_inv nm ring zone s"
    and r0: "rings s ring = Some r0" and z: "zones s zone = Some z"
    and poll: "kernel_step r0 r" "in_poll inp r0 = r" "in_ready inp"
    and Q: "turn_queues s (ring_size r0) qp [] qh xh"
    and t: "t = \<lparr>srt_rx_ring = ring, srt_rx_zone = zone, srt_rx_sort = phy_sorter a b qh qp, srt_queue_fd = fd\<rparr>"
    and th: "th = \<lparr>stt_outpkt_queue = qp, stt_tx_ring = tring, stt_tx_zone = tzone, stt_queue_fd = fd'\<rparr>"
    and P: "ring_pair nm s ring r tring tzone" and tr: "rings s tring = Some tr"
    and lens: "\<forall>j \<in> set (rx_window r). unat (s_len (r_slots r ! j)) \<le> 2048"
    and reqs: "reqs = filter (slot_request nm s ring r) (rx_window r)"
    and n: "n = min (unat (tx_ring_nslots tr)) (length reqs)" "0 < n"
  shows "\<exists>s1 out s2 tr2. sin_rx_thread_turn nm inp t SIN_LIST_RESET s = Some (in_ctrl inp = SIGTERM, t, SIN_LIST_RESET, s1) \<and>
    sin_tx_thread_turn nm tinp th SIN_LIST_RESET s1 = Some (if tx_ctrl tinp = 15 then Exit_thread else Next_turn, out,
      s2\<lparr>rings := (rings s2)(tring \<mapsto> in_sync tinp tr2)\<rparr>) \<and>
    rings s2 tring = Some tr2 \<and> r_head tr2 = r_cur tr2 \<and>
    unat (r_cur tr2) = ridx (ring_size tr) (unat (r_cur tr)) n \<and>
    map (\<lambda>j. slot_content nm s2 (tring, j)) (window (ring_size tr) (unat (r_cur tr)) n) =
      map (\<lambda>j. map_option (take (unat (s_len (r_slots r ! j)))) (req2rpl_buf (the (mem s (slot_buf nm ring r j))))) (take n reqs) \<and>
    (\<forall>j \<in> set (take n reqs). \<not> busy_at s2 z j) \<and>
    lst_repr (links s2) out (map ((!) (z_pmap z)) (drop n reqs))"
proof -
  from P obtain tz where tz: "zones s tzone = Some tz"
    by (auto simp: ring_pair_def split: option.splits)
  note p = ring_pairD [OF P tr tz]
  have inv': "rx_inv nm ring zone (s\<lparr>rings := (rings s)(ring \<mapsto> r)\<rparr>)" by (rule poll_keeps [OF inv r0 poll(1)])
  then have rx: "ring_ok r" "length (z_pmap z) = ring_size r" "distinct (z_pmap z)"
    "\<And>j. j < ring_size r \<Longrightarrow> slot_pkt_ok nm s zone ring r j (z_pmap z ! j)"
    using z by (auto elim!: rx_invE)
  note below = rx_window_below [OF rx(1)]
  note o = ring_okD [OF rx(1)]
  have dw: "distinct (rx_window r)"
    using distinct_window [OF o(4)] rdist_less [OF o(4,5)] by (simp add: rx_window_def)
  have ok: "arrived_ok nm s ring r"
    unfolding arrived_ok_def
  proof (intro conjI ballI)
    have "inj_on (slot_buf nm ring r) {..<ring_size r}" using p(7) by (simp add: distinct_map atLeast0LessThan)
    then show "distinct (map (slot_buf nm ring r) (rx_window r))"
      using dw below by (simp add: distinct_map inj_on_subset)
    fix j assume j: "j \<in> set (rx_window r)"
    with below p(8) obtain d where "mem s (slot_buf nm ring r j) = Some d" "2048 \<le> length d" by blast
    with lens j show "\<exists>b. mem s (slot_buf nm ring r j) = Some b \<and> 42 \<le> length b \<and>
        unat (s_len (r_slots r ! j)) \<le> length b" by force
  qed
  from rx_turn_works [OF nm inv r0 z poll Q ok t]
  obtain s1 where s1: "sin_rx_thread_turn nm inp t SIN_LIST_RESET s = Some (in_ctrl inp = SIGTERM, t, SIN_LIST_RESET, s1)"
    "q_repr s1 qp (map ((!) (z_pmap z)) reqs)"
    "\<forall>j \<in> set (rx_window r). mem s1 (slot_buf nm ring r j) =
      (if slot_request nm s ring r j then req2rpl_buf (the (mem s (slot_buf nm ring r j)))
       else mem s (slot_buf nm ring r j))"
    "turned nm s ring r z (set xh) s1"
    by (auto simp: reqs)
  let ?js = "take n reqs" and ?ps = "map ((!) (z_pmap z)) reqs"
  have jw: "set ?js \<subseteq> set (rx_window r)" "\<And>j. j \<in> set ?js \<Longrightarrow> slot_request nm s ring r j"
    using set_take_subset [of n reqs] by (auto simp: reqs)
  have m1: "mem s1 (slot_buf nm ring r j) = req2rpl_buf (the (mem s (slot_buf nm ring r j)))" if "j \<in> set ?js" for j
    using s1(3) jw that by auto
  have bufs: "\<exists>b. mem s1 (slot_buf nm ring r j) = Some b \<and> 2048 \<le> length b" if j: "j \<in> set ?js" for j
  proof -
    from j jw(1) below p(8) obtain d where "mem s (slot_buf nm ring r j) = Some d" "2048 \<le> length d" by blast
    with m1 [OF j] length_req2rpl_buf [of d] show ?thesis by auto
  qed
  define w where "w = window (ring_size tr) (unat (r_cur tr)) n"
  have tn: "unat (tx_ring_nslots tr) < ring_size tr"
    using tx_ring_nslots_spec [OF p(4)] rdist_less ring_okD(4,5) [OF p(4)] by simp
  then have ws: "distinct w" "set w \<subseteq> {..<ring_size tr}"
    using n distinct_window set_window ring_okD(4) [OF p(4)] by (auto simp: w_def)
  have A: "z_pmap tz ! j \<notin> set xh" if "j < ring_size tr" for j
    using Q p(10) [OF that] by (auto simp: turn_queues_def busy_at_def rx_ready_def split: option.splits)
  have th': "stt_tx_ring th = tring" "stt_tx_zone th = tzone" "stt_outpkt_queue th = qp" by (simp_all add: th)
  have js: "distinct ?js" using dw by (simp add: reqs)
  note R = turned_tx_ready [OF s1(4) P tr tz rx(1,4) z rx(2) js jw(1) bufs _ ws A th'(1,2)]
  have rdy: "tx_ready nm th s1 tz tr (take n ?ps) (map ((!) (z_pmap tz)) w)"
    and ct: "map (content s1) (take n ?ps) = map (\<lambda>j. map_option (take (unat (s_len (r_slots r ! j))))
      (mem s1 (slot_buf nm ring r j))) ?js"
    using R(1,2) lens jw(1) by (auto simp: take_map)
  have dis: "set ?ps \<inter> set (map ((!) (z_pmap tz)) w) = {}"
  proof -
    have "set ?ps \<subseteq> set (z_pmap z)" using below rx(2) by (auto simp: reqs)
    moreover have "set (map ((!) (z_pmap tz)) w) \<subseteq> set (z_pmap tz)" using ws(2) p(5) by auto
    moreover have "set (z_pmap z) \<inter> set (z_pmap tz) = {}" using R(3) lens jw(1) by auto
    ultimately show ?thesis by blast
  qed
  have st: "zones s1 (stt_tx_zone th) = Some tz" "rings s1 (stt_tx_ring th) = Some tr"
    using s1(4) tr tz p(1) th' by (simp_all add: turned_def)
  have "lst_repr (links s1) SIN_LIST_RESET []" by simp
  moreover have "q_repr s1 (stt_outpkt_queue th) ?ps" using s1(2) th' by simp
  moreover have "?ps = (if [] = [] then ?ps else [])" by simp
  moreover have "?ps \<noteq> []" "tx_ring_nslots tr \<noteq> 0" "n = min (unat (tx_ring_nslots tr)) (length ?ps)"
    using n by auto
  ultimately obtain out s2 tr2 where s2:
    "sin_tx_thread_turn nm tinp th SIN_LIST_RESET s1 = Some (if tx_ctrl tinp = 15 then Exit_thread else Next_turn, out,
      s2\<lparr>rings := (rings s2)(stt_tx_ring th \<mapsto> in_sync tinp tr2)\<rparr>)"
    "lst_repr (links s2) out (drop n ?ps)"
    "map (\<lambda>j. slot_content nm s2 (stt_tx_ring th, j)) w = map (content s1) (take n ?ps)"
    "\<forall>p \<in> set (take n ?ps). \<exists>k. pkts s2 p = Some k \<and> \<not> is_busy k"
    "rings s2 (stt_tx_ring th) = Some tr2" "r_head tr2 = r_cur tr2"
    "unat (r_cur tr2) = ridx (ring_size tr) (unat (r_cur tr)) n"
    using tx_turn_works [OF nm st _ _ _ _ _ _ w_def refl rdy dis, of _ "[]" _ tinp] by blast
  have "map (\<lambda>j. slot_content nm s2 (tring, j)) w =
      map (\<lambda>j. map_option (take (unat (s_len (r_slots r ! j)))) (req2rpl_buf (the (mem s (slot_buf nm ring r j))))) ?js"
    using s2(3) ct m1 th'(1) by (simp cong: map_cong)
  moreover have "\<forall>j \<in> set ?js. \<not> busy_at s2 z j" using s2(4) by (fastforce simp: busy_at_def take_map)
  ultimately show ?thesis
    using s1(1) s2(1,2,5-7) th'(1)
    by (intro exI [of _ s1] exI [of _ out] exI [of _ s2] exI [of _ tr2]) (simp add: w_def drop_map)
qed

lemma ex_ring_pair: "ring_pair ex_nm ex_store 71 ex_rx_ring 72 11"
proof -
  have u: "[0..<3] = [0, 1, 2]" "{..<3} = {0, 1, 2 :: nat}" by (auto simp: upt_rec)
  have r: "rings ex_store 72 = Some ex_tx_ring" "ring_size ex_rx_ring = 3" "ring_size ex_tx_ring = 3"
    by (simp_all add: ex_store_def ring_size_def ex_rx_ring_def ex_tx_ring_def)
  have b: "slot_buf ex_nm 71 ex_rx_ring 0 = 1" "slot_buf ex_nm 71 ex_rx_ring 1 = 2" "slot_buf ex_nm 71 ex_rx_ring 2 = 3"
    "slot_buf ex_nm 72 ex_tx_ring 0 = 4" "slot_buf ex_nm 72 ex_tx_ring 1 = 5" "slot_buf ex_nm 72 ex_tx_ring 2 = 6"
    by (simp_all add: slot_buf_def ex_nm_def ex_rx_ring_def ex_tx_ring_def ex_slot_def)
  have m: "\<forall>b \<in> {1, 2, 3, 4, 5, 6}. \<exists>d. mem ex_store b = Some d \<and> 2048 \<le> length d" by (simp add: ex_store_def)
  have t: "\<forall>j < 3. \<not> busy_at ex_store (ex_zone 63 [31, 32, 33]) j \<and> rx_ready ex_store (z_pmap (ex_zone 63 [31, 32, 33]) ! j)"
    unfolding less_3 by (simp add: busy_at_def rx_ready_def ex_zone_def ex_store_def)
  have s: "same_memory ex_nm 71 72" by (simp add: same_memory_def ex_nm_def)
  show ?thesis unfolding ring_pair_def using s ex_tx_zone m t by (simp add: r u b b(2,5) [simplified])
qed

theorem ping_answered_witness:
  "\<exists>t s1 out s2 r. sin_rx_thread_turn ex_nm \<lparr>in_poll = id, in_ready = True, in_ctrl = -1\<rparr> t SIN_LIST_RESET ex_store
      = Some (False, t, SIN_LIST_RESET, s1) \<and>
    sin_tx_thread_turn ex_nm \<lparr>in_sync = id, tx_ctrl = -1\<rparr> ex_tx SIN_LIST_RESET s1
      = Some (Next_turn, out, s2\<lparr>rings := (rings s2)(72 \<mapsto> r)\<rparr>) \<and>
    slot_content ex_nm s2 (72, 1) = map_option (take 64) (req2rpl_buf ex_frame)"
proof -
  let ?inp = "\<lparr>in_poll = id, in_ready = True, in_ctrl = -1\<rparr>" and ?tinp = "\<lparr>in_sync = id, tx_ctrl = -1\<rparr>"
  let ?t = "\<lparr>srt_rx_ring = 71, srt_rx_zone = 10, srt_rx_sort = phy_sorter 5 6 52 51, srt_queue_fd = 9\<rparr>
    :: pstore sin_rx_thread"
  have i: "in_poll ?inp ex_rx_ring = ex_rx_ring" "in_ready ?inp" by simp_all
  have Q: "turn_queues ex_store (ring_size ex_rx_ring) 51 [] 52 []"
    using ex_turn_facts(1) by (simp add: ex_rx_ring_facts)
  have tr: "rings ex_store 72 = Some ex_tx_ring" by (simp add: ex_store_def)
  have lens: "\<forall>j \<in> set (rx_window ex_rx_ring). unat (s_len (r_slots ex_rx_ring ! j)) \<le> 2048"
    by (simp add: ex_rx_window ex_slot_len ex_slot_len(2) [simplified])
  have reqs: "[0] = filter (slot_request ex_nm ex_store 71 ex_rx_ring) (rx_window ex_rx_ring)"
    unfolding ex_rx_window using ex_turn_facts(3,4) by simp
  have n: "1 = min (unat (tx_ring_nslots ex_tx_ring)) (length [0 :: nat])" by (simp add: ex_tx_facts(4))
  have w: "window (ring_size ex_tx_ring) (unat (r_cur ex_tx_ring)) 1 = [1]" using ex_tx_facts(5) by simp
  have mm: "the (mem ex_store (slot_buf ex_nm 71 ex_rx_ring 0)) = ex_frame" by (simp add: ex_slot_buf ex_store_facts)
  have th: "ex_tx = \<lparr>stt_outpkt_queue = 51, stt_tx_ring = 72, stt_tx_zone = 11, stt_queue_fd = 9\<rparr>" by (rule ex_tx_def)
  from ping_answered [OF ex_nm_ok ex_rx_inv ex_rx_ring_facts(3) ex_rx_zone ex_turn_facts(5) i Q refl th ex_ring_pair tr
      lens reqs n zero_less_one, of 5 6 9 ?tinp]
  obtain s1 out s2 r where
    "sin_rx_thread_turn ex_nm ?inp ?t SIN_LIST_RESET ex_store = Some (in_ctrl ?inp = SIGTERM, ?t, SIN_LIST_RESET, s1)"
    "sin_tx_thread_turn ex_nm ?tinp ex_tx SIN_LIST_RESET s1 = Some (if tx_ctrl ?tinp = 15 then Exit_thread else Next_turn,
      out, s2\<lparr>rings := (rings s2)(72 \<mapsto> in_sync ?tinp r)\<rparr>)"
    "map (\<lambda>j. slot_content ex_nm s2 (72, j)) (window (ring_size ex_tx_ring) (unat (r_cur ex_tx_ring)) 1) =
      map (\<lambda>j. map_option (take (unat (s_len (r_slots ex_rx_ring ! j))))
        (req2rpl_buf (the (mem ex_store (slot_buf ex_nm 71 ex_rx_ring j))))) (take 1 [0])"
    by (elim exE conjE)
  then show ?thesis unfolding w using mm
    by (intro exI [of _ ?t] exI [of _ s1] exI [of _ out] exI [of _ s2] exI [of _ r])
      (simp add: SIGTERM_def ex_slot_len)
qed

end
