(* ===== verification/Sin_Tx_Asserts.thy ===== *)
theory Sin_Tx_Asserts
  imports Sin_Zone_Inv Sin_Tx_Send
begin

text \<open>
  The sending block of the transmit thread in the \<open>SIN_DEBUG\<close> build: the assertions of
  \<open>sin_list_append\<close>, of \<open>sin_pkt_zone_ret_pkt\<close> with the tags that the two functions it
  calls check, of \<open>advance_tx_ring\<close>, and of the block itself. With the zones in order and
  packets that are busy in theirs, none fails, and the build does what the release build does.
  What it prints, and the test that decides whether to print a reply, are left out: they
  change nothing.
\<close>

definition SIN_DEBUG_ASSERT :: "bool \<Rightarrow> unit option" where
  "SIN_DEBUG_ASSERT x = (if x then Some () else None)"

partial_function (option) getpkts_loop_debug :: "netmap_api \<Rightarrow> addr \<Rightarrow> addr \<Rightarrow> sin_list \<Rightarrow> u32 \<Rightarrow> u32 \<Rightarrow>
    'a pstore_scheme \<Rightarrow> (sin_list \<times> 'a pstore_scheme) option" where
  "getpkts_loop_debug nm ring pkt_zone plp curidx ntx s = (if ntx > 1 then do {
     r \<leftarrow> rings s ring;
     let curidx = nm_ring_next nm r curidx;
     pkt \<leftarrow> pmap_at pkt_zone curidx s;
     _ \<leftarrow> SIN_DEBUG_ASSERT (append_asserts pkt s);
     (plp, s) \<leftarrow> sin_list_append plp pkt s;
     getpkts_loop_debug nm ring pkt_zone plp curidx (ntx - 1) s
   } else Some (plp, s))"

definition tx_zone_getpkts_debug :: "netmap_api \<Rightarrow> addr \<Rightarrow> addr \<Rightarrow> u32 \<Rightarrow> 'a pstore_scheme \<Rightarrow>
    (sin_list \<times> 'a pstore_scheme) option" where
  "tx_zone_getpkts_debug nm ring pkt_zone ntx s = do {
     r \<leftarrow> rings s ring;
     pkt \<leftarrow> pmap_at pkt_zone (r_cur r) s;
     getpkts_loop_debug nm ring pkt_zone \<lparr>lst_head = Some pkt, lst_tail = Some pkt, lst_len = 1\<rparr>
       (r_cur r) ntx s
   }"

text \<open>
  The assertions of \<open>sin_pkt_zone_ret_pkt\<close>: the packet has its tag, as \<open>sin_pkt_isbusy\<close> and
  \<open>sin_pkt_setflags\<close> check, is busy, and is in its place in its zone.
\<close>

definition sin_pkt_zone_ret_pkt_debug :: "addr \<Rightarrow> 'a pstore_scheme \<Rightarrow> 'a pstore_scheme option" where
  "sin_pkt_zone_ret_pkt_debug pkt s = do {
     k \<leftarrow> pkts s pkt;
     _ \<leftarrow> SIN_DEBUG_ASSERT (p_type k = SIN_TYPE_PKT);
     b \<leftarrow> sin_pkt_isbusy pkt s;
     _ \<leftarrow> SIN_DEBUG_ASSERT (b \<noteq> 0);
     q \<leftarrow> pmap_at (my_zone k) (zone_idx k) s;
     _ \<leftarrow> SIN_DEBUG_ASSERT (pkt = q);
     map_option snd (sin_pkt_setflags pkt 0 SPKT_BUSY s)
   }"

definition advance_tx_ring_debug :: "addr \<Rightarrow> u32 \<Rightarrow> 'a pstore_scheme \<Rightarrow> 'a pstore_scheme option" where
  "advance_tx_ring_debug ring ntx s = do {
     r \<leftarrow> rings s ring;
     _ \<leftarrow> SIN_DEBUG_ASSERT (ntx < num_slots r);
     curidx \<leftarrow> advance_loop (num_slots r) (r_cur r + ntx);
     set_ring ring (\<lambda>r. r\<lparr>r_head := curidx, r_cur := curidx\<rparr>) s
   }"

definition send_one_debug :: "netmap_api \<Rightarrow> addr \<Rightarrow> addr \<Rightarrow> addr \<Rightarrow> 'a pstore_scheme \<Rightarrow>
    (ptr \<times> ptr \<times> 'a pstore_scheme) option" where
  "send_one_debug nm tx_zone pkt pkt_tx s = do {
     zt \<leftarrow> zones s tx_zone;
     k \<leftarrow> pkts s pkt;
     z \<leftarrow> zones s (my_zone k);
     s \<leftarrow> (if z_netmap_fd zt = z_netmap_fd z then sin_pkt_zone_swap nm pkt pkt_tx s
          else sin_pkt_zone_copy nm pkt pkt_tx s);
     pkt_next \<leftarrow> SIN_ITER_NEXT pkt s;
     s \<leftarrow> SIN_TYPE_LINK pkt NULL s;
     s \<leftarrow> sin_pkt_zone_ret_pkt_debug pkt s;
     pkt_next_tx \<leftarrow> SIN_ITER_NEXT pkt_tx s;
     s \<leftarrow> SIN_TYPE_LINK pkt_tx NULL s;
     Some (pkt_next, pkt_next_tx, s)
   }"

primrec send_loop_debug :: "netmap_api \<Rightarrow> addr \<Rightarrow> nat \<Rightarrow> ptr \<Rightarrow> ptr \<Rightarrow> 'a pstore_scheme \<Rightarrow>
    (ptr \<times> ptr \<times> 'a pstore_scheme) option" where
  "send_loop_debug nm tx_zone 0 pkt pkt_tx s = Some (pkt, pkt_tx, s)"
| "send_loop_debug nm tx_zone (Suc n) pkt pkt_tx s = do {
     p \<leftarrow> pkt;
     t \<leftarrow> pkt_tx;
     (pkt, pkt_tx, s) \<leftarrow> send_one_debug nm tx_zone p t s;
     send_loop_debug nm tx_zone n pkt pkt_tx s
   }"

definition tx_send_debug :: "netmap_api \<Rightarrow> sin_tx_thread \<Rightarrow> u32 \<Rightarrow> sin_list \<Rightarrow> 'a pstore_scheme \<Rightarrow>
    (u32 \<times> sin_list \<times> 'a pstore_scheme) option" where
  "tx_send_debug nm sttp aslots pkts_out s =
     (if \<not> SIN_LIST_IS_EMPTY pkts_out then do {
        let ntx = SIN_MIN aslots (lst_len pkts_out);
        (pkts_tx, s) \<leftarrow> tx_zone_getpkts_debug nm (stt_tx_ring sttp) (stt_tx_zone sttp) ntx s;
        (pkt, _, s) \<leftarrow> send_loop_debug nm (stt_tx_zone sttp) (unat ntx) (lst_head pkts_out)
          (lst_head pkts_tx) s;
        s \<leftarrow> advance_tx_ring_debug (stt_tx_ring sttp) ntx s;
        let pkts_out = pkts_out\<lparr>lst_head := pkt\<rparr>;
        pkts_out \<leftarrow> (if pkt = NULL then do {
            _ \<leftarrow> SIN_DEBUG_ASSERT (lst_len pkts_out = ntx);
            Some (pkts_out\<lparr>lst_tail := NULL, lst_len := 0\<rparr>)
          } else Some (pkts_out\<lparr>lst_len := lst_len pkts_out - ntx\<rparr>));
        Some (ntx, pkts_out, s)
      } else Some (0, pkts_out, s))"

lemma SIN_DEBUG_ASSERT_True [simp]: "SIN_DEBUG_ASSERT True = Some ()"
  by (simp add: SIN_DEBUG_ASSERT_def)

subsection \<open>The packets of the ring\<close>

lemma append_asserts_links:
  "h p = links s p \<Longrightarrow> append_asserts p (s\<lparr>links := h\<rparr>) = append_asserts p s"
  by (simp add: append_asserts_def SIN_ITER_NEXT_def)

lemma getpkts_loop_debug_eq:
  assumes nm: "netmap_ok nm" and z: "length (z_pmap z) = n" and rn: "ring_size r = n"
    and "zones s zone = Some z" and "rings s ring = Some r"
    and "unat c < n" and "unat ntx = Suc k"
    and "new = map ((!) (z_pmap z)) (window n (ridx n (unat c) 1) k)" and "distinct new"
    and "\<forall>p \<in> set new. append_asserts p s \<and> lst_tail pl \<noteq> Some p"
  shows "getpkts_loop_debug nm ring zone pl c ntx s = getpkts_loop nm ring zone pl c ntx s"
  using assms(4-)
proof (induction k arbitrary: c ntx new s pl)
  case 0
  then have "\<not> ntx > 1" by (simp add: word_less_nat_alt)
  then show ?case by (simp add: getpkts_loop.simps getpkts_loop_debug.simps)
next
  case (Suc k)
  let ?c = "nm_ring_next nm r c"
  have u: "unat ?c = ridx n (unat c) 1" using nm_next_unat [OF nm, of c r] Suc.prems(3) rn by simp
  have cn: "unat ?c < n" using u Suc.prems(3) by (metis ridx_less gr_zeroI not_less_zero)
  define p where "p = z_pmap z ! unat ?c"
  define new' where "new' = map ((!) (z_pmap z)) (window n (ridx n (unat ?c) 1) k)"
  have new: "new = p # new'" using Suc.prems(5) window_Suc [OF cn, of k] u by (simp add: p_def new'_def)
  have gt: "ntx > 1" and u1: "unat (ntx - 1) = Suc k"
    using Suc.prems(4) unat_minus_word [of 1 ntx] by (simp_all add: word_less_nat_alt)
  have pm: "pmap_at zone ?c s = Some p" using z Suc.prems(1) cn by (simp add: pmap_at_def p_def)
  have as: "append_asserts p s" using Suc.prems(7) new by simp
  note unfold = getpkts_loop.simps [of nm ring zone pl c ntx] getpkts_loop_debug.simps [of nm ring zone pl c ntx]
  show ?case
  proof (cases "sin_list_append pl p s")
    case None
    then show ?thesis using gt Suc.prems(2) pm as by (simp add: unfold Let_def)
  next
    case (Some x)
    then obtain pl1 s1 where a: "sin_list_append pl p s = Some (pl1, s1)" by (cases x) simp
    obtain h where h: "s1 = s\<lparr>links := h\<rparr>" using append_links [OF a] ..
    note e = append_effect [OF a]
    have "append_asserts q s1 \<and> lst_tail pl1 \<noteq> Some q" if q: "q \<in> set new'" for q
    proof -
      have "append_asserts q s" "lst_tail pl \<noteq> Some q" "q \<noteq> p" using q new Suc.prems(6,7) by auto
      then show ?thesis using e(1) e(2) [of q] h append_asserts_links [of h q s] by simp
    qed
    then have "getpkts_loop_debug nm ring zone pl1 ?c (ntx - 1) s1 = getpkts_loop nm ring zone pl1 ?c (ntx - 1) s1"
      using Suc.prems(1,2,6) h new by (intro Suc.IH [OF _ _ cn u1 new'_def]) simp_all
    then show ?thesis using gt Suc.prems(2) pm as a by (simp add: unfold Let_def)
  qed
qed

lemma tx_zone_getpkts_debug_eq:
  assumes nm: "netmap_ok nm" and z: "zones s zone = Some z" "length (z_pmap z) = n" "distinct (z_pmap z)"
    and r: "rings s ring = Some r" "ring_ok r" "ring_size r = n"
    and k: "0 < unat ntx" "unat ntx \<le> n"
    and new: "new = map ((!) (z_pmap z)) (window n (unat (r_cur r)) (unat ntx))"
    and l: "\<forall>p \<in> set new. append_asserts p s"
  shows "tx_zone_getpkts_debug nm ring zone ntx s = tx_zone_getpkts nm ring zone ntx s"
proof -
  let ?c = "unat (r_cur r)" and ?p = "z_pmap z ! unat (r_cur r)"
  have c: "?c < n" using ring_okD(4) [OF r(2)] r(3) by simp
  obtain k' where k': "unat ntx = Suc k'" using k(1) gr0_implies_Suc by blast
  define new' where "new' = map ((!) (z_pmap z)) (window n (ridx n ?c 1) k')"
  have n: "new = ?p # new'" using new k' window_Suc [OF c] by (simp add: new'_def)
  have d: "distinct new"
    using new z(2,3) distinct_window [OF c k(2)] set_window [OF c k(2)]
    by (auto simp: distinct_map inj_on_def nth_eq_iff_index_eq)
  have "\<forall>p \<in> set new'. append_asserts p s \<and> lst_tail \<lparr>lst_head = Some ?p, lst_tail = Some ?p, lst_len = 1\<rparr> \<noteq> Some p"
    using l n d by auto
  moreover have "distinct new'" using d n by simp
  ultimately show ?thesis
    using getpkts_loop_debug_eq [OF nm z(2) r(3) z(1) r(1) c k' new'_def] z c r(1)
    by (simp add: tx_zone_getpkts_debug_def tx_zone_getpkts_def pmap_at_def)
qed

subsection \<open>Returning the packets\<close>

text \<open>A packet in use: busy, and in its place in its zone.\<close>

definition in_use :: "'a pstore_scheme \<Rightarrow> addr \<Rightarrow> bool" where
  "in_use s p \<longleftrightarrow> (\<exists>k. pkts s p = Some k \<and> p_type k = SIN_TYPE_PKT \<and> is_busy k \<and>
     pmap_at (my_zone k) (zone_idx k) s = Some p)"

lemma in_use_keeps:
  assumes "in_use s p" and "pkts s p = Some k" and "pkts s' p = Some (k\<lparr>p_buf := b\<rparr>)" and "zones s' = zones s"
  shows "in_use s' p"
  using assms by (auto simp: in_use_def pmap_at_def is_busy_def split: option.splits if_splits)

lemma zone_ok_in_use:
  assumes ok: "zone_ok nm s zone ring" and z: "zones s zone = Some z" and i: "i < length (z_pmap z)" "busy_at s z i"
  shows "in_use s (z_pmap z ! i)"
proof -
  from ok z obtain r where r: "length (z_pmap z) = ring_size r"
    "\<And>i. i < ring_size r \<Longrightarrow> slot_pkt_ok nm s zone ring r i (z_pmap z ! i)"
    by (auto elim: zone_okE)
  from r(2) [of i] i(1) r(1) obtain k where k: "pkts s (z_pmap z ! i) = Some k" "unat (zone_idx k) = i"
    "my_zone k = zone" "p_type k = SIN_TYPE_PKT" by (auto elim: slot_pkt_okE)
  then show ?thesis using z i by (auto simp: in_use_def busy_at_def pmap_at_def)
qed

lemma ret_pkt_debug_eq:
  "in_use s p \<Longrightarrow> sin_pkt_zone_ret_pkt_debug p s = sin_pkt_zone_ret_pkt p s"
  by (auto simp: in_use_def sin_pkt_zone_ret_pkt_debug_def sin_pkt_zone_ret_pkt_def sin_pkt_isbusy_iff
      intro!: bind_SomeI)

lemma send_one_debug_eq:
  assumes pre: "tx_pre nm tz s (p # ps) (t # ts)" and zt: "zones s tz \<noteq> None" and use: "in_use s p"
  shows "send_one_debug nm tz p t s = send_one nm tz p t s"
proof -
  have ok: "tx_pkt_ok nm s p" "tx_pkt_ok nm s t" "fits s p" "apart s [p, t]" "swap_ok nm tz s p t"
    using pre by (auto simp: tx_pre_def apart_def)
  then obtain k1 k2 where k: "pkts s p = Some k1" "pkts s t = Some k2"
    by (auto simp: tx_pkt_ok_def split: option.splits)
  obtain w where w: "zones s tz = Some w" using zt by auto
  obtain s1 z where s1: "zones s (my_zone k1) = Some z" "(if z_netmap_fd w = z_netmap_fd z
      then sin_pkt_zone_swap nm p t s else sin_pkt_zone_copy nm p t s) = Some s1" "moved nm s p t k1 k2 s1"
    by (rule move_works [OF ok w k])
  have "p \<noteq> t" using ok(4) by (simp add: apart_def)
  with s1(3) obtain bp where p1: "pkts s1 p = Some (k1\<lparr>p_buf := bp\<rparr>)" by (auto simp: moved_def)
  have z1: "zones s1 = zones s" using s1(3) by (intro tx_frame_simps(1)) (simp add: moved_def)
  have "in_use (s1\<lparr>links := h\<rparr>) p" for h
    by (rule in_use_keeps [OF use k(1)]) (simp_all add: p1 z1)
  then have "sin_pkt_zone_ret_pkt_debug p (s1\<lparr>links := h\<rparr>) = sin_pkt_zone_ret_pkt p (s1\<lparr>links := h\<rparr>)" for h
    by (rule ret_pkt_debug_eq)
  then show ?thesis using w k s1(1,2)
    by (cases "links s1 p") (simp_all add: send_one_debug_def send_one_def SIN_TYPE_LINK_def SIN_ITER_NEXT_def)
qed

lemma send_loop_debug_eq:
  assumes "tx_pre nm tz s ps ts" and "length ts = length ps" and "zones s tz \<noteq> None"
    and "chain (links s) hp (ps @ rest) NULL" and "chain (links s) ht ts NULL"
    and "set rest \<inter> set ts = {}" and "\<forall>p \<in> set ps. in_use s p"
  shows "send_loop_debug nm tz (length ps) hp ht s = send_loop nm tz (length ps) hp ht s"
  using assms
proof (induction ps arbitrary: ts s hp ht)
  case (Cons p ps)
  from Cons.prems(2) obtain t ts' where t: "ts = t # ts'" "length ts' = length ps"
    by (cases ts) auto
  from Cons.prems(4,5) t(1) obtain n m where nm: "hp = Some p" "links s p = Some n"
    "chain (links s) n (ps @ rest) NULL" "ht = Some t" "links s t = Some m" "chain (links s) m ts' NULL"
    by auto
  have pre: "tx_pre nm tz s (p # ps) (t # ts')" using Cons.prems(1) t by simp
  from tx_pre_round [OF pre nm(2,5) Cons.prems(3)]
  obtain s1 where s1: "send_one nm tz p t s = Some (n, m, s1)" "sent nm s p t s1" "tx_pre nm tz s1 ps ts'"
    by metis
  have l1: "links s1 = (links s)(p \<mapsto> NULL, t \<mapsto> NULL)" and f1: "zones s1 = zones s"
    using s1(2) tx_frame_simps(1) by (auto simp: sent_def)
  have "distinct (p # ps @ rest)" using chain_distinct [OF Cons.prems(4)] by simp
  moreover have "p \<notin> set ts'" "t \<notin> set ps" "t \<notin> set ts'"
    using pre by (auto simp: tx_pre_def apart_def)
  ultimately have "chain (links s1) n (ps @ rest) NULL" "chain (links s1) m ts' NULL"
    using nm(3,6) Cons.prems(6) t(1) by (auto simp: l1)
  moreover have "in_use s1 q" if "q \<in> set ps" for q
    using sent_others(1) [OF pre s1(2), of q] Cons.prems(7) that f1 by (simp add: in_use_def pmap_at_def)
  ultimately have "send_loop_debug nm tz (length ps) n m s1 = send_loop nm tz (length ps) n m s1"
    using Cons.prems(3,6) t(1) f1 by (intro Cons.IH [OF s1(3) t(2)]) auto
  then show ?case using send_one_debug_eq [OF pre Cons.prems(3)] Cons.prems(7) s1(1) nm(1,4) by simp
qed simp

lemma advance_tx_ring_debug_eq:
  assumes "rings s ring = Some r" and "ntx < num_slots r"
  shows "advance_tx_ring_debug ring ntx s = advance_tx_ring ring ntx s"
  using assms by (simp add: advance_tx_ring_debug_def advance_tx_ring_def)

subsection \<open>The block\<close>

lemma tx_send_debug_eq:
  assumes nm: "netmap_ok nm" and z: "zones s (stt_tx_zone th) = Some z"
    and r: "rings s (stt_tx_ring th) = Some r" and l: "lst_repr (links s) out ps" "ps \<noteq> []"
    and a: "aslots = tx_ring_nslots r" "aslots \<noteq> 0" and now: "now = take (unat aslots) ps"
    and ts: "ts = map ((!) (z_pmap z)) (window (ring_size r) (unat (r_cur r)) (length now))"
    and rdy: "tx_ready nm th s z r now ts" and dis: "set ps \<inter> set ts = {}"
    and as: "\<forall>t \<in> set ts. append_asserts t s" and use: "\<forall>p \<in> set now. in_use s p"
  shows "tx_send_debug nm th aslots out s = tx_send nm th aslots out s"
proof -
  have t: "ring_ok r" "tx_pre nm (stt_tx_zone th) s now ts" "length (z_pmap z) = ring_size r" "distinct (z_pmap z)"
    using rdy by (simp_all add: tx_ready_def)
  note o = ring_okD [OF t(1)]
  have sz: "unat aslots < ring_size r" "0 < unat aslots"
    using tx_ring_nslots_spec [OF t(1)] rdist_less [OF o(4,5)] a unat_eq_zero_iff [of aslots] by auto
  define ntx where "ntx = SIN_MIN aslots (lst_len out)"
  define rest where "rest = drop (unat aslots) ps"
  have nl: "unat ntx = length now" using ntx_length [OF lst_reprD(3) [OF l(1)]] by (simp add: ntx_def now)
  have n: "now \<noteq> []" "length now < ring_size r" and ps: "ps = now @ rest" using l(2) sz by (simp_all add: now rest_def)
  have ch: "chain (links s) (lst_head out) (now @ rest) NULL" using lst_reprD(1) [OF l(1)] ps by simp
  from tx_send_phases [OF nm z r rdy ch nl n(1) less_imp_le [OF n(2)] ts] dis ps
  obtain pl hp' h s1 where
    g: "tx_zone_getpkts nm (stt_tx_ring th) (stt_tx_zone th) ntx s = Some (pl, s\<lparr>links := h\<rparr>)" and
    sl: "send_loop nm (stt_tx_zone th) (unat ntx) (lst_head out) (lst_head pl) (s\<lparr>links := h\<rparr>) = Some (hp', NULL, s1)" and
    ch1: "chain (links s1) hp' rest NULL" and al: "all_sent nm s now ts s1"
    by auto
  have wn: "0 < unat ntx" "unat ntx \<le> ring_size r" "ts = map ((!) (z_pmap z)) (window (ring_size r) (unat (r_cur r)) (unat ntx))"
    using n ts by (simp_all add: nl)
  have g': "tx_zone_getpkts_debug nm (stt_tx_ring th) (stt_tx_zone th) ntx s = Some (pl, s\<lparr>links := h\<rparr>)"
    using tx_zone_getpkts_debug_eq [OF nm z t(3,4) r t(1) refl wn as] g by simp
  have sl': "send_loop_debug nm (stt_tx_zone th) (unat ntx) (lst_head out) (lst_head pl) (s\<lparr>links := h\<rparr>) = Some (hp', NULL, s1)"
  proof -
    from tx_zone_getpkts_works [OF nm z t(3,4) r t(1) refl wn] rdy g
    obtain h' where h': "s\<lparr>links := h\<rparr> = s\<lparr>links := h'\<rparr>" "lst_repr h' pl ts" "\<forall>a. a \<notin> set ts \<longrightarrow> h' a = links s a"
      by (auto simp: tx_ready_def)
    have "h = h'" using arg_cong [OF h'(1), of links] by simp
    with h'(2,3) have h: "lst_repr h pl ts" "\<forall>a. a \<notin> set ts \<longrightarrow> h a = links s a" by simp_all
    have "chain h (lst_head out) (now @ rest) NULL"
      using ch h(2) dis ps chain_cong [of "now @ rest" h "links s"] by (metis disjoint_iff)
    moreover have "tx_pre nm (stt_tx_zone th) (s\<lparr>links := h\<rparr>) now ts" using t(2) by (simp add: tx_pre_links)
    moreover have "\<forall>p \<in> set now. in_use (s\<lparr>links := h\<rparr>) p" using use by (simp add: in_use_def pmap_at_def)
    moreover have "length ts = length now" "set rest \<inter> set ts = {}" using ts dis ps by auto
    ultimately show ?thesis
      using send_loop_debug_eq [of nm "stt_tx_zone th" "s\<lparr>links := h\<rparr>" now ts "lst_head out" rest "lst_head pl"] z lst_reprD(1) [OF h(1)] sl
      by (simp add: nl)
  qed
  have "tx_frame s s1" using al by (simp add: all_sent_def)
  then have "map_option ring_hdr (rings s1 (stt_tx_ring th)) = Some (ring_hdr r)"
    using tx_frame_simps(4) r by (metis option.map(2))
  then obtain r1 where r1: "rings s1 (stt_tx_ring th) = Some r1" "ring_size r1 = ring_size r"
    by (auto dest: ring_hdr_fields(4))
  have "ntx < num_slots r1" using n(2) nl r1(2) by (simp add: word_less_nat_alt ring_size_def)
  note adv = advance_tx_ring_debug_eq [OF r1(1) this]
  have "lst_len out = ntx" if "hp' = NULL"
  proof -
    have "rest = []" using ch1 that by (cases rest) auto
    then have "unat (lst_len out) = unat ntx" using lst_reprD(3) [OF l(1)] nl ps by simp
    then show ?thesis by (rule unsigned_word_eqI)
  qed
  then show ?thesis using g g' sl sl' adv
    by (auto simp: tx_send_debug_def tx_send_def ntx_def [symmetric] Let_def split: Option.bind_splits)
qed

text \<open>Where the hypotheses come from: the zones in order.\<close>

lemma zone_ok_append_asserts:
  assumes "zone_ok nm s zone ring" "zones s zone = Some z" "i < length (z_pmap z)" "links s (z_pmap z ! i) = Some NULL"
  shows "append_asserts (z_pmap z ! i) s"
proof -
  from assms(1,2) obtain r where "length (z_pmap z) = ring_size r"
    "\<And>i. i < ring_size r \<Longrightarrow> slot_pkt_ok nm s zone ring r i (z_pmap z ! i)"
    by (auto elim: zone_okE)
  with assms(3) have "slot_pkt_ok nm s zone ring r i (z_pmap z ! i)" by simp
  then show ?thesis using assms(4)
    by (auto elim!: slot_pkt_okE simp: append_asserts_def SIN_ITER_NEXT_def SIN_TYPE_IS_LINKABLE_def)
qed

subsection \<open>Property\<close>

text \<open>
  C26. No assertion met by the transmit thread when it sends ever fails: the zone of the ring is
  in order, the packets to send are busy, each in its place in a zone that is in order, as
  the receive thread leaves them. The debug build of the block returns, and what the release
  build returns. It checks that the packets of the slots are on no list when they are collected,
  that the packets returned have their tag, are busy and are the ones their zones know, that fewer
  slots are used than the ring has, and that the list is used up when it ends.
\<close>

theorem tx_asserts_hold:
  assumes nm: "netmap_ok nm" and z: "zones s (stt_tx_zone th) = Some z"
    and r: "rings s (stt_tx_ring th) = Some r" and l: "lst_repr (links s) out ps" "ps \<noteq> []"
    and a: "tx_ring_nslots r \<noteq> 0" and now: "now = take (unat (tx_ring_nslots r)) ps"
    and ts: "ts = map ((!) (z_pmap z)) (window (ring_size r) (unat (r_cur r)) (length now))"
    and rdy: "tx_ready nm th s z r now ts" and dis: "set ps \<inter> set ts = {}"
    and tz: "zone_ok nm s (stt_tx_zone th) (stt_tx_ring th)"
    and use: "\<forall>p \<in> set now. \<exists>zone ring zp i. zone_ok nm s zone ring \<and> zones s zone = Some zp \<and>
      i < length (z_pmap zp) \<and> busy_at s zp i \<and> p = z_pmap zp ! i"
  shows "\<exists>res. tx_send_debug nm th (tx_ring_nslots r) out s = Some res \<and>
    tx_send nm th (tx_ring_nslots r) out s = Some res"
proof -
  have "append_asserts t s" if "t \<in> set ts" for t
  proof -
    have t: "length (z_pmap z) = ring_size r" "ring_ok r" "links s t = Some NULL"
      using rdy that by (simp_all add: tx_ready_def)
    have "unat (tx_ring_nslots r) < ring_size r"
      using tx_ring_nslots_spec [OF t(2)] rdist_less ring_okD(4,5) [OF t(2)] by metis
    then have "length now \<le> ring_size r" using now by simp
    note w = set_window [OF ring_okD(4) [OF t(2)] this]
    from that ts obtain j where "j \<in> set (window (ring_size r) (unat (r_cur r)) (length now))" "t = z_pmap z ! j"
      by auto
    then have "j < length (z_pmap z)" "t = z_pmap z ! j" using w t(1) by auto
    then show ?thesis using zone_ok_append_asserts [OF tz z] t(3) by simp
  qed
  moreover have "\<forall>p \<in> set now. in_use s p" using use by (auto intro: zone_ok_in_use)
  ultimately have "tx_send_debug nm th (tx_ring_nslots r) out s = tx_send nm th (tx_ring_nslots r) out s"
    by (intro tx_send_debug_eq [OF nm z r l refl a now ts rdy dis]) simp_all
  moreover have "\<exists>res. tx_send nm th (tx_ring_nslots r) out s = Some res"
    using tx_send_works [OF nm z r l refl a rdy [unfolded now ts]] dis unfolding now ts by blast
  ultimately show ?thesis by metis
qed

text \<open>The packet of slot 0 of the receive ring of the example, in use, is sent.\<close>

definition ex_busy :: pstore where
  "ex_busy = ex_store\<lparr>pkts := (pkts ex_store)(21 \<mapsto> mark_busy (ex_pkt 10 71 0 41 1))\<rparr>"

lemma ex_busy_simps [simp]:
  "zones ex_busy = zones ex_store" "rings ex_busy = rings ex_store" "links ex_busy = links ex_store"
  "times ex_busy = times ex_store" "slots ex_busy = slots ex_store" "mem ex_busy = mem ex_store"
  by (simp_all add: ex_busy_def)

lemma ex_busy_pkts: "pkts ex_busy p = (if p = 21 then Some (mark_busy (ex_pkt 10 71 0 41 1)) else pkts ex_store p)"
  by (simp add: ex_busy_def)

lemma ex_21: "pkts ex_store 21 = Some (ex_pkt 10 71 0 41 1)"
  by (simp add: ex_store_def)

lemma ex_busy_zone:
  assumes "zone_ok ex_nm ex_store zone ring"
  shows "zone_ok ex_nm ex_busy zone ring"
proof -
  have "slot_pkt_ok ex_nm ex_busy zone ring r i p" if "slot_pkt_ok ex_nm ex_store zone ring r i p" for r i p
    using that by (cases "p = 21") (auto simp: slot_pkt_ok_def ex_busy_pkts ex_21 mark_busy_def split: option.splits)
  then show ?thesis using assms by (auto simp: zone_ok_def split: option.splits)
qed

lemma ex_busy_ready: "tx_ready ex_nm ex_tx ex_busy (ex_zone 63 [31, 32, 33]) ex_tx_ring [21] [32]"
proof -
  have "tx_pkt_ok ex_nm ex_busy p = tx_pkt_ok ex_nm ex_store p" for p
    unfolding tx_pkt_ok_def ex_busy_pkts ex_busy_simps
    by (simp add: ex_21 mark_busy_def cong: option.case_cong)
  moreover have "fits ex_busy p = fits ex_store p" for p
    unfolding fits_def ex_busy_pkts by (simp add: ex_21 mark_busy_def)
  moreover have "buf_of ex_busy p = buf_of ex_store p" for p
    unfolding buf_of_def ex_busy_pkts by (simp add: ex_21 mark_busy_def)
  moreover have sl: "slot_of ex_busy p = slot_of ex_store p" for p
    unfolding slot_of_def ex_busy_pkts by (simp add: ex_21 mark_busy_def)
  moreover from sl have "swap_ok ex_nm 11 ex_busy 21 32 = swap_ok ex_nm 11 ex_store 21 32"
    by (simp add: swap_ok_def ex_busy_pkts ex_21 mark_busy_def)
  ultimately show ?thesis using ex_tx_facts(7) by (simp add: tx_ready_def tx_pre_def apart_def ex_tx_def)
qed

theorem tx_asserts_hold_witness:
  "\<exists>res. tx_send_debug ex_nm ex_tx 2 ex_out ex_busy = Some res \<and> tx_send ex_nm ex_tx 2 ex_out ex_busy = Some res"
proof -
  have z: "zone_ok ex_nm ex_busy 10 71" "zone_ok ex_nm ex_busy (stt_tx_zone ex_tx) (stt_tx_ring ex_tx)"
    using ex_rx_inv ex_tx_zone(1) by (auto simp: rx_inv_def ex_tx_def intro: ex_busy_zone)
  have "busy_at ex_busy (ex_zone 61 [21, 22, 23]) 0"
    by (simp add: busy_at_def ex_zone_def ex_busy_pkts)
  then have "\<exists>zone ring zp i. zone_ok ex_nm ex_busy zone ring \<and> zones ex_busy zone = Some zp \<and>
      i < length (z_pmap zp) \<and> busy_at ex_busy zp i \<and> 21 = z_pmap zp ! i"
    using z(1) ex_rx_zone by (intro exI [of _ 10] exI [of _ 71] exI [of _ "ex_zone 61 [21, 22, 23]"] exI [of _ "0 :: nat"])
      (simp add: ex_zone_def)
  then have use: "\<forall>p \<in> set [21]. \<exists>zone ring zp i. zone_ok ex_nm ex_busy zone ring \<and> zones ex_busy zone = Some zp \<and>
      i < length (z_pmap zp) \<and> busy_at ex_busy zp i \<and> p = z_pmap zp ! i" by simp
  have ts: "[32] = map ((!) (z_pmap (ex_zone 63 [31, 32, 33])))
      (window (ring_size ex_tx_ring) (unat (r_cur ex_tx_ring)) (length [21 :: nat]))"
    using ex_tx_facts(5,6) by (metis One_nat_def list.size(3,4) add_0)
  have now: "[21] = take (unat (tx_ring_nslots ex_tx_ring)) [21 :: nat]" by (simp add: ex_tx_facts(4))
  have "\<exists>res. tx_send_debug ex_nm ex_tx (tx_ring_nslots ex_tx_ring) ex_out ex_busy = Some res \<and>
      tx_send ex_nm ex_tx (tx_ring_nslots ex_tx_ring) ex_out ex_busy = Some res"
    by (rule tx_asserts_hold [OF ex_nm_ok _ _ _ _ _ now ts ex_busy_ready _ z(2) use])
      (simp_all add: ex_tx_facts, simp add: ex_zone_def)
  then show ?thesis by (simp add: ex_tx_facts(4))
qed

end
