(* ===== verification/Udpm_Debug.thy ===== *)
theory Udpm_Debug
  imports Udpm_Sorter
begin

text \<open>
  The build of the UDP mirror with \<open>SIN_DEBUG\<close>: it exchanges the addresses and ports like the
  release build and then computes both checksums again, although exchanging them does not
  change the sums. What it computes, and when the two builds agree, is proved here.
\<close>

definition OFF_UDP_CHECKSUM :: nat where "OFF_UDP_CHECKSUM = 40"
definition OFF_UDP_DATA :: nat where "OFF_UDP_DATA = 42"

text \<open>
  The checksum macros. The loop is that of \<open>sin_ip4_cksum\<close>; here an odd last byte goes through
  a union of a \<open>uint16_t\<close> and two bytes, and the accumulator is unsigned.
\<close>

definition sin_ip_chksum_update :: "u8 list \<Rightarrow> nat \<Rightarrow> int \<Rightarrow> u32 \<Rightarrow> u32 option" where
  "sin_ip_chksum_update b dp len wsum = (if len mod 2 \<noteq> 0 then None
     else do { (_, _, wsum) \<leftarrow> cksum_loop b dp len wsum; Some wsum })"

definition sin_ip_chksum_update_data :: "u8 list \<Rightarrow> nat \<Rightarrow> int \<Rightarrow> u32 \<Rightarrow> u32 option" where
  "sin_ip_chksum_update_data b dp len wsum = do {
     (w, nleft, wsum) \<leftarrow> cksum_loop b dp len wsum;
     if nleft = 1 then do { c \<leftarrow> ld8 b w; Some (wsum + ucast (le16 c 0)) } else Some wsum
   }"

definition sin_ip_chksum_fin :: "u32 \<Rightarrow> u16" where
  "sin_ip_chksum_fin wsum = (
     let wsum = drop_bit 16 wsum + (wsum AND 0xffff);
         wsum = wsum + drop_bit 16 wsum
     in ucast (NOT wsum))"

text \<open>The second half of the function, the checksum of the datagram.\<close>

definition udp_wsum_debug :: "u8 list \<Rightarrow> u32 option" where
  "udp_wsum_debug p = do {
     wsum \<leftarrow> sin_ip_chksum_update p OFF_IP_SRC 4 0;
     wsum \<leftarrow> sin_ip_chksum_update p OFF_IP_DST 4 wsum;
     wsum \<leftarrow> sin_ip_chksum_update [0x0, 0x11] 0 2 wsum;
     wsum \<leftarrow> sin_ip_chksum_update p OFF_UDP_LENGTH 2 wsum;
     wsum \<leftarrow> sin_ip_chksum_update p OFF_UDP_SRC_PORT 2 wsum;
     wsum \<leftarrow> sin_ip_chksum_update p OFF_UDP_DST_PORT 2 wsum;
     wsum \<leftarrow> sin_ip_chksum_update p OFF_UDP_LENGTH 2 wsum;
     len \<leftarrow> ld16 p OFF_UDP_LENGTH;
     sin_ip_chksum_update_data p OFF_UDP_DATA (uint (htons len) - int SIZEOF_UDPHDR) wsum
   }"

definition mirror_buf_debug :: "u8 list \<Rightarrow> u8 list option" where
  "mirror_buf_debug p = do {
     p \<leftarrow> sin_memswp OFF_ETHER_SHOST OFF_ETHER_DHOST 6 p;
     p \<leftarrow> sin_memswp OFF_IP_SRC OFF_IP_DST 4 p;
     p \<leftarrow> st16 p OFF_IP_SUM 0;
     ip_sum \<leftarrow> sin_ip4_cksum p OFF_IP (int SIZEOF_IP);
     p \<leftarrow> st16 p OFF_IP_SUM ip_sum;
     p \<leftarrow> sin_memswp OFF_UDP_SRC_PORT OFF_UDP_DST_PORT 2 p;
     wsum \<leftarrow> udp_wsum_debug p;
     st16 p OFF_UDP_CHECKSUM (sin_ip_chksum_fin wsum)
   }"

lemmas udp_debug_offs = udp_off_defs OFF_UDP_CHECKSUM_def OFF_UDP_DATA_def

subsection \<open>The macros\<close>

lemma cksum_loop_even:
  "cksum_loop b w n x = Some (w', nl, y) \<Longrightarrow> even nl = even n"
proof (induction b w n x rule: cksum_loop.induct)
  case (1 b w n x)
  then show ?case
    by (auto simp: cksum_loop.simps [of b w n x] split: if_splits Option.bind_splits)
qed

lemma chksum_update_sum:
  assumes "even n" and "w + n \<le> length b" and "unat wsum + word_sum (take n (drop w b)) < 2 ^ 32"
  shows "\<exists>s'. sin_ip_chksum_update b w (int n) wsum = Some s' \<and>
    unat s' = unat wsum + word_sum (take n (drop w b))"
proof -
  obtain w' nl s' where l: "cksum_loop b w (int n) wsum = Some (w', nl, s')"
    "(nl = 0 \<and> unat s' = unat wsum + word_sum (take n (drop w b))) \<or> nl = 1"
    using cksum_loop_sum [of "int n" w b wsum] assms by auto
  with cksum_loop_even [OF l(1)] assms(1) have "nl = 0" by auto
  moreover have "int n mod 2 = 0" using assms(1) by presburger
  ultimately show ?thesis using l by (simp add: sin_ip_chksum_update_def)
qed

lemma word_sum_2: "w + 1 < length b \<Longrightarrow> word_sum (take 2 (drop w b)) = unat (le16 (b ! w) (b ! Suc w))"
  by (simp add: take2 unat_le16)

lemma word_sum_4: "w + 3 < length b \<Longrightarrow> word_sum (take 4 (drop w b))
    = unat (le16 (b ! w) (b ! Suc w)) + unat (le16 (b ! (w + 2)) (b ! (w + 3)))"
  by (simp add: take2 unat_le16 numeral_3_eq_3)

lemma chksum_update_data_sum:
  assumes "w + n \<le> length b" and "unat wsum + word_sum (take n (drop w b)) < 2 ^ 32"
  shows "\<exists>s'. sin_ip_chksum_update_data b w (int n) wsum = Some s' \<and>
    unat s' = unat wsum + word_sum (take n (drop w b))"
proof -
  obtain w' nl s' where l: "cksum_loop b w (int n) wsum = Some (w', nl, s')"
    "(nl = 0 \<and> unat s' = unat wsum + word_sum (take n (drop w b))) \<or> (nl = 1 \<and> w' < length b \<and>
       unat s' + unat (b ! w') = unat wsum + word_sum (take n (drop w b)))"
    using cksum_loop_sum [of "int n" w b wsum] assms by auto
  have "unat (s' + ucast (le16 (b ! w') 0)) = unat s' + unat (b ! w')" if "nl = 1"
    using l(2) that assms(2) unat_plus_word [of s' "ucast (le16 (b ! w') 0)"] by (simp add: unat_le16)
  with l show ?thesis by (auto simp: sin_ip_chksum_update_data_def ld8_def)
qed

lemma chksum_fin_sum:
  assumes "unat wsum \<le> 65535 * 65535"
  shows "unat (sin_ip_chksum_fin wsum) = 65535 - ones_sum (unat wsum)"
proof -
  have hi: "unat (drop_bit 16 x) = unat x div 65536" for x :: u32
    by (simp add: drop_bit_eq_div unat_div)
  have lo: "unat (x AND 0xffff) = unat x mod 65536" for x :: u32
  proof -
    have "x AND 0xffff = take_bit 16 x" by (simp add: take_bit_eq_mask mask_eq_exp_minus_1)
    then show ?thesis by (simp add: take_bit_eq_mod unat_mod)
  qed
  define z where "z = drop_bit 16 wsum + (wsum AND 0xffff)"
  have z: "unat z = unat wsum div 65536 + unat wsum mod 65536"
    using assms unat_plus_word [of "drop_bit 16 wsum" "wsum AND 0xffff"] by (simp add: z_def hi lo)
  define v where "v = z + drop_bit 16 z"
  have v: "unat v = unat z + unat z div 65536"
    using assms z unat_plus_word [of z "drop_bit 16 z"] by (simp add: v_def hi)
  have "unat v mod 65536 = ones_sum (unat wsum)" using fold_is_ones_sum [OF assms] v z by simp
  then show ?thesis by (simp add: sin_ip_chksum_fin_def z_def [symmetric] v_def [symmetric] Let_def unat_not_ucast)
qed

subsection \<open>The two checksums\<close>

definition ip_field :: "u8 list \<Rightarrow> nat" where
  "ip_field p = unat (le16 (p ! 24) (p ! 25))"

definition udp_field :: "u8 list \<Rightarrow> nat" where
  "udp_field p = unat (le16 (p ! 40) (p ! 41))"

text \<open>The sum of the datagram and its pseudo header, checksum field included.\<close>

definition udp_pseudo_sum :: "nat \<Rightarrow> u8 list \<Rightarrow> nat" where
  "udp_pseudo_sum n p = udp_sum n p + 0x1100 + unat (le16 (p ! 38) (p ! 39))"

text \<open>The field holds what a sender computes over the rest.\<close>

definition ip_cksum_set :: "u8 list \<Rightarrow> bool" where
  "ip_cksum_set p \<longleftrightarrow> ip_field p = 65535 - ones_sum (ip_hdr_sum p - ip_field p)"

definition udp_cksum_set :: "nat \<Rightarrow> u8 list \<Rightarrow> bool" where
  "udp_cksum_set n p \<longleftrightarrow> udp_field p = 65535 - ones_sum (udp_pseudo_sum n p - udp_field p)"

lemma udp_sum_words:
  assumes "8 \<le> n" and "34 + n \<le> length p"
  shows "udp_sum n p = word_sum (take 4 (drop 26 p)) + word_sum (take 4 (drop 30 p))
    + word_sum (take 2 (drop 34 p)) + word_sum (take 2 (drop 36 p)) + word_sum (take 2 (drop 38 p))
    + udp_field p + word_sum (take (n - 8) (drop 42 p))"
proof -
  have t: "take (n - 6) (drop 40 p) = p ! 40 # p ! 41 # take (n - 8) (drop 42 p)"
    using take2 [of "n - 6" 40 p] assms by simp
  have "{..<7 :: nat} = {0, 1, 2, 3, 4, 5, 6}" by auto
  then have "word_sum (take 14 (drop 26 p)) = word_sum (take 4 (drop 26 p)) + word_sum (take 4 (drop 30 p))
    + word_sum (take 2 (drop 34 p)) + word_sum (take 2 (drop 36 p)) + word_sum (take 2 (drop 38 p))"
    using word_sum_range [of 26 7 p] assms by (simp add: word_sum_2 word_sum_4 unat_le16)
  then show ?thesis using udp_sum_parts [OF assms] t by (simp add: udp_field_def unat_le16)
qed

lemma udp_sum_bound: "n < 65536 \<Longrightarrow> udp_sum n p \<le> 65535 * 32772"
  using word_sum_bound [of "take (8 + n) (drop 26 p)"] by (simp add: udp_sum_def)

lemma udp_wsum_debug_works:
  assumes n: "n = be16 (p ! 38) (p ! 39)" "8 \<le> n" "34 + n \<le> length p"
  obtains w where "udp_wsum_debug p = Some w" and "unat w = udp_pseudo_sum n p - udp_field p"
    and "unat w \<le> 65535 * 65535"
proof -
  have l16: "n < 65536" using unat_u16_bound [of "htons (le16 (p ! 38) (p ! 39))"] n(1) unat_htons_le16 by simp
  note b = udp_sum_bound [OF l16, of p, unfolded udp_sum_words [OF n(2,3)]]
  have c0: "word_sum [0, 0x11] = 0x1100" by simp
  have lw: "word_sum (take 2 (drop 38 p)) < 65536" using n word_sum_2 [of 38 p] unat_u16_bound by simp
  obtain w1 where w1: "sin_ip_chksum_update p 26 4 0 = Some w1" "unat w1 = word_sum (take 4 (drop 26 p))"
    using chksum_update_sum [of 4 26 p 0] n b by auto
  obtain w2 where w2: "sin_ip_chksum_update p 30 4 w1 = Some w2"
      "unat w2 = unat w1 + word_sum (take 4 (drop 30 p))"
    using chksum_update_sum [of 4 30 p w1] n b w1 by auto
  obtain w3 where w3: "sin_ip_chksum_update [0, 0x11] 0 2 w2 = Some w3" "unat w3 = unat w2 + 0x1100"
    using chksum_update_sum [of 2 0 "[0, 0x11]" w2] b w1 w2 by auto
  obtain w4 where w4: "sin_ip_chksum_update p 38 2 w3 = Some w4"
      "unat w4 = unat w3 + word_sum (take 2 (drop 38 p))"
    using chksum_update_sum [of 2 38 p w3] n b w1 w2 w3 by auto
  obtain w5 where w5: "sin_ip_chksum_update p 34 2 w4 = Some w5"
      "unat w5 = unat w4 + word_sum (take 2 (drop 34 p))"
    using chksum_update_sum [of 2 34 p w4] n b w1 w2 w3 w4 by auto
  obtain w6 where w6: "sin_ip_chksum_update p 36 2 w5 = Some w6"
      "unat w6 = unat w5 + word_sum (take 2 (drop 36 p))"
    using chksum_update_sum [of 2 36 p w5] n b w1 w2 w3 w4 w5 by auto
  obtain w7 where w7: "sin_ip_chksum_update p 38 2 w6 = Some w7"
      "unat w7 = unat w6 + word_sum (take 2 (drop 38 p))"
    using chksum_update_sum [of 2 38 p w6] n b w1 w2 w3 w4 w5 w6 lw by auto
  obtain w8 where w8: "sin_ip_chksum_update_data p 42 (int (n - 8)) w7 = Some w8"
      "unat w8 = unat w7 + word_sum (take (n - 8) (drop 42 p))"
    using chksum_update_data_sum [of 42 "n - 8" p w7] n b w1 w2 w3 w4 w5 w6 w7 lw by auto
  have "ld16 p 38 = Some (le16 (p ! 38) (p ! 39))" using n by (simp add: ld16_def)
  moreover have "uint (htons (le16 (p ! 38) (p ! 39))) - 8 = int (n - 8)"
    using n by (simp add: uint_htons_le16)
  ultimately have "udp_wsum_debug p = Some w8"
    using w1(1) w2(1) w3(1) w4(1) w5(1) w6(1) w7(1) w8(1)
    by (simp add: udp_wsum_debug_def udp_debug_offs off_defs)
  moreover have "unat w8 + udp_field p = udp_pseudo_sum n p"
    using w1(2) w2(2) w3(2) w4(2) w5(2) w6(2) w7(2) w8(2) udp_sum_words [OF n(2,3)] word_sum_2 [of 38 p] n
    by (simp add: udp_pseudo_sum_def)
  moreover have "unat w8 \<le> 65535 * 65535"
    using w1(2) w2(2) w3(2) w4(2) w5(2) w6(2) w7(2) w8(2) b lw by simp
  ultimately show thesis by (intro that [of w8]) auto
qed

text \<open>The release build's answer with the two checksums stored into it.\<close>

definition with_sums :: "u16 \<Rightarrow> u16 \<Rightarrow> u8 list \<Rightarrow> u8 list" where
  "with_sums c d p = p[24 := ucast c, 25 := ucast (drop_bit 8 c),
     40 := ucast d, 41 := ucast (drop_bit 8 d)]"

lemma with_sums_fields:
  assumes "42 \<le> length p"
  shows "ip_field (with_sums c d p) = unat c" "udp_field (with_sums c d p) = unat d"
    "with_sums c d p ! 38 = p ! 38" "with_sums c d p ! 39 = p ! 39" "length (with_sums c d p) = length p"
  using assms by (simp_all add: with_sums_def ip_field_def udp_field_def le16_split)

lemma le16_parts: "ucast (le16 a b) = a" "ucast (drop_bit 8 (le16 a b)) = b"
  using le16_split [of "le16 a b"] by (simp_all only: le16_eq_iff)

lemma with_sums_id_iff:
  assumes "42 \<le> length p"
  shows "with_sums c d p = p \<longleftrightarrow> unat c = ip_field p \<and> unat d = udp_field p"
proof
  assume "with_sums c d p = p"
  with with_sums_fields(1,2) [OF assms, of c d] show "unat c = ip_field p \<and> unat d = udp_field p" by simp
next
  assume "unat c = ip_field p \<and> unat d = udp_field p"
  then have "c = le16 (p ! 24) (p ! 25)" "d = le16 (p ! 40) (p ! 41)"
    by (simp_all add: ip_field_def udp_field_def word_unat_eq_iff)
  then have "ucast c = p ! 24" "ucast (drop_bit 8 c) = p ! 25" "ucast d = p ! 40" "ucast (drop_bit 8 d) = p ! 41"
    using le16_split [of c] le16_split [of d] by (simp_all only: le16_eq_iff)
  then show "with_sums c d p = p" by (simp add: with_sums_def)
qed

lemma ip_hdr_sum_with_sums:
  assumes "42 \<le> length p"
  shows "ip_hdr_sum (with_sums c d p) + ip_field p = ip_hdr_sum p + unat c"
proof -
  have "ip_hdr_sum (with_sums c d p) = ip_hdr_sum (p[24 := ucast c, 25 := ucast (drop_bit 8 c)])"
    using assms by (simp add: ip_hdr_sum_eq lessThan_10 with_sums_def)
  then show ?thesis
    using ip_hdr_sum_upd [of p "ucast c" "ucast (drop_bit 8 c)"] assms word_parts [of c]
    by (simp add: ip_field_def unat_le16)
qed

lemma udp_sum_with_sums:
  assumes n: "8 \<le> n" "34 + n \<le> length p"
  shows "udp_sum n (with_sums c d p) + udp_field p = udp_sum n p + unat d"
proof -
  have "42 \<le> length p" using n by simp
  note f = with_sums_fields [OF this, of c d]
  have "drop 42 (with_sums c d p) = drop 42 p" by (simp add: with_sums_def)
  moreover have "take 4 (drop w (with_sums c d p)) = take 4 (drop w p)" if "w = 26 \<or> w = 30" for w
    using that by (auto simp: with_sums_def drop_update_swap)
  moreover have "take 2 (drop w (with_sums c d p)) = take 2 (drop w p)" if "w = 34 \<or> w = 36 \<or> w = 38" for w
    using that by (auto simp: with_sums_def drop_update_swap)
  ultimately show ?thesis
    using udp_sum_words [OF n] udp_sum_words [of n "with_sums c d p"] n f(2,5) by simp
qed

lemma mirrored_fields:
  assumes "42 \<le> length p"
  shows "ip_field (mirrored p) = ip_field p" "udp_field (mirrored p) = udp_field p"
    "mirrored p ! 38 = p ! 38" "mirrored p ! 39 = p ! 39"
  using assms by (simp_all add: ip_field_def udp_field_def nth_mirrored nth_swap_addrs)

lemma mirrored_upd:
  assumes "42 \<le> length p"
  shows "swapped 34 36 2 ((swap_addrs p)[24 := a, 25 := b]) = (mirrored p)[24 := a, 25 := b]"
  using assms by (intro nth_equalityI) (auto simp: mirrored_def nth_swapped nth_list_update)

lemma mirror_buf_debug_works:
  assumes n: "n = be16 (p ! 38) (p ! 39)" "8 \<le> n" "34 + n \<le> length p"
  obtains c d where "mirror_buf_debug p = Some (with_sums c d (mirrored p))"
    and "unat c = 65535 - ones_sum (ip_hdr_sum p - ip_field p)"
    and "unat d = 65535 - ones_sum (udp_pseudo_sum n p - udp_field p)"
proof -
  have len: "42 \<le> length p" using n by simp
  let ?z = "(swap_addrs p)[24 := 0, 25 := 0]"
  have a: "sin_memswp OFF_ETHER_SHOST OFF_ETHER_DHOST 6 p = Some (swapped 6 0 6 p)"
    "sin_memswp OFF_IP_SRC OFF_IP_DST 4 (swapped 6 0 6 p) = Some (swap_addrs p)"
    using memswp_loop_swaps [of 6 6 0 p] memswp_loop_swaps [of 26 4 30 "swapped 6 0 6 p"] len
    by (simp_all add: sin_memswp_def off_defs swap_addrs_def)
  obtain c where c: "sin_ip4_cksum ?z 14 20 = Some c" "unat c = 65535 - ones_sum (ip_hdr_sum ?z)"
    using sin_ip4_cksum_spec [of 14 20 ?z] len by (auto simp: ip_hdr_sum_def)
  have z: "ip_hdr_sum ?z = ip_hdr_sum p - ip_field p"
    using ip_hdr_sum_upd [of "swap_addrs p" 0 0] len
    by (simp add: ip_hdr_sum_swap nth_swap_addrs ip_field_def unat_le16)
  let ?y = "(mirrored p)[24 := ucast c, 25 := ucast (drop_bit 8 c)]"
  have y: "?y = with_sums c (le16 (p ! 40) (p ! 41)) (mirrored p)"
  proof -
    have "p ! 40 = ?y ! 40" "p ! 41 = ?y ! 41" using len by (simp_all add: nth_mirrored nth_swap_addrs)
    then have "with_sums c (le16 (p ! 40) (p ! 41)) (mirrored p) = ?y[40 := ?y ! 40, 41 := ?y ! 41]"
      by (simp only: with_sums_def le16_parts)
    then show ?thesis by (simp only: list_update_id)
  qed
  have "34 + n \<le> length ?y" "n = be16 (?y ! 38) (?y ! 39)" using n mirrored_fields [OF len] by simp_all
  from udp_wsum_debug_works [OF this(2) n(2) this(1)] obtain w where
    w: "udp_wsum_debug ?y = Some w" "unat w = udp_pseudo_sum n ?y - udp_field ?y" "unat w \<le> 65535 * 65535"
    by blast
  have yf: "udp_field ?y = udp_field p" using with_sums_fields(2) [of "mirrored p"] len y by (simp add: udp_field_def)
  have "udp_sum n ?y + udp_field p = udp_sum n p + udp_field p"
    using udp_sum_with_sums [of n "mirrored p" c "le16 (p ! 40) (p ! 41)"] udp_sum_mirrored [OF n(2,3)] n
      mirrored_fields [OF len] y by (simp add: udp_field_def)
  then have u: "unat w = udp_pseudo_sum n p - udp_field p"
    using w(2) yf n mirrored_fields [OF len] by (simp add: udp_pseudo_sum_def)
  let ?d = "sin_ip_chksum_fin w"
  have s: "sin_memswp OFF_UDP_SRC_PORT OFF_UDP_DST_PORT 2 ((swap_addrs p)[24 := x, 25 := x'])
      = Some ((mirrored p)[24 := x, 25 := x'])" for x x'
    using memswp_loop_swaps [of 34 2 36 "(swap_addrs p)[24 := x, 25 := x']"] len mirrored_upd [OF len]
    by (simp add: sin_memswp_def udp_off_defs)
  have "?z[24 := x, 25 := x'] = (swap_addrs p)[24 := x, 25 := x']" for x x'
    by (simp add: list_update_swap [of 25 24])
  then have st: "st16 (swap_addrs p) OFF_IP_SUM 0 = Some ?z"
    "st16 ?z OFF_IP_SUM c = Some ((swap_addrs p)[24 := ucast c, 25 := ucast (drop_bit 8 c)])"
    using len by (simp_all add: st16_def off_defs)
  have ld: "sin_ip4_cksum ?z OFF_IP (int SIZEOF_IP) = Some c" using c(1) by (simp add: off_defs)
  have "mirror_buf_debug p = st16 ?y OFF_UDP_CHECKSUM ?d"
    by (simp only: mirror_buf_debug_def a st ld s w(1) Option.bind.simps)
  also have "\<dots> = Some (with_sums c ?d (mirrored p))"
    using len by (simp add: st16_def udp_debug_offs with_sums_def)
  finally have "mirror_buf_debug p = Some (with_sums c ?d (mirrored p))" .
  with c(2) z chksum_fin_sum [OF w(3)] u show thesis by (intro that [of c ?d]) simp_all
qed

lemma mirror_debug_sums:
  assumes n: "n = be16 (p ! 38) (p ! 39)" "8 \<le> n" "34 + n \<le> length p"
    and c: "unat c = 65535 - ones_sum (ip_hdr_sum p - ip_field p)"
    and d: "unat d = 65535 - ones_sum (udp_pseudo_sum n p - udp_field p)"
  shows "ip_cksum_set (with_sums c d (mirrored p))" "udp_cksum_set n (with_sums c d (mirrored p))"
    "with_sums c d (mirrored p) = mirrored p \<longleftrightarrow> ip_cksum_set p \<and> udp_cksum_set n p"
proof -
  have len: "42 \<le> length p" "42 \<le> length (mirrored p)" using n by simp_all
  note m = mirrored_fields [OF len(1)] and f = with_sums_fields [OF len(2), of c d]
  have "ip_hdr_sum (with_sums c d (mirrored p)) - unat c = ip_hdr_sum p - ip_field p"
    using ip_hdr_sum_with_sums [OF len(2), of c d] ip_hdr_sum_mirrored [OF len(1)] m(1) by simp
  with c f(1) show "ip_cksum_set (with_sums c d (mirrored p))" by (simp add: ip_cksum_set_def)
  have "udp_pseudo_sum n (with_sums c d (mirrored p)) - unat d = udp_pseudo_sum n p - udp_field p"
    using udp_sum_with_sums [of n "mirrored p" c d] udp_sum_mirrored [OF n(2,3)] n m f
    by (simp add: udp_pseudo_sum_def)
  with d f(2) show "udp_cksum_set n (with_sums c d (mirrored p))" by (simp add: udp_cksum_set_def)
  show "with_sums c d (mirrored p) = mirrored p \<longleftrightarrow> ip_cksum_set p \<and> udp_cksum_set n p"
    using with_sums_id_iff [OF len(2), of c d] c d m by (auto simp: ip_cksum_set_def udp_cksum_set_def)
qed

subsection \<open>Properties\<close>

text \<open>
  C24. The mirrored packet is an answer: mirroring never fails on a frame with room for the
  headers, mirroring the answer gives the request back, the answer passes the same filter
  of any port range, its addresses and ports are those of the request exchanged, all other
  bytes stay, and neither the sum of the IP header nor, for any datagram inside the
  buffer, the sum behind the UDP checksum changes, so valid checksums stay valid.
\<close>

theorem udp_mirror_correct:
  assumes "42 \<le> length p"
  shows "\<exists>p'. mirror_buf p = Some p' \<and> mirror_buf p' = Some p \<and> length p' = length p \<and>
    (\<forall>args. udp_frame args p' = udp_frame args p) \<and>
    (\<forall>i < 6. p' ! i = p ! (6 + i) \<and> p' ! (6 + i) = p ! i) \<and>
    (\<forall>i < 4. p' ! (26 + i) = p ! (30 + i) \<and> p' ! (30 + i) = p ! (26 + i)) \<and>
    (\<forall>i < 2. p' ! (34 + i) = p ! (36 + i) \<and> p' ! (36 + i) = p ! (34 + i)) \<and>
    (\<forall>i \<in> {12 ..< 26} \<union> {38 ..< length p}. p' ! i = p ! i) \<and>
    ip_hdr_sum p' = ip_hdr_sum p \<and>
    (\<forall>n \<ge> 8. 34 + n \<le> length p \<longrightarrow> udp_sum n p' = udp_sum n p)"
proof (intro exI [of _ "mirrored p"] conjI)
  show "mirror_buf p = Some (mirrored p)" by (rule mirror_buf_spec [OF assms])
  show "mirror_buf (mirrored p) = Some p"
    using mirror_buf_spec [of "mirrored p"] mirrored_mirrored assms by simp
  show "length (mirrored p) = length p" by simp
  show "\<forall>args. udp_frame args (mirrored p) = udp_frame args p" using udp_frame_mirrored [OF assms] by blast
  show "ip_hdr_sum (mirrored p) = ip_hdr_sum p" by (rule ip_hdr_sum_mirrored [OF assms])
  show "\<forall>n \<ge> 8. 34 + n \<le> length p \<longrightarrow> udp_sum n (mirrored p) = udp_sum n p"
    using udp_sum_mirrored by blast
qed (use assms in \<open>auto simp: nth_mirrored nth_swap_addrs add.commute\<close>)

definition ex_datagram :: "u8 list" where
  "ex_datagram = [0, 0, 0, 0, 0, 1, 0, 0, 0, 0, 0, 2, 8, 0, 0x45, 0, 0, 29, 0, 0, 0, 0, 64, 17, 0x66, 0xce,
     10, 0, 0, 1, 10, 0, 0, 2, 0x27, 0x10, 0x4e, 0x20, 0, 9, 0x35, 0xa9, 0x41]"

theorem udp_mirror_correct_witness:
  "\<exists>p'. mirror_buf ex_datagram = Some p' \<and> mirror_buf p' = Some ex_datagram \<and>
     ip_hdr_sum p' = ip_hdr_sum ex_datagram \<and> udp_sum 9 p' = udp_sum 9 ex_datagram"
proof -
  have "42 \<le> length ex_datagram" and "34 + 9 \<le> length ex_datagram" by (simp_all add: ex_datagram_def)
  with udp_mirror_correct [of ex_datagram] show ?thesis by fastforce
qed

text \<open>
  C23. The build with \<open>SIN_DEBUG\<close> answers every datagram that lies inside the buffer, and both
  checksums of its answer are right; it sends the same packet as the release build exactly
  if both checksums of the request are the ones a sender computes. So the comment of the
  code, that exchanging the addresses does not affect the checksums, holds for such
  packets; a datagram sent with no checksum (a zero field) is answered with one.
\<close>

theorem udp_mirror_debug_equiv:
  assumes "n = be16 (p ! 38) (p ! 39)" and "8 \<le> n" and "34 + n \<le> length p"
  shows "\<exists>p'. mirror_buf_debug p = Some p' \<and> ip_cksum_set p' \<and> udp_cksum_set n p' \<and>
    (mirror_buf p = mirror_buf_debug p \<longleftrightarrow> ip_cksum_set p \<and> udp_cksum_set n p)"
proof -
  from mirror_buf_debug_works [OF assms] obtain c d where
    w: "mirror_buf_debug p = Some (with_sums c d (mirrored p))"
    and c: "unat c = 65535 - ones_sum (ip_hdr_sum p - ip_field p)"
    and d: "unat d = 65535 - ones_sum (udp_pseudo_sum n p - udp_field p)" by blast
  have "mirror_buf p = Some (mirrored p)" using assms by (intro mirror_buf_spec) simp
  with w mirror_debug_sums [OF assms c d] show ?thesis by (auto simp: eq_commute)
qed

theorem udp_mirror_debug_equiv_witness:
  "mirror_buf_debug ex_datagram = mirror_buf ex_datagram"
proof -
  have n: "9 = be16 (ex_datagram ! 38) (ex_datagram ! 39)" "34 + 9 \<le> length ex_datagram"
    by (simp_all add: ex_datagram_def be16_def)
  have "ip_cksum_set ex_datagram"
    by (simp add: ip_cksum_set_def ip_field_def unat_le16 ex_datagram_def ip_hdr_sum_def ones_sum_def)
  moreover have "udp_cksum_set 9 ex_datagram"
    by (simp add: udp_cksum_set_def udp_field_def udp_pseudo_sum_def udp_sum_def unat_le16 ex_datagram_def ones_sum_def)
  ultimately show ?thesis using udp_mirror_debug_equiv [OF n(1) _ n(2)] by auto
qed

end
