(* ===== verification/Sin_Zone_Ctor.thy ===== *)
theory Sin_Zone_Ctor
  imports Sin_Lifecycle
begin

text \<open>
  What the constructor of a zone builds: one free, unlinked packet per slot of the ring,
  each tied to its slot and the slot's buffer. On a ring just opened this is the state from
  which the receive thread keeps its invariant.
\<close>

definition ctor_pkt :: "netmap_api \<Rightarrow> addr \<Rightarrow> addr \<Rightarrow> nat \<Rightarrow> addr \<Rightarrow> netmap_slot \<Rightarrow> sin_pkt" where
  "ctor_pkt nm zone ring i ts slot = sin_pkt_zero\<lparr>p_type := SIN_TYPE_PKT, p_ts := ts, my_zone := zone,
     my_ring := ring, zone_idx := of_nat i, my_slot := (ring, i), p_buf := NETMAP_BUF nm ring (s_buf_idx slot)\<rparr>"

lemma ctor_pkt_simps [simp]:
  "p_ts (ctor_pkt nm zone ring i ts slot) = ts" "my_zone (ctor_pkt nm zone ring i ts slot) = zone"
  "my_ring (ctor_pkt nm zone ring i ts slot) = ring" "zone_idx (ctor_pkt nm zone ring i ts slot) = of_nat i"
  "my_slot (ctor_pkt nm zone ring i ts slot) = (ring, i)" "\<not> is_busy (ctor_pkt nm zone ring i ts slot)"
  "p_buf (ctor_pkt nm zone ring i ts slot) = NETMAP_BUF nm ring (s_buf_idx slot)"
  "p_type (ctor_pkt nm zone ring i ts slot) = SIN_TYPE_PKT"
  by (simp_all add: ctor_pkt_def sin_pkt_zero_def is_busy_def)

lemma pkt_ctor_some:
  assumes "sin_pkt_ctor nm zone idx ring e s = Some (Some p, e', s')"
  obtains slot where "get_slot (ring, idx) s = Some slot" "p = os_fresh s" "e' = e" "os_fresh s' = os_fresh s + 2"
    "pkts s' = (pkts s)(p \<mapsto> ctor_pkt nm zone ring idx (Suc p) slot)" "links s' = (links s)(p \<mapsto> NULL)"
    "times s' = (times s)(Suc p \<mapsto> (0, 0))" "rings s' = rings s" "zones s' = zones s"
  using assms
  by (auto simp: sin_pkt_ctor_def malloc_def os_result_def get_slot_def ctor_pkt_def pthread_mutex_init_def
      init_res_def Let_def split: option.splits if_splits)

text \<open>The packets \<open>ps\<close> of the first slots, all above \<open>f\<close>, as the constructor made them.\<close>

definition pkt_set :: "netmap_api \<Rightarrow> addr \<Rightarrow> addr \<Rightarrow> nat \<Rightarrow> addr list \<Rightarrow> 'a pstore_scheme \<Rightarrow> bool" where
  "pkt_set nm zone ring f ps s \<longleftrightarrow> distinct ps \<and> f \<le> os_fresh s \<and> (\<forall>i < length ps. f \<le> ps ! i \<and> Suc (ps ! i) < os_fresh s \<and>
     (\<exists>slot. get_slot (ring, i) s = Some slot \<and> pkts s (ps ! i) = Some (ctor_pkt nm zone ring i (Suc (ps ! i)) slot)) \<and>
     links s (ps ! i) = Some NULL \<and> times s (Suc (ps ! i)) \<noteq> None)"

definition zone_frame :: "nat \<Rightarrow> 'a pstore_scheme \<Rightarrow> 'a pstore_scheme \<Rightarrow> bool" where
  "zone_frame f s s' \<longleftrightarrow> rings s' = rings s \<and> zones s' = zones s \<and>
     (\<forall>a < f. pkts s' a = pkts s a \<and> links s' a = links s a \<and> times s' a = times s a)"

lemma pkt_set_more:
  assumes ps: "pkt_set nm zone ring f ps s" and sl: "get_slot (ring, length ps) s = Some slot"
    and s': "os_fresh s' = os_fresh s + 2" "pkts s' = (pkts s)(os_fresh s \<mapsto> ctor_pkt nm zone ring (length ps) (Suc (os_fresh s)) slot)"
      "links s' = (links s)(os_fresh s \<mapsto> NULL)" "times s' = (times s)(Suc (os_fresh s) \<mapsto> (0, 0))" "rings s' = rings s"
  shows "pkt_set nm zone ring f (ps @ [os_fresh s]) s'"
proof -
  have g: "get_slot x s' = get_slot x s" for x using s'(5) by (simp add: get_slot_def)
  have lt: "ps ! i \<noteq> os_fresh s" if "i < length ps" for i using ps that by (auto simp: pkt_set_def)
  then have "os_fresh s \<notin> set ps" by (auto simp: in_set_conv_nth)
  then show ?thesis using ps sl s' lt
    by (auto simp: pkt_set_def g nth_append less_Suc_eq)
qed

lemma fill_loop_makes:
  assumes "pkt_set nm zone ring f ps s" and "fill_loop nm zone ring e n ps s = Some (k, ps', e', s')" and "0 \<le> k"
  shows "pkt_set nm zone ring f ps' s' \<and> length ps' = length ps + n \<and> e' = e \<and> zone_frame f s s'"
  using assms
proof (induction n arbitrary: ps s)
  case 0
  then show ?case by (simp add: zone_frame_def)
next
  case (Suc n)
  from Suc.prems(2) obtain p e1 s1 where c: "sin_pkt_ctor nm zone (length ps) ring e s = Some (p, e1, s1)"
    and rest: "(case p of None \<Rightarrow> do { s \<leftarrow> undo_fill (rev ps) s1; Some (-1, ps, e1, s) }
      | Some pkt \<Rightarrow> fill_loop nm zone ring e1 n (ps @ [pkt]) s1) = Some (k, ps', e', s')"
    by (auto split: Option.bind_splits)
  with Suc.prems(3) obtain pkt where p: "p = Some pkt" by (cases p) (auto split: Option.bind_splits)
  from c [unfolded p] obtain slot where C: "get_slot (ring, length ps) s = Some slot" "pkt = os_fresh s" "e1 = e"
    "os_fresh s1 = os_fresh s + 2" "pkts s1 = (pkts s)(pkt \<mapsto> ctor_pkt nm zone ring (length ps) (Suc pkt) slot)"
    "links s1 = (links s)(pkt \<mapsto> NULL)" "times s1 = (times s)(Suc pkt \<mapsto> (0, 0))" "rings s1 = rings s" "zones s1 = zones s"
    by (rule pkt_ctor_some)
  have ps: "pkt_set nm zone ring f (ps @ [pkt]) s1"
    unfolding C(2) by (rule pkt_set_more [OF Suc.prems(1) C(1)]) (use C in simp_all)
  have "f \<le> os_fresh s" using Suc.prems(1) by (simp add: pkt_set_def)
  then have "zone_frame f s s1" using C by (simp add: zone_frame_def)
  with Suc.IH [OF ps, of] rest p C(3) Suc.prems(3) show ?case by (simp add: zone_frame_def)
qed

text \<open>The zone at \<open>a\<close> of the ring, all of it below the next fresh address.\<close>

definition zone_set :: "netmap_api \<Rightarrow> int \<Rightarrow> addr \<Rightarrow> addr \<Rightarrow> 'a pstore_scheme \<Rightarrow> bool" where
  "zone_set nm fd ring a s \<longleftrightarrow> a < os_fresh s \<and> (\<exists>z r. zones s a = Some z \<and> rings s ring = Some r \<and>
     z_netmap_fd z = fd \<and> length (z_pmap z) = nat (sint (num_slots r)) \<and> pkt_set nm a ring 0 (z_pmap z) s)"

lemma zone_ctor_makes:
  assumes "sin_pkt_zone_ctor nm ring fd e s = Some (Some a, e', s')"
  shows "zone_set nm fd ring a s'" "e' = e" "a = os_fresh s" "rings s' = rings s"
    "b < os_fresh s \<Longrightarrow> pkts s' b = pkts s b"
proof -
  let ?f = "os_fresh s" and ?r = "\<lambda>k. os_script s (os_clock s + k)"
  let ?v = "Suc ?f" and ?b = "Suc (Suc ?f)"
  define s1 where "s1 = s\<lparr>os_clock := os_clock s + 4, os_fresh := ?f + 3,
    os_live := os_live s \<union> {Block ?f, Block ?v, Mutex ?v, Block ?b}\<rparr>"
  note defs = sin_pkt_zone_ctor_def malloc_def os_result_def
  have r0: "?r 0 = 0" by (cases "?r 0 = 0") (use assms in \<open>simp_all add: defs\<close>)
  have r1: "?r 1 = 0"
    by (cases "?r 1 = 0") (use assms r0 in \<open>auto simp: defs split: Option.bind_splits\<close>)
  have r2: "?r 2 = 0"
    by (cases "?r 2 = 0") (use assms r0 r1 in \<open>auto simp: defs pthread_mutex_init_def init_res_def numeral_eq_Suc
      split: Option.bind_splits\<close>)
  have r3: "?r 3 = 0"
    by (cases "?r 3 = 0") (use assms r0 r1 r2 in \<open>auto simp: defs pthread_mutex_init_def init_res_def numeral_eq_Suc
      split: Option.bind_splits\<close>)
  have st: "sin_pkt_zone_ctor nm ring fd e s = do {
      r \<leftarrow> rings s ring;
      (n, ps, e, s) \<leftarrow> sin_pkt_zone_fill_from_ring nm ?f ring e s1;
      if n < 0 then do { s \<leftarrow> er_undo_2 ?f ?v s; Some (NULL, e, s) }
      else Some (Some ?f, e, s\<lparr>zones := (zones s)(?f \<mapsto>
        \<lparr>z_type = SIN_TYPE_PKT_ZONE, z_netmap_fd = fd, z_pmap_blk = ?b,
         z_pmap = ps, z_pvt = ?v, z_num_slots = sint (num_slots r)\<rparr>)\<rparr>) }"
    using r0 r1 r2 r3 unfolding s1_def
    by (simp add: sin_pkt_zone_ctor_def malloc_def os_result_def Let_def pthread_mutex_init_def
        init_res_def numeral_eq_Suc insert_commute)
  define z where "z = (\<lambda>(r :: netmap_ring) ps. \<lparr>z_type = SIN_TYPE_PKT_ZONE, z_netmap_fd = fd, z_pmap_blk = ?b,
     z_pmap = ps, z_pvt = ?v, z_num_slots = sint (num_slots r)\<rparr>)"
  from st [folded z_def] assms obtain r n ps e1 s2 where r: "rings s ring = Some r"
    and fl: "fill_loop nm ?f ring e (nat (sint (num_slots r))) [] s1 = Some (n, ps, e1, s2)"
    and res: "(if n < 0 then do { s \<leftarrow> er_undo_2 ?f ?v s2; Some (NULL, e1, s) }
      else Some (Some ?f, e1, s2\<lparr>zones := (zones s2)(?f \<mapsto> z r ps)\<rparr>)) = Some (Some a, e', s')"
    by (auto simp: sin_pkt_zone_fill_from_ring_def z_def s1_def split: Option.bind_splits)
  have n: "0 \<le> n" using res by (cases "n < 0") (auto split: Option.bind_splits)
  then have s': "a = ?f" "e' = e1" "s' = s2\<lparr>zones := (zones s2)(?f \<mapsto> z r ps)\<rparr>" using res by auto
  have "pkt_set nm ?f ring (?f + 3) [] s1" by (simp add: pkt_set_def s1_def)
  from fill_loop_makes [OF this fl n] have F: "pkt_set nm ?f ring (?f + 3) ps s2" "length ps = nat (sint (num_slots r))"
    "e1 = e" "zone_frame (?f + 3) s1 s2" by simp_all
  show "e' = e" "a = os_fresh s" using s' F by simp_all
  show rg: "rings s' = rings s" using F(4) s' by (simp add: zone_frame_def s1_def)
  show "b < os_fresh s \<Longrightarrow> pkts s' b = pkts s b" using F(4) s' by (simp add: zone_frame_def s1_def)
  have "pkt_set nm ?f ring 0 ps s'" using F(1) s' by (auto simp: pkt_set_def get_slot_def)
  moreover have "?f < os_fresh s'" using F(1) s' by (simp add: pkt_set_def)
  ultimately show "zone_set nm fd ring a s'"
    unfolding zone_set_def using s' r rg F(2) by (simp add: z_def)
qed

subsection \<open>The invariants start\<close>

lemma zone_setE:
  assumes "zone_set nm fd ring a s" and "rings s ring = Some r" and "ring_ok r" and "ring_size r < 2 ^ 31"
  obtains z where "zones s a = Some z" "z_netmap_fd z = fd" "length (z_pmap z) = ring_size r" "distinct (z_pmap z)"
    "\<And>i. i < ring_size r \<Longrightarrow> \<exists>k. pkts s (z_pmap z ! i) = Some k \<and> slot_pkt_ok nm s a ring r i (z_pmap z ! i) \<and>
       rx_ready s (z_pmap z ! i) \<and> \<not> is_busy k"
proof -
  from assms(1,2) obtain z where z: "zones s a = Some z" "z_netmap_fd z = fd"
    "length (z_pmap z) = nat (sint (num_slots r))" "pkt_set nm a ring 0 (z_pmap z) s"
    by (auto simp: zone_set_def)
  have n: "nat (sint (num_slots r)) = ring_size r"
  proof -
    have "unat (num_slots r) < 2147483648" using assms(4) by (simp add: ring_size_def)
    then have lt: "uint (num_slots r) < 2147483648" using uint_nat [of "num_slots r"] by linarith
    have "- (2 ^ (LENGTH(32) - Suc 0)) \<le> uint (num_slots r)" by (rule order_trans [OF _ uint_ge_0]) simp
    moreover have "uint (num_slots r) < 2 ^ (LENGTH(32) - Suc 0)" using lt by simp
    ultimately have "sint (num_slots r) = uint (num_slots r)"
      unfolding sint_uint by (rule signed_take_bit_int_eq_self)
    then show ?thesis by (simp only: ring_size_def unat_eq_nat_uint)
  qed
  show thesis
  proof (rule that [OF z(1,2)])
    show "length (z_pmap z) = ring_size r" "distinct (z_pmap z)" using z(3,4) n by (simp_all add: pkt_set_def)
    fix i assume i: "i < ring_size r"
    let ?p = "z_pmap z ! i"
    from z(3,4) n i obtain slot where p: "get_slot (ring, i) s = Some slot"
      "pkts s ?p = Some (ctor_pkt nm a ring i (Suc ?p) slot)" "links s ?p = Some NULL" "times s (Suc ?p) \<noteq> None"
      by (auto simp: pkt_set_def)
    have "slot = r_slots r ! i" using p(1) assms(2) i ring_okD(2) [OF assms(3)] by (simp add: get_slot_def)
    moreover have "unat (of_nat i :: u32) = i" using i assms(4) by (simp add: unat_of_nat take_bit_nat_eq_self_iff)
    ultimately show "\<exists>k. pkts s ?p = Some k \<and> slot_pkt_ok nm s a ring r i ?p \<and> rx_ready s ?p \<and> \<not> is_busy k"
      using p by (simp add: slot_pkt_ok_def rx_ready_def)
  qed
qed

lemma zone_set_zone_ok:
  assumes "zone_set nm fd ring a s" and "rings s ring = Some r" and "ring_ok r" and "ring_size r < 2 ^ 31"
  shows "Sin_Ring.zone_ok nm s a ring"
  by (rule zone_setE [OF assms]) (use assms(2,3) in \<open>auto simp: Sin_Ring.zone_ok_def\<close>)

lemma zone_set_rx_inv:
  assumes "zone_set nm fd ring a s" and "rings s ring = Some r" and "ring_ok r" and "ring_size r < 2 ^ 31"
    and "r_head r = r_cur r"
  shows "rx_inv nm ring a s"
proof (rule zone_setE [OF assms(1-4)])
  fix z assume z: "zones s a = Some z"
    "\<And>i. i < ring_size r \<Longrightarrow> \<exists>k. pkts s (z_pmap z ! i) = Some k \<and> slot_pkt_ok nm s a ring r i (z_pmap z ! i) \<and>
       rx_ready s (z_pmap z ! i) \<and> \<not> is_busy k"
  have "\<not> busy_at s z i \<and> rx_ready s (z_pmap z ! i)" if "i < ring_size r" for i
    using z(2) [OF that] by (auto simp: busy_at_def)
  then have "slots_inv s z r" by (simp add: slots_inv_def)
  moreover have "ring_order r" using assms(5) by (simp add: ring_order_def rdist_def)
  ultimately show "rx_inv nm ring a s"
    using zone_set_zone_ok [OF assms(1-4)] z(1) assms(2) by (simp add: rx_inv_def)
qed

subsection \<open>Property\<close>

text \<open>
  C17. What a new zone is. If \<open>sin_pkt_zone_ctor\<close> returns a zone, it has set no error, and the
  zone agrees with its ring: one packet per slot, with the index, ring, zone and buffer of
  its slot. If the ring has just been opened, with \<open>head\<close> at \<open>cur\<close>, the invariant holds from
  which the safety of the receive thread follows.
\<close>

theorem zone_ctor_correct:
  assumes "sin_pkt_zone_ctor nm ring fd e s = Some (Some a, e', s')"
    and "rings s ring = Some r" and "ring_ok r" and "ring_size r < 2 ^ 31"
  shows "e' = e \<and> (\<exists>z. zones s' a = Some z \<and> z_netmap_fd z = fd) \<and> Sin_Ring.zone_ok nm s' a ring \<and>
    (r_head r = r_cur r \<longrightarrow> rx_inv nm ring a s')"
proof -
  note Z = zone_ctor_makes [OF assms(1)]
  have r: "rings s' ring = Some r" using Z(4) assms(2) by simp
  show ?thesis
    using Z(1,2) zone_set_zone_ok [OF Z(1) r assms(3,4)] zone_set_rx_inv [OF Z(1) r assms(3,4)]
    by (auto simp: zone_set_def)
qed

theorem zone_ctor_correct_witness:
  "\<exists>a s'. sin_pkt_zone_ctor ex_nm 60 9 None ex_boot = Some (Some a, None, s') \<and> rx_inv ex_nm 60 a s'"
proof -
  have r: "rings ex_boot 60 = Some ex_rx_ring" by (simp add: ex_boot_def)
  from zone_ctor_well [OF ex_boot_facts(3) r] obtain a s' where
    c: "sin_pkt_zone_ctor ex_nm 60 9 None ex_boot = Some (Some a, None, s')" by blast
  have "ring_ok ex_rx_ring" "ring_size ex_rx_ring < 2 ^ 31" "r_head ex_rx_ring = r_cur ex_rx_ring"
    by (simp_all add: ring_ok_def ring_size_def ex_rx_ring_def)
  with zone_ctor_correct [OF c r] c show ?thesis by blast
qed

end
