(* ===== verification/Sin_Wiring.thy ===== *)
theory Sin_Wiring
  imports Sin_Zone_Ctor
begin

text \<open>
  How a new instance is wired: which ring, zone, queue and sorter each thread has been given,
  and what each sorter does with the packets. This is what the lemmas on the data path
  start from.
\<close>

subsection \<open>Work on other objects\<close>

text \<open>What the constructor of a worker leaves alone altogether.\<close>

definition same_objs :: "istore \<Rightarrow> istore \<Rightarrow> bool" where
  "same_objs s s' \<longleftrightarrow> pkts s' = pkts s \<and> rxts s' = rxts s \<and> txts s' = txts s \<and> sorters s' = sorters s"

lemma same_objs_refl [simp]: "same_objs s s"
  by (simp add: same_objs_def)

lemma same_objs_trans: "same_objs s s' \<Longrightarrow> same_objs s' s'' \<Longrightarrow> same_objs s s''"
  by (simp add: same_objs_def)

lemma queue_ctor_objs:
  fixes s :: istore
  assumes "sin_wi_queue_ctor e s = Some (r, e', s')"
  shows "same_objs s s'"
  by (subst queue_ctor_frame [OF assms]) (simp add: same_objs_def)

lemma queue_dtor_objs:
  fixes s :: istore
  shows "sin_wi_queue_dtor q s = Some s' \<Longrightarrow> same_objs s s'"
  by (auto simp: sin_wi_queue_dtor_def os_defs same_objs_def split: Option.bind_splits option.splits if_splits)

lemma free_objs:
  fixes s :: istore
  shows "free a s = Some s' \<Longrightarrow> same_objs s s'"
  by (auto simp: os_defs same_objs_def split: if_splits)

lemma upd_objs:
  fixes s :: istore
  shows "upd_pvt a f s = Some s' \<Longrightarrow> same_objs s s'" "upd_wrk a g s = Some s' \<Longrightarrow> same_objs s s'"
  by (auto simp: upd_pvt_def upd_wrk_def same_objs_def)

lemma wrk_undo_objs:
  fixes s :: istore
  shows "wrk_undo_0 a s = Some s' \<Longrightarrow> same_objs s s'" "wrk_undo_1 a s = Some s' \<Longrightarrow> same_objs s s'"
    "wrk_undo_2 a s = Some s' \<Longrightarrow> same_objs s s'"
proof -
  have 0: "wrk_undo_0 a s = Some s' \<Longrightarrow> same_objs s s'" for s :: istore and s'
    by (auto simp: wrk_undo_0_def same_objs_def dest!: free_objs split: Option.bind_splits)
  have 1: "wrk_undo_1 a s = Some s' \<Longrightarrow> same_objs s s'" for s :: istore and s'
    by (auto simp: wrk_undo_1_def dest!: free_objs 0 split: Option.bind_splits option.splits intro: same_objs_trans)
  show "wrk_undo_0 a s = Some s' \<Longrightarrow> same_objs s s'" "wrk_undo_1 a s = Some s' \<Longrightarrow> same_objs s s'"
    by (rule 0 1, assumption)+
  show "wrk_undo_2 a s = Some s' \<Longrightarrow> same_objs s s'"
    by (auto simp: wrk_undo_2_def dest!: queue_dtor_objs 1 split: Option.bind_splits intro: same_objs_trans)
qed

lemma wrk_ctor_objs:
  fixes s :: istore
  assumes "sin_wrk_thread_ctor a r e s = Some (0, e', s')"
  shows "same_objs s s'"
proof -
  have start: "same_objs s s'" if w: "wrk_start pp r e s = Some (0, e', s')" for pp e s e' s'
  proof -
    obtain g e1 s1 where g: "sin_signal_ctor SIGTERM e s = (g, e1, s1)" by (cases "sin_signal_ctor SIGTERM e s")
    have "same_objs s s1" using g
      by (auto simp: sin_signal_ctor_def malloc_def os_result_def same_objs_def split: if_splits)
    moreover have "same_objs s1 s'" using w g
      by (auto simp: wrk_start_def upd_pvt_def pthread_create_def acquire_def os_result_def Let_def same_objs_def
          split: Option.bind_splits if_splits)
    ultimately show ?thesis by (rule same_objs_trans)
  qed
  from assms obtain s1 where 1: "wrk_create a r e s = Some (0, e', s1)" "wrk_set_methods a s1 = Some s'"
    by (auto simp: sin_wrk_thread_ctor_def split: Option.bind_splits if_splits)
  have "same_objs s s1" using 1(1) start
    by (auto simp: wrk_create_def upd_wrk_def malloc_def os_result_def Let_def dest!: queue_ctor_objs upd_objs
        split: Option.bind_splits if_splits intro: same_objs_trans) (auto simp: same_objs_def)
  moreover have "same_objs s1 s'" using 1(2) upd_objs(2) by (auto simp: wrk_set_methods_def)
  ultimately show ?thesis by (rule same_objs_trans)
qed

text \<open>\<open>later\<close>: some constructors have run since, and have left alone what was there.\<close>

definition later :: "istore \<Rightarrow> istore \<Rightarrow> bool" where
  "later s s' \<longleftrightarrow> grown {..<os_fresh s} s s' \<and> (\<forall>a < os_fresh s. pkts s' a = pkts s a)"

lemma laterD:
  assumes "later s s'"
  shows "os_ok s'" "os_fresh s \<le> os_fresh s'" "rings s' = rings s" "a < os_fresh s \<Longrightarrow> pkts s' a = pkts s a"
    "a < os_fresh s \<Longrightarrow> links s' a = links s a" "a < os_fresh s \<Longrightarrow> times s' a = times s a"
    "a < os_fresh s \<Longrightarrow> zones s' a = zones s a" "a < os_fresh s \<Longrightarrow> txts s' a = txts s a"
    "a < os_fresh s \<Longrightarrow> rxts s' a = rxts s a" "a < os_fresh s \<Longrightarrow> sorters s' a = sorters s a"
  using assms by (simp_all add: later_def grown_def same_at_def)

lemma later_refl: "os_ok s \<Longrightarrow> later s s"
  by (simp add: later_def grown_def)

lemma later_trans: "later s s1 \<Longrightarrow> later s1 s2 \<Longrightarrow> later s s2"
  unfolding later_def grown_def same_at_def by auto

lemma made_later: "made s s' X Q \<Longrightarrow> (\<And>a. a < os_fresh s \<Longrightarrow> pkts s' a = pkts s a) \<Longrightarrow> later s s'"
  by (simp add: later_def grown_def made_def)

subsection \<open>The constructors\<close>

lemma rxt_built:
  fixes s :: istore
  assumes ok: "os_ok s" and c: "sin_rx_thread_ctor w e s = Some (Some t, e', s')"
  shows "later s s' \<and> os_fresh s \<le> t \<and> t < os_fresh s' \<and> rxts s' t = Some \<lparr>rxo_rx_ring = ws_rx_ring w, rxo_rx_zone = ws_rx_zone w,
      rxo_rx_sort = ws_rx_sort w, rxo_queue_fd = ws_queue_fd w\<rparr>"
proof -
  let ?f = "os_fresh s"
  have r0: "os_script s (os_clock s) = 0"
    by (cases "os_script s (os_clock s) = 0") (use c in \<open>simp_all add: sin_rx_thread_ctor_def malloc_def os_result_def\<close>)
  define s1 where "s1 = s\<lparr>os_clock := Suc (os_clock s), os_fresh := Suc ?f, os_live := insert (Block ?f) (os_live s),
    wrks := (wrks s)(?f \<mapsto> wrk_zero), rxts := (rxts s)(?f \<mapsto>
      \<lparr>rxo_rx_ring = ws_rx_ring w, rxo_rx_zone = ws_rx_zone w, rxo_rx_sort = ws_rx_sort w, rxo_queue_fd = ws_queue_fd w\<rparr>)\<rparr>"
  have "sin_rx_thread_ctor w e s = do {
     (r, e, s) \<leftarrow> sin_wrk_thread_ctor ?f Rx_routine e s1;
     if r \<noteq> 0 then do {
       s \<leftarrow> free ?f s;
       Some (NULL, e, s\<lparr>wrks := (wrks s)(?f := None), rxts := (rxts s)(?f := None)\<rparr>)
     } else Some (Some ?f, e, s) }"
    using r0 by (simp add: sin_rx_thread_ctor_def malloc_def os_result_def s1_def)
  with c have t: "t = ?f" "sin_wrk_thread_ctor ?f Rx_routine e s1 = Some (0, e', s')"
    by (auto split: Option.bind_splits if_splits)
  note O = wrk_ctor_objs [OF t(2), unfolded same_objs_def]
  from rxt_made [OF ok, of w e] c have m: "made s s' {} {RxT t}" by auto
  have "later s s'" by (rule made_later [OF m]) (simp add: O s1_def)
  moreover have "part_ok s' (RxT t)" "fp s' (RxT t) \<subseteq> {?f..<os_fresh s'}" using madeD(8,10) [OF m, of "RxT t"] by simp_all
  moreover have "t \<in> fp s' (RxT t)" by (simp add: fp_def)
  ultimately show ?thesis using t(1) O by (auto simp: s1_def)
qed

lemma txt_built:
  fixes s :: istore
  assumes ok: "os_ok s" and c: "sin_tx_thread_ctor w e s = Some (Some t, e', s')"
  shows "later s s' \<and> os_fresh s \<le> t \<and> t < os_fresh s' \<and> (\<exists>q. txts s' t = Some \<lparr>txo_outpkt_queue = Some q,
      txo_tx_ring = ws_tx_ring w, txo_tx_zone = ws_tx_zone w, txo_queue_fd = ws_queue_fd w\<rparr>)"
proof -
  let ?f = "os_fresh s"
  have r0: "os_script s (os_clock s) = 0"
    by (cases "os_script s (os_clock s) = 0") (use c in \<open>simp_all add: sin_tx_thread_ctor_def malloc_def os_result_def\<close>)
  define s1 where "s1 = s\<lparr>os_clock := Suc (os_clock s), os_fresh := Suc ?f, os_live := insert (Block ?f) (os_live s),
    wrks := (wrks s)(?f \<mapsto> wrk_zero)\<rparr>"
  define obj where "obj = (\<lambda>q. \<lparr>txo_outpkt_queue = Some q, txo_tx_ring = ws_tx_ring w, txo_tx_zone = ws_tx_zone w,
    txo_queue_fd = ws_queue_fd w\<rparr>)"
  from c r0 obtain q e1 s2 where q: "sin_wi_queue_ctor e s1 = Some (Some q, e1, s2)"
    and rest: "(do {
       (r, e, s) \<leftarrow> sin_wrk_thread_ctor ?f Tx_routine e1 (s2\<lparr>txts := (txts s2)(?f \<mapsto> obj q)\<rparr>);
       if r \<noteq> 0 then do { s \<leftarrow> sin_wi_queue_dtor q s; s \<leftarrow> tx_undo_1 ?f s; Some (NULL, e, s) }
       else do { w \<leftarrow> wrks s ?f; m \<leftarrow> w_notify_on_ctrl w; s \<leftarrow> sin_wrk_thread_notify_on_ctrl ?f (Some q) s;
         Some (Some ?f, e, s) } }) = Some (Some t, e', s')"
    unfolding sin_tx_thread_ctor_def malloc_def os_result_def s1_def obj_def
    by (auto split: Option.bind_splits option.splits)
  from rest obtain s3 where t: "t = ?f" and k: "sin_wrk_thread_ctor ?f Tx_routine e1 (s2\<lparr>txts := (txts s2)(?f \<mapsto> obj q)\<rparr>) = Some (0, e', s3)"
    and n: "sin_wrk_thread_notify_on_ctrl ?f (Some q) s3 = Some s'"
    by (auto split: Option.bind_splits if_splits)
  note O = queue_ctor_objs [OF q, unfolded same_objs_def] wrk_ctor_objs [OF k, unfolded same_objs_def]
  have "same_objs s3 s'" using n upd_objs(1) by (auto simp: sin_wrk_thread_notify_on_ctrl_def split: Option.bind_splits)
  note O = O this [unfolded same_objs_def]
  from txt_made [OF ok, of w e] c have m: "made s s' {} {TxT t}" by auto
  have "later s s'" by (rule made_later [OF m]) (simp add: O s1_def)
  moreover have "fp s' (TxT t) \<subseteq> {?f..<os_fresh s'}" using madeD(10) [OF m, of "TxT t"] by simp
  moreover have "t \<in> fp s' (TxT t)" by (simp add: fp_def)
  moreover have "txts s' t = Some (obj q)" using O t by simp
  ultimately show ?thesis by (auto simp: obj_def)
qed

lemma zone_built:
  fixes s :: istore
  assumes ok: "os_ok s" and c: "sin_pkt_zone_ctor nm ring fd e s = Some (Some a, e', s')"
  shows "later s s' \<and> zone_set nm fd ring a s'"
proof -
  from zone_made [OF ok c] obtain X where m: "made s s' X {Zone a}" by auto
  show ?thesis using made_later [OF m] zone_ctor_makes [OF c] by blast
qed

lemma zone_set_later:
  assumes "zone_set nm fd ring a s" and "later s s'"
  shows "zone_set nm fd ring a s'"
proof -
  note L = laterD [OF assms(2)]
  from assms(1) obtain z r where z: "a < os_fresh s" "zones s a = Some z" "rings s ring = Some r"
     "z_netmap_fd z = fd" "length (z_pmap z) = nat (sint (num_slots r))" "pkt_set nm a ring 0 (z_pmap z) s"
    by (auto simp: zone_set_def)
  have g: "get_slot x s' = get_slot x s" for x using L(3) by (simp add: get_slot_def)
  have "pkt_set nm a ring 0 (z_pmap z) s'"
    using z(6) L(2,4-6) unfolding pkt_set_def g by (auto intro: less_le_trans)
  with z L(2,3) L(7) [OF z(1)] show ?thesis unfolding zone_set_def by auto
qed

definition host_sorter :: "addr \<Rightarrow> addr \<Rightarrow> pstore sin_pkt_sorter" where
  "host_sorter a tx_phy_queue = \<lparr>so_addr = a, so_type = SIN_TYPE_PKT_SORTER, so_first = [],
     pkt_consume_default = put_items_cb, so_outq = tx_phy_queue, so_ap = NULL, so_wrklist = SIN_LIST_RESET\<rparr>"

lemma ctor_sorter_built:
  assumes ok: "os_ok s" and c: "ctor_sorter q e s = (Some a, e', s')"
  shows "later s s' \<and> a = os_fresh s \<and> a < os_fresh s' \<and> txts s' = txts s \<and> sorters s' a = Some (host_sorter a q)"
proof -
  from sorter_made [OF ok, of q e] c have m: "made s s' {} {Sorter a}" by auto
  have "pkts s' = pkts s" "a = os_fresh s" "a < os_fresh s'" "txts s' = txts s" "sorters s' a = Some (host_sorter a q)"
    using c by (auto simp: ctor_sorter_def sin_pkt_sorter_ctor_def malloc_def os_result_def host_sorter_def split: if_splits)
  with made_later [OF m] show ?thesis by simp
qed

lemma ring_sorter_built:
  assumes ok: "os_ok s" and c: "ring_sorter qh w e s = Some (True, w', e', s')"
  shows "later s s' \<and> (\<exists>a b t q. w' = w\<lparr>ws_rx_sort := Some a\<rparr> \<and> a < os_fresh s' \<and>
    ws_tx_thread w = Some t \<and> sin_tx_thread_get_out_queue t s = Some q \<and> sorters s' a = Some (phy_sorter a b qh q))"
proof -
  obtain p e1 s1 where 1: "ctor_sorter qh e s = (p, e1, s1)" by (cases "ctor_sorter qh e s")
  with c obtain a where p: "p = Some a" by (cases p) (simp_all add: ring_sorter_def)
  note K = ctor_sorter_built [OF ok 1 [unfolded p]]
  from c 1 p obtain t q where t: "ws_tx_thread w = Some t" "sin_tx_thread_get_out_queue t s1 = Some q"
    and r: "reg_sorter a q icmp_taste_cb icmp_proc_cb NULL e1 s1 = Some (0, e', s')" and w': "w' = w\<lparr>ws_rx_sort := Some a\<rparr>"
    by (auto simp: ring_sorter_def split: Option.bind_splits)
  from r K have s': "s' = s1\<lparr>os_clock := Suc (os_clock s1), os_fresh := Suc (os_fresh s1),
      os_live := insert (Block (os_fresh s1)) (os_live s1), sorters := (sorters s1)(a \<mapsto> phy_sorter a (os_fresh s1) qh q)\<rparr>"
    by (auto simp: reg_sorter_def sin_pkt_sorter_reg_def malloc_def os_result_def host_sorter_def phy_sorter_def
        icmp_entry_def Let_def split: if_splits)
  have L: "os_ok s1" using K laterD(1) by blast
  have "later s s'"
  proof -
    have "os_ok s'" using os_okD [OF L] by (auto simp: os_ok_def s' intro: less_SucI)
    then show ?thesis using K unfolding later_def grown_def s' by (auto simp: same_at_def)
  qed
  moreover have "a < os_fresh s'" using K by (simp add: s')
  moreover have "sin_tx_thread_get_out_queue t s = Some q" using t(2) K by (simp add: sin_tx_thread_get_out_queue_def)
  moreover have "sorters s' a = Some (phy_sorter a (os_fresh s1) qh q)" by (simp add: s')
  ultimately show ?thesis using t(1) w' by blast
qed

subsection \<open>What a working set is wired to\<close>

definition on_ring :: "netmap_dev \<Rightarrow> nat \<Rightarrow> wrk_set \<Rightarrow> bool" where
  "on_ring dev k w \<longleftrightarrow> ws_rx_ring w = NETMAP_RXRING dev k \<and> ws_tx_ring w = NETMAP_TXRING dev k"

definition tx_zoned :: "netmap_api \<Rightarrow> int \<Rightarrow> istore \<Rightarrow> wrk_set \<Rightarrow> bool" where
  "tx_zoned nm fd s w \<longleftrightarrow> (\<exists>z. ws_tx_zone w = Some z \<and> zone_set nm fd (ws_tx_ring w) z s)"

definition rx_zoned :: "netmap_api \<Rightarrow> int \<Rightarrow> istore \<Rightarrow> wrk_set \<Rightarrow> bool" where
  "rx_zoned nm fd s w \<longleftrightarrow> (\<exists>z. ws_rx_zone w = Some z \<and> zone_set nm fd (ws_rx_ring w) z s)"

text \<open>The transmit thread sends what comes out of queue \<open>q\<close>.\<close>

definition sends :: "istore \<Rightarrow> wrk_set \<Rightarrow> addr \<Rightarrow> bool" where
  "sends s w q \<longleftrightarrow> (\<exists>t. ws_tx_thread w = Some t \<and> t < os_fresh s \<and>
     txts s t = Some \<lparr>txo_outpkt_queue = Some q, txo_tx_ring = ws_tx_ring w, txo_tx_zone = ws_tx_zone w,
       txo_queue_fd = ws_queue_fd w\<rparr>)"

text \<open>The receive thread gives what it receives to the sorter at \<open>a\<close>.\<close>

definition receives :: "istore \<Rightarrow> wrk_set \<Rightarrow> addr \<Rightarrow> bool" where
  "receives s w a \<longleftrightarrow> ws_rx_sort w = Some a \<and> (\<exists>t. ws_rx_thread w = Some t \<and> t < os_fresh s \<and>
     rxts s t = Some \<lparr>rxo_rx_ring = ws_rx_ring w, rxo_rx_zone = ws_rx_zone w, rxo_rx_sort = Some a,
       rxo_queue_fd = ws_queue_fd w\<rparr>)"

definition sorts :: "istore \<Rightarrow> wrk_set \<Rightarrow> addr \<Rightarrow> pstore sin_pkt_sorter \<Rightarrow> bool" where
  "sorts s w a so \<longleftrightarrow> ws_rx_sort w = Some a \<and> a < os_fresh s \<and> sorters s a = Some so"

lemma wired_later:
  assumes "later s s'"
  shows "tx_zoned nm fd s w \<Longrightarrow> tx_zoned nm fd s' w" "rx_zoned nm fd s w \<Longrightarrow> rx_zoned nm fd s' w"
    "sends s w q \<Longrightarrow> sends s' w q" "receives s w a \<Longrightarrow> receives s' w a" "sorts s w a so \<Longrightarrow> sorts s' w a so"
  using zone_set_later [OF _ assms] laterD(2,8-10) [OF assms]
  by (auto simp: tx_zoned_def rx_zoned_def sends_def receives_def sorts_def intro: less_le_trans)

lemma sends_queue: "sends s w q \<Longrightarrow> ws_tx_thread w = Some t \<Longrightarrow> sin_tx_thread_get_out_queue t s = Some q"
  by (auto simp: sends_def sin_tx_thread_get_out_queue_def)

lemma wired_put [simp]:
  "on_ring dev k (w\<lparr>ws_tx_zone := p\<rparr>) = on_ring dev k w" "on_ring dev k (w\<lparr>ws_rx_zone := p\<rparr>) = on_ring dev k w"
  "on_ring dev k (w\<lparr>ws_tx_thread := p\<rparr>) = on_ring dev k w" "on_ring dev k (w\<lparr>ws_rx_sort := p\<rparr>) = on_ring dev k w"
  "on_ring dev k (w\<lparr>ws_rx_thread := p\<rparr>) = on_ring dev k w"
  "tx_zoned nm fd s (w\<lparr>ws_rx_zone := p\<rparr>) = tx_zoned nm fd s w" "tx_zoned nm fd s (w\<lparr>ws_tx_thread := p\<rparr>) = tx_zoned nm fd s w"
  "tx_zoned nm fd s (w\<lparr>ws_rx_sort := p\<rparr>) = tx_zoned nm fd s w" "tx_zoned nm fd s (w\<lparr>ws_rx_thread := p\<rparr>) = tx_zoned nm fd s w"
  "rx_zoned nm fd s (w\<lparr>ws_tx_thread := p\<rparr>) = rx_zoned nm fd s w" "rx_zoned nm fd s (w\<lparr>ws_rx_sort := p\<rparr>) = rx_zoned nm fd s w"
  "rx_zoned nm fd s (w\<lparr>ws_rx_thread := p\<rparr>) = rx_zoned nm fd s w"
  "sends s (w\<lparr>ws_rx_sort := p\<rparr>) = sends s w" "sends s (w\<lparr>ws_rx_thread := p\<rparr>) = sends s w"
  "sorts s (w\<lparr>ws_rx_thread := p\<rparr>) = sorts s w"
  by (simp_all add: on_ring_def tx_zoned_def rx_zoned_def sends_def sorts_def fun_eq_iff)

definition ringed :: "netmap_api \<Rightarrow> netmap_dev \<Rightarrow> int \<Rightarrow> nat \<Rightarrow> istore \<Rightarrow> wrk_set \<Rightarrow> bool" where
  "ringed nm dev fd k s w \<longleftrightarrow> on_ring dev k w \<and> tx_zoned nm fd s w \<and> rx_zoned nm fd s w"

lemma ringed_later: "ringed nm dev fd k s w \<Longrightarrow> later s s' \<Longrightarrow> ringed nm dev fd k s' w"
  by (auto simp: ringed_def intro: wired_later)

lemma ringed_put [simp]: "ringed nm dev fd k s (w\<lparr>ws_tx_thread := p\<rparr>) = ringed nm dev fd k s w"
  "ringed nm dev fd k s (w\<lparr>ws_rx_sort := p\<rparr>) = ringed nm dev fd k s w"
  "ringed nm dev fd k s (w\<lparr>ws_rx_thread := p\<rparr>) = ringed nm dev fd k s w"
  by (simp_all add: ringed_def)

subsection \<open>A loop over the rings\<close>

lemma for_rings_all:
  assumes "for_rings body i ws e s = Some (True, ws', e', s')" and "os_ok s"
    and "\<forall>k < length ws. P (i + k) s (ws ! k)"
    and step: "\<And>k w e s w' e' s'. body k w e s = Some (True, w', e', s') \<Longrightarrow> os_ok s \<Longrightarrow> P k s w \<Longrightarrow>
      later s s' \<and> P' k s' w'"
    and mono: "\<And>k s w s'. P k s w \<Longrightarrow> later s s' \<Longrightarrow> P k s' w" "\<And>k s w s'. P' k s w \<Longrightarrow> later s s' \<Longrightarrow> P' k s' w"
  shows "later s s' \<and> length ws' = length ws \<and> (\<forall>k < length ws. P' (i + k) s' (ws' ! k))"
  using assms(1-3)
proof (induction ws arbitrary: i e s ws')
  case Nil
  then show ?case by (auto intro: later_refl)
next
  case (Cons w ws)
  from Cons.prems(1) obtain w1 e1 s1 ws1 where 1: "body i w e s = Some (True, w1, e1, s1)"
    "for_rings body (Suc i) ws e1 s1 = Some (True, ws1, e', s')" "ws' = w1 # ws1"
    by (auto split: Option.bind_splits if_splits)
  have "P i s w" using Cons.prems(3) by force
  from step [OF 1(1) Cons.prems(2) this] have s1: "later s s1" "P' i s1 w1" by simp_all
  have "\<forall>k < length ws. P (Suc i + k) s1 (ws ! k)"
  proof (intro allI impI)
    fix k assume "k < length ws"
    then show "P (Suc i + k) s1 (ws ! k)" using spec [OF Cons.prems(3), of "Suc k"] mono(1) s1(1) by simp
  qed
  from Cons.IH [OF 1(2) laterD(1) [OF s1(1)] this]
  have IH: "later s1 s'" "length ws1 = length ws" "\<forall>k < length ws. P' (Suc i + k) s' (ws1 ! k)" by blast+
  have "P' (i + k) s' (ws' ! k)" if "k < length (w # ws)" for k
    using that IH(3) mono(2) [OF s1(2) IH(1)] 1(3) by (cases k) auto
  then show ?case using later_trans [OF s1(1) IH(1)] IH(2) 1(3) by simp
qed

lemma fill_column_all:
  assumes f: "fill_column body undo sip e s = Some (Inr (sip', e', s'))" and "os_ok s"
    and pre: "\<forall>k < length (phy sip). P k s (phy sip ! k)"
    and "\<And>k w e s w' e' s'. body k w e s = Some (True, w', e', s') \<Longrightarrow> os_ok s \<Longrightarrow> P k s w \<Longrightarrow>
      later s s' \<and> P' k s' w'"
    and "\<And>k s w s'. P k s w \<Longrightarrow> later s s' \<Longrightarrow> P k s' w" "\<And>k s w s'. P' k s w \<Longrightarrow> later s s' \<Longrightarrow> P' k s' w"
  shows "later s s' \<and> (\<exists>ws. sip' = sip\<lparr>phy := ws\<rparr> \<and> length ws = length (phy sip)) \<and>
    (\<forall>k < length (phy sip). P' k s' (phy sip' ! k))"
proof -
  from f obtain ws where 1: "for_rings body 0 (phy sip) e s = Some (True, ws, e', s')" "sip' = sip\<lparr>phy := ws\<rparr>"
    by (auto simp: fill_column_def give_up_def Let_def split: Option.bind_splits if_splits)
  have pre0: "\<forall>k < length (phy sip). P (0 + k) s (phy sip ! k)" using pre by simp
  have "later s s' \<and> length ws = length (phy sip) \<and> (\<forall>k < length (phy sip). P' (0 + k) s' (ws ! k))"
    by (rule for_rings_all [where P = P and P' = P', OF 1(1) assms(2) pre0 assms(4-6)])
  with 1(2) show ?thesis by auto
qed

lemma fill_host_some:
  assumes "fill_host mk put undo sip e s = Some (Inr (sip', e', s'))"
  obtains p where "mk e s = Some (Some p, e', s')" "sip' = sip\<lparr>hst := put (Some p) (hst sip)\<rparr>"
  using assms by (auto simp: fill_host_def give_up_def Let_def split: Option.bind_splits if_splits)

lemma and_then_some:
  assumes "and_then m f = Some (Inr z)"
  obtains sip e s where "m = Some (Inr (sip, e, s))" "f sip e s = Some (Inr z)"
  using assms by (auto simp: and_then_def split: Option.bind_splits sum.splits)

subsection \<open>The stages\<close>

lemma column_steps:
  assumes "os_ok s"
  shows "tx_zone_body nm fd k w e s = Some (True, w', e', s') \<Longrightarrow> on_ring dev k w \<Longrightarrow>
      later s s' \<and> on_ring dev k w' \<and> tx_zoned nm fd s' w'"
    and "rx_zone_body nm fd k w e s = Some (True, w', e', s') \<Longrightarrow> on_ring dev k w \<and> tx_zoned nm fd s w \<Longrightarrow>
      later s s' \<and> ringed nm dev fd k s' w'"
    and "tx_body k w e s = Some (True, w', e', s') \<Longrightarrow> ringed nm dev fd k s w \<Longrightarrow>
      later s s' \<and> ringed nm dev fd k s' w' \<and> (\<exists>q. sends s' w' q)"
proof -
  show "later s s' \<and> on_ring dev k w' \<and> tx_zoned nm fd s' w'"
    if "tx_zone_body nm fd k w e s = Some (True, w', e', s')" "on_ring dev k w"
  proof -
    from that(1) obtain z where z: "sin_pkt_zone_ctor nm (ws_tx_ring w) fd e s = Some (Some z, e', s')" "w' = w\<lparr>ws_tx_zone := Some z\<rparr>"
      by (auto split: Option.bind_splits)
    from zone_built [OF assms z(1)] that(2) z(2) show ?thesis by (simp add: tx_zoned_def)
  qed
  show "later s s' \<and> ringed nm dev fd k s' w'"
    if "rx_zone_body nm fd k w e s = Some (True, w', e', s')" "on_ring dev k w \<and> tx_zoned nm fd s w"
  proof -
    from that(1) obtain z where z: "sin_pkt_zone_ctor nm (ws_rx_ring w) fd e s = Some (Some z, e', s')" "w' = w\<lparr>ws_rx_zone := Some z\<rparr>"
      by (auto split: Option.bind_splits)
    note Z = zone_built [OF assms z(1)]
    have "tx_zoned nm fd s' w" using Z that(2) wired_later(1) by blast
    with Z that(2) z(2) show ?thesis by (simp add: ringed_def rx_zoned_def)
  qed
  show "later s s' \<and> ringed nm dev fd k s' w' \<and> (\<exists>q. sends s' w' q)"
    if "tx_body k w e s = Some (True, w', e', s')" "ringed nm dev fd k s w"
  proof -
    from that(1) obtain t where t: "sin_tx_thread_ctor w e s = Some (Some t, e', s')" "w' = w\<lparr>ws_tx_thread := Some t\<rparr>"
      by (auto split: Option.bind_splits)
    from txt_built [OF assms t(1)] that(2) t(2) ringed_later show ?thesis by (auto simp: sends_def)
  qed
qed

lemma zones_wired:
  assumes z: "init_zones nm sip e s = Some (Inr (sip', e', s'))" and ok: "os_ok s"
    and r: "\<forall>k < length (phy sip). on_ring dev k (phy sip ! k)" "on_ring dev n (hst sip)"
  shows "later s s' \<and> length (phy sip') = length (phy sip) \<and>
    (\<forall>k < length (phy sip). ringed nm dev (netmap_fd sip) k s' (phy sip' ! k)) \<and>
    ringed nm dev (netmap_fd sip) n s' (hst sip')"
proof -
  let ?fd = "netmap_fd sip"
  from z [unfolded init_zones_stages] obtain a1 e1 s1 a2 e2 s2 a3 e3 s3 where
    1: "fill_column (tx_zone_body nm ?fd) init_undo_3 sip e s = Some (Inr (a1, e1, s1))" and
    2: "fill_column (rx_zone_body nm ?fd) init_undo_4 a1 e1 s1 = Some (Inr (a2, e2, s2))" and
    3: "fill_host (sin_pkt_zone_ctor nm (ws_tx_ring (hst sip)) ?fd) (\<lambda>p w. w\<lparr>ws_tx_zone := p\<rparr>) init_undo_4 a2 e2 s2
      = Some (Inr (a3, e3, s3))" and
    4: "fill_host (sin_pkt_zone_ctor nm (ws_rx_ring (hst sip)) ?fd) (\<lambda>p w. w\<lparr>ws_rx_zone := p\<rparr>) init_undo_5 a3 e3 s3
      = Some (Inr (sip', e', s'))"
    by (elim and_then_some) blast
  have 1: "later s s1 \<and> (\<exists>ws. a1 = sip\<lparr>phy := ws\<rparr> \<and> length ws = length (phy sip)) \<and>
    (\<forall>k < length (phy sip). on_ring dev k (phy a1 ! k) \<and> tx_zoned nm ?fd s1 (phy a1 ! k))"
    by (rule fill_column_all [where P = "\<lambda>k s w. on_ring dev k w"
        and P' = "\<lambda>k s w. on_ring dev k w \<and> tx_zoned nm ?fd s w", OF 1 ok r(1) column_steps(1)])
      (auto intro: wired_later)
  then obtain ws1 where a1: "a1 = sip\<lparr>phy := ws1\<rparr>" "length ws1 = length (phy sip)" "os_ok s1" using laterD(1) by blast
  have "\<forall>k < length (phy a1). on_ring dev k (phy a1 ! k) \<and> tx_zoned nm ?fd s1 (phy a1 ! k)" using 1 a1 by simp
  then have 2: "later s1 s2 \<and> (\<exists>ws. a2 = a1\<lparr>phy := ws\<rparr> \<and> length ws = length (phy a1)) \<and>
    (\<forall>k < length (phy a1). ringed nm dev ?fd k s2 (phy a2 ! k))"
    by (rule fill_column_all [where P = "\<lambda>k s w. on_ring dev k w \<and> tx_zoned nm ?fd s w"
        and P' = "\<lambda>k. ringed nm dev ?fd k", OF 2 a1(3) _ column_steps(2)])
      (auto intro: wired_later ringed_later)
  then obtain ws2 where a2: "a2 = sip\<lparr>phy := ws2\<rparr>" "length ws2 = length (phy sip)" "os_ok s2"
    using laterD(1) a1 by auto
  from 3 obtain z3 where 3: "sin_pkt_zone_ctor nm (ws_tx_ring (hst sip)) ?fd e2 s2 = Some (Some z3, e3, s3)"
    "a3 = a2\<lparr>hst := (hst a2)\<lparr>ws_tx_zone := Some z3\<rparr>\<rparr>" by (rule fill_host_some)
  note Z3 = zone_built [OF a2(3) 3(1)]
  then have ok3: "os_ok s3" using laterD(1) by blast
  from 4 obtain z4 where 4: "sin_pkt_zone_ctor nm (ws_rx_ring (hst sip)) ?fd e3 s3 = Some (Some z4, e', s')"
    "sip' = a3\<lparr>hst := (hst a3)\<lparr>ws_rx_zone := Some z4\<rparr>\<rparr>" by (rule fill_host_some)
  note Z4 = zone_built [OF ok3 4(1)]
  have L: "later s2 s'" using Z3 Z4 later_trans by blast
  have "later s s'" using 1 2 L later_trans by blast
  moreover have "ringed nm dev ?fd n s' (hst sip')"
    using r(2) Z3 Z4 zone_set_later 4(2) 3(2) a2(1)
    by (auto simp: ringed_def tx_zoned_def rx_zoned_def on_ring_def)
  moreover have "\<forall>k < length (phy sip). ringed nm dev ?fd k s' (phy sip' ! k)"
    using 2 a1 L 4(2) 3(2) ringed_later by auto
  ultimately show ?thesis using a2 3(2) 4(2) by auto
qed

lemma tx_wired:
  assumes z: "init_tx run sip e s = Some (Inr (sip', e', s'))" and ok: "os_ok s"
    and r: "\<forall>k < length (phy sip). ringed nm dev fd k s (phy sip ! k)" "ringed nm dev fd n s (hst sip)"
  shows "later s s' \<and> length (phy sip') = length (phy sip) \<and>
    (\<forall>k < length (phy sip). ringed nm dev fd k s' (phy sip' ! k) \<and> (\<exists>q. sends s' (phy sip' ! k) q)) \<and>
    ringed nm dev fd n s' (hst sip') \<and> (\<exists>q. sends s' (hst sip') q)"
proof -
  from z [unfolded init_tx_stages] obtain a1 e1 s1 where
    1: "fill_column tx_body (init_undo_7 run) sip e s = Some (Inr (a1, e1, s1))" and
    2: "fill_host (sin_tx_thread_ctor (hst a1)) (\<lambda>p w. w\<lparr>ws_tx_thread := p\<rparr>) (init_undo_7 run) a1 e1 s1
      = Some (Inr (sip', e', s'))"
    by (elim and_then_some) blast
  have 1: "later s s1 \<and> (\<exists>ws. a1 = sip\<lparr>phy := ws\<rparr> \<and> length ws = length (phy sip)) \<and>
    (\<forall>k < length (phy sip). ringed nm dev fd k s1 (phy a1 ! k) \<and> (\<exists>q. sends s1 (phy a1 ! k) q))"
    by (rule fill_column_all [where P = "\<lambda>k. ringed nm dev fd k"
        and P' = "\<lambda>k s w. ringed nm dev fd k s w \<and> (\<exists>q. sends s w q)", OF 1 ok r(1) column_steps(3)])
      (auto intro: wired_later ringed_later)
  then obtain ws1 where a1: "a1 = sip\<lparr>phy := ws1\<rparr>" "length ws1 = length (phy sip)" "os_ok s1" using laterD(1) by blast
  from 2 obtain t where 2: "sin_tx_thread_ctor (hst sip) e1 s1 = Some (Some t, e', s')"
    "sip' = a1\<lparr>hst := (hst a1)\<lparr>ws_tx_thread := Some t\<rparr>\<rparr>" using a1(1) by (auto elim: fill_host_some)
  note T = txt_built [OF a1(3) 2(1)]
  then have "later s s'" using 1 later_trans by blast
  moreover have "ringed nm dev fd n s' (hst sip')" using ringed_later [OF r(2) \<open>later s s'\<close>] 2(2) a1(1) by simp
  moreover have "\<exists>q. sends s' (hst sip') q" using T 2(2) a1(1) by (auto simp: sends_def)
  moreover have "ringed nm dev fd k s' (phy sip' ! k) \<and> (\<exists>q. sends s' (phy sip' ! k) q)" if "k < length (phy sip)" for k
  proof -
    have p: "phy sip' = phy a1" using 2(2) by simp
    from 1 that obtain q where "ringed nm dev fd k s1 (phy a1 ! k)" "sends s1 (phy a1 ! k) q" by blast
    with T ringed_later wired_later(3) show ?thesis unfolding p by blast
  qed
  ultimately show ?thesis using 2(2) a1 by simp
qed

lemma ring_sorter_step:
  assumes "os_ok s" and "ring_sorter qh w e s = Some (True, w', e', s')" and "ringed nm dev fd k s w \<and> (\<exists>q. sends s w q)"
  shows "later s s' \<and> ringed nm dev fd k s' w' \<and> (\<exists>q a b. sends s' w' q \<and> sorts s' w' a (phy_sorter a b qh q))"
proof -
  from ring_sorter_built [OF assms(1,2)] obtain a b t q where B: "later s s'" "w' = w\<lparr>ws_rx_sort := Some a\<rparr>" "a < os_fresh s'"
    "ws_tx_thread w = Some t" "sin_tx_thread_get_out_queue t s = Some q" "sorters s' a = Some (phy_sorter a b qh q)" by blast
  from assms(3) obtain q' where q': "ringed nm dev fd k s w" "sends s w q'" by blast
  have "q' = q" using sends_queue [OF q'(2) B(4)] B(5) by simp
  then have "sends s' w q" using q'(2) B(1) wired_later(3) by blast
  moreover have "ringed nm dev fd k s' w" using ringed_later [OF q'(1) B(1)] .
  moreover have "sorts s' w' a (phy_sorter a b qh q)" using B by (simp add: sorts_def)
  ultimately show ?thesis using B(1,2) by auto
qed

lemma sorters_wired:
  assumes z: "init_sorters run sip e s = Some (Inr (sip', e', s'))" and ok: "os_ok s"
    and r: "\<forall>k < length (phy sip). ringed nm dev fd k s (phy sip ! k) \<and> (\<exists>q. sends s (phy sip ! k) q)"
    and h: "sends s (hst sip) qh"
  shows "later s s' \<and> length (phy sip') = length (phy sip) \<and> hst sip' = hst sip \<and>
    (\<forall>k < length (phy sip). ringed nm dev fd k s' (phy sip' ! k) \<and>
      (\<exists>q a b. sends s' (phy sip' ! k) q \<and> sorts s' (phy sip' ! k) a (phy_sorter a b qh q)))"
proof -
  from z h have 1: "fill_column (\<lambda>i. ring_sorter qh) (init_undo_9 run) sip e s = Some (Inr (sip', e', s'))"
    by (auto simp: init_sorters_stages sends_def sin_tx_thread_get_out_queue_def)
  have "later s s' \<and> (\<exists>ws. sip' = sip\<lparr>phy := ws\<rparr> \<and> length ws = length (phy sip)) \<and>
    (\<forall>k < length (phy sip). ringed nm dev fd k s' (phy sip' ! k) \<and>
      (\<exists>q a b. sends s' (phy sip' ! k) q \<and> sorts s' (phy sip' ! k) a (phy_sorter a b qh q)))"
    by (rule fill_column_all [where P = "\<lambda>k s w. ringed nm dev fd k s w \<and> (\<exists>q. sends s w q)"
        and P' = "\<lambda>k s w. ringed nm dev fd k s w \<and> (\<exists>q a b. sends s w q \<and> sorts s w a (phy_sorter a b qh q))",
        OF 1 ok r ring_sorter_step])
      (auto intro: wired_later ringed_later)
  then show ?thesis by auto
qed

text \<open>A hardware ring that is complete: its packets go where \<open>phy_sorter\<close> sends them.\<close>

definition phy_wired :: "istore \<Rightarrow> addr \<Rightarrow> wrk_set \<Rightarrow> bool" where
  "phy_wired s qh w \<longleftrightarrow> (\<exists>q a b. sends s w q \<and> receives s w a \<and> sorters s a = Some (phy_sorter a b qh q))"

lemma rx_step:
  assumes "os_ok s" and "rx_body k w e s = Some (True, w', e', s')"
    and "ringed nm dev fd k s w \<and> (\<exists>q a b. sends s w q \<and> sorts s w a (phy_sorter a b qh q))"
  shows "later s s' \<and> ringed nm dev fd k s' w' \<and>
    (\<exists>q a b. sends s' w' q \<and> sorts s' w' a (phy_sorter a b qh q) \<and> receives s' w' a)"
proof -
  from assms(2) obtain t where t: "sin_rx_thread_ctor w e s = Some (Some t, e', s')" "w' = w\<lparr>ws_rx_thread := Some t\<rparr>"
    by (auto split: Option.bind_splits)
  note B = rxt_built [OF assms(1) t(1)]
  from assms(3) obtain q a b where q: "ringed nm dev fd k s w" "sends s w q" "sorts s w a (phy_sorter a b qh q)" by blast
  have "receives s' w' a" using B q(3) t(2) by (simp add: receives_def sorts_def)
  moreover have "ringed nm dev fd k s' w" "sends s' w q" "sorts s' w a (phy_sorter a b qh q)"
    using q B by (auto intro: ringed_later wired_later)
  ultimately show ?thesis using B t(2) by auto
qed

lemma rx_wired:
  assumes z: "init_rx run sip e s = Some (Inr (sip', e', s'))" and ok: "os_ok s"
    and r: "\<forall>k < length (phy sip). ringed nm dev fd k s (phy sip ! k) \<and>
      (\<exists>q a b. sends s (phy sip ! k) q \<and> sorts s (phy sip ! k) a (phy_sorter a b qh q))"
    and h: "ringed nm dev fd n s (hst sip)" "sends s (hst sip) qh" and n: "0 < length (phy sip)"
  shows "later s s' \<and> length (phy sip') = length (phy sip) \<and>
    (\<forall>k < length (phy sip). ringed nm dev fd k s' (phy sip' ! k) \<and> phy_wired s' qh (phy sip' ! k)) \<and>
    ringed nm dev fd n s' (hst sip') \<and> sends s' (hst sip') qh \<and>
    (\<exists>q a. sends s' (phy sip' ! 0) q \<and> receives s' (hst sip') a \<and> sorters s' a = Some (host_sorter a q))"
proof -
  let ?P = "\<lambda>k s w. ringed nm dev fd k s w \<and> (\<exists>q a b. sends s w q \<and> sorts s w a (phy_sorter a b qh q) \<and> receives s w a)"
  from z [unfolded init_rx_stages] obtain a1 e1 s1 a2 e2 s2 where
    1: "fill_column rx_body (init_undo_10 run) sip e s = Some (Inr (a1, e1, s1))" and
    2: "(do { t \<leftarrow> (case phy a1 of [] \<Rightarrow> None | w # _ \<Rightarrow> ws_tx_thread w);
        q \<leftarrow> sin_tx_thread_get_out_queue t s1;
        fill_host (\<lambda>e s. Some (ctor_sorter q e s)) (\<lambda>p w. w\<lparr>ws_rx_sort := p\<rparr>) (init_undo_10 run) a1 e1 s1 })
      = Some (Inr (a2, e2, s2))" and
    3: "fill_host (sin_rx_thread_ctor (hst a2)) (\<lambda>p w. w\<lparr>ws_rx_thread := p\<rparr>) (init_undo_11 run) a2 e2 s2
      = Some (Inr (sip', e', s'))"
    by (elim and_then_some) blast
  have 1: "later s s1 \<and> (\<exists>ws. a1 = sip\<lparr>phy := ws\<rparr> \<and> length ws = length (phy sip)) \<and> (\<forall>k < length (phy sip). ?P k s1 (phy a1 ! k))"
    by (rule fill_column_all [where P = "\<lambda>k s w. ringed nm dev fd k s w \<and> (\<exists>q a b. sends s w q \<and> sorts s w a (phy_sorter a b qh q))"
        and P' = ?P, OF 1 ok r rx_step]) (auto intro: wired_later ringed_later)
  then obtain ws where a1: "a1 = sip\<lparr>phy := ws\<rparr>" "length ws = length (phy sip)" "os_ok s1" using laterD(1) by blast
  with n obtain w0 ws' where w0: "phy a1 = w0 # ws'" by (cases ws) auto
  with 1 n obtain q0 where q0: "sends s1 w0 q0" by force
  then obtain t0 where t0: "ws_tx_thread w0 = Some t0" by (auto simp: sends_def)
  from 2 w0 t0 sends_queue [OF q0 t0] have 2:
    "fill_host (\<lambda>e s. Some (ctor_sorter q0 e s)) (\<lambda>p w. w\<lparr>ws_rx_sort := p\<rparr>) (init_undo_10 run) a1 e1 s1 = Some (Inr (a2, e2, s2))"
    by simp
  from 2 obtain p where 2: "ctor_sorter q0 e1 s1 = (Some p, e2, s2)" "a2 = a1\<lparr>hst := (hst a1)\<lparr>ws_rx_sort := Some p\<rparr>\<rparr>"
    by (rule fill_host_some) simp
  note K = ctor_sorter_built [OF a1(3) 2(1)]
  then have ok2: "os_ok s2" using laterD(1) by blast
  from 3 obtain t where 3: "sin_rx_thread_ctor (hst a2) e2 s2 = Some (Some t, e', s')"
    "sip' = a2\<lparr>hst := (hst a2)\<lparr>ws_rx_thread := Some t\<rparr>\<rparr>" by (rule fill_host_some)
  note T = rxt_built [OF ok2 3(1)]
  have L: "later s1 s'" "later s2 s'" using K T later_trans by blast+
  have ls: "later s s'" using 1 L(1) later_trans by blast
  have ph: "phy sip' = phy a1" using 2(2) 3(2) by simp
  have hs: "hst sip' = (hst sip)\<lparr>ws_rx_sort := Some p, ws_rx_thread := Some t\<rparr>" using 2(2) 3(2) a1(1) by simp
  have P: "ringed nm dev fd k s' (phy sip' ! k) \<and> phy_wired s' qh (phy sip' ! k)" if "k < length (phy sip)" for k
  proof -
    from 1 that obtain q a b where q: "ringed nm dev fd k s1 (phy a1 ! k)" "sends s1 (phy a1 ! k) q"
      "sorts s1 (phy a1 ! k) a (phy_sorter a b qh q)" "receives s1 (phy a1 ! k) a" by blast
    then have "ringed nm dev fd k s' (phy a1 ! k)" "sends s' (phy a1 ! k) q" "sorts s' (phy a1 ! k) a (phy_sorter a b qh q)"
      "receives s' (phy a1 ! k) a" using L(1) by (auto intro: ringed_later wired_later)
    then show ?thesis unfolding ph phy_wired_def sorts_def by blast
  qed
  have "sends s' (phy sip' ! 0) q0" using q0 L(1) wired_later(3) w0 by (simp add: ph)
  moreover have "sorters s' p = Some (host_sorter p q0)" using laterD(10) [OF L(2)] K by metis
  moreover have "receives s' (hst sip') p" using T 2(2) 3(2) by (simp add: receives_def)
  moreover have "ringed nm dev fd n s' (hst sip')" using ringed_later [OF h(1) ls] by (simp add: hs)
  moreover have "sends s' (hst sip') qh" using wired_later(3) [OF ls h(2)] by (simp add: hs)
  ultimately show ?thesis using ls P a1 ph by auto
qed

subsection \<open>The whole constructor\<close>

lemma register_on:
  assumes "for_rings (\<lambda>i w e s.
        let (r, err, s) = sys_ioctl s in
        if r < 0 then Some (False, w, SET_ERR e (Errno err), s)
        else Some (True, w\<lparr>ws_rx_ring := NETMAP_RXRING dev i, ws_tx_ring := NETMAP_TXRING dev i\<rparr>, e, s))
       i ws e s = Some (True, ws', e', s')"
  shows "length ws' = length ws \<and> (\<forall>k < length ws. on_ring dev (i + k) (ws' ! k))"
  using assms
proof (induction ws arbitrary: i e s ws')
  case (Cons w ws)
  let ?w = "w\<lparr>ws_rx_ring := NETMAP_RXRING dev i, ws_tx_ring := NETMAP_TXRING dev i\<rparr>"
  from Cons.prems obtain e1 s1 ws1 where 1: "ws' = ?w # ws1"
    "for_rings (\<lambda>i w e s.
        let (r, err, s) = sys_ioctl s in
        if r < 0 then Some (False, w, SET_ERR e (Errno err), s)
        else Some (True, w\<lparr>ws_rx_ring := NETMAP_RXRING dev i, ws_tx_ring := NETMAP_TXRING dev i\<rparr>, e, s))
       (Suc i) ws e1 s1 = Some (True, ws1, e', s')"
    by (auto split: Option.bind_splits if_splits prod.splits)
  from Cons.IH [OF 1(2)] have "length ws1 = length ws" "\<forall>k < length ws. on_ring dev (Suc i + k) (ws1 ! k)" by simp_all
  with 1(1) show ?case by (auto simp: on_ring_def nth_Cons split: nat.splits)
qed simp

lemma init_register_on:
  assumes "init_register dev sip e s = Some (Inr (sip', e', s'))" and "nrings sip = int (length (phy sip))"
  shows "length (phy sip') = length (phy sip) \<and> (\<forall>k < length (phy sip). on_ring dev k (phy sip' ! k)) \<and>
    on_ring dev (length (phy sip)) (hst sip') \<and> netmap_fd sip' = netmap_fd sip"
proof -
  from assms(1) obtain ws e1 s1 where
    1: "for_rings (\<lambda>i w e s.
        let (r, err, s) = sys_ioctl s in
        if r < 0 then Some (False, w, SET_ERR e (Errno err), s)
        else Some (True, w\<lparr>ws_rx_ring := NETMAP_RXRING dev i, ws_tx_ring := NETMAP_TXRING dev i\<rparr>, e, s))
       0 (phy sip) e s = Some (True, ws, e1, s1)"
    and 2: "sip' = sip\<lparr>phy := ws, hst := (hst sip)\<lparr>ws_rx_ring := NETMAP_RXRING dev (nat (nrings sip)),
       ws_tx_ring := NETMAP_TXRING dev (nat (nrings sip))\<rparr>\<rparr>"
    by (auto simp: init_register_def give_up_def Let_def split: Option.bind_splits if_splits prod.splits)
  show ?thesis using register_on [OF 1] 2 assms(2) by (simp add: on_ring_def)
qed

text \<open>The rings as netmap leaves them when they are opened.\<close>

definition fresh_rings :: "netmap_dev \<Rightarrow> istore \<Rightarrow> bool" where
  "fresh_rings dev s \<longleftrightarrow> (\<forall>i \<le> unat (nr_rx_rings dev). \<forall>ring \<in> {NETMAP_RXRING dev i, NETMAP_TXRING dev i}.
     \<exists>r. rings s ring = Some r \<and> ring_ok r \<and> ring_size r < 2 ^ 31 \<and> r_head r = r_cur r)"

lemma ringed_starts:
  assumes "ringed nm dev fd k s w" and "fresh_rings dev s" and "k \<le> unat (nr_rx_rings dev)"
  shows "\<exists>z. ws_rx_zone w = Some z \<and> rx_inv nm (NETMAP_RXRING dev k) z s"
    and "\<exists>z. ws_tx_zone w = Some z \<and> Sin_Ring.zone_ok nm s z (NETMAP_TXRING dev k)"
  using assms zone_set_rx_inv [of nm fd "NETMAP_RXRING dev k"] zone_set_zone_ok [of nm fd "NETMAP_TXRING dev k"]
  by (fastforce simp: ringed_def on_ring_def rx_zoned_def tx_zoned_def fresh_rings_def)+

lemma wired_stances [simp]:
  "sends (s\<lparr>stances := t\<rparr>) w q = sends s w q" "receives (s\<lparr>stances := t\<rparr>) w a = receives s w a"
  "phy_wired (s\<lparr>stances := t\<rparr>) qh w = phy_wired s qh w"
  "rx_inv nm ring z (s\<lparr>stances := t\<rparr>) = rx_inv nm ring z s"
  "Sin_Ring.zone_ok nm (s\<lparr>stances := t\<rparr>) z ring = Sin_Ring.zone_ok nm s z ring"
proof -
  show sr: "sends (s\<lparr>stances := t\<rparr>) w q = sends s w q" "receives (s\<lparr>stances := t\<rparr>) w a = receives s w a" for q a
    by (simp_all add: sends_def receives_def)
  then show "phy_wired (s\<lparr>stances := t\<rparr>) qh w = phy_wired s qh w" by (simp add: phy_wired_def)
  have p: "slot_pkt_ok nm (s\<lparr>stances := t\<rparr>) = slot_pkt_ok nm s" by (auto simp: slot_pkt_ok_def fun_eq_iff split: option.splits)
  have b: "slots_inv (s\<lparr>stances := t\<rparr>) = slots_inv s"
  proof -
    have "busy_at (s\<lparr>stances := t\<rparr>) = busy_at s" by (simp add: busy_at_def fun_eq_iff)
    moreover have "rx_ready (s\<lparr>stances := t\<rparr>) = rx_ready s" by (auto simp: rx_ready_def fun_eq_iff split: option.splits)
    ultimately show ?thesis by (simp add: slots_inv_def fun_eq_iff)
  qed
  show z: "Sin_Ring.zone_ok nm (s\<lparr>stances := t\<rparr>) z ring = Sin_Ring.zone_ok nm s z ring"
    by (simp add: Sin_Ring.zone_ok_def p cong: option.case_cong)
  show "rx_inv nm ring z (s\<lparr>stances := t\<rparr>) = rx_inv nm ring z s" by (simp add: rx_inv_def z b cong: option.case_cong)
qed

text \<open>Opening the device and binding the rings touches nothing but the ledger.\<close>

definition bare :: "istore \<Rightarrow> istore" where
  "bare s = s\<lparr>os_fresh := 0, os_live := {}, os_script := (\<lambda>_. 0), os_clock := 0\<rparr>"

lemma bare_calls:
  fixes s :: istore
  shows "malloc s = (p, s') \<Longrightarrow> bare s' = bare s" "sys_open s = (fd, err, s') \<Longrightarrow> bare s' = bare s"
    "sys_ioctl s = (r, err, s') \<Longrightarrow> bare s' = bare s" "sys_mmap s = (p, err, s') \<Longrightarrow> bare s' = bare s"
  by (auto simp: bare_def os_defs sys_ioctl_def Let_def split: if_splits prod.splits)

lemma set_ifnot_err_bare: "set_ifnot_err grr e s = (fd, grr', e', s') \<Longrightarrow> bare s' = bare s"
  by (auto simp: set_ifnot_err_def Let_def dest: bare_calls split: if_splits prod.splits)

lemma open_rings_bare: "open_rings ws grr e s = (ws', grr', e', s') \<Longrightarrow> bare s' = bare s"
proof (induction ws arbitrary: grr e s ws' grr' e' s')
  case (Cons w ws)
  obtain fd g1 e1 s1 where 1: "set_ifnot_err grr e s = (fd, g1, e1, s1)" by (cases "set_ifnot_err grr e s")
  obtain ws2 g2 e2 s2 where 2: "open_rings ws g1 e1 s1 = (ws2, g2, e2, s2)" by (cases "open_rings ws g1 e1 s1")
  from Cons.prems 1 2 have "s' = s2" by simp
  with Cons.IH [OF 2] set_ifnot_err_bare [OF 1] show ?case by simp
qed simp

lemma init_open_bare:
  assumes "init_open dev e s = Some (Inr (sip, e', s'))"
  shows "bare s' = bare s"
  using assms unfolding init_open_def give_up_def Let_def
  by (auto dest!: bare_calls set_ifnot_err_bare open_rings_bare split: prod.splits option.splits if_splits Option.bind_splits)

lemma register_bare:
  assumes "for_rings (\<lambda>i w e s.
        let (r, err, s) = sys_ioctl s in
        if r < 0 then Some (False, w, SET_ERR e (Errno err), s)
        else Some (True, w\<lparr>ws_rx_ring := NETMAP_RXRING dev i, ws_tx_ring := NETMAP_TXRING dev i\<rparr>, e, s))
       i ws e s = Some (ok, ws', e', s')"
  shows "bare s' = bare s"
  using assms
proof (induction ws arbitrary: i e s ws')
  case (Cons w ws)
  obtain r err s1 where 1: "sys_ioctl s = (r, err, s1)" by (cases "sys_ioctl s")
  show ?case
  proof (cases "r < 0")
    case True
    with Cons.prems 1 bare_calls(3) [OF 1] show ?thesis by simp
  next
    case False
    with Cons.prems 1 Cons.IH bare_calls(3) [OF 1] show ?thesis
      by (force split: Option.bind_splits)
  qed
qed simp

lemma init_register_bare:
  assumes "init_register dev sip e s = Some (Inr (sip', e', s'))"
  shows "bare s' = bare s"
  using assms unfolding init_register_def give_up_def Let_def
  by (auto dest!: bare_calls(3) register_bare [unfolded Let_def] split: prod.splits if_splits Option.bind_splits)

lemma bare_later:
  assumes b: "bare s' = bare s" and ok: "os_ok s'" "os_fresh s \<le> os_fresh s'" "os_script s' = os_script s"
  shows "later s s'"
proof -
  have "queues (bare s') = queues (bare s)" "links (bare s') = links (bare s)" "signals (bare s') = signals (bare s)"
    "wrks (bare s') = wrks (bare s)" "pvts (bare s') = pvts (bare s)" "rxts (bare s') = rxts (bare s)"
    "txts (bare s') = txts (bare s)" "zones (bare s') = zones (bare s)" "sorters (bare s') = sorters (bare s)"
    "stances (bare s') = stances (bare s)" "times (bare s') = times (bare s)" "rings (bare s') = rings (bare s)"
    "pkts (bare s') = pkts (bare s)" by (simp_all add: b)
  with ok show ?thesis by (simp add: later_def grown_def same_at_def bare_def)
qed

lemma init_start:
  assumes "os_ok s"
    and rg: "\<forall>i \<le> unat (nr_rx_rings dev). rings s (NETMAP_RXRING dev i) \<noteq> None \<and> rings s (NETMAP_TXRING dev i) \<noteq> None"
    and o: "init_open dev e s = Some (Inr (sip, e1, s1))" and r: "init_register dev sip e1 s1 = Some (Inr (sip', e', s'))"
  shows "later s s'" "length (phy sip') = unat (nr_rx_rings dev)"
    "\<forall>k < length (phy sip'). on_ring dev k (phy sip' ! k)" "on_ring dev (length (phy sip')) (hst sip')"
proof -
  from init_open_stage [OF holdm_init [OF assms(1)], of e dev] o obtain m where
    O: "opened (os_fresh s) (os_live s) dev {Mapped m} sip s1" "keep s s1"
    by (auto simp: stage_def)
  from init_register_stage [OF O(1), of e1] r rg O(2) obtain m' where
    R: "registered (os_fresh s) (os_live s) dev {Mapped m'} sip' s'" "keep s1 s'"
    by (auto simp: stage_def keep_def)
  have h: "os_ok s'" "os_fresh s \<le> os_fresh s'" using R(1) by (auto simp: registered_def holdm_def hold_def)
  have "bare s' = bare s" using init_open_bare [OF o] init_register_bare [OF r] by simp
  from bare_later [OF this h] O(2) R(2) show "later s s'" by (simp add: keep_def)
  have n: "nrings sip = int (length (phy sip))" "length (phy sip) = unat (nr_rx_rings dev)" using O(1) by (simp_all add: opened_def)
  from init_register_on [OF r n(1)] n(2) show "length (phy sip') = unat (nr_rx_rings dev)"
    "\<forall>k < length (phy sip'). on_ring dev k (phy sip' ! k)" "on_ring dev (length (phy sip')) (hst sip')" by simp_all
qed

text \<open>
  What the constructor builds when it returns an instance: nothing that was there before is
  touched, and everything is wired up.
\<close>

lemma init_built:
  assumes ok: "os_ok s" and n0: "0 < nr_rx_rings dev"
    and rg: "\<forall>i \<le> unat (nr_rx_rings dev). rings s (NETMAP_RXRING dev i) \<noteq> None \<and> rings s (NETMAP_TXRING dev i) \<noteq> None"
    and i: "sin_init nm dev run e s = Some (Some p, e', s')"
  obtains sip s6 fd qh where "p = sip_addr sip" "s' = s6\<lparr>stances := (stances s6)(p \<mapsto> sip\<lparr>sin_nref := SIN_INCREF (sin_nref sip)\<rparr>)\<rparr>"
    "later s s6" "length (phy sip) = unat (nr_rx_rings dev)"
    "\<forall>k < unat (nr_rx_rings dev). ringed nm dev fd k s6 (phy sip ! k) \<and> phy_wired s6 qh (phy sip ! k)"
    "ringed nm dev fd (unat (nr_rx_rings dev)) s6 (hst sip)" "sends s6 (hst sip) qh"
    "\<exists>q a. sends s6 (phy sip ! 0) q \<and> receives s6 (hst sip) a \<and> sorters s6 a = Some (host_sorter a q)"
proof -
  let ?n = "unat (nr_rx_rings dev)"
  from i obtain sip6 s6 where
    6: "and_then (and_then (and_then (and_then (and_then (init_open dev e s) (init_register dev))
       (init_zones nm)) (init_tx run)) (init_sorters run)) (init_rx run) = Some (Inr (sip6, e', s6))"
    and p: "p = sip_addr sip6" "s' = s6\<lparr>stances := (stances s6)(p \<mapsto> sip6\<lparr>sin_nref := SIN_INCREF (sin_nref sip6)\<rparr>)\<rparr>"
    by (auto simp: sin_init_def Let_def split: Option.bind_splits sum.splits)
  from 6 obtain a1 e1 s1 a2 e2 s2 a3 e3 s3 a4 e4 s4 a5 e5 s5 where
    1: "init_open dev e s = Some (Inr (a1, e1, s1))" and 2: "init_register dev a1 e1 s1 = Some (Inr (a2, e2, s2))" and
    3: "init_zones nm a2 e2 s2 = Some (Inr (a3, e3, s3))" and 4: "init_tx run a3 e3 s3 = Some (Inr (a4, e4, s4))" and
    5: "init_sorters run a4 e4 s4 = Some (Inr (a5, e5, s5))" and 6: "init_rx run a5 e5 s5 = Some (Inr (sip6, e', s6))"
    by (elim and_then_some) blast
  note S = init_start [OF ok rg 1 2]
  note Z = zones_wired [OF 3 laterD(1) [OF S(1)] S(3,4)]
  have z: "later s2 s3" "length (phy a3) = ?n" "\<forall>k < length (phy a3). ringed nm dev (netmap_fd a2) k s3 (phy a3 ! k)"
    "ringed nm dev (netmap_fd a2) ?n s3 (hst a3)" using Z S(2) by simp_all
  note T = tx_wired [OF 4 laterD(1) [OF z(1)] z(3,4)]
  then obtain qh where t: "later s3 s4" "length (phy a4) = ?n" "\<forall>k < length (phy a4). ringed nm dev (netmap_fd a2) k s4 (phy a4 ! k)
      \<and> (\<exists>q. sends s4 (phy a4 ! k) q)" "ringed nm dev (netmap_fd a2) ?n s4 (hst a4)" "sends s4 (hst a4) qh"
    using z(2) by auto
  note R = sorters_wired [OF 5 laterD(1) [OF t(1)] t(3,5)]
  have r: "later s4 s5" "length (phy a5) = ?n" "\<forall>k < length (phy a5). ringed nm dev (netmap_fd a2) k s5 (phy a5 ! k) \<and>
      (\<exists>q a b. sends s5 (phy a5 ! k) q \<and> sorts s5 (phy a5 ! k) a (phy_sorter a b qh q))"
    "ringed nm dev (netmap_fd a2) ?n s5 (hst a5)" "sends s5 (hst a5) qh"
    using R t(2,4,5) ringed_later wired_later(3) by auto
  have "0 < length (phy a5)" using n0 r(2) by (simp add: word_less_nat_alt)
  note X = rx_wired [OF 6 laterD(1) [OF r(1)] r(3-5) this]
  have "later s s6" using S(1) z(1) t(1) r(1) X by (blast intro: later_trans)
  from that [OF p this, of "netmap_fd a2" qh] X r(2) show thesis by simp
qed

text \<open>
  C9. How a new instance is wired. If \<open>sin_init\<close> returns one, then for every hardware ring
  \<open>k\<close>: the receive thread reads ring \<open>k\<close> with a zone on which the invariant of the receive
  ring holds, and gives its packets to a sorter that answers the echo requests into the
  queue \<open>q\<close> and passes everything else to the queue \<open>qh\<close>; \<open>q\<close> is the queue of the thread
  that sends on ring \<open>k\<close>, \<open>qh\<close> that of the thread that sends to the host. What comes from the
  host goes, by a sorter without entries, to the thread that sends on ring 0.
\<close>

theorem sin_init_wired:
  assumes "os_ok s" and "0 < nr_rx_rings dev" and "fresh_rings dev s"
    and "sin_init nm dev run e s = Some (Some p, e', s')"
  shows "\<exists>sip qh. stances s' p = Some sip \<and> length (phy sip) = unat (nr_rx_rings dev) \<and>
    (\<forall>k < unat (nr_rx_rings dev). on_ring dev k (phy sip ! k) \<and> phy_wired s' qh (phy sip ! k) \<and>
      (\<exists>z. ws_rx_zone (phy sip ! k) = Some z \<and> rx_inv nm (NETMAP_RXRING dev k) z s') \<and>
      (\<exists>z. ws_tx_zone (phy sip ! k) = Some z \<and> Sin_Ring.zone_ok nm s' z (NETMAP_TXRING dev k))) \<and>
    on_ring dev (unat (nr_rx_rings dev)) (hst sip) \<and> sends s' (hst sip) qh \<and>
    (\<exists>q a. sends s' (phy sip ! 0) q \<and> receives s' (hst sip) a \<and> sorters s' a = Some (host_sorter a q))"
proof -
  let ?n = "unat (nr_rx_rings dev)"
  have "\<forall>i \<le> ?n. rings s (NETMAP_RXRING dev i) \<noteq> None \<and> rings s (NETMAP_TXRING dev i) \<noteq> None"
    using assms(3) by (fastforce simp: fresh_rings_def)
  from init_built [OF assms(1,2) this assms(4)] obtain sip s6 fd qh where
    p: "p = sip_addr sip" "s' = s6\<lparr>stances := (stances s6)(p \<mapsto> sip\<lparr>sin_nref := SIN_INCREF (sin_nref sip)\<rparr>)\<rparr>"
    and l: "later s s6" "length (phy sip) = ?n"
    and w: "\<forall>k < ?n. ringed nm dev fd k s6 (phy sip ! k) \<and> phy_wired s6 qh (phy sip ! k)"
    and h: "ringed nm dev fd ?n s6 (hst sip)" "sends s6 (hst sip) qh"
      "\<exists>q a. sends s6 (phy sip ! 0) q \<and> receives s6 (hst sip) a \<and> sorters s6 a = Some (host_sorter a q)" .
  have fr: "fresh_rings dev s6" using assms(3) laterD(3) [OF l(1)] by (simp add: fresh_rings_def)
  have "on_ring dev k (phy sip ! k) \<and> phy_wired s6 qh (phy sip ! k) \<and>
      (\<exists>z. ws_rx_zone (phy sip ! k) = Some z \<and> rx_inv nm (NETMAP_RXRING dev k) z s6) \<and>
      (\<exists>z. ws_tx_zone (phy sip ! k) = Some z \<and> Sin_Ring.zone_ok nm s6 z (NETMAP_TXRING dev k))" if "k < ?n" for k
  proof -
    have k: "ringed nm dev fd k s6 (phy sip ! k)" "phy_wired s6 qh (phy sip ! k)" using w that by simp_all
    with ringed_starts [OF k(1) fr] that show ?thesis by (simp add: ringed_def)
  qed
  moreover have "on_ring dev ?n (hst sip)" using h(1) by (simp add: ringed_def)
  ultimately show ?thesis using l(2) h p
    by (intro exI [of _ "sip\<lparr>sin_nref := SIN_INCREF (sin_nref sip)\<rparr>"] exI [of _ qh]) auto
qed

theorem sin_init_wired_witness:
  "\<exists>p s sip qh z. sin_init ex_nm ex_dev finish_now None ex_boot = Some (Some p, None, s) \<and> stances s p = Some sip \<and>
     phy_wired s qh (phy sip ! 0) \<and> sends s (hst sip) qh \<and> rx_inv ex_nm 60 z s"
proof -
  from ex_instance obtain p s where i: "sin_init ex_nm ex_dev finish_now None ex_boot = Some (Some p, None, s)" by blast
  have "fresh_rings ex_dev ex_boot"
    by (auto simp: fresh_rings_def ex_dev_def ex_boot_def le_Suc_eq ring_ok_def ring_size_def ex_rx_ring_def ex_tx_ring_def)
  from sin_init_wired [OF ex_boot_facts(1,2) this i] i show ?thesis
    by (auto simp: ex_dev_def)
qed

end
