(* ===== verification/Sin_Many.thy ===== *)
theory Sin_Many
  imports Sin_Wiring
begin

text \<open>
  Several instances at a time: any number of them can be made one after the other, given more
  entries on their sorters, and destroyed in the same order, without one disturbing another.
\<close>

subsection \<open>Instances in good order\<close>

text \<open>
  The parts of an instance, with the contents of its own block; \<open>instances_at f L X ps s\<close>:
  exactly the instances at \<open>ps\<close> are there besides what was live before, none sharing an
  address with another.
\<close>

definition inst_parts :: "sin_stance \<Rightarrow> part multiset" where
  "inst_parts sip = add_mset (Stance (sip_addr sip) (sip\<lparr>sin_nref := 1\<rparr>)) (sip_parts sip - {#Blk (sip_addr sip)#})"

definition instances_at :: "nat \<Rightarrow> resource set \<Rightarrow> resource set \<Rightarrow> addr list \<Rightarrow> istore \<Rightarrow> bool" where
  "instances_at f L X ps s \<longleftrightarrow> (\<exists>sips. map sip_addr sips = ps \<and> (\<forall>sip \<in> set sips. \<exists>dev. ready dev sip) \<and>
     holdm f L X (sum_list (map inst_parts sips)) s)"

lemma sip_parts_blk: "sip_parts sip = add_mset (Blk (sip_addr sip)) (sip_parts sip - {#Blk (sip_addr sip)#})"
  by (simp add: parts_defs)

lemma holdm_inst:
  "holdm f L X (inst_parts sip + M) s \<longleftrightarrow>
   holdm f L X (sip_parts sip + M) s \<and> stances s (sip_addr sip) = Some (sip\<lparr>sin_nref := 1\<rparr>)"
proof -
  let ?R = "sip_parts sip - {#Blk (sip_addr sip)#}" and ?St = "Stance (sip_addr sip) (sip\<lparr>sin_nref := 1\<rparr>)"
  have e: "sip_parts sip + M = add_mset (Blk (sip_addr sip)) (?R + M)"
    by (subst sip_parts_blk) (rule union_mset_add_mset_left)
  show ?thesis
  proof
    assume h: "holdm f L X (inst_parts sip + M) s"
    then have st: "stances s (sip_addr sip) = Some (sip\<lparr>sin_nref := 1\<rparr>)"
      using holdmD(2) [OF h, of ?St] by (simp add: inst_parts_def)
    from h have "holdm f L X (add_mset ?St (?R + M)) s" by (simp add: inst_parts_def)
    from holdm_trade [OF this, of "Blk (sip_addr sip)"] st
    show "holdm f L X (sip_parts sip + M) s \<and> stances s (sip_addr sip) = Some (sip\<lparr>sin_nref := 1\<rparr>)"
      unfolding e by simp
  next
    assume h: "holdm f L X (sip_parts sip + M) s \<and> stances s (sip_addr sip) = Some (sip\<lparr>sin_nref := 1\<rparr>)"
    then have "holdm f L X (add_mset (Blk (sip_addr sip)) (?R + M)) s" unfolding e by simp
    from holdm_trade [OF this, of ?St] h show "holdm f L X (inst_parts sip + M) s" by (simp add: inst_parts_def)
  qed
qed

lemma instances_os_ok: "instances_at f L X ps s \<Longrightarrow> os_ok s"
  by (auto simp: instances_at_def dest: holdmD(4))

lemma no_instances: "os_ok s \<Longrightarrow> instances_at (os_fresh s) (os_live s) {} [] s"
  by (simp add: instances_at_def holdm_init)

lemma instances_gone:
  assumes "instances_at f L X [] s"
  shows "L \<subseteq> os_live s" "\<forall>r \<in> os_live s - L. left_over s r \<or> r \<in> X"
proof -
  from assms have "holdm f L X {#} s" by (simp add: instances_at_def)
  from holdm_none [OF this] show "L \<subseteq> os_live s" "\<forall>r \<in> os_live s - L. left_over s r \<or> r \<in> X" by simp_all
qed

lemma instances_live: "instances_at f L X ps s \<Longrightarrow> L \<subseteq> os_live s"
  by (auto simp: instances_at_def holdm_def hold_def)

subsection \<open>One more\<close>

lemma init_made:
  assumes "os_ok s" and "ends run" and "0 < nr_rx_rings dev"
    and rg: "\<forall>i \<le> unat (nr_rx_rings dev). rings s (NETMAP_RXRING dev i) \<noteq> None \<and> rings s (NETMAP_TXRING dev i) \<noteq> None"
    and i: "sin_init nm dev run e s = Some (Some p, e', s')"
  obtains sip m where "made s s' {Mapped m} (set_mset (inst_parts sip))" "\<forall>x. count (inst_parts sip) x \<le> 1"
    "sip_addr sip = p" "ready dev sip" "keep s s'"
proof -
  let ?f = "os_fresh s"
  from stops.init_outcome [OF stops.intro [OF assms(2)] assms(1,3) rg, where nm = nm and e = e] i
  have "instance_at ?f (os_live s) dev p s'" by simp
  then obtain sip m where st: "stances s' p = Some (sip\<lparr>sin_nref := 1\<rparr>)" "sip_addr sip = p"
    and h: "holdm ?f (os_live s) {Mapped m} (sip_parts sip + {#}) s'" and rd: "ready dev sip"
    by (auto simp: instance_at_def complete_ready)
  have h: "holdm ?f (os_live s) {Mapped m} (inst_parts sip) s'"
    using holdm_inst [of ?f "os_live s" "{Mapped m}" sip "{#}" s'] h st by simp
  then have hold: "hold ?f (os_live s) {Mapped m} (set_mset (inst_parts sip)) s'" and cnt: "\<forall>x. count (inst_parts sip) x \<le> 1"
    by (simp_all add: holdm_def)
  note H = holdD [OF hold]
  have "Stance p (sip\<lparr>sin_nref := 1\<rparr>) \<in># inst_parts sip" using st(2) by (simp add: inst_parts_def)
  from H(7) [OF this] have p: "?f \<le> p" by (simp add: fp_def)
  from init_built [OF assms(1,3) rg i] obtain x s6 where
    s6: "s' = s6\<lparr>stances := (stances s6)(p \<mapsto> x)\<rparr>" "later s s6" .
  have g: "grown {..<?f} s s6" using s6(2) by (simp add: later_def)
  then have k: "keep s s'" by (simp add: s6(1) grown_def keep_def)
  have same: "same_at {..<?f} s s'" using g p by (auto simp: grown_def same_at_def s6(1))
  have "made s s' {Mapped m} (set_mset (inst_parts sip))"
    unfolding made_def
  proof (intro conjI)
    show "\<forall>x \<in> set_mset (inst_parts sip). part_ok s' x \<and> part_need s' x \<subseteq> os_live s' \<and> fp s' x \<subseteq> {?f..<os_fresh s'}"
      using H(5-7) by blast
    show "\<forall>x \<in> set_mset (inst_parts sip). \<forall>y \<in> set_mset (inst_parts sip). x \<noteq> y \<longrightarrow> fp s' x \<inter> fp s' y = {}"
      using H(8) by blast
    show "\<forall>r \<in> os_live s' - os_live s. left_over s' r \<or> r \<in> {Mapped m} \<or> (\<exists>x \<in> set_mset (inst_parts sip). r \<in> part_need s' x)"
      using H(9) by blast
    show "\<forall>a < ?f. times s' a = times s a" using g by (simp add: grown_def s6(1))
  qed (use H(1-3) same k in \<open>simp_all add: keep_def\<close>)
  from that [OF this cnt st(2) rd k] show thesis .
qed

lemma instances_init:
  assumes I: "instances_at f L X ps s" and "ends run" and "0 < nr_rx_rings dev"
    and rg: "\<forall>i \<le> unat (nr_rx_rings dev). rings s (NETMAP_RXRING dev i) \<noteq> None \<and> rings s (NETMAP_TXRING dev i) \<noteq> None"
    and i: "sin_init nm dev run e s = Some (Some p, e', s')"
  shows "\<exists>m. instances_at f L (insert (Mapped m) X) (ps @ [p]) s' \<and> keep s s'"
proof -
  from init_made [OF instances_os_ok [OF I] assms(2-5)] obtain sip m where
    m: "made s s' {Mapped m} (set_mset (inst_parts sip))" "\<forall>x. count (inst_parts sip) x \<le> 1"
    and p: "sip_addr sip = p" "ready dev sip" "keep s s'" .
  from I obtain sips where s: "map sip_addr sips = ps" "\<forall>sip \<in> set sips. \<exists>dev. ready dev sip"
    "holdm f L X (sum_list (map inst_parts sips)) s" by (auto simp: instances_at_def)
  from holdm_made [OF s(3) m] have "holdm f L (insert (Mapped m) X) (sum_list (map inst_parts (sips @ [sip]))) s'"
    by simp
  with s(1,2) p show ?thesis unfolding instances_at_def
    by (intro exI [of _ m] conjI exI [of _ "sips @ [sip]"]) auto
qed

lemma instances_reg:
  assumes "instances_at f L X ps s" and "p \<in> set ps"
  shows "\<exists>r e' s'. sin_sorter_reg p taste consume ap e s = Some (r, e', s') \<and> instances_at f L X ps s' \<and>
    keep s s' \<and> (r = 0 \<or> \<not> all_well s)"
proof -
  from assms obtain sips sip where s: "map sip_addr sips = ps" "\<forall>sip \<in> set sips. \<exists>dev. ready dev sip"
    "holdm f L X (sum_list (map inst_parts sips)) s" and p: "sip \<in> set sips" "sip_addr sip = p"
    by (auto simp: instances_at_def)
  then obtain xs ys where xy: "sips = xs @ sip # ys" by (meson split_list)
  let ?M = "sum_list (map inst_parts (xs @ ys))"
  have e: "sum_list (map inst_parts sips) = inst_parts sip + ?M" by (simp add: xy ac_simps)
  with s(3) have h: "holdm f L X (sip_parts sip + ?M) s" "stances s p = Some (sip\<lparr>sin_nref := 1\<rparr>)"
    using p(2) by (simp_all only: holdm_inst simp_thms)
  from s(2) p(1) obtain dev where rd: "ready dev sip" by blast
  from sorter_reg_frame [OF h(1) rd h(2), of taste consume ap e] obtain r e' s' where
    1: "sin_sorter_reg p taste consume ap e s = Some (r, e', s')" "holdm f L X (sip_parts sip + ?M) s'" "keep s s'"
      "stances s' = stances s" "r = 0 \<or> \<not> all_well s" by blast
  then have "holdm f L X (sum_list (map inst_parts sips)) s'" using h(2) p(2) by (simp only: e holdm_inst simp_thms)
  with s(1,2) have "instances_at f L X ps s'" by (auto simp: instances_at_def)
  with 1 show ?thesis by blast
qed

lemma instances_destroy:
  assumes "instances_at f L X (p # ps) s" and "ends run"
  shows "\<exists>s'. sin_destroy run p s = Some s' \<and> instances_at f L X ps s'"
proof -
  from assms(1) obtain sip sips where s: "map sip_addr sips = ps" "\<forall>sip \<in> set sips. \<exists>dev. ready dev sip"
    "sip_addr sip = p" "\<exists>dev. ready dev sip" "holdm f L X (inst_parts sip + sum_list (map inst_parts sips)) s"
    by (auto simp: instances_at_def map_eq_Cons_conv)
  then obtain dev where rd: "ready dev sip" by blast
  from s(5) have h: "holdm f L X (sip_parts sip + sum_list (map inst_parts sips)) s"
    and st: "stances s p = Some (sip\<lparr>sin_nref := 1\<rparr>)" using s(3) by (simp_all only: holdm_inst simp_thms)
  from stops.destroy_frame [OF stops.intro [OF assms(2)] h rd st s(3)] obtain s' where
    "sin_destroy run p s = Some s'" "holdm f L X (sum_list (map inst_parts sips)) s'" by blast
  with s(1,2) show ?thesis by (auto simp: instances_at_def)
qed

lemma instance_instances:
  assumes "instance_at f L dev p s"
  shows "\<exists>m. instances_at f L {Mapped m} [p] s"
proof -
  from assms obtain sip m where st: "stances s p = Some (sip\<lparr>sin_nref := 1\<rparr>)" "sip_addr sip = p"
    and h: "holdm f L {Mapped m} (sip_parts sip + {#}) s" "ready dev sip"
    by (auto simp: instance_at_def complete_ready)
  then have "holdm f L {Mapped m} (inst_parts sip + {#}) s" by (simp only: holdm_inst simp_thms)
  with st(2) h(2) show ?thesis unfolding instances_at_def
    by (intro exI [of _ m] exI [of _ "[sip]"]) auto
qed

end
