(* ===== verification/Udpm_Daemon.thy ===== *)
theory Udpm_Daemon
  imports Sin_Os
begin

text \<open>
  Becoming a daemon (\<open>apps/udp_mirror/udpm_daemon.c\<close>): the process, as far as the function
  changes it, and the system calls it makes. \<open>fork\<close> returns twice; the model follows one
  of the two processes, which one is a parameter. The results of the calls come from the
  script of the ledger.
\<close>

subsection \<open>The process\<close>

datatype sigdisp = SIG_DFL | SIG_IGN | SIG_HANDLER addr

record proc = os +
  p_sighup :: sigdisp
  p_leader :: bool
  p_cwd :: string
  p_fds :: "string option list"
  p_errno :: int

text \<open>
  Each call returns -1 and sets \<open>errno\<close>, or does its work. \<open>sigaction\<close> on \<open>SIGHUP\<close> also
  returns the old action, \<open>open\<close> takes the lowest free descriptor.
\<close>

definition failing :: "proc \<Rightarrow> bool \<times> proc" where
  "failing p = (let (r, p) = os_result p in if r = 0 then (False, p) else (True, p\<lparr>p_errno := r\<rparr>))"

definition sigaction_hup :: "sigdisp \<Rightarrow> proc \<Rightarrow> int \<times> sigdisp \<times> proc" where
  "sigaction_hup a p = (let (f, p) = failing p in
     if f then (-1, SIG_DFL, p) else (0, p_sighup p, p\<lparr>p_sighup := a\<rparr>))"

definition sys_fork :: "bool \<Rightarrow> proc \<Rightarrow> int \<times> proc" where
  "sys_fork child p = (let (f, p) = failing p in
     if f then (-1, p) else if child then (0, p\<lparr>p_leader := False\<rparr>)
     else (int (os_fresh p) + 1, p\<lparr>os_fresh := Suc (os_fresh p)\<rparr>))"

definition sys_setsid :: "proc \<Rightarrow> int \<times> proc" where
  "sys_setsid p = (let (f, p) = failing p in if f then (-1, p) else (1, p\<lparr>p_leader := True\<rparr>))"

definition sys_chdir :: "string \<Rightarrow> proc \<Rightarrow> proc" where
  "sys_chdir d p = (let (f, p) = failing p in if f then p else p\<lparr>p_cwd := d\<rparr>)"

definition fd_at :: "string option list \<Rightarrow> nat \<Rightarrow> string option" where
  "fd_at fds n = (if n < length fds then fds ! n else None)"

definition put_fd :: "nat \<Rightarrow> string option \<Rightarrow> string option list \<Rightarrow> string option list" where
  "put_fd n f fds = (fds @ replicate (Suc n - length fds) None)[n := f]"

definition lowest_fd :: "string option list \<Rightarrow> nat" where
  "lowest_fd fds = length (takeWhile (\<lambda>f. f \<noteq> None) fds)"

definition open_file :: "string \<Rightarrow> proc \<Rightarrow> int \<times> proc" where
  "open_file name p = (let (f, p) = failing p in if f then (-1, p)
     else (int (lowest_fd (p_fds p)), p\<lparr>p_fds := put_fd (lowest_fd (p_fds p)) (Some name) (p_fds p)\<rparr>))"

definition sys_dup2 :: "int \<Rightarrow> nat \<Rightarrow> proc \<Rightarrow> proc" where
  "sys_dup2 fd n p = (let (f, p) = failing p in
     if f then p else p\<lparr>p_fds := put_fd n (fd_at (p_fds p) (nat fd)) (p_fds p)\<rparr>)"

definition close_fd :: "int \<Rightarrow> proc \<Rightarrow> proc" where
  "close_fd fd p = p\<lparr>p_fds := put_fd (nat fd) None (p_fds p)\<rparr>"

subsection \<open>The function\<close>

text \<open>
  The outcome is the end of the process by \<open>_exit\<close>, or the value returned. In the build with
  \<open>SIN_DEBUG\<close> only the standard input is redirected.
\<close>

datatype daemon_end = Exited int | Returned int

definition redirect :: "bool \<Rightarrow> proc \<Rightarrow> proc" where
  "redirect debug p = (let (fd, p) = open_file ''/dev/null'' p in
     if fd = -1 then p
     else (let p = sys_dup2 fd 0 p;
         p = (if debug then p else sys_dup2 fd 2 (sys_dup2 fd 1 p))
       in if fd > 2 then close_fd fd p else p))"

definition udpm_daemon :: "bool \<Rightarrow> bool \<Rightarrow> int \<Rightarrow> int \<Rightarrow> proc \<Rightarrow> daemon_end \<times> proc" where
  "udpm_daemon debug child nochdir noclose p = (let
     (osa_ok, osa, p) = sigaction_hup SIG_IGN p;
     (pid, p) = sys_fork child p
   in if pid = -1 then (Returned (-1), p)
      else if pid \<noteq> 0 then (Exited 0, p)
      else (let
          (newgrp, p) = sys_setsid p;
          oerrno = p_errno p;
          p = (if osa_ok \<noteq> -1 then snd (snd (sigaction_hup osa p)) else p)
        in if newgrp = -1 then (Returned (-1), p\<lparr>p_errno := oerrno\<rparr>)
           else (let
               p = (if nochdir = 0 then sys_chdir ''/'' p else p);
               p = (if noclose = 0 then redirect debug p else p)
             in (Returned 0, p))))"

subsection \<open>Descriptors\<close>

lemma fd_at_put_fd [simp]: "fd_at (put_fd n f fds) m = (if m = n then f else fd_at fds m)"
  by (auto simp: fd_at_def put_fd_def nth_append nth_list_update)

lemma fd_at_lowest [simp]: "fd_at fds (lowest_fd fds) = None"
  using nth_length_takeWhile [of "\<lambda>f. f \<noteq> None" fds] by (auto simp: fd_at_def lowest_fd_def)

text \<open>Whatever fails, descriptors from 3 on stay, and the others stay or lead to \<open>/dev/null\<close>.\<close>

lemma redirect_frame:
  "p_sighup (redirect debug p) = p_sighup p" "p_leader (redirect debug p) = p_leader p"
  "p_cwd (redirect debug p) = p_cwd p"
  by (auto simp: redirect_def open_file_def sys_dup2_def close_fd_def failing_def os_result_def Let_def)

lemma redirect_others: "3 \<le> n \<Longrightarrow> fd_at (p_fds (redirect debug p)) n = fd_at (p_fds p) n"
  using fd_at_lowest [of "p_fds p"]
  by (auto simp: redirect_def open_file_def sys_dup2_def close_fd_def failing_def os_result_def Let_def)

lemma redirect_std:
  "n < 3 \<Longrightarrow> fd_at (p_fds (redirect debug p)) n \<in> {fd_at (p_fds p) n, Some ''/dev/null''}"
  by (auto simp: redirect_def open_file_def sys_dup2_def close_fd_def failing_def os_result_def Let_def)

lemma redirect_well:
  assumes "\<forall>k. os_script p k = 0" and "n < 3"
  shows "fd_at (p_fds (redirect False p)) n = Some ''/dev/null''"
  using assms
  by (auto simp: redirect_def open_file_def sys_dup2_def close_fd_def failing_def os_result_def Let_def)

subsection \<open>Property\<close>

text \<open>The part of the function up to the redirection, call by call.\<close>

definition detached :: "(nat \<Rightarrow> int) \<Rightarrow> int \<Rightarrow> proc \<Rightarrow> proc \<Rightarrow> bool" where
  "detached res nochdir p p' \<longleftrightarrow> p_leader p' \<and> p_fds p' = p_fds p \<and> os_script p' = os_script p \<and>
     p_sighup p' = (if res 0 = 0 \<and> res 3 \<noteq> 0 then SIG_IGN else p_sighup p) \<and>
     p_cwd p' = (if nochdir = 0 \<and> res (if res 0 = 0 then 4 else 3) = 0 then ''/'' else p_cwd p)"

lemma udpm_daemon_cases:
  assumes res: "res = (\<lambda>i. os_script p (i + os_clock p))"
  obtains (nofork) p' where "udpm_daemon debug child nochdir noclose p = (Returned (-1), p')" "res 1 \<noteq> 0"
      "p_errno p' = res 1" "p_sighup p' = (if res 0 = 0 then SIG_IGN else p_sighup p)"
      "p_fds p' = p_fds p" "p_cwd p' = p_cwd p"
  | (parent) p' where "udpm_daemon debug child nochdir noclose p = (Exited 0, p')" "res 1 = 0" "\<not> child"
  | (nosid) p' where "udpm_daemon debug child nochdir noclose p = (Returned (-1), p')" "res 1 = 0" "child" "res 2 \<noteq> 0"
      "p_errno p' = res 2" "p_sighup p' = (if res 0 = 0 \<and> res 3 \<noteq> 0 then SIG_IGN else p_sighup p)"
      "p_fds p' = p_fds p" "p_cwd p' = p_cwd p"
  | (daemon) p' where "udpm_daemon debug child nochdir noclose p
        = (Returned 0, if noclose = 0 then redirect debug p' else p')" "res 1 = 0" "child" "res 2 = 0"
      "detached res nochdir p p'"
proof -
  have n: "Suc (Suc (Suc (os_clock p))) = 3 + os_clock p" "Suc (Suc (Suc (Suc (os_clock p)))) = 4 + os_clock p"
    by simp_all
  note d = udpm_daemon_def sigaction_hup_def sys_fork_def sys_setsid_def sys_chdir_def failing_def os_result_def
    detached_def res Let_def n
  consider "res 1 \<noteq> 0" | "res 1 = 0" "\<not> child" | "res 1 = 0" "child" "res 2 \<noteq> 0" | "res 1 = 0" "child" "res 2 = 0" by blast
  then show thesis
  proof cases
    case 1 then show thesis
      by (intro nofork [of "snd (udpm_daemon debug child nochdir noclose p)"]) (auto simp: d)
  next
    case 2 then show thesis
      by (intro parent [of "snd (udpm_daemon debug child nochdir noclose p)"]) (auto simp: d)
  next
    case 3 then show thesis
      by (intro nosid [of "snd (udpm_daemon debug child nochdir noclose p)"]) (auto simp: d)
  next
    case 4 then show thesis
      by (intro daemon [of "snd (udpm_daemon debug child nochdir 1 p)"]) (auto simp: d)
  qed
qed

text \<open>
  C28. \<open>udpm_daemon\<close>, whichever of its calls fail; \<open>res i\<close> is the result of call \<open>i\<close>. It returns -1
  exactly if \<open>fork\<close> fails or, in the child, \<open>setsid\<close>; then \<open>errno\<close> is that of the failing call,
  although \<open>sigaction\<close> may have been called since, and descriptors and working directory are
  as before. Otherwise the parent exits with 0 and the child returns 0 as the leader of its
  own session. Descriptors from 3 on never change, and the others only to \<open>/dev/null\<close>, which
  they do if no call fails. \<open>SIGHUP\<close> is left ignored by the process that goes on if \<open>fork\<close>
  fails, or if the call that should restore it does.
\<close>

theorem udpm_daemon_correct:
  assumes res: "res = (\<lambda>i. os_script p (i + os_clock p))"
    and d: "udpm_daemon debug child nochdir noclose p = (r, p')"
  shows "r = (if res 1 \<noteq> 0 then Returned (-1) else if \<not> child then Exited 0
      else if res 2 \<noteq> 0 then Returned (-1) else Returned 0) \<and>
    (r = Returned (-1) \<longrightarrow> p_errno p' = (if res 1 \<noteq> 0 then res 1 else res 2) \<and>
      p_fds p' = p_fds p \<and> p_cwd p' = p_cwd p) \<and>
    (r = Returned 0 \<longrightarrow> p_leader p' \<and>
      p_cwd p' = (if nochdir = 0 \<and> res (if res 0 = 0 then 4 else 3) = 0 then ''/'' else p_cwd p) \<and>
      (if noclose \<noteq> 0 then p_fds p' = p_fds p
       else (\<forall>n \<ge> 3. fd_at (p_fds p') n = fd_at (p_fds p) n) \<and>
         (\<forall>n < 3. fd_at (p_fds p') n \<in> {fd_at (p_fds p) n, Some ''/dev/null''}) \<and>
         ((\<forall>k. os_script p k = 0) \<and> \<not> debug \<longrightarrow> (\<forall>n < 3. fd_at (p_fds p') n = Some ''/dev/null'')))) \<and>
    (r \<noteq> Exited 0 \<longrightarrow> p_sighup p' =
      (if res 0 = 0 \<and> (res 1 \<noteq> 0 \<or> res 3 \<noteq> 0) then SIG_IGN else p_sighup p))"
proof (cases rule: udpm_daemon_cases [OF res, of debug child nochdir noclose,
    case_names nofork parent nosid daemon])
  case (daemon q)
  then have q: "r = Returned 0" "p' = (if noclose = 0 then redirect debug q else q)"
    and D: "detached res nochdir p q" using d by simp_all
  note e = D [unfolded detached_def]
  show ?thesis
  proof (cases "noclose = 0")
    case True
    have "\<forall>n \<ge> 3. fd_at (p_fds p') n = fd_at (p_fds p) n"
      using redirect_others [of _ debug q] q e True by simp
    moreover have "\<forall>n < 3. fd_at (p_fds p') n \<in> {fd_at (p_fds p) n, Some ''/dev/null''}"
      using redirect_std [of _ debug q] q e True by simp
    moreover have "(\<forall>k. os_script p k = 0) \<and> \<not> debug \<longrightarrow> (\<forall>n < 3. fd_at (p_fds p') n = Some ''/dev/null'')"
      using redirect_well [of q] q e True by simp
    ultimately show ?thesis using q e True daemon(2-4) by (simp add: redirect_frame)
  qed (use q e daemon(2-4) in simp)
qed (use d in auto)

theorem udpm_daemon_correct_witness:
  "\<exists>p p'. udpm_daemon False True 0 0 p = (Returned 0, p') \<and> p_leader p' \<and> p_sighup p' = SIG_DFL \<and>
     fd_at (p_fds p') 1 = Some ''/dev/null'' \<and> fd_at (p_fds p') 3 = Some ''log''"
proof -
  let ?p = "\<lparr>os_fresh = 100, os_live = {}, os_script = \<lambda>_. 0, os_clock = 0, p_sighup = SIG_DFL, p_leader = False,
    p_cwd = ''/tmp'', p_fds = [Some ''tty'', Some ''tty'', Some ''tty'', Some ''log''], p_errno = 0\<rparr>"
  obtain r p' where d: "udpm_daemon False True 0 0 ?p = (r, p')" by fastforce
  have n: "1 < (3 :: nat)" "3 \<ge> (3 :: nat)" by simp_all
  note c = udpm_daemon_correct [OF refl d]
  then have r: "r = Returned 0" by simp
  have "\<forall>n < 3. fd_at (p_fds p') n = Some ''/dev/null''" "\<forall>n \<ge> 3. fd_at (p_fds p') n = fd_at (p_fds ?p) n"
    "p_leader p'" "p_sighup p' = SIG_DFL"
    using c r by simp_all
  then have "fd_at (p_fds p') 1 = Some ''/dev/null''" "fd_at (p_fds p') 3 = fd_at (p_fds ?p) 3"
    "p_leader p'" "p_sighup p' = SIG_DFL" using n by blast+
  moreover have "fd_at (p_fds ?p) 3 = Some ''log''" by (simp add: fd_at_def)
  ultimately show ?thesis using d r by (intro exI [of _ ?p] exI [of _ p']) simp
qed

end
