(* ===== verification/Udpm_Main.thy ===== *)
theory Udpm_Main
  imports Sin_Many Udpm_Daemon
begin

text \<open>
  The program \<open>udp_mirror\<close> (\<open>apps/udp_mirror/udp_mirror.c\<close>): options, an instance with the
  mirror registered for every interface on the command line, a sleep, and the destruction of
  the instances. What netmap reports for an interface name stands for the name. From the
  outside come what \<open>getopt\<close> returns and what the threads do while the main thread sleeps.
  \<open>child\<close> says which of the two processes is followed that go on if \<open>udpm_daemon\<close> forks.
\<close>

datatype getopt_result = Opt_t int | Opt_d | Opt_question | Opt_other

text \<open>The option loop: the exit code, or the time to sleep and the daemon flag.\<close>

fun get_opts :: "getopt_result list \<Rightarrow> int \<Rightarrow> int \<Rightarrow> int + int \<times> int" where
  "get_opts [] tout daemon_mode = Inr (tout, daemon_mode)"
| "get_opts (Opt_t n # os) tout daemon_mode = (if n < 0 then Inl 1 else get_opts os n daemon_mode)"
| "get_opts (Opt_d # os) tout daemon_mode = get_opts os tout 1"
| "get_opts (Opt_question # os) tout daemon_mode = Inl 0"
| "get_opts (Opt_other # os) tout daemon_mode = Inl 1"

text \<open>The loop that starts the instances; \<open>errx\<close> exits with 1 and undoes nothing.\<close>

primrec open_ifs :: "netmap_api \<Rightarrow> runner \<Rightarrow> (addr \<rightharpoonup> udpm_params) \<Rightarrow> addr \<Rightarrow> netmap_dev list \<Rightarrow> istore \<Rightarrow>
    ((int + addr list) \<times> istore) option" where
  "open_ifs nm run prm args [] s = Some (Inr [], s)"
| "open_ifs nm run prm args (dev # devs) s = do {
     (sin, e, s) \<leftarrow> sin_init nm dev run None s;
     (case sin of
        None \<Rightarrow> Some (Inl 1, s)
      | Some p \<Rightarrow> do {
          (r, e, s) \<leftarrow> sin_sorter_reg p (udpm_taste prm) udpm_proc (Some args) e s;
          if r \<noteq> 0 then Some (Inl 1, s)
          else do {
            (r, s) \<leftarrow> open_ifs nm run prm args devs s;
            Some (case r of Inl c \<Rightarrow> Inl c | Inr ps \<Rightarrow> Inr (p # ps), s)
          }
        })
   }"

primrec close_ifs :: "runner \<Rightarrow> addr list \<Rightarrow> istore \<Rightarrow> istore option" where
  "close_ifs run [] s = Some s"
| "close_ifs run (p # ps) s = do { s \<leftarrow> sin_destroy run p s; close_ifs run ps s }"

text \<open>
  The main program from the allocation of the array of instances on. The array is not checked
  for \<open>NULL\<close> and never freed. Without a timeout the program waits in \<open>sigsuspend\<close> for a signal;
  it has set no handler, so the first one that comes ends the process there.
\<close>

datatype ending = Exit int | Suspended

definition mirror_run :: "netmap_api \<Rightarrow> runner \<Rightarrow> (istore \<Rightarrow> istore option) \<Rightarrow> int \<Rightarrow> (addr \<rightharpoonup> udpm_params) \<Rightarrow> addr \<Rightarrow>
    netmap_dev list \<Rightarrow> istore \<Rightarrow> (ending \<times> istore) option" where
  "mirror_run nm run work tout prm args devs s = do {
     let (sinp, s) = malloc s;
     sinp \<leftarrow> sinp;
     let prm = prm(args \<mapsto> \<lparr>port_min = 1000, port_max = 65535\<rparr>);
     (r, s) \<leftarrow> open_ifs nm run prm args devs s;
     (case r of
        Inl c \<Rightarrow> Some (Exit c, s)
      | Inr ps \<Rightarrow>
          if tout \<ge> 0 then do { s \<leftarrow> work s; s \<leftarrow> close_ifs run ps s; Some (Exit 0, s) }
          else do { s \<leftarrow> work s; Some (Suspended, s) })
   }"

text \<open>The value \<open>udpm_daemon\<close> returns is ignored.\<close>

definition udp_mirror_main :: "netmap_api \<Rightarrow> runner \<Rightarrow> (istore \<Rightarrow> istore option) \<Rightarrow> bool \<Rightarrow> proc \<Rightarrow>
    (addr \<rightharpoonup> udpm_params) \<Rightarrow> addr \<Rightarrow> getopt_result list \<Rightarrow> netmap_dev list \<Rightarrow> istore \<Rightarrow> (ending \<times> istore) option" where
  "udp_mirror_main nm run work child pr prm args opts devs s = (case get_opts opts (-1) 0 of
     Inl c \<Rightarrow> Some (Exit c, s)
   | Inr (tout, daemon_mode) \<Rightarrow>
       if devs = [] then Some (Exit 1, s)
       else (case (if daemon_mode \<noteq> 0 then fst (udpm_daemon False child 0 0 pr) else Returned 0) of
           Exited c \<Rightarrow> Some (Exit c, s)
         | Returned _ \<Rightarrow> mirror_run nm run work tout prm args devs s))"

text \<open>The program \<open>test.c\<close>: one instance, a sleep, and its destruction.\<close>

definition test_main :: "netmap_api \<Rightarrow> runner \<Rightarrow> (istore \<Rightarrow> istore option) \<Rightarrow> netmap_dev \<Rightarrow> istore \<Rightarrow>
    (int \<times> istore) option" where
  "test_main nm run work dev s = do {
     (sinp, e, s) \<leftarrow> sin_init nm dev run None s;
     (case sinp of
        None \<Rightarrow> Some (1, s)
      | Some p \<Rightarrow> do { s \<leftarrow> work s; s \<leftarrow> sin_destroy run p s; Some (0, s) })
   }"

text \<open>What is assumed of the time the threads work: the instances stay in good order.\<close>

definition works_well :: "(istore \<Rightarrow> istore option) \<Rightarrow> bool" where
  "works_well work \<longleftrightarrow> (\<forall>f L X ps s. instances_at f L X ps s \<longrightarrow>
     (\<exists>s'. work s = Some s' \<and> instances_at f L X ps s'))"

text \<open>A device that \<open>sin_init\<close> can open.\<close>

definition usable :: "istore \<Rightarrow> netmap_dev \<Rightarrow> bool" where
  "usable s dev \<longleftrightarrow> 0 < nr_rx_rings dev \<and> (\<forall>i \<le> unat (nr_rx_rings dev).
     rings s (NETMAP_RXRING dev i) \<noteq> None \<and> rings s (NETMAP_TXRING dev i) \<noteq> None)"

lemma usable_keep: "keep s s' \<Longrightarrow> usable s' dev = usable s dev"
  by (simp add: usable_def keep_def)

lemma malloc_boot:
  assumes "os_ok s" and "malloc s = (p, s')"
  shows "os_ok s'" "keep s (s' :: istore)" "all_well s \<Longrightarrow> p \<noteq> NULL"
    "os_live s' = os_live s \<union> Block ` set_option p"
  using assms
  by (auto simp: malloc_def os_result_def os_ok_def all_well_def keep_def less_Suc_eq split: if_splits)

subsection \<open>The loops over the interfaces\<close>

text \<open>One round of the first loop.\<close>

lemma open_if:
  assumes "instances_at f L (Mapped ` set ms) ps s" and "ends run" and "usable s dev"
  shows "case sin_init nm dev run None s of
     None \<Rightarrow> \<not> all_well s
   | Some (None, e, s1) \<Rightarrow> \<not> all_well s
   | Some (Some p, e, s1) \<Rightarrow> \<exists>m r e' s2. sin_sorter_reg p taste consume ap e s1 = Some (r, e', s2) \<and>
       instances_at f L (Mapped ` set (ms @ [m])) (ps @ [p]) s2 \<and> keep s s2 \<and> (r = 0 \<or> \<not> all_well s)"
proof -
  note os = instances_os_ok [OF assms(1)]
  have u: "0 < nr_rx_rings dev" "\<forall>i \<le> unat (nr_rx_rings dev). rings s (NETMAP_RXRING dev i) \<noteq> None \<and>
      rings s (NETMAP_TXRING dev i) \<noteq> None" using assms(3) by (simp_all add: usable_def)
  note I = stops.init_outcome [OF stops.intro [OF assms(2)] os u, where nm = nm and e = None]
  show ?thesis
  proof (cases "sin_init nm dev run None s")
    case (Some x)
    obtain p e s1 where x: "x = (p, e, s1)" by (cases x)
    show ?thesis
    proof (cases p)
      case None
      with I Some x show ?thesis by simp
    next
      case p: (Some a)
      with Some x have i: "sin_init nm dev run None s = Some (Some a, e, s1)" by simp
      from instances_init [OF assms(1,2) u i] obtain m where
        1: "instances_at f L (insert (Mapped m) (Mapped ` set ms)) (ps @ [a]) s1" "keep s s1" by blast
      have "a \<in> set (ps @ [a])" by simp
      from instances_reg [OF 1(1) this, of taste consume ap e] obtain r e' s2 where
        "sin_sorter_reg a taste consume ap e s1 = Some (r, e', s2)" "keep s1 s2" "r = 0 \<or> \<not> all_well s1"
        "instances_at f L (insert (Mapped m) (Mapped ` set ms)) (ps @ [a]) s2" by blast
      with 1(2) keep_trans [OF 1(2)] all_well_keep [OF 1(2)] i show ?thesis
        by (auto intro!: exI [of _ m])
    qed
  qed (use I in simp)
qed

lemma open_ifs_works:
  assumes "instances_at f L (Mapped ` set ms) ps s" and "ends run" and "\<forall>dev \<in> set devs. usable s dev"
  shows "case open_ifs nm run prm args devs s of
     None \<Rightarrow> \<not> all_well s
   | Some (Inl c, s') \<Rightarrow> \<not> all_well s \<and> c = 1
   | Some (Inr qs, s') \<Rightarrow> \<exists>ms'. length qs = length devs \<and> length ms' = length devs \<and>
       instances_at f L (Mapped ` set (ms @ ms')) (ps @ qs) s'"
  using assms(1,3)
proof (induction devs arbitrary: ms ps s)
  case (Cons dev devs)
  have "usable s dev" using Cons.prems(2) by simp
  note O = open_if [OF Cons.prems(1) assms(2) this, where nm = nm and taste = "udpm_taste prm" and consume = udpm_proc and ap = "Some args"]
  show ?case
  proof (cases "sin_init nm dev run None s")
    case (Some x)
    obtain q e s1 where x: "x = (q, e, s1)" by (cases x)
    show ?thesis
    proof (cases q)
      case None
      with O Some x show ?thesis by simp
    next
      case q: (Some p)
      with O Some x obtain m r e' s2 where
        2: "sin_sorter_reg p (udpm_taste prm) udpm_proc (Some args) e s1 = Some (r, e', s2)"
          "instances_at f L (Mapped ` set (ms @ [m])) (ps @ [p]) s2" "keep s s2" "r = 0 \<or> \<not> all_well s" by auto
      show ?thesis
      proof (cases "r = 0")
        case False
        with 2 Some x q show ?thesis by simp
      next
        case True
        let ?r = "open_ifs nm run prm args devs s2"
        have "\<forall>dev \<in> set devs. usable s2 dev" using Cons.prems(2) usable_keep [OF 2(3)] by simp
        note IH = Cons.IH [OF 2(2) this]
        have u: "open_ifs nm run prm args (dev # devs) s = do { (r, s) \<leftarrow> ?r;
            Some (case r of Inl c \<Rightarrow> Inl c | Inr ps \<Rightarrow> Inr (p # ps), s) }"
          using Some x q 2(1) True by simp
        show ?thesis
        proof (cases ?r)
          case (Some y)
          obtain z s' where y: "y = (z, s')" by (cases y)
          show ?thesis
          proof (cases z)
            case (Inl c)
            with IH Some y u all_well_keep [OF 2(3)] show ?thesis by (simp del: open_ifs.simps)
          next
            case (Inr qs)
            with IH Some y obtain ms' where "length qs = length devs" "length ms' = length devs"
              "instances_at f L (Mapped ` set ((ms @ [m]) @ ms')) ((ps @ [p]) @ qs) s'" by auto
            with Inr Some y u show ?thesis by (auto simp del: open_ifs.simps intro!: exI [of _ "m # ms'"])
          qed
        qed (use IH u all_well_keep [OF 2(3)] in \<open>simp del: open_ifs.simps\<close>)
      qed
    qed
  qed (use O in simp)
qed (auto intro: exI [of _ "[]"])

lemma close_ifs_works:
  "instances_at f L X ps s \<Longrightarrow> ends run \<Longrightarrow> \<exists>s'. close_ifs run ps s = Some s' \<and> instances_at f L X [] s'"
proof (induction ps arbitrary: s)
  case (Cons p ps)
  from instances_destroy [OF Cons.prems] obtain s1 where 1: "sin_destroy run p s = Some s1" "instances_at f L X ps s1" by blast
  from Cons.IH [OF 1(2) Cons.prems(2)] 1(1) show ?case by simp
qed simp

text \<open>The program \<open>test.c\<close> gives everything back likewise.\<close>

lemma test_main_works:
  assumes "os_ok s" and "ends run" and "works_well work" and "usable s dev" and well: "all_well s"
  shows "\<exists>s' m. test_main nm run work dev s = Some (0, s') \<and>
    (\<forall>r \<in> os_live s' - os_live s. left_over s' r \<or> r = Mapped m)"
proof -
  have u: "0 < nr_rx_rings dev" "\<forall>i \<le> unat (nr_rx_rings dev). rings s (NETMAP_RXRING dev i) \<noteq> None \<and>
      rings s (NETMAP_TXRING dev i) \<noteq> None" using assms(4) by (simp_all add: usable_def)
  from stops.init_outcome [OF stops.intro [OF assms(2)] assms(1) u, where nm = nm and e = None] well
  obtain p e' s1 where 1: "sin_init nm dev run None s = Some (Some p, e', s1)"
    "instance_at (os_fresh s) (os_live s) dev p s1" by (auto split: option.splits prod.splits)
  from instance_instances [OF 1(2)] obtain m where i: "instances_at (os_fresh s) (os_live s) {Mapped m} [p] s1" by blast
  with assms(3) obtain s2 where 2: "work s1 = Some s2" "instances_at (os_fresh s) (os_live s) {Mapped m} [p] s2"
    unfolding works_well_def by blast
  from instances_destroy [OF 2(2) assms(2)] obtain s3 where
    "sin_destroy run p s2 = Some s3" "instances_at (os_fresh s) (os_live s) {Mapped m} [] s3" by blast
  with instances_gone(2) [OF this(2)] 1(1) 2(1) show ?thesis by (auto simp: test_main_def)
qed

subsection \<open>The program\<close>

text \<open>The part of the program from the allocation of the array on.\<close>

lemma mirror_run_works:
  assumes "os_ok s" and "ends run" and "works_well work" and "\<forall>dev \<in> set devs. usable s dev"
  shows "case mirror_run nm run work tout prm args devs s of
     None \<Rightarrow> \<not> all_well s
   | Some (Suspended, s') \<Rightarrow> tout < 0 \<and> (\<exists>f L X ps. length ps = length devs \<and> instances_at f L X ps s' \<and> os_live s \<subseteq> L)
   | Some (Exit c, s') \<Rightarrow> if c = 0
       then 0 \<le> tout \<and> os_live s \<subseteq> os_live s' \<and> (\<exists>ms sinp. length ms = length devs \<and>
         (\<forall>r \<in> os_live s' - os_live s. left_over s' r \<or> r \<in> Mapped ` set ms \<or> r = Block sinp))
       else c = 1 \<and> \<not> all_well s"
proof -
  let ?prm = "prm(args \<mapsto> \<lparr>port_min = 1000, port_max = 65535\<rparr>)"
  obtain b s0 where m: "malloc s = (b, s0)" by (cases "malloc s")
  note M = malloc_boot [OF assms(1) m]
  show ?thesis
  proof (cases b)
    case None
    with m M(3) show ?thesis by (auto simp: mirror_run_def)
  next
    case b: (Some sinp)
    let ?L = "os_live s0" and ?o = "open_ifs nm run ?prm args devs s0"
    have i0: "instances_at (os_fresh s0) ?L (Mapped ` set []) [] s0" using no_instances [OF M(1)] by simp
    have u0: "\<forall>dev \<in> set devs. usable s0 dev" using assms(4) usable_keep [OF M(2)] by simp
    note O = open_ifs_works [OF i0 assms(2) u0, where nm = nm and prm = ?prm and args = args]
    have w: "all_well s0 = all_well s" by (rule all_well_keep [OF M(2)])
    show ?thesis
    proof (cases ?o)
      case None
      with O m b w show ?thesis by (simp add: mirror_run_def)
    next
      case (Some x)
      obtain r s1 where x: "x = (r, s1)" by (cases x)
      show ?thesis
      proof (cases r)
        case (Inl c)
        with O Some x m b w show ?thesis by (simp add: mirror_run_def)
      next
        case (Inr ps)
        with O Some x obtain ms where p: "length ps = length devs" "length ms = length devs"
          "instances_at (os_fresh s0) ?L (Mapped ` set ms) ps s1" by auto
        from assms(3) p(3) obtain s2 where 2: "work s1 = Some s2" "instances_at (os_fresh s0) ?L (Mapped ` set ms) ps s2"
          unfolding works_well_def by blast
        have run: "mirror_run nm run work tout prm args devs s =
            (if tout \<ge> 0 then do { s \<leftarrow> close_ifs run ps s2; Some (Exit 0, s) } else Some (Suspended, s2))"
          using Some x Inr 2(1) m b by (simp add: mirror_run_def)
        show ?thesis
        proof (cases "tout \<ge> 0")
          case False
          moreover have "os_live s \<subseteq> ?L" using M(4) by auto
          ultimately show ?thesis using run 2(2) p(1) by auto
        next
          case True
          from close_ifs_works [OF 2(2) assms(2)] obtain s3 where
            3: "close_ifs run ps s2 = Some s3" "instances_at (os_fresh s0) ?L (Mapped ` set ms) [] s3" by blast
          note G = instances_gone [OF 3(2)]
          have "mirror_run nm run work tout prm args devs s = Some (Exit 0, s3)" using run True 3(1) by simp
          moreover have "os_live s \<subseteq> os_live s3" using G(1) M(4) by auto
          moreover have "\<forall>r \<in> os_live s3 - os_live s. left_over s3 r \<or> r \<in> Mapped ` set ms \<or> r = Block sinp"
            using G(2) M(4) b by auto
          ultimately show ?thesis using True p(2) by auto
        qed
      qed
    qed
  qed
qed


definition ex_proc :: proc where
  "ex_proc = \<lparr>os_fresh = 100, os_live = {}, os_script = \<lambda>_. 0, os_clock = 0, p_sighup = SIG_DFL, p_leader = False,
    p_cwd = ''/tmp'', p_fds = [Some ''tty'', Some ''tty'', Some ''tty''], p_errno = 0\<rparr>"


end
